(* ===== verification/Hyper_Prelude.thy ===== *)
theory Hyper_Prelude
  imports Main "HOL-Library.AList" "HOL-Library.Sublist"
begin

text \<open>
  Shared vocabulary of the development: Python exceptions as values, ranges, insertion-ordered
  dictionaries as association lists, and the list lemmas the component theories share.

  Python integers are unbounded, so they are \<open>int\<close>. A Python dict keeps its insertion order and
  the schedule passes iterate over it, so a dict is an association list: \<open>map_of\<close> looks a key up
  and \<open>AList.update\<close> stores a value, in place for a present key and at the end for a new one, as
  \<open>d[k] = v\<close> does.
\<close>

section \<open>Collections of facts\<close>

named_theorems result_simps \<open>unfolding of the exception monad\<close>
named_theorems dict_simps \<open>lookup and update of insertion-ordered dictionaries\<close>

section \<open>Exceptions as values\<close>

datatype py_error =
    ValueError
  | KeyError
  | IndexError
  | TypeError
  | RuntimeError
  | NotImplementedError
  | ZeroDivisionError
  | AttributeError
  | OverflowError
  | AssertionError

type_synonym 'a result = "py_error + 'a"

definition bind_res :: "'a result \<Rightarrow> ('a \<Rightarrow> 'b result) \<Rightarrow> 'b result" where
  "bind_res m f = (case m of Inl e \<Rightarrow> Inl e | Inr x \<Rightarrow> f x)"

lemma bind_res_simps [simp, result_simps]:
  "bind_res (Inl e) f = Inl e"
  "bind_res (Inr x) f = f x"
  by (simp_all add: bind_res_def)

lemma bind_res_Inr_iff [result_simps]:
  "bind_res m f = Inr y \<longleftrightarrow> (\<exists>x. m = Inr x \<and> f x = Inr y)"
  by (cases m) simp_all

lemma bind_res_assoc: "bind_res (bind_res m f) g = bind_res m (\<lambda>x. bind_res (f x) g)"
  by (cases m) simp_all

text \<open>A \<open>for\<close> loop whose body may raise: the first exception leaves the loop.\<close>

fun for_res :: "('a \<Rightarrow> 's \<Rightarrow> 's result) \<Rightarrow> 'a list \<Rightarrow> 's \<Rightarrow> 's result" where
  "for_res body [] s = Inr s"
| "for_res body (x # xs) s = bind_res (body x s) (for_res body xs)"

lemma bind_res_cong [fundef_cong]:
  "m = m' \<Longrightarrow> (\<And>x. m' = Inr x \<Longrightarrow> f x = g x) \<Longrightarrow> bind_res m f = bind_res m' g"
  by (cases m') simp_all

lemma for_res_cong [fundef_cong]:
  "xs = ys \<Longrightarrow> s = t \<Longrightarrow> (\<And>x u. x \<in> set ys \<Longrightarrow> f x u = g x u) \<Longrightarrow> for_res f xs s = for_res g ys t"
proof (induction ys arbitrary: xs s t)
  case (Cons y ys)
  have "for_res f ys u = for_res g ys u" for u using Cons.IH [of ys u u] Cons.prems(3) by simp
  then have "for_res f ys = for_res g ys" by blast
  with Cons.prems show ?case by simp
qed simp

lemma for_res_append:
  "for_res body (xs @ ys) s = bind_res (for_res body xs s) (for_res body ys)"
  by (induction xs arbitrary: s) (simp_all add: bind_res_def split: sum.splits)

lemma for_res_invariant:
  assumes "for_res body xs s = Inr t" and "P s"
    and "\<And>x u v. x \<in> set xs \<Longrightarrow> P u \<Longrightarrow> body x u = Inr v \<Longrightarrow> P v"
  shows "P t"
  using assms by (induction xs arbitrary: s) (auto simp: bind_res_Inr_iff)

text \<open>A loop over the positions of a list, by an invariant indexed by the number of passes.\<close>

lemma for_res_positions:
  assumes "I 0 s" and "\<And>j u. j < length xs \<Longrightarrow> I j u \<Longrightarrow> \<exists>v. body (xs ! j) u = Inr v \<and> I (Suc j) v"
  shows "\<exists>t. for_res body xs s = Inr t \<and> I (length xs) t"
proof -
  have "\<exists>t. for_res body (take j xs) s = Inr t \<and> I j t" if "j \<le> length xs" for j
    using that
  proof (induction j)
    case (Suc j)
    then obtain t where t: "for_res body (take j xs) s = Inr t" "I j t" by auto
    from assms(2) [OF _ t(2)] Suc.prems obtain v where "body (xs ! j) t = Inr v" "I (Suc j) v" by auto
    with t(1) Suc.prems show ?case by (simp add: take_Suc_conv_app_nth for_res_append)
  qed (use assms(1) in simp)
  from this [of "length xs"] show ?thesis by simp
qed

text \<open>A comprehension whose element expression may raise.\<close>

fun map_res :: "('a \<Rightarrow> 'b result) \<Rightarrow> 'a list \<Rightarrow> 'b list result" where
  "map_res f [] = Inr []"
| "map_res f (x # xs) = bind_res (f x) (\<lambda>y. bind_res (map_res f xs) (\<lambda>ys. Inr (y # ys)))"

lemma map_res_cong [fundef_cong]:
  "xs = ys \<Longrightarrow> (\<And>x. x \<in> set ys \<Longrightarrow> f x = g x) \<Longrightarrow> map_res f xs = map_res g ys"
proof (induction ys arbitrary: xs)
  case (Cons y ys)
  have "map_res f ys = map_res g ys" using Cons.IH [of ys] Cons.prems(2) by simp
  with Cons.prems show ?case by simp
qed simp

lemma map_res_total: "(\<And>x. x \<in> set xs \<Longrightarrow> f x = Inr (g x)) \<Longrightarrow> map_res f xs = Inr (map g xs)"
  by (induction xs) simp_all

lemma map_res_Inr_length: "map_res f xs = Inr ys \<Longrightarrow> length ys = length xs"
  by (induction xs arbitrary: ys) (auto simp: bind_res_Inr_iff)

lemma map_res_Inr_nth:
  "map_res f xs = Inr ys \<Longrightarrow> i < length xs \<Longrightarrow> f (xs ! i) = Inr (ys ! i)"
  by (induction xs arbitrary: ys i) (auto simp: bind_res_Inr_iff nth_Cons split: nat.splits)

section \<open>Ranges\<close>

text \<open>\<open>range(a, b)\<close> as a list of integers.\<close>

definition py_range :: "int \<Rightarrow> int \<Rightarrow> int list" where
  "py_range a b = [a..b - 1]"

lemma set_py_range [simp]: "set (py_range a b) = {a..<b}"
  by (auto simp: py_range_def)

lemma length_py_range [simp]: "length (py_range a b) = nat (b - a)"
  by (simp add: py_range_def)

lemma distinct_py_range [simp]: "distinct (py_range a b)"
  by (simp add: py_range_def)

lemma sorted_py_range [simp]: "sorted (py_range a b)"
  by (simp add: py_range_def sorted_upto)

lemma nth_py_range [simp]: "i < nat (b - a) \<Longrightarrow> py_range a b ! i = a + int i"
  by (simp add: py_range_def)

lemma py_range_empty [simp]: "b \<le> a \<Longrightarrow> py_range a b = []"
  by (simp add: py_range_def)

lemma py_range_Cons: "a < b \<Longrightarrow> py_range a b = a # py_range (a + 1) b"
  by (simp add: py_range_def upto_rec1)

lemma ball_py_range:
  "(\<forall>x \<in> set (py_range a b). P x) \<longleftrightarrow> (if a < b then P a \<and> (\<forall>x \<in> set (py_range (a + 1) b). P x) else True)"
  by (simp add: py_range_Cons del: set_py_range)

lemma py_range_snoc: "a \<le> b \<Longrightarrow> py_range a (b + 1) = py_range a b @ [b]"
  by (simp add: py_range_def upto_rec2)

lemma py_range_append: "a \<le> b \<Longrightarrow> b \<le> c \<Longrightarrow> py_range a b @ py_range b c = py_range a c"
proof (induction "nat (c - b)" arbitrary: c)
  case 0
  then show ?case by simp
next
  case (Suc n)
  then have "b \<le> c - 1" and "n = nat (c - 1 - b)" by auto
  with Suc have "py_range a b @ py_range b (c - 1) = py_range a (c - 1)" by auto
  moreover have "py_range b c = py_range b (c - 1) @ [c - 1]"
    using \<open>b \<le> c - 1\<close> py_range_snoc [of b "c - 1"] by simp
  moreover have "py_range a c = py_range a (c - 1) @ [c - 1]"
    using \<open>b \<le> c - 1\<close> Suc.prems py_range_snoc [of a "c - 1"] by simp
  ultimately show ?case by simp
qed

lemma count_list_py_range:
  "count_list (py_range a b) x = (if a \<le> x \<and> x < b then 1 else 0)"
proof -
  have "count_list xs x = (if x \<in> set xs then 1 else 0)" if "distinct xs" for xs :: "int list"
    using that by (induction xs) auto
  then show ?thesis by simp
qed

section \<open>Insertion-ordered dictionaries\<close>

type_synonym ('k, 'v) dict = "('k \<times> 'v) list"

text \<open>\<open>d[k]\<close> raises KeyError for a missing key.\<close>

definition dict_get :: "('k, 'v) dict \<Rightarrow> 'k \<Rightarrow> 'v result" where
  "dict_get d k = (case map_of d k of None \<Rightarrow> Inl KeyError | Some v \<Rightarrow> Inr v)"

definition dict_set :: "('k, 'v) dict \<Rightarrow> 'k \<Rightarrow> 'v \<Rightarrow> ('k, 'v) dict" where
  "dict_set d k v = AList.update k v d"

text \<open>\<open>del d[k]\<close> of a present key.\<close>

definition dict_del :: "('k, 'v) dict \<Rightarrow> 'k \<Rightarrow> ('k, 'v) dict" where
  "dict_del d k = AList.delete k d"

text \<open>\<open>d[k].append(x)\<close> on a dict of lists.\<close>

definition dict_append :: "('k, 'v list) dict \<Rightarrow> 'k \<Rightarrow> 'v \<Rightarrow> ('k, 'v list) dict result" where
  "dict_append d k x = bind_res (dict_get d k) (\<lambda>xs. Inr (dict_set d k (xs @ [x])))"

text \<open>\<open>d[k].append(x)\<close> on a \<open>defaultdict(list)\<close>.\<close>

definition ddict_append :: "('k, 'v list) dict \<Rightarrow> 'k \<Rightarrow> 'v \<Rightarrow> ('k, 'v list) dict" where
  "ddict_append d k x =
     dict_set d k ((case map_of d k of None \<Rightarrow> [] | Some xs \<Rightarrow> xs) @ [x])"

text \<open>A list read out of a \<open>defaultdict(list)\<close>.\<close>

definition dict_list :: "('k, 'v list) dict \<Rightarrow> 'k \<Rightarrow> 'v list" where
  "dict_list d k = (case map_of d k of None \<Rightarrow> [] | Some xs \<Rightarrow> xs)"

lemma map_of_dict_set [simp, dict_simps]: "map_of (dict_set d k v) = (map_of d)(k \<mapsto> v)"
  by (simp add: dict_set_def update_conv')

lemma keys_dict_set:
  "map fst (dict_set d k v) = (if k \<in> set (map fst d) then map fst d else map fst d @ [k])"
  by (simp add: dict_set_def update_keys)

lemma dict_set_fresh: "k \<notin> set (map fst d) \<Longrightarrow> dict_set d k v = d @ [(k, v)]"
  by (induction d) (auto simp: dict_set_def)

lemma distinct_dict_set [simp]: "distinct (map fst d) \<Longrightarrow> distinct (map fst (dict_set d k v))"
  by (simp add: dict_set_def distinct_update)

lemma map_of_dict_del [simp, dict_simps]: "map_of (dict_del d k) = (map_of d)(k := None)"
  by (simp add: dict_del_def delete_conv')

lemma dict_get_simps [dict_simps]:
  "map_of d k = Some v \<Longrightarrow> dict_get d k = Inr v"
  "map_of d k = None \<Longrightarrow> dict_get d k = Inl KeyError"
  by (simp_all add: dict_get_def)

lemma dict_get_Inr_iff [dict_simps]: "dict_get d k = Inr v \<longleftrightarrow> map_of d k = Some v"
  by (simp add: dict_get_def split: option.splits)

lemma dict_append_Inr_iff [dict_simps]:
  "dict_append d k x = Inr d' \<longleftrightarrow>
     (\<exists>xs. map_of d k = Some xs \<and> d' = dict_set d k (xs @ [x]))"
  by (auto simp: dict_append_def bind_res_Inr_iff dict_get_Inr_iff)

lemma dict_list_ddict_append [simp, dict_simps]:
  "dict_list (ddict_append d k x) k' = dict_list d k' @ (if k' = k then [x] else [])"
  by (simp add: dict_list_def ddict_append_def split: option.splits)

lemma dict_list_dict_set [simp, dict_simps]:
  "dict_list (dict_set d k v) k' = (if k' = k then v else dict_list d k')"
  by (simp add: dict_list_def)

text \<open>A dict comprehension over the values of a dict.\<close>

definition dict_map :: "('v \<Rightarrow> 'w) \<Rightarrow> ('k, 'v) dict \<Rightarrow> ('k, 'w) dict" where
  "dict_map f d = map (\<lambda>(k, v). (k, f v)) d"

lemma map_of_dict_map [simp, dict_simps]:
  "map_of (dict_map f d) k = map_option f (map_of d k)"
  by (induction d) (auto simp: dict_map_def)

lemma keys_dict_map [simp]: "map fst (dict_map f d) = map fst d"
  by (induction d) (auto simp: dict_map_def)

section \<open>Lists\<close>

text \<open>\<open>[x for x in xs if x is not None]\<close>\<close>

definition somes :: "'a option list \<Rightarrow> 'a list" where
  "somes xs = List.map_filter id xs"

lemma somes_simps [simp]:
  "somes [] = []"
  "somes (None # xs) = somes xs"
  "somes (Some x # xs) = x # somes xs"
  by (simp_all add: somes_def map_filter_simps)

lemma somes_append [simp]: "somes (xs @ ys) = somes xs @ somes ys"
  by (induction xs rule: list.induct) (auto simp: somes_def List.map_filter_def)

lemma somes_map_Some [simp]: "somes (map Some xs) = xs"
  by (induction xs) simp_all

lemma somes_replicate_None [simp]: "somes (replicate n None) = []"
  by (induction n) simp_all

lemma set_somes [simp]: "x \<in> set (somes xs) \<longleftrightarrow> Some x \<in> set xs"
  by (induction xs) (auto simp: somes_def List.map_filter_def)

lemma concat_map_singleton_filter:
  "concat (map (\<lambda>x. if P x then [f x] else []) xs) = map f (filter P xs)"
  by (induction xs) simp_all

lemma filter_py_range_eq:
  "filter (\<lambda>x. x = k) (py_range a b) = (if a \<le> k \<and> k < b then [k] else [])"
proof -
  have "filter (\<lambda>x. x = k) xs = (if k \<in> set xs then [k] else [])" if "distinct xs" for xs :: "int list"
    using that by (induction xs) auto
  then show ?thesis by simp
qed

text \<open>\<open>xs[i]\<close>: a negative index counts from the end, one out of range is an IndexError.\<close>

definition py_nth :: "'a list \<Rightarrow> int \<Rightarrow> 'a result" where
  "py_nth xs i =
     (if 0 \<le> i \<and> i < int (length xs) then Inr (xs ! nat i)
      else if i < 0 \<and> - int (length xs) \<le> i then Inr (xs ! nat (int (length xs) + i))
      else Inl IndexError)"

lemma py_nth_in [simp]: "0 \<le> i \<Longrightarrow> i < int (length xs) \<Longrightarrow> py_nth xs i = Inr (xs ! nat i)"
  by (simp add: py_nth_def)

text \<open>\<open>xs[i] = v\<close>, with the same indices\<close>

definition py_set :: "'a list \<Rightarrow> int \<Rightarrow> 'a \<Rightarrow> 'a list result" where
  "py_set xs i v =
     (if 0 \<le> i \<and> i < int (length xs) then Inr (xs[nat i := v])
      else if i < 0 \<and> - int (length xs) \<le> i then Inr (xs[nat (int (length xs) + i) := v])
      else Inl IndexError)"

lemma py_set_in [simp]: "0 \<le> i \<Longrightarrow> i < int (length xs) \<Longrightarrow> py_set xs i v = Inr (xs[nat i := v])"
  by (simp add: py_set_def)

text \<open>\<open>xs.index(x)\<close>: the first position, ValueError when there is none.\<close>

fun py_index :: "'a list \<Rightarrow> 'a \<Rightarrow> int result" where
  "py_index [] x = Inl ValueError"
| "py_index (y # ys) x = (if y = x then Inr 0 else bind_res (py_index ys x) (\<lambda>i. Inr (i + 1)))"

lemma py_index_mem:
  "x \<in> set xs \<Longrightarrow> \<exists>i. py_index xs x = Inr i \<and> 0 \<le> i \<and> i < int (length xs) \<and> xs ! nat i = x"
proof (induction xs)
  case (Cons y ys)
  show ?case
  proof (cases "y = x")
    case False
    with Cons obtain i where "py_index ys x = Inr i" "0 \<le> i" "i < int (length ys)" "ys ! nat i = x" by auto
    with False show ?thesis by (intro exI [of _ "i + 1"]) (simp add: nat_add_distrib)
  qed simp
qed simp

lemma py_index_none [simp]: "x \<notin> set xs \<Longrightarrow> py_index xs x = Inl ValueError"
  by (induction xs) auto

lemma py_index_nth: "distinct xs \<Longrightarrow> i < length xs \<Longrightarrow> py_index xs (xs ! i) = Inr (int i)"
proof (induction xs arbitrary: i)
  case (Cons x xs)
  then show ?case by (cases i) (auto dest: nth_mem)
qed simp

text \<open>\<open>str(n)\<close>\<close>

fun string_of_nat :: "nat \<Rightarrow> string" where
  "string_of_nat n =
     (if n < 10 then [char_of (48 + n)] else string_of_nat (n div 10) @ [char_of (48 + n mod 10)])"

definition string_of_int :: "int \<Rightarrow> string" where
  "string_of_int n = (if n < 0 then ''-'' @ string_of_nat (nat (- n)) else string_of_nat (nat n))"

declare string_of_nat.simps [simp del]

text \<open>A slice bound: a negative one counts from the end, and both ends are clamped.\<close>

definition slice_bound :: "nat \<Rightarrow> int \<Rightarrow> nat" where
  "slice_bound n i = (if i < 0 then nat (i + int n) else min (nat i) n)"

text \<open>\<open>xs[a:b] = ys\<close>\<close>

definition slice_assign :: "'a list \<Rightarrow> int \<Rightarrow> int \<Rightarrow> 'a list \<Rightarrow> 'a list" where
  "slice_assign xs a b ys =
     (let i = slice_bound (length xs) a; j = max i (slice_bound (length xs) b)
      in take i xs @ ys @ drop j xs)"

text \<open>\<open>itertools.accumulate\<close> from a given start.\<close>

fun accumulate :: "int \<Rightarrow> int list \<Rightarrow> int list" where
  "accumulate acc [] = []"
| "accumulate acc (x # xs) = (acc + x) # accumulate (acc + x) xs"

lemma length_accumulate [simp]: "length (accumulate acc xs) = length xs"
  by (induction xs arbitrary: acc) simp_all

lemma nth_accumulate: "i < length xs \<Longrightarrow> accumulate acc xs ! i = acc + sum_list (take (Suc i) xs)"
  by (induction xs arbitrary: acc i) (auto simp: nth_Cons split: nat.splits)

text \<open>\<open>bisect.bisect_right\<close> on an ascending list: the number of elements not above \<open>x\<close>.\<close>

definition bisect_right :: "int list \<Rightarrow> int \<Rightarrow> int" where
  "bisect_right xs x = int (length (takeWhile (\<lambda>y. y \<le> x) xs))"

text \<open>A \<open>for\<close> loop over a range keeps an invariant indexed by the loop variable, and returns.\<close>

lemma for_res_range:
  assumes "I a s" and "a \<le> b"
    and "\<And>k u. a \<le> k \<Longrightarrow> k < b \<Longrightarrow> I k u \<Longrightarrow> \<exists>v. body k u = Inr v \<and> I (k + 1) v"
  shows "\<exists>t. for_res body (py_range a b) s = Inr t \<and> I b t"
  using assms
proof (induction "nat (b - a)" arbitrary: a s)
  case 0
  then show ?case by simp
next
  case (Suc n)
  then have ab: "a < b" and n: "n = nat (b - (a + 1))" by auto
  obtain v where v: "body a s = Inr v" "I (a + 1) v" using Suc.prems(3) [of a s] Suc.prems(1) ab by auto
  from Suc.hyps(1) [OF n v(2)] Suc.prems(3) ab
  obtain t where "for_res body (py_range (a + 1) b) v = Inr t" "I b t" by auto
  with v(1) ab show ?case by (simp add: py_range_Cons)
qed

end
