(* ===== verification/Meta_Step.thy ===== *)
theory Meta_Step
  imports Hyper_Prelude
begin

text \<open>
  The vocabulary of the pipeline schedules: \<open>MetaStepType\<close> and \<open>MetaStep\<close>
  (core/pipeline_parallel/utils.py), the step types of the MPipe extension
  (core/pipeline_parallel/mpipe/step_types.py), the stage-to-rank mappings and the leaf iterator
  (core/pipeline_parallel/scheduler.py).

  A schedule of one rank is a list of optional steps: \<open>None\<close> is a bubble. An execution order is
  an insertion-ordered dictionary from ranks to such lists.
\<close>

section \<open>Step types\<close>

datatype mpipe_step_type =
    MPIPE_PARAM_BROADCAST
  | MPIPE_TRANSPOSE_FWD
  | MPIPE_FWD_SEND
  | MPIPE_FWD_RECV
  | MPIPE_GRAPH_SEND
  | MPIPE_GRAPH_RECV
  | MPIPE_TRANSPOSE_BWD
  | MPIPE_GRAD_SEND
  | MPIPE_GRAD_RECV_WITH_BACKWARD
  | MPIPE_GRAD_REDUCE

text \<open>
  \<open>MetaStep\<close> does not validate its type, and the extension enum is dispatched beside the core
  one: \<open>MPIPE\<close> carries a type of the extension.
\<close>

datatype meta_step_type =
    DATA_LOAD | DATA_SEND | DATA_RECV
  | FWD | BWD | BWD_INPUT | BWD_WEIGHT
  | FWD_RECV | FWD_SEND | BWD_RECV | BWD_SEND
  | BATCH_SEND_RECV
  | OVERLAP_F_B | OVERLAP_B_F
  | FSDP_UNSHARD | FSDP_RESHARD | FSDP_REDUCE_GRAD
  | SWAP_LAUNCH_OFFLOAD | SWAP_WAIT_OFFLOAD | SWAP_LAUNCH_LOAD | SWAP_WAIT_LOAD
  | MPIPE mpipe_step_type

section \<open>Steps\<close>

datatype meta_step =
  MetaStep
    (micro_index: "int option")
    (step_type: meta_step_type)
    (stage_index: "int option")
    (sub_steps: "meta_step list option")
    (boundary_p2p: "meta_step list option")

text \<open>\<open>MetaStep(micro_index, meta_type, stage_index)\<close> with the defaults of \<open>__init__\<close>.\<close>

definition leaf_step :: "int option \<Rightarrow> meta_step_type \<Rightarrow> int option \<Rightarrow> meta_step" where
  "leaf_step m t s = MetaStep m t s None None"

abbreviation mstep :: "int \<Rightarrow> meta_step_type \<Rightarrow> int \<Rightarrow> meta_step" where
  "mstep m t s \<equiv> leaf_step (Some m) t (Some s)"

lemma leaf_step_sel [simp]:
  "micro_index (leaf_step m t s) = m"
  "step_type (leaf_step m t s) = t"
  "stage_index (leaf_step m t s) = s"
  "sub_steps (leaf_step m t s) = None"
  "boundary_p2p (leaf_step m t s) = None"
  by (simp_all add: leaf_step_def)

lemma leaf_step_eq_iff [simp]:
  "leaf_step m t s = leaf_step m' t' s' \<longleftrightarrow> m = m' \<and> t = t' \<and> s = s'"
  by (simp add: leaf_step_def)

type_synonym order = "meta_step option list"
type_synonym exec_order = "(int, order) dict"

text \<open>\<open>MetaStep.__eq__\<close>: the boundary operations do not take part in the comparison.\<close>

fun meta_eq :: "meta_step \<Rightarrow> meta_step \<Rightarrow> bool"
and meta_eq_list :: "meta_step list \<Rightarrow> meta_step list \<Rightarrow> bool" where
  "meta_eq (MetaStep m t s None b) (MetaStep m' t' s' None b') =
     (t = t' \<and> m = m' \<and> s = s')"
| "meta_eq (MetaStep m t s (Some xs) b) (MetaStep m' t' s' (Some ys) b') =
     (t = t' \<and> m = m' \<and> s = s' \<and> meta_eq_list xs ys)"
| "meta_eq _ _ = False"
| "meta_eq_list [] [] = True"
| "meta_eq_list (x # xs) (y # ys) = (meta_eq x y \<and> meta_eq_list xs ys)"
| "meta_eq_list _ _ = False"

text \<open>\<open>MetaStep.__hash__\<close>: the key whose Python hash is returned.\<close>

definition meta_hash_key :: "meta_step \<Rightarrow> meta_step_type \<times> int option \<times> int option" where
  "meta_hash_key s = (step_type s, micro_index s, stage_index s)"

lemma meta_eq_refl [simp]: "meta_eq x x" and meta_eq_list_refl [simp]: "meta_eq_list xs xs"
proof -
  have "meta_eq x y \<or> x \<noteq> y" and "meta_eq_list xs ys \<or> xs \<noteq> ys" for y ys
    by (induction x y and xs ys rule: meta_eq_meta_eq_list.induct) auto
  then show "meta_eq x x" and "meta_eq_list xs xs" by blast+
qed

lemma meta_eq_sym: "meta_eq x y \<Longrightarrow> meta_eq y x"
  and meta_eq_list_sym: "meta_eq_list xs ys \<Longrightarrow> meta_eq_list ys xs"
  by (induction x y and xs ys rule: meta_eq_meta_eq_list.induct) auto

lemma meta_eq_trans: "meta_eq x y \<Longrightarrow> meta_eq y z \<Longrightarrow> meta_eq x z"
  and meta_eq_list_trans: "meta_eq_list xs ys \<Longrightarrow> meta_eq_list ys zs \<Longrightarrow> meta_eq_list xs zs"
proof (induction x y and xs ys arbitrary: z and zs rule: meta_eq_meta_eq_list.induct)
  case (1 m t s b m' t' s' b')
  then show ?case by (cases z; cases "sub_steps z") auto
next
  case (2 m t s xs b m' t' s' ys b')
  then show ?case by (cases z; cases "sub_steps z") auto
next
  case (5 x xs y ys)
  then show ?case by (cases zs) auto
qed auto

lemma meta_eq_hash: "meta_eq x y \<Longrightarrow> meta_hash_key x = meta_hash_key y"
  by (cases x; cases y; cases "sub_steps x"; cases "sub_steps y") (auto simp: meta_hash_key_def)

section \<open>Leaves of composite steps\<close>

definition is_overlap :: "meta_step_type \<Rightarrow> bool" where
  "is_overlap t \<longleftrightarrow> t = OVERLAP_F_B \<or> t = OVERLAP_B_F"

text \<open>\<open>iter_leaf_meta_steps\<close>: composite overlaps with sub-steps are expanded recursively.\<close>

fun leaf_meta_steps :: "meta_step \<Rightarrow> meta_step list"
and leaf_meta_steps_list :: "meta_step list \<Rightarrow> meta_step list" where
  "leaf_meta_steps (MetaStep m t s subs b) =
     (case subs of
        None \<Rightarrow> [MetaStep m t s subs b]
      | Some xs \<Rightarrow>
          if is_overlap t \<and> xs \<noteq> [] then leaf_meta_steps_list xs else [MetaStep m t s subs b])"
| "leaf_meta_steps_list [] = []"
| "leaf_meta_steps_list (x # xs) = leaf_meta_steps x @ leaf_meta_steps_list xs"

definition iter_leaf_meta_steps :: "meta_step option \<Rightarrow> meta_step list" where
  "iter_leaf_meta_steps step = (case step of None \<Rightarrow> [] | Some s \<Rightarrow> leaf_meta_steps s)"

lemma iter_leaf_simps [simp]:
  "iter_leaf_meta_steps None = []"
  "iter_leaf_meta_steps (Some s) = leaf_meta_steps s"
  by (simp_all add: iter_leaf_meta_steps_def)

lemma leaf_meta_steps_list_concat: "leaf_meta_steps_list xs = concat (map leaf_meta_steps xs)"
  by (induction xs) simp_all

lemma leaf_meta_steps_leaf [simp]: "leaf_meta_steps (leaf_step m t s) = [leaf_step m t s]"
  by (simp add: leaf_step_def)

lemma leaf_meta_steps_plain: "\<not> is_overlap (step_type s) \<Longrightarrow> leaf_meta_steps s = [s]"
  by (cases s) (auto split: option.splits)

section \<open>Stages and ranks\<close>

text \<open>
  \<open>generate_stage_to_rank_mapping\<close>. The V style walks the stages and moves the rank cursor up in
  even chunks and down in odd ones; at the end of a chunk the cursor stays.
\<close>

primrec v_mapping_loop :: "int \<Rightarrow> int list \<Rightarrow> int \<Rightarrow> (int, int) dict" where
  "v_mapping_loop R [] rank_index = []"
| "v_mapping_loop R (s # ss) rank_index =
     (s, rank_index) #
     v_mapping_loop R ss
       (if (s + 1) mod R = 0 then rank_index
        else if (s div R) mod 2 = 0 then rank_index + 1
        else rank_index - 1)"

definition generate_stage_to_rank_mapping ::
    "int \<Rightarrow> int \<Rightarrow> string \<Rightarrow> (int, int) dict result" where
  "generate_stage_to_rank_mapping real_stage_num stage_num style =
     (if style = ''loop'' then
        (if real_stage_num = 0 \<and> 0 < stage_num then Inl ZeroDivisionError
         else Inr (map (\<lambda>s. (s, s mod real_stage_num)) (py_range 0 stage_num)))
      else if style = ''v'' then
        (if real_stage_num = 0 then Inl ZeroDivisionError
         else if stage_num mod real_stage_num \<noteq> 0 then Inl ValueError
         else Inr (v_mapping_loop real_stage_num (py_range 0 stage_num) 0))
      else Inl ValueError)"

definition generate_rank_to_stage_mapping ::
    "int \<Rightarrow> int \<Rightarrow> string \<Rightarrow> (int, int list) dict result" where
  "generate_rank_to_stage_mapping real_stage_num stage_num style =
     bind_res (generate_stage_to_rank_mapping real_stage_num stage_num style) (\<lambda>stage_to_rank.
       Inr (dict_map sort
         (fold (\<lambda>(stage_index, rank) d. ddict_append d rank stage_index) stage_to_rank [])))"

text \<open>
  \<open>stage_to_rank\<close>, \<open>_fwd_peer\<close> and \<open>_bwd_peer\<close>, the closures of \<open>add_send_recv\<close> and
  \<open>auto_align_and_add_send_recv\<close>.
\<close>

definition stage_to_rank :: "int \<Rightarrow> int \<Rightarrow> string \<Rightarrow> int \<Rightarrow> int result" where
  "stage_to_rank real_stage_num stage_num style stage =
     (if style = ''loop'' then
        (if real_stage_num = 0 then Inl ZeroDivisionError else Inr (stage mod real_stage_num))
      else if style = ''v'' then
        Inr (if stage < real_stage_num then stage else stage_num - 1 - stage)
      else Inl ValueError)"

definition fwd_peer :: "int \<Rightarrow> int \<Rightarrow> string \<Rightarrow> int \<Rightarrow> int option result" where
  "fwd_peer R S style stage =
     (if S - 1 \<le> stage then Inr None
      else bind_res (stage_to_rank R S style (stage + 1)) (\<lambda>peer.
           bind_res (stage_to_rank R S style stage) (\<lambda>own.
           Inr (if peer \<noteq> own then Some peer else None))))"

definition bwd_peer :: "int \<Rightarrow> int \<Rightarrow> string \<Rightarrow> int \<Rightarrow> int option result" where
  "bwd_peer R S style stage =
     (if stage \<le> 0 then Inr None
      else bind_res (stage_to_rank R S style (stage - 1)) (\<lambda>peer.
           bind_res (stage_to_rank R S style stage) (\<lambda>own.
           Inr (if peer \<noteq> own then Some peer else None))))"

subsection \<open>The V mapping in closed form\<close>

definition v_rank :: "int \<Rightarrow> int \<Rightarrow> int" where
  "v_rank R s = (if (s div R) mod 2 = 0 then s mod R else R - 1 - s mod R)"

lemma v_rank_step:
  assumes "0 < R"
  shows "v_rank R (s + 1) =
    (if (s + 1) mod R = 0 then v_rank R s
     else if (s div R) mod 2 = 0 then v_rank R s + 1 else v_rank R s - 1)"
proof -
  define q r where "q = s div R" and "r = s mod R"
  have r: "0 \<le> r" "r < R" using assms by (simp_all add: r_def)
  have s: "s = r + R * q" by (simp add: q_def r_def)
  have alt: "(q + 1) mod 2 = 0 \<longleftrightarrow> q mod 2 \<noteq> 0" by presburger
  show ?thesis
  proof (cases "r = R - 1")
    case True
    then have s1: "s + 1 = 0 + R * (q + 1)" by (simp add: s algebra_simps)
    have "(s + 1) mod R = 0" and "(s + 1) div R = q + 1"
      using assms by (simp_all only: s1 mod_mult_self2 div_mult_self2) simp_all
    with True alt show ?thesis by (simp add: v_rank_def flip: q_def r_def)
  next
    case False
    have s1: "s + 1 = (r + 1) + R * q" by (simp add: s)
    have "(s + 1) mod R = r + 1" and "(s + 1) div R = q"
      using assms r False by (simp_all only: s1 mod_mult_self2) (simp_all add: div_mult_self2)
    with r show ?thesis by (simp add: v_rank_def flip: q_def r_def)
  qed
qed

lemma v_mapping_loop_eq:
  assumes "0 < R" and "a \<le> b"
  shows "v_mapping_loop R (py_range a b) (v_rank R a) = map (\<lambda>s. (s, v_rank R s)) (py_range a b)"
  using assms(2)
proof (induction "nat (b - a)" arbitrary: a)
  case 0
  then show ?case by simp
next
  case (Suc n)
  then have ab: "a < b" and n: "n = nat (b - (a + 1))" by auto
  then show ?case
    using Suc.hyps(1) [OF n] v_rank_step [OF assms(1), of a] by (simp add: py_range_Cons)
qed

lemma v_rank_bounds:
  assumes "0 < R"
  shows "0 \<le> v_rank R s \<and> v_rank R s < R"
proof -
  have "0 \<le> s mod R" and "s mod R < R" using assms by simp_all
  then show ?thesis unfolding v_rank_def by (simp split: if_split)
qed

lemma v_mapping_closed:
  assumes "0 < R" and "S mod R = 0" and "0 \<le> S"
  shows "generate_stage_to_rank_mapping R S ''v'' = Inr (map (\<lambda>s. (s, v_rank R s)) (py_range 0 S))"
  using v_mapping_loop_eq [OF assms(1,3)] assms
  by (simp add: generate_stage_to_rank_mapping_def v_rank_def)

lemma map_of_map_pair: "map_of (map (\<lambda>s. (s, f s)) xs) k = (if k \<in> set xs then Some (f k) else None)"
  by (induction xs) auto

text \<open>
  The inverse mapping groups the stages of every rank, in ascending order.
\<close>

lemma fold_ddict_append:
  "dict_list (fold (\<lambda>(s, r) d. ddict_append d r s) items d) k =
     dict_list d k @ map fst (filter (\<lambda>(s, r). r = k) items)"
  by (induction items arbitrary: d) auto

lemma dict_list_dict_map_sort: "dict_list (dict_map sort d) k = sort (dict_list d k)"
  by (simp add: dict_list_def split: option.splits)

section \<open>Properties of the stage placement\<close>

lemma loop_mapping_closed:
  assumes "0 < R"
  shows "generate_stage_to_rank_mapping R S ''loop'' = Inr (map (\<lambda>s. (s, s mod R)) (py_range 0 S))"
  using assms by (simp add: generate_stage_to_rank_mapping_def)

text \<open>The rank of a stage within its chunk, for both styles.\<close>

definition place :: "int \<Rightarrow> string \<Rightarrow> int \<Rightarrow> int" where
  "place R style s = (if style = ''loop'' then s mod R else v_rank R s)"

lemma mapping_closed:
  assumes "0 < R" and "generate_stage_to_rank_mapping R S style = Inr m"
  shows "m = map (\<lambda>s. (s, place R style s)) (py_range 0 S)"
proof (cases "style = ''loop''")
  case True
  with assms loop_mapping_closed [of R S] show ?thesis by (simp add: place_def)
next
  case False
  with assms have v: "style = ''v''" and mod: "S mod R = 0"
    by (auto simp: generate_stage_to_rank_mapping_def split: if_splits)
  show ?thesis
  proof (cases "0 \<le> S")
    case True
    with assms v mod v_mapping_closed [of R S] show ?thesis by (simp add: place_def)
  next
    case False
    with assms v mod show ?thesis by (auto simp: generate_stage_to_rank_mapping_def)
  qed
qed

lemma place_chunk:
  assumes "0 \<le> r" and "r < R"
  shows "\<exists>!s. q * R \<le> s \<and> s < (q + 1) * R \<and> place R style s = r"
proof -
  have form: "\<exists>k. s = k + R * q \<and> 0 \<le> k \<and> k < R" if "q * R \<le> s" "s < (q + 1) * R" for s
    using that by (intro exI [of _ "s - R * q"]) (simp add: algebra_simps)
  have at: "(k + R * q) mod R = k" "(k + R * q) div R = q" if "0 \<le> k" "k < R" for k
    using that by simp_all
  define t where "t = (if style = ''loop'' \<or> q mod 2 = 0 then r else R - 1 - r)"
  have t: "0 \<le> t" "t < R" using assms by (auto simp: t_def)
  show ?thesis
  proof (rule ex1I [of _ "t + R * q"])
    have "place R style (t + R * q) = (if style = ''loop'' \<or> q mod 2 = 0 then t else R - 1 - t)"
      unfolding place_def v_rank_def at [OF t] by simp
    also have "\<dots> = r" by (simp add: t_def)
    finally show "q * R \<le> t + R * q \<and> t + R * q < (q + 1) * R \<and> place R style (t + R * q) = r"
      using t by (simp add: algebra_simps)
  next
    fix s assume s: "q * R \<le> s \<and> s < (q + 1) * R \<and> place R style s = r"
    then obtain k where k: "s = k + R * q" "0 \<le> k" "k < R" using form by blast
    have "place R style s = (if style = ''loop'' \<or> q mod 2 = 0 then k else R - 1 - k)"
      unfolding place_def v_rank_def k(1) at [OF k(2,3)] by simp
    with s have "k = t" by (auto simp: t_def split: if_splits)
    with k show "s = t + R * q" by simp
  qed
qed

text \<open>
  \<open>generate_stage_to_rank_mapping\<close> spreads the stages evenly: in every chunk of
  \<open>real_stage_num\<close> consecutive stages each rank owns exactly one stage, for both styles; in the V
  style the last stage of a chunk and the first of the next one lie on the same rank.
\<close>

theorem stage_placement:
  assumes "0 < R" and "generate_stage_to_rank_mapping R S style = Inr m"
    and "0 \<le> q" and "(q + 1) * R \<le> S"
  shows "(\<forall>r \<in> set (py_range 0 R).
            \<exists>!s. q * R \<le> s \<and> s < (q + 1) * R \<and> map_of m s = Some r) \<and>
         (style = ''v'' \<and> (q + 1) * R < S \<longrightarrow> map_of m ((q + 1) * R - 1) = map_of m ((q + 1) * R))"
proof -
  note m = mapping_closed [OF assms(1,2)]
  have q: "0 \<le> q * R" using assms by simp
  have get: "map_of m s = (if 0 \<le> s \<and> s < S then Some (place R style s) else None)" for s
    by (simp add: m map_of_map_pair)
  have "\<exists>!s. q * R \<le> s \<and> s < (q + 1) * R \<and> map_of m s = Some r" if "r \<in> set (py_range 0 R)" for r
  proof -
    have eq: "(q * R \<le> s \<and> s < (q + 1) * R \<and> map_of m s = Some r) \<longleftrightarrow>
          (q * R \<le> s \<and> s < (q + 1) * R \<and> place R style s = r)" for s
      using get [of s] q assms(4) by auto
    show ?thesis unfolding eq using place_chunk [of r R q style] that by simp
  qed
  moreover have "map_of m ((q + 1) * R - 1) = map_of m ((q + 1) * R)"
    if "style = ''v''" "(q + 1) * R < S"
  proof -
    have "1 \<le> (q + 1) * R" using assms(1,3) by (simp add: int_one_le_iff_zero_less)
    moreover have "v_rank R ((q + 1) * R) = v_rank R ((q + 1) * R - 1)"
      using v_rank_step [OF assms(1), of "(q + 1) * R - 1"] by simp
    ultimately show ?thesis using that get by (simp add: place_def)
  qed
  ultimately show ?thesis by blast
qed

theorem stage_placement_witness:
  "(\<exists>!s. 1 * 2 \<le> s \<and> s < (1 + 1) * (2::int) \<and>
      map_of [(0, 0), (1, 1), (2, 1), (3, 0)] s = Some (1::int)) \<and>
   map_of [(0, 0), (1, 1), (2, 1), (3, 0)] (2 :: int) =
   map_of [(0, 0), (1, 1), (2, 1), (3, 0 :: int)] (1 :: int)"
proof -
  have m: "generate_stage_to_rank_mapping 2 4 ''v'' = Inr [(0, 0), (1, 1), (2, 1), (3, 0)]"
    by code_simp
  have one: "(1::int) \<in> set (py_range 0 2)" by simp
  from stage_placement [OF _ m, of 1, THEN conjunct1, rule_format, OF _ _ _ one]
  show ?thesis by (simp del: map_of.simps)
qed

text \<open>
  the closure \<open>stage_to_rank\<close> of the communication passes agrees with the published mapping for
  the loop style, and for the V style exactly when there are at most two chunks.
\<close>

theorem stage_to_rank_agreement:
  assumes "0 < R" and "0 \<le> S" and "S mod R = 0"
    and "generate_stage_to_rank_mapping R S style = Inr m"
  shows "(\<forall>s \<in> set (py_range 0 S). \<exists>r. map_of m s = Some r \<and> stage_to_rank R S style s = Inr r) \<longleftrightarrow>
         style = ''loop'' \<or> S \<le> 2 * R"
proof -
  have get: "map_of m s = Some (place R style s)" if "0 \<le> s" "s < S" for s
    using that by (simp add: mapping_closed [OF assms(1,4)] map_of_map_pair)
  show ?thesis
  proof (cases "style = ''loop''")
    case True
    with get assms(1) show ?thesis by (simp add: stage_to_rank_def place_def)
  next
    case False
    then have v: "style = ''v''"
      using assms(4) by (auto simp: generate_stage_to_rank_mapping_def split: if_splits)
    have dvd: "R dvd S" using assms(3) by (simp add: mod_eq_0_iff_dvd)
    show ?thesis
    proof (cases "S \<le> 2 * R")
      case two: True
      have "place R style s = (if s < R then s else S - 1 - s)" if s: "0 \<le> s" "s < S" for s
      proof (cases "s < R")
        case True
        with s show ?thesis by (simp add: place_def v v_rank_def)
      next
        case False
        have "R dvd S - R" and "0 < S - R" using dvd False s by auto
        then have "R \<le> S - R" by (rule zdvd_imp_le)
        with two have S: "S = 2 * R" by simp
        have "s div R = 1" and "s mod R = s - R"
          by (rule int_div_pos_eq [of _ _ _ "s - R"], use False s S in simp_all)
            (rule int_mod_pos_eq [of _ _ 1], use False s S in simp_all)
        with False S show ?thesis by (simp add: place_def v v_rank_def)
      qed
      with get v two show ?thesis by (auto simp: stage_to_rank_def)
    next
      case False
      have "map_of m R = Some (R - 1)"
        using get [of R] assms(1) False by (simp add: place_def v v_rank_def)
      moreover have "stage_to_rank R S style R = Inr (S - 1 - R)" by (simp add: v stage_to_rank_def)
      ultimately have "\<not> (\<exists>r. map_of m R = Some r \<and> stage_to_rank R S style R = Inr r)"
        using False by auto
      with False v assms(1) show ?thesis by auto
    qed
  qed
qed

theorem stage_to_rank_agreement_witness:
  "\<not> (\<forall>s \<in> set (py_range 0 6). \<exists>r.
        map_of [(0, 0), (1, 1), (2, 1), (3, 0), (4, 0), (5, 1)] s = Some r \<and>
        stage_to_rank 2 6 ''v'' s = Inr r)"
proof -
  have "generate_stage_to_rank_mapping 2 6 ''v'' =
        Inr [(0, 0), (1, 1), (2, 1), (3, 0), (4, 0), (5, 1)]" by code_simp
  from stage_to_rank_agreement [OF _ _ _ this] show ?thesis by (simp del: set_py_range)
qed

text \<open>
  \<open>generate_rank_to_stage_mapping\<close> inverts the stage mapping: the list of a rank is sorted,
  without repetition, and holds exactly the stages the mapping places on that rank.
\<close>

theorem rank_to_stage_inverse:
  assumes "0 < R" and "generate_stage_to_rank_mapping R S style = Inr m"
  shows "\<exists>n. generate_rank_to_stage_mapping R S style = Inr n \<and>
    (\<forall>r. sorted (dict_list n r) \<and> distinct (dict_list n r) \<and>
         set (dict_list n r) = {s. map_of m s = Some r})"
proof -
  note m = mapping_closed [OF assms]
  let ?n = "dict_map sort (fold (\<lambda>(stage_index, rank) d. ddict_append d rank stage_index) m [])"
  have list: "dict_list ?n r = sort (filter (\<lambda>s. place R style s = r) (py_range 0 S))" for r
    unfolding dict_list_dict_map_sort fold_ddict_append m
    by (simp add: dict_list_def filter_map o_def case_prod_beta)
  have "sorted (dict_list ?n r) \<and> distinct (dict_list ?n r) \<and>
        set (dict_list ?n r) = {s. map_of m s = Some r}" for r
    unfolding list by (auto simp: m map_of_map_pair split: if_splits)
  moreover have "generate_rank_to_stage_mapping R S style = Inr ?n"
    using assms(2) by (simp add: generate_rank_to_stage_mapping_def)
  ultimately show ?thesis by blast
qed

theorem rank_to_stage_inverse_witness:
  "\<exists>n. generate_rank_to_stage_mapping 2 4 ''v'' = Inr n \<and>
    (\<forall>r. sorted (dict_list n r) \<and> distinct (dict_list n r) \<and>
         set (dict_list n r) = {s. map_of [(0, 0), (1, 1), (2, 1), (3, 0)] s = Some r})"
proof -
  have "generate_stage_to_rank_mapping 2 4 ''v'' = Inr [(0, 0), (1, 1), (2, 1), (3, 0)]" by code_simp
  from rank_to_stage_inverse [OF _ this] show ?thesis by simp
qed

end
