(* ===== verification/Send_Recv.thy ===== *)
theory Send_Recv
  imports Meta_Step
begin

text \<open>
  \<open>add_send_recv\<close> and its helpers (core/pipeline_parallel/scheduler.py): the expansion of overlap
  steps into two virtual time slots, the column scan that appends every transfer to the sender and
  to the receiver, and the splicing of \<open>DATA_LOAD\<close> before every forward.

  The column scan takes the insertion of one step's transfers as a callable. Its contract is the
  locale \<open>comm_inserter\<close>: what the scan relies on is proved from that contract, and the contract
  is discharged for the closure \<open>_insert_comms_for_step\<close>.
\<close>

section \<open>Inserting the transfers of one step\<close>

text \<open>
  \<open>_insert_comms_for_step\<close>. A forward appends \<open>DATA_SEND; FWD_SEND\<close> to its own rank and
  \<open>DATA_RECV; FWD_RECV\<close> to the peer; a backward appends one send and one receive. A stage index
  of \<open>None\<close> fails in the comparison (TypeError), a rank without a schedule in the lookup (KeyError).
\<close>

definition append_fwd_comms ::
    "int option \<Rightarrow> int \<Rightarrow> int \<Rightarrow> int \<Rightarrow> exec_order \<Rightarrow> exec_order result" where
  "append_fwd_comms micro stage rank peer sch =
     bind_res (dict_append sch rank (Some (leaf_step micro DATA_SEND (Some stage)))) (\<lambda>sch.
     bind_res (dict_append sch rank (Some (leaf_step micro FWD_SEND (Some stage)))) (\<lambda>sch.
     bind_res (dict_append sch peer (Some (leaf_step micro DATA_RECV (Some (stage + 1))))) (\<lambda>sch.
     dict_append sch peer (Some (leaf_step micro FWD_RECV (Some (stage + 1)))))))"

definition append_bwd_comms ::
    "int option \<Rightarrow> int \<Rightarrow> int \<Rightarrow> int \<Rightarrow> exec_order \<Rightarrow> exec_order result" where
  "append_bwd_comms micro stage rank peer sch =
     bind_res (dict_append sch rank (Some (leaf_step micro BWD_SEND (Some stage)))) (\<lambda>sch.
     dict_append sch peer (Some (leaf_step micro BWD_RECV (Some (stage - 1)))))"

fun insert_comms_for_step ::
    "int \<Rightarrow> int \<Rightarrow> string \<Rightarrow> meta_step \<Rightarrow> int \<Rightarrow> exec_order \<Rightarrow> exec_order result"
and insert_comms_for_subs ::
    "int \<Rightarrow> int \<Rightarrow> string \<Rightarrow> meta_step list \<Rightarrow> int \<Rightarrow> exec_order \<Rightarrow> exec_order result" where
  "insert_comms_for_step R S style (MetaStep micro t stage subs b) rank sch =
     (if t = FWD then
        (case stage of
           None \<Rightarrow> Inl TypeError
         | Some si \<Rightarrow> bind_res (fwd_peer R S style si) (\<lambda>p.
             case p of None \<Rightarrow> Inr sch | Some peer \<Rightarrow> append_fwd_comms micro si rank peer sch))
      else if t = BWD then
        (case stage of
           None \<Rightarrow> Inl TypeError
         | Some si \<Rightarrow> bind_res (bwd_peer R S style si) (\<lambda>p.
             case p of None \<Rightarrow> Inr sch | Some peer \<Rightarrow> append_bwd_comms micro si rank peer sch))
      else if is_overlap t then
        (case subs of None \<Rightarrow> Inr sch | Some xs \<Rightarrow> insert_comms_for_subs R S style xs rank sch)
      else Inr sch)"
| "insert_comms_for_subs R S style [] rank sch = Inr sch"
| "insert_comms_for_subs R S style (x # xs) rank sch =
     bind_res (insert_comms_for_step R S style x rank sch)
       (insert_comms_for_subs R S style xs rank)"

section \<open>Virtual time slots\<close>

text \<open>\<open>_OverlapPhantom\<close> and the entries of an expanded schedule.\<close>

datatype slot =
    Plain meta_step
  | OverlapPhantom (obf_step: meta_step) (sub_step: meta_step) (is_first_half: bool)

text \<open>
  \<open>_expand_overlap_slots\<close> on one rank. An overlap with sub-steps becomes the phantoms of its
  first two sub-steps; reading the second of a single one is an IndexError.
\<close>

fun expand_order :: "order \<Rightarrow> slot option list result" where
  "expand_order [] = Inr []"
| "expand_order (None # ops) = bind_res (expand_order ops) (\<lambda>es. Inr (None # es))"
| "expand_order (Some op # ops) =
     (if is_overlap (step_type op) \<and> sub_steps op \<noteq> None \<and> sub_steps op \<noteq> Some [] then
        (case the (sub_steps op) of
           a # b # _ \<Rightarrow> bind_res (expand_order ops) (\<lambda>es.
             Inr (Some (OverlapPhantom op a True) # Some (OverlapPhantom op b False) # es))
         | _ \<Rightarrow> Inl IndexError)
      else bind_res (expand_order ops) (\<lambda>es. Inr (Some (Plain op) # es)))"

definition expand_overlap_slots ::
    "exec_order \<Rightarrow> int \<Rightarrow> (int, slot option list) dict result" where
  "expand_overlap_slots scheduler R =
     map_res (\<lambda>rank. bind_res (dict_get scheduler rank) (\<lambda>order.
                     bind_res (expand_order order) (\<lambda>exp. Inr (rank, exp))))
       (py_range 0 R)"

section \<open>The column scan\<close>

text \<open>The item a rank has at a time step; past the end of its list it has none.\<close>

definition slot_at :: "(int, slot option list) dict \<Rightarrow> int \<Rightarrow> nat \<Rightarrow> slot option" where
  "slot_at expanded rank t =
     (let es = dict_list expanded rank in if t < length es then es ! t else None)"

text \<open>What the first loop over the ranks appends for one item: bubbles stay, and an overlap is
  emitted at its first half only.\<close>

definition emitted :: "slot option list \<Rightarrow> nat \<Rightarrow> order" where
  "emitted es t =
     (if t < length es then
        (case es ! t of
           None \<Rightarrow> [None]
         | Some (Plain s) \<Rightarrow> [Some s]
         | Some (OverlapPhantom obf sub first) \<Rightarrow> if first then [Some obf] else [])
      else [])"

definition emit_items ::
    "(int, slot option list) dict \<Rightarrow> nat \<Rightarrow> int \<Rightarrow> exec_order \<Rightarrow> exec_order result" where
  "emit_items expanded t rank sch =
     for_res (\<lambda>x sch. dict_append sch rank x) (emitted (dict_list expanded rank) t) sch"

text \<open>\<open>_process_rank_items\<close>: the transfers of the even ranks, then those of the odd ranks.\<close>

definition slot_step :: "slot \<Rightarrow> meta_step" where
  "slot_step item = (case item of Plain s \<Rightarrow> s | OverlapPhantom obf sub first \<Rightarrow> sub)"

definition scan_ranks :: "int \<Rightarrow> int list" where
  "scan_ranks R = filter (\<lambda>r. r mod 2 = 0) (py_range 0 R) @ filter (\<lambda>r. r mod 2 = 1) (py_range 0 R)"

definition process_item ::
    "(meta_step \<Rightarrow> int \<Rightarrow> exec_order \<Rightarrow> exec_order result) \<Rightarrow>
     (int, slot option list) dict \<Rightarrow> nat \<Rightarrow> int \<Rightarrow> exec_order \<Rightarrow> exec_order result" where
  "process_item insert_step_comms expanded t rank sch =
     (case slot_at expanded rank t of
        None \<Rightarrow> Inr sch
      | Some item \<Rightarrow> insert_step_comms (slot_step item) rank sch)"

definition process_rank_items ::
    "int \<Rightarrow> (meta_step \<Rightarrow> int \<Rightarrow> exec_order \<Rightarrow> exec_order result) \<Rightarrow>
     (int, slot option list) dict \<Rightarrow> nat \<Rightarrow> exec_order \<Rightarrow> exec_order result" where
  "process_rank_items R insert_step_comms expanded t =
     for_res (process_item insert_step_comms expanded t) (scan_ranks R)"

definition column_step ::
    "int \<Rightarrow> (meta_step \<Rightarrow> int \<Rightarrow> exec_order \<Rightarrow> exec_order result) \<Rightarrow>
     (int, slot option list) dict \<Rightarrow> nat \<Rightarrow> exec_order \<Rightarrow> exec_order result" where
  "column_step R insert_step_comms expanded t sch =
     bind_res (for_res (emit_items expanded t) (py_range 0 R) sch)
       (process_rank_items R insert_step_comms expanded t)"

text \<open>\<open>_column_scan_insert_comms\<close>. The maximum over no rank at all is a ValueError.\<close>

definition column_scan_insert_comms ::
    "(int, slot option list) dict \<Rightarrow> int \<Rightarrow>
     (meta_step \<Rightarrow> int \<Rightarrow> exec_order \<Rightarrow> exec_order result) \<Rightarrow> exec_order result" where
  "column_scan_insert_comms expanded R insert_step_comms =
     (if expanded = [] then Inl ValueError
      else for_res (column_step R insert_step_comms expanded)
             [0..<Max (set (map (\<lambda>(_, es). length es) expanded))]
             (map (\<lambda>rank. (rank, [])) (py_range 0 R)))"

section \<open>Data loads\<close>

text \<open>\<open>_loads_for\<close> and \<open>_insert_dataload_before_fwd\<close>.\<close>

definition loads_for :: "meta_step option \<Rightarrow> meta_step list" where
  "loads_for step =
     (case step of
        None \<Rightarrow> []
      | Some s \<Rightarrow>
          if step_type s = FWD then [leaf_step (micro_index s) DATA_LOAD (stage_index s)]
          else if is_overlap (step_type s) then
            map (\<lambda>sub. leaf_step (micro_index sub) DATA_LOAD (stage_index sub))
              (filter (\<lambda>sub. step_type sub = FWD) (case sub_steps s of None \<Rightarrow> [] | Some xs \<Rightarrow> xs))
          else [])"

definition insert_loads :: "order \<Rightarrow> order" where
  "insert_loads steps = concat (map (\<lambda>step. map Some (loads_for step) @ [step]) steps)"

definition insert_dataload_before_fwd :: "exec_order \<Rightarrow> exec_order" where
  "insert_dataload_before_fwd sch = dict_map insert_loads sch"

section \<open>The pass\<close>

definition add_send_recv :: "exec_order \<Rightarrow> int \<Rightarrow> int \<Rightarrow> string \<Rightarrow> exec_order result" where
  "add_send_recv scheduler stage_num real_stage_num style =
     bind_res (expand_overlap_slots scheduler real_stage_num) (\<lambda>expanded.
     bind_res (column_scan_insert_comms expanded real_stage_num
                (insert_comms_for_step real_stage_num stage_num style)) (\<lambda>sch.
     Inr (insert_dataload_before_fwd sch)))"

end
