(* ===== verification/Send_Recv_Channels.thy ===== *)
theory Send_Recv_Channels
  imports Send_Recv
begin

text \<open>
  What \<open>add_send_recv\<close> promises: every ordered pair of ranks is a FIFO channel on which the k-th
  send matches the k-th receive, removing the inserted steps gives back the compute schedule, and
  the pass returns for every well-placed schedule of the loop mapping.

  A message on a channel is its kind, the consuming stage and the micro-batch.
\<close>

section \<open>Messages\<close>

type_synonym message = "meta_step_type \<times> int \<times> int option"

definition send_msgs :: "int \<Rightarrow> int \<Rightarrow> string \<Rightarrow> int \<Rightarrow> meta_step \<Rightarrow> message list" where
  "send_msgs R S style dst s =
     (case stage_index s of
        None \<Rightarrow> []
      | Some si \<Rightarrow>
          if step_type s = DATA_SEND then
            (if fwd_peer R S style si = Inr (Some dst) then [(DATA_RECV, si + 1, micro_index s)] else [])
          else if step_type s = FWD_SEND then
            (if fwd_peer R S style si = Inr (Some dst) then [(FWD_RECV, si + 1, micro_index s)] else [])
          else if step_type s = BWD_SEND then
            (if bwd_peer R S style si = Inr (Some dst) then [(BWD_RECV, si - 1, micro_index s)] else [])
          else [])"

definition recv_msgs :: "int \<Rightarrow> int \<Rightarrow> string \<Rightarrow> int \<Rightarrow> meta_step \<Rightarrow> message list" where
  "recv_msgs R S style src s =
     (case stage_index s of
        None \<Rightarrow> []
      | Some si \<Rightarrow>
          if step_type s = DATA_RECV \<or> step_type s = FWD_RECV then
            (if stage_to_rank R S style (si - 1) = Inr src then [(step_type s, si, micro_index s)] else [])
          else if step_type s = BWD_RECV then
            (if stage_to_rank R S style (si + 1) = Inr src then [(BWD_RECV, si, micro_index s)] else [])
          else [])"

definition chan_sends :: "int \<Rightarrow> int \<Rightarrow> string \<Rightarrow> order \<Rightarrow> int \<Rightarrow> message list" where
  "chan_sends R S style ord dst = concat (map (send_msgs R S style dst) (somes ord))"

definition chan_recvs :: "int \<Rightarrow> int \<Rightarrow> string \<Rightarrow> order \<Rightarrow> int \<Rightarrow> message list" where
  "chan_recvs R S style ord src = concat (map (recv_msgs R S style src) (somes ord))"

definition channels_matched :: "int \<Rightarrow> int \<Rightarrow> string \<Rightarrow> exec_order \<Rightarrow> bool" where
  "channels_matched R S style sch \<longleftrightarrow>
     (\<forall>src dst. chan_sends R S style (dict_list sch src) dst =
                chan_recvs R S style (dict_list sch dst) src)"

lemma chan_sends_append [simp]:
  "chan_sends R S style (xs @ ys) d = chan_sends R S style xs d @ chan_sends R S style ys d"
  by (simp add: chan_sends_def)

lemma chan_recvs_append [simp]:
  "chan_recvs R S style (xs @ ys) d = chan_recvs R S style xs d @ chan_recvs R S style ys d"
  by (simp add: chan_recvs_def)

text \<open>The step types the pass inserts.\<close>

definition is_transfer :: "meta_step_type \<Rightarrow> bool" where
  "is_transfer t \<longleftrightarrow>
     t \<in> {DATA_LOAD, DATA_SEND, DATA_RECV, FWD_SEND, FWD_RECV, BWD_SEND, BWD_RECV}"

definition kept :: "order \<Rightarrow> order" where
  "kept ord = filter (\<lambda>x. case x of None \<Rightarrow> True | Some s \<Rightarrow> \<not> is_transfer (step_type s)) ord"

lemma kept_append [simp]: "kept (xs @ ys) = kept xs @ kept ys"
  by (simp add: kept_def)

lemma kept_transfers: "\<forall>s \<in> set ss. is_transfer (step_type s) \<Longrightarrow> kept (map Some ss) = []"
  by (induction ss) (auto simp: kept_def)

lemma silent_msgs:
  assumes "\<not> is_transfer (step_type s)"
  shows "send_msgs R S style d s = []" and "recv_msgs R S style d s = []"
  using assms by (auto simp: send_msgs_def recv_msgs_def is_transfer_def split: option.splits)

lemma load_msgs:
  "send_msgs R S style d (leaf_step m DATA_LOAD si) = []"
  "recv_msgs R S style d (leaf_step m DATA_LOAD si) = []"
  by (auto simp: send_msgs_def recv_msgs_def split: option.splits)

section \<open>Well-placed schedules\<close>

text \<open>A compute leaf with a stage, on the rank that owns the stage.\<close>

definition compute_leaf :: "int \<Rightarrow> int \<Rightarrow> string \<Rightarrow> int \<Rightarrow> meta_step \<Rightarrow> bool" where
  "compute_leaf R S style rank s \<longleftrightarrow>
     (step_type s = FWD \<or> step_type s = BWD) \<and>
     (case stage_index s of None \<Rightarrow> False | Some si \<Rightarrow> stage_to_rank R S style si = Inr rank)"

definition schedulable :: "int \<Rightarrow> int \<Rightarrow> string \<Rightarrow> int \<Rightarrow> meta_step \<Rightarrow> bool" where
  "schedulable R S style rank s \<longleftrightarrow>
     (if is_overlap (step_type s) then
        (case sub_steps s of
           Some [a, b] \<Rightarrow> compute_leaf R S style rank a \<and> compute_leaf R S style rank b
         | _ \<Rightarrow> False)
      else compute_leaf R S style rank s)"

definition well_placed :: "int \<Rightarrow> int \<Rightarrow> string \<Rightarrow> exec_order \<Rightarrow> bool" where
  "well_placed R S style sch \<longleftrightarrow>
     (\<forall>rank \<in> set (py_range 0 R).
        map_of sch rank \<noteq> None \<and>
        (\<forall>s \<in> set (somes (dict_list sch rank)). schedulable R S style rank s))"

lemma schedulable_not_transfer: "schedulable R S style rank s \<Longrightarrow> \<not> is_transfer (step_type s)"
  by (auto simp: schedulable_def compute_leaf_def is_transfer_def is_overlap_def split: if_splits)

section \<open>The contract of the insertion\<close>

text \<open>The schedule grows at the ends of its lists and nowhere else.\<close>

definition appended :: "exec_order \<Rightarrow> exec_order \<Rightarrow> (int \<Rightarrow> meta_step list) \<Rightarrow> bool" where
  "appended sch sch' delta \<longleftrightarrow>
     map fst sch' = map fst sch \<and>
     (\<forall>r. dict_list sch' r = dict_list sch r @ map Some (delta r))"

lemma dict_append_list:
  assumes "dict_append d k x = Inr d'"
  shows "dict_list d' r = dict_list d r @ (if r = k then [x] else [])"
    and "map fst d' = map fst d"
proof -
  from assms obtain xs where xs: "map_of d k = Some xs" and d': "d' = dict_set d k (xs @ [x])"
    by (auto simp: dict_append_Inr_iff)
  then show "dict_list d' r = dict_list d r @ (if r = k then [x] else [])"
    by (simp add: dict_list_def)
  from xs have "k \<in> set (map fst d)" by (force dest: map_of_SomeD)
  then show "map fst d' = map fst d" by (simp add: d' keys_dict_set)
qed

lemma dict_append_total: "k \<in> set (map fst d) \<Longrightarrow> \<exists>d'. dict_append d k x = Inr d'"
  by (cases "map_of d k") (auto simp: dict_append_Inr_iff map_of_eq_None_iff)

locale comm_inserter =
  fixes ins :: "meta_step \<Rightarrow> int \<Rightarrow> exec_order \<Rightarrow> exec_order result"
    and placed :: "int \<Rightarrow> meta_step \<Rightarrow> bool"
    and sent :: "int \<Rightarrow> meta_step \<Rightarrow> message list"
    and received :: "int \<Rightarrow> meta_step \<Rightarrow> message list"
  assumes ins_appends:
      "ins s rank sch = Inr sch' \<Longrightarrow> placed rank s \<Longrightarrow>
       \<exists>delta. appended sch sch' delta \<and>
         (\<forall>r. \<forall>x \<in> set (delta r). is_transfer (step_type x)) \<and>
         (\<forall>src dst. concat (map (sent dst) (delta src)) = concat (map (received src) (delta dst)))"
    and silent: "\<not> is_transfer (step_type s) \<Longrightarrow> sent r s = [] \<and> received r s = []"
begin

definition balanced :: "exec_order \<Rightarrow> bool" where
  "balanced sch \<longleftrightarrow>
     (\<forall>src dst. concat (map (sent dst) (somes (dict_list sch src))) =
                concat (map (received src) (somes (dict_list sch dst))))"

lemma ins_balanced:
  assumes "ins s rank sch = Inr sch'" and "placed rank s" and "balanced sch"
  shows "balanced sch'" and "kept (dict_list sch' r) = kept (dict_list sch r)"
    and "map fst sch' = map fst sch"
proof -
  from ins_appends [OF assms(1,2)] obtain delta where
    app: "appended sch sch' delta" and tr: "\<forall>r. \<forall>x \<in> set (delta r). is_transfer (step_type x)" and
    eq: "\<forall>src dst. concat (map (sent dst) (delta src)) = concat (map (received src) (delta dst))"
    by blast
  show "balanced sch'"
    using app eq assms(3) by (simp add: balanced_def appended_def)
  show "kept (dict_list sch' r) = kept (dict_list sch r)"
    using app tr kept_transfers [of "delta r"] by (simp add: appended_def)
  show "map fst sch' = map fst sch" using app by (simp add: appended_def)
qed

lemma process_balanced:
  assumes "process_rank_items R ins expanded t sch = Inr sch'" and "balanced sch"
    and "\<And>rank item. rank \<in> set (py_range 0 R) \<Longrightarrow> slot_at expanded rank t = Some item \<Longrightarrow>
           placed rank (slot_step item)"
  shows "balanced sch' \<and> map fst sch' = map fst sch \<and>
         (\<forall>r. kept (dict_list sch' r) = kept (dict_list sch r))"
proof -
  have ranks: "set (scan_ranks R) \<subseteq> set (py_range 0 R)" by (auto simp: scan_ranks_def)
  show ?thesis
  proof (rule for_res_invariant [OF assms(1) [unfolded process_rank_items_def],
        where P = "\<lambda>u. balanced u \<and> map fst u = map fst sch \<and>
                     (\<forall>r. kept (dict_list u r) = kept (dict_list sch r))"])
    show "balanced sch \<and> map fst sch = map fst sch \<and>
          (\<forall>r. kept (dict_list sch r) = kept (dict_list sch r))" using assms(2) by simp
  next
    fix rank u v
    assume rank: "rank \<in> set (scan_ranks R)"
      and IH: "balanced u \<and> map fst u = map fst sch \<and>
               (\<forall>r. kept (dict_list u r) = kept (dict_list sch r))"
      and step: "process_item ins expanded t rank u = Inr v"
    show "balanced v \<and> map fst v = map fst sch \<and>
          (\<forall>r. kept (dict_list v r) = kept (dict_list sch r))"
    proof (cases "slot_at expanded rank t")
      case None
      with step IH show ?thesis by (simp add: process_item_def)
    next
      case (Some item)
      then have "ins (slot_step item) rank u = Inr v" using step by (simp add: process_item_def)
      moreover have "placed rank (slot_step item)" using assms(3) rank ranks Some by blast
      ultimately show ?thesis using ins_balanced IH by metis
    qed
  qed
qed

end

section \<open>Emission and expansion\<close>

fun emit_slot :: "slot option \<Rightarrow> order" where
  "emit_slot None = [None]"
| "emit_slot (Some (Plain s)) = [Some s]"
| "emit_slot (Some (OverlapPhantom obf sub first)) = (if first then [Some obf] else [])"

lemma emitted_emit_slot: "emitted es t = (if t < length es then emit_slot (es ! t) else [])"
  by (cases "es ! t" rule: emit_slot.cases) (auto simp: emitted_def)

lemma concat_emitted: "concat (map (emitted es) [0..<n]) = concat (map emit_slot (take n es))"
proof (induction n)
  case (Suc n)
  then show ?case by (cases "n < length es") (simp_all add: emitted_emit_slot take_Suc_conv_app_nth)
qed simp

lemma expand_order_emits: "expand_order ord = Inr es \<Longrightarrow> concat (map emit_slot es) = ord"
  by (induction ord arbitrary: es rule: expand_order.induct)
    (auto simp: bind_res_Inr_iff split: if_splits list.splits)

lemma schedulable_overlap:
  assumes "schedulable R S style rank s" and "is_overlap (step_type s)"
  obtains a b where "sub_steps s = Some [a, b]"
    and "compute_leaf R S style rank a" and "compute_leaf R S style rank b"
  using assms by (auto simp: schedulable_def split: option.splits list.splits)

lemma schedulable_leaf:
  "schedulable R S style rank s \<Longrightarrow> \<not> is_overlap (step_type s) \<Longrightarrow> compute_leaf R S style rank s"
  by (simp add: schedulable_def)

lemma expand_order_slots:
  assumes "expand_order ord = Inr es" and "\<forall>s \<in> set (somes ord). schedulable R S style rank s"
    and "Some item \<in> set es"
  shows "compute_leaf R S style rank (slot_step item)"
  using assms
proof (induction ord arbitrary: es rule: expand_order.induct)
  case (3 op ops)
  from 3(4) have op: "schedulable R S style rank op"
    and rest: "\<forall>s \<in> set (somes ops). schedulable R S style rank s" by auto
  show ?case
  proof (cases "is_overlap (step_type op)")
    case True
    with op obtain a b where ab: "sub_steps op = Some [a, b]"
      "compute_leaf R S style rank a" "compute_leaf R S style rank b" by (rule schedulable_overlap)
    with True 3(3) obtain es' where es': "expand_order ops = Inr es'"
      and es: "es = Some (OverlapPhantom op a True) # Some (OverlapPhantom op b False) # es'"
      by (auto simp: bind_res_Inr_iff)
    from es 3(5) consider "item = OverlapPhantom op a True" | "item = OverlapPhantom op b False"
      | "Some item \<in> set es'" by auto
    then show ?thesis
      using ab 3(1) [OF _ _ _ es' rest] True by cases (auto simp: slot_step_def)
  next
    case False
    with 3(3) obtain es' where es': "expand_order ops = Inr es'" and es: "es = Some (Plain op) # es'"
      by (auto simp: bind_res_Inr_iff)
    from es 3(5) consider "item = Plain op" | "Some item \<in> set es'" by auto
    then show ?thesis
      using schedulable_leaf [OF op False] 3(2) [OF _ es' rest] False
      by cases (auto simp: slot_step_def)
  qed
qed (auto simp: bind_res_Inr_iff)

lemma expand_order_total:
  "\<forall>s \<in> set (somes ord). schedulable R S style rank s \<Longrightarrow> \<exists>es. expand_order ord = Inr es"
proof (induction ord)
  case (Cons x ops)
  then obtain es where es: "expand_order ops = Inr es" by (cases x) auto
  show ?case
  proof (cases x)
    case (Some op)
    show ?thesis
    proof (cases "is_overlap (step_type op)")
      case True
      with Cons.prems Some obtain a b where "sub_steps op = Some [a, b]"
        by (auto elim: schedulable_overlap)
      with True es Some show ?thesis by simp
    qed (use es Some in simp)
  qed (use es in simp)
qed simp

lemma expand_overlap_slots_nth:
  assumes "expand_overlap_slots scheduler R = Inr expanded"
  shows "map fst expanded = py_range 0 R"
    and "0 \<le> r \<Longrightarrow> r < R \<Longrightarrow>
           \<exists>ord. map_of scheduler r = Some ord \<and> expand_order ord = Inr (dict_list expanded r)"
proof -
  note len = map_res_Inr_length [OF assms [unfolded expand_overlap_slots_def]]
  have nth: "\<exists>ord. map_of scheduler (int i) = Some ord \<and> expand_order ord = Inr (snd (expanded ! i)) \<and>
                  fst (expanded ! i) = int i" if "i < length expanded" for i
  proof -
    have "i < length (py_range 0 R)" using that len by simp
    from map_res_Inr_nth [OF assms [unfolded expand_overlap_slots_def] this] that len
    obtain ord es where "map_of scheduler (int i) = Some ord" "expand_order ord = Inr es"
      and "(int i, es) = expanded ! i"
      by (auto simp: bind_res_Inr_iff dict_get_Inr_iff)
    then show ?thesis by (metis fst_conv snd_conv)
  qed
  have fsts: "map fst expanded = py_range 0 R"
    by (rule nth_equalityI) (use nth len in \<open>auto simp: len\<close>)
  then show "map fst expanded = py_range 0 R" .
  show "\<exists>ord. map_of scheduler r = Some ord \<and> expand_order ord = Inr (dict_list expanded r)"
    if "0 \<le> r" "r < R"
  proof -
    define i where "i = nat r"
    have i: "i < length expanded" "int i = r" using that len by (auto simp: i_def)
    have "(int i, snd (expanded ! i)) \<in> set expanded"
      using nth [OF i(1)] i(1) by (metis nth_mem prod.collapse)
    moreover have "distinct (map fst expanded)" by (simp add: fsts)
    ultimately have "map_of expanded r = Some (snd (expanded ! i))"
      using i(2) by (simp add: map_of_is_SomeI)
    with nth [OF i(1)] i(2) show ?thesis by (auto simp: dict_list_def)
  qed
qed

lemma for_dict_append:
  "for_res (\<lambda>x sch. dict_append sch k x) xs sch = Inr sch' \<Longrightarrow>
     map fst sch' = map fst sch \<and>
     (\<forall>r. dict_list sch' r = dict_list sch r @ (if r = k then xs else []))"
proof (induction xs arbitrary: sch)
  case (Cons x xs)
  then obtain u where "dict_append sch k x = Inr u"
    and "for_res (\<lambda>x sch. dict_append sch k x) xs u = Inr sch'" by (auto simp: bind_res_Inr_iff)
  with Cons.IH [of u] dict_append_list [of sch k x u] show ?case by auto
qed simp

lemma for_dict_append_total:
  "k \<in> set (map fst sch) \<Longrightarrow> \<exists>sch'. for_res (\<lambda>x sch. dict_append sch k x) xs sch = Inr sch'"
proof (induction xs arbitrary: sch)
  case (Cons x xs)
  obtain u where u: "dict_append sch k x = Inr u" using dict_append_total [OF Cons.prems] by blast
  with Cons.prems dict_append_list(2) [OF u] have "k \<in> set (map fst u)" by simp
  from Cons.IH [OF this] u show ?case by auto
qed simp

text \<open>The first loop of a column appends the emitted items of every rank.\<close>

lemma emit_all:
  assumes "for_res (emit_items expanded t) ranks sch = Inr sch'" and "distinct ranks"
  shows "map fst sch' = map fst sch \<and>
    (\<forall>r. dict_list sch' r = dict_list sch r @
          (if r \<in> set ranks then emitted (dict_list expanded r) t else []))"
  using assms
proof (induction ranks arbitrary: sch)
  case (Cons k ranks)
  then obtain u where u: "emit_items expanded t k sch = Inr u"
    and rest: "for_res (emit_items expanded t) ranks u = Inr sch'" by (auto simp: bind_res_Inr_iff)
  from u have "map fst u = map fst sch \<and>
      (\<forall>r. dict_list u r = dict_list sch r @ (if r = k then emitted (dict_list expanded k) t else []))"
    unfolding emit_items_def by (rule for_dict_append)
  moreover have "map fst sch' = map fst u \<and>
      (\<forall>r. dict_list sch' r = dict_list u r @
         (if r \<in> set ranks then emitted (dict_list expanded r) t else []))"
    using Cons.IH [OF rest] Cons.prems by simp
  ultimately show ?case using Cons.prems by auto
qed simp

section \<open>The column scan over any insertion\<close>

context comm_inserter
begin

lemma column_step_balanced:
  assumes step: "column_step R ins expanded t sch = Inr sch'" and bal: "balanced sch"
    and placed: "\<And>rank item. rank \<in> set (py_range 0 R) \<Longrightarrow> slot_at expanded rank t = Some item \<Longrightarrow>
           placed rank (slot_step item)"
    and quiet: "\<And>r s. Some s \<in> set (emitted (dict_list expanded r) t) \<Longrightarrow> \<not> is_transfer (step_type s)"
  shows "balanced sch' \<and> map fst sch' = map fst sch \<and>
    (\<forall>r \<in> set (py_range 0 R).
       kept (dict_list sch' r) = kept (dict_list sch r) @ emitted (dict_list expanded r) t)"
proof -
  obtain u where u: "for_res (emit_items expanded t) (py_range 0 R) sch = Inr u"
    and v: "process_rank_items R ins expanded t u = Inr sch'"
    using step by (auto simp: column_step_def bind_res_Inr_iff)
  note emit = emit_all [OF u distinct_py_range]
  have none: "sent d s = [] \<and> received d s = []"
    if "s \<in> set (somes (emitted (dict_list expanded r) t))" for r d s
    using quiet silent that by auto
  have "concat (map (sent d) (somes (dict_list u r))) = concat (map (sent d) (somes (dict_list sch r)))"
    "concat (map (received d) (somes (dict_list u r))) =
       concat (map (received d) (somes (dict_list sch r)))" for d r
    using emit none [of _ r d] by auto
  with bal have bal_u: "balanced u" by (simp add: balanced_def)
  have "kept (emitted (dict_list expanded r) t) = emitted (dict_list expanded r) t" for r
    unfolding kept_def by (rule filter_True) (use quiet in \<open>auto split: option.splits\<close>)
  then have kept_u: "\<forall>r \<in> set (py_range 0 R).
      kept (dict_list u r) = kept (dict_list sch r) @ emitted (dict_list expanded r) t"
    using emit by simp
  from process_balanced [OF v bal_u placed] kept_u emit show ?thesis by simp
qed

lemma columns_balanced:
  assumes "for_res (column_step R ins expanded) [0..<n] sch = Inr sch'" and "balanced sch"
    and "\<And>rank item t. rank \<in> set (py_range 0 R) \<Longrightarrow> slot_at expanded rank t = Some item \<Longrightarrow>
           placed rank (slot_step item)"
    and "\<And>r s t. Some s \<in> set (emitted (dict_list expanded r) t) \<Longrightarrow> \<not> is_transfer (step_type s)"
  shows "balanced sch' \<and> map fst sch' = map fst sch \<and>
    (\<forall>r \<in> set (py_range 0 R). kept (dict_list sch' r) =
       kept (dict_list sch r) @ concat (map (emitted (dict_list expanded r)) [0..<n]))"
  using assms(1)
proof (induction n arbitrary: sch')
  case 0
  with assms(2) show ?case by simp
next
  case (Suc n)
  then obtain u where u: "for_res (column_step R ins expanded) [0..<n] sch = Inr u"
    and step: "column_step R ins expanded n u = Inr sch'"
    by (auto simp: for_res_append bind_res_Inr_iff)
  note IH = Suc.IH [OF u]
  from IH have "balanced u" by blast
  from column_step_balanced [OF step this assms(3,4)] IH show ?case by simp
qed

end

section \<open>The contract holds for the code's insertion\<close>

lemma fwd_peer_Some:
  assumes "fwd_peer R S style si = Inr (Some peer)"
  shows "stage_to_rank R S style (si + 1) = Inr peer" and "stage_to_rank R S style si \<noteq> Inr peer"
  using assms by (auto simp: fwd_peer_def bind_res_Inr_iff split: if_splits)

lemma bwd_peer_Some:
  assumes "bwd_peer R S style si = Inr (Some peer)"
  shows "stage_to_rank R S style (si - 1) = Inr peer" and "stage_to_rank R S style si \<noteq> Inr peer"
  using assms by (auto simp: bwd_peer_def bind_res_Inr_iff split: if_splits)

lemma append_fwd_appended:
  assumes "append_fwd_comms m si rank peer sch = Inr sch'"
  shows "appended sch sch' (\<lambda>r.
    (if r = rank then [leaf_step m DATA_SEND (Some si), leaf_step m FWD_SEND (Some si)] else []) @
    (if r = peer then [leaf_step m DATA_RECV (Some (si + 1)), leaf_step m FWD_RECV (Some (si + 1))]
     else []))"
proof -
  from assms obtain a b c where
    "dict_append sch rank (Some (leaf_step m DATA_SEND (Some si))) = Inr a"
    "dict_append a rank (Some (leaf_step m FWD_SEND (Some si))) = Inr b"
    "dict_append b peer (Some (leaf_step m DATA_RECV (Some (si + 1)))) = Inr c"
    "dict_append c peer (Some (leaf_step m FWD_RECV (Some (si + 1)))) = Inr sch'"
    by (auto simp: append_fwd_comms_def bind_res_Inr_iff)
  from this [THEN dict_append_list(1)] this [THEN dict_append_list(2)]
  show ?thesis by (simp add: appended_def)
qed

lemma append_bwd_appended:
  assumes "append_bwd_comms m si rank peer sch = Inr sch'"
  shows "appended sch sch' (\<lambda>r.
    (if r = rank then [leaf_step m BWD_SEND (Some si)] else []) @
    (if r = peer then [leaf_step m BWD_RECV (Some (si - 1))] else []))"
proof -
  from assms obtain a where
    "dict_append sch rank (Some (leaf_step m BWD_SEND (Some si))) = Inr a"
    "dict_append a peer (Some (leaf_step m BWD_RECV (Some (si - 1)))) = Inr sch'"
    by (auto simp: append_bwd_comms_def bind_res_Inr_iff)
  from this [THEN dict_append_list(1)] this [THEN dict_append_list(2)]
  show ?thesis by (simp add: appended_def)
qed

lemma insert_leaf_cases:
  assumes "insert_comms_for_step R S style s rank sch = Inr sch'" and "compute_leaf R S style rank s"
  obtains (none) "sch' = sch"
  | (fwd) si peer where "stage_index s = Some si" and "fwd_peer R S style si = Inr (Some peer)"
      and "stage_to_rank R S style si = Inr rank"
      and "append_fwd_comms (micro_index s) si rank peer sch = Inr sch'"
  | (bwd) si peer where "stage_index s = Some si" and "bwd_peer R S style si = Inr (Some peer)"
      and "stage_to_rank R S style si = Inr rank"
      and "append_bwd_comms (micro_index s) si rank peer sch = Inr sch'"
  using assms by (cases s)
    (auto simp: compute_leaf_def bind_res_Inr_iff split: option.splits if_splits)

lemma insert_appends:
  assumes "insert_comms_for_step R S style s rank sch = Inr sch'" and "compute_leaf R S style rank s"
  shows "\<exists>delta. appended sch sch' delta \<and>
    (\<forall>r. \<forall>x \<in> set (delta r). is_transfer (step_type x)) \<and>
    (\<forall>src dst. concat (map (send_msgs R S style dst) (delta src)) =
               concat (map (recv_msgs R S style src) (delta dst)))"
  using assms
proof (cases rule: insert_leaf_cases)
  case none
  then show ?thesis by (intro exI [of _ "\<lambda>r. []"]) (simp add: appended_def)
next
  case (fwd si peer)
  with append_fwd_appended [OF fwd(4)] fwd_peer_Some [OF fwd(2)] show ?thesis
    by (intro exI conjI) (auto simp: is_transfer_def send_msgs_def recv_msgs_def)
next
  case (bwd si peer)
  with append_bwd_appended [OF bwd(4)] bwd_peer_Some [OF bwd(2)] show ?thesis
    by (intro exI conjI) (auto simp: is_transfer_def send_msgs_def recv_msgs_def)
qed

interpretation scan: comm_inserter "insert_comms_for_step R S style" "compute_leaf R S style"
    "send_msgs R S style" "recv_msgs R S style" for R S style
  by unfold_locales (auto intro: insert_appends simp: silent_msgs)

section \<open>The pass on well-placed schedules\<close>

lemma slot_in_expanded:
  assumes "expand_overlap_slots scheduler R = Inr expanded" and "well_placed R S style scheduler"
    and "rank \<in> set (py_range 0 R)" and "slot_at expanded rank t = Some item"
  shows "compute_leaf R S style rank (slot_step item)"
proof -
  from assms(3) have r: "0 \<le> rank" "rank < R" by simp_all
  from expand_overlap_slots_nth(2) [OF assms(1) r] obtain ord where
    ord: "map_of scheduler rank = Some ord" "expand_order ord = Inr (dict_list expanded rank)" by blast
  have "\<forall>s \<in> set (somes ord). schedulable R S style rank s"
    using assms(2,3) ord(1) unfolding well_placed_def by (auto simp: dict_list_def)
  moreover have "Some item \<in> set (dict_list expanded rank)"
    using assms(4) by (auto simp: slot_at_def Let_def split: if_splits) (metis nth_mem)
  ultimately show ?thesis using expand_order_slots [OF ord(2)] by blast
qed

lemma dict_list_expanded_outside:
  assumes "expand_overlap_slots scheduler R = Inr expanded" and "\<not> (0 \<le> r \<and> r < R)"
  shows "dict_list expanded r = []"
proof -
  have "r \<notin> fst ` set expanded"
    using expand_overlap_slots_nth(1) [OF assms(1)] assms(2)
    by (metis atLeastLessThan_iff list.set_map set_py_range)
  then have "map_of expanded r = None" by (simp add: map_of_eq_None_iff)
  then show ?thesis by (simp add: dict_list_def)
qed

lemma emitted_quiet:
  assumes "expand_overlap_slots scheduler R = Inr expanded" and "well_placed R S style scheduler"
    and "Some s \<in> set (emitted (dict_list expanded r) t)"
  shows "\<not> is_transfer (step_type s)"
proof -
  have "dict_list expanded r \<noteq> []" using assms(3) by (auto simp: emitted_def)
  then have r: "0 \<le> r" "r < R" using dict_list_expanded_outside [OF assms(1)] by blast+
  from expand_overlap_slots_nth(2) [OF assms(1) r] obtain ord where
    ord: "map_of scheduler r = Some ord" "expand_order ord = Inr (dict_list expanded r)" by blast
  have "Some s \<in> set (concat (map emit_slot (dict_list expanded r)))"
    using assms(3) by (auto simp: emitted_emit_slot split: if_splits)
  then have "Some s \<in> set ord" using expand_order_emits [OF ord(2)] by simp
  then have "schedulable R S style r s"
    using assms(2) ord(1) r unfolding well_placed_def by (auto simp: dict_list_def)
  then show ?thesis by (rule schedulable_not_transfer)
qed

lemma kept_insert_loads: "kept (insert_loads ord) = kept ord"
proof (induction ord)
  case (Cons x ord)
  have "kept (map Some (loads_for x)) = []"
    by (rule kept_transfers) (auto simp: loads_for_def is_transfer_def split: option.splits if_splits)
  with Cons show ?case by (simp add: insert_loads_def) (simp add: kept_def)
qed (simp add: insert_loads_def)

lemma chan_insert_loads:
  "chan_sends R S style (insert_loads ord) d = chan_sends R S style ord d"
  "chan_recvs R S style (insert_loads ord) d = chan_recvs R S style ord d"
proof -
  have *: "send_msgs R S style d y = [] \<and> recv_msgs R S style d y = []"
    if "y \<in> set (loads_for x)" for x y
    using that by (auto simp: loads_for_def load_msgs split: option.splits if_splits)
  have "chan_sends R S style (insert_loads ord) d = chan_sends R S style ord d \<and>
        chan_recvs R S style (insert_loads ord) d = chan_recvs R S style ord d"
  proof (induction ord)
    case (Cons x ord)
    then show ?case using * [of _ x] by (cases x) (auto simp: insert_loads_def chan_sends_def chan_recvs_def)
  qed (simp add: insert_loads_def)
  then show "chan_sends R S style (insert_loads ord) d = chan_sends R S style ord d"
    and "chan_recvs R S style (insert_loads ord) d = chan_recvs R S style ord d" by blast+
qed

lemma dict_list_insert_dataload:
  "dict_list (insert_dataload_before_fwd sch) r = insert_loads (dict_list sch r)"
  by (simp add: insert_dataload_before_fwd_def dict_list_def insert_loads_def split: option.splits)

lemma channels_matched_balanced: "channels_matched R S style sch \<longleftrightarrow> scan.balanced R S style sch"
  by (simp add: channels_matched_def scan.balanced_def chan_sends_def chan_recvs_def)

lemma add_send_recv_scan:
  assumes pass: "add_send_recv scheduler S R style = Inr out" and placed: "well_placed R S style scheduler"
  obtains sch where "out = insert_dataload_before_fwd sch" and "channels_matched R S style sch"
    and "map fst sch = py_range 0 R"
    and "\<forall>r \<in> set (py_range 0 R). kept (dict_list sch r) = dict_list scheduler r"
proof -
  obtain expanded sch where e: "expand_overlap_slots scheduler R = Inr expanded"
    and c: "column_scan_insert_comms expanded R (insert_comms_for_step R S style) = Inr sch"
    and out: "out = insert_dataload_before_fwd sch"
    using pass by (auto simp: add_send_recv_def bind_res_Inr_iff)
  define n where "n = Max (set (map (\<lambda>(_, es). length es) expanded))"
  define start :: exec_order where "start = map (\<lambda>rank. (rank, [])) (py_range 0 R)"
  have nil: "dict_list start r = []" for r
    by (auto simp: start_def dict_list_def map_of_map_pair)
  have keys: "map fst start = py_range 0 R" by (simp add: start_def comp_def)
  have run: "for_res (column_step R (insert_comms_for_step R S style) expanded) [0..<n] start = Inr sch"
    using c by (simp add: column_scan_insert_comms_def n_def start_def split: if_splits)
  have bal: "scan.balanced R S style start" by (simp add: scan.balanced_def nil)
  note scan = scan.columns_balanced [OF run bal slot_in_expanded [OF e placed] emitted_quiet [OF e placed]]
  have "kept (dict_list sch r) = dict_list scheduler r" if r: "r \<in> set (py_range 0 R)" for r
  proof -
    from r have "0 \<le> r" "r < R" by simp_all
    from expand_overlap_slots_nth(2) [OF e this] obtain ord where
      ord: "map_of scheduler r = Some ord" "expand_order ord = Inr (dict_list expanded r)" by blast
    have "r \<in> fst ` set expanded" using expand_overlap_slots_nth(1) [OF e] r by (metis list.set_map)
    then have "map_of expanded r \<noteq> None" by (simp add: map_of_eq_None_iff)
    then obtain es where es: "map_of expanded r = Some es" by blast
    then have "length es \<in> set (map (\<lambda>(_, es). length es) expanded)"
      by (force dest: map_of_SomeD)
    then have "length es \<le> n" unfolding n_def by (rule Max_ge [OF finite_set])
    with es have "take n (dict_list expanded r) = dict_list expanded r" by (simp add: dict_list_def)
    with scan r expand_order_emits [OF ord(2)] have "kept (dict_list sch r) = ord"
      by (simp add: concat_emitted nil kept_def)
    with ord(1) show ?thesis by (simp add: dict_list_def)
  qed
  with that [OF out] scan keys channels_matched_balanced show ?thesis by auto
qed

subsection \<open>The pass returns\<close>

text \<open>
  The topologies on which every peer is one of the ranks: the loop, and the V of at most two chunks.
\<close>

definition closed_topology :: "int \<Rightarrow> int \<Rightarrow> string \<Rightarrow> bool" where
  "closed_topology R S style \<longleftrightarrow> 0 < R \<and> (style = ''loop'' \<or> (style = ''v'' \<and> S \<le> 2 * R))"

lemma fwd_peer_closed:
  assumes "closed_topology R S style" and "stage_to_rank R S style si = Inr rank"
    and "0 \<le> rank" and "rank < R"
  shows "\<exists>p. fwd_peer R S style si = Inr p \<and> (\<forall>peer. p = Some peer \<longrightarrow> 0 \<le> peer \<and> peer < R)"
  using assms by (auto simp: closed_topology_def fwd_peer_def stage_to_rank_def split: if_splits)

lemma bwd_peer_closed:
  assumes "closed_topology R S style" and "stage_to_rank R S style si = Inr rank"
    and "0 \<le> rank" and "rank < R"
  shows "\<exists>p. bwd_peer R S style si = Inr p \<and> (\<forall>peer. p = Some peer \<longrightarrow> 0 \<le> peer \<and> peer < R)"
  using assms by (auto simp: closed_topology_def bwd_peer_def stage_to_rank_def split: if_splits)

lemma append_fwd_total:
  assumes "rank \<in> set (map fst sch)" and "peer \<in> set (map fst sch)"
  shows "\<exists>sch'. append_fwd_comms m si rank peer sch = Inr sch' \<and> map fst sch' = map fst sch"
proof -
  obtain a where a: "dict_append sch rank (Some (leaf_step m DATA_SEND (Some si))) = Inr a"
    using dict_append_total [OF assms(1)] by blast
  note ka = dict_append_list(2) [OF a]
  obtain b where b: "dict_append a rank (Some (leaf_step m FWD_SEND (Some si))) = Inr b"
    using dict_append_total assms(1) ka by metis
  note kb = dict_append_list(2) [OF b]
  obtain c where c: "dict_append b peer (Some (leaf_step m DATA_RECV (Some (si + 1)))) = Inr c"
    using dict_append_total assms(2) ka kb by metis
  note kc = dict_append_list(2) [OF c]
  obtain d where d: "dict_append c peer (Some (leaf_step m FWD_RECV (Some (si + 1)))) = Inr d"
    using dict_append_total assms(2) ka kb kc by metis
  show ?thesis using a b c d ka kb kc dict_append_list(2) [OF d] by (simp add: append_fwd_comms_def)
qed

lemma append_bwd_total:
  assumes "rank \<in> set (map fst sch)" and "peer \<in> set (map fst sch)"
  shows "\<exists>sch'. append_bwd_comms m si rank peer sch = Inr sch' \<and> map fst sch' = map fst sch"
proof -
  obtain a where a: "dict_append sch rank (Some (leaf_step m BWD_SEND (Some si))) = Inr a"
    using dict_append_total [OF assms(1)] by blast
  note ka = dict_append_list(2) [OF a]
  obtain b where b: "dict_append a peer (Some (leaf_step m BWD_RECV (Some (si - 1)))) = Inr b"
    using dict_append_total assms(2) ka by metis
  show ?thesis using a b ka dict_append_list(2) [OF b] by (simp add: append_bwd_comms_def)
qed

lemma insert_total:
  assumes "closed_topology R S style" and "compute_leaf R S style rank s"
    and "0 \<le> rank" and "rank < R" and "set (map fst sch) = set (py_range 0 R)"
  shows "\<exists>sch'. insert_comms_for_step R S style s rank sch = Inr sch' \<and> map fst sch' = map fst sch"
proof -
  from assms(2) obtain si where si: "stage_index s = Some si" "stage_to_rank R S style si = Inr rank"
    and t: "step_type s = FWD \<or> step_type s = BWD" by (auto simp: compute_leaf_def split: option.splits)
  obtain pf where pf: "fwd_peer R S style si = Inr pf"
    "\<forall>peer. pf = Some peer \<longrightarrow> peer \<in> set (map fst sch)"
    using fwd_peer_closed [OF assms(1) si(2) assms(3,4)] assms(5) by auto
  obtain pb where pb: "bwd_peer R S style si = Inr pb"
    "\<forall>peer. pb = Some peer \<longrightarrow> peer \<in> set (map fst sch)"
    using bwd_peer_closed [OF assms(1) si(2) assms(3,4)] assms(5) by auto
  have own: "rank \<in> set (map fst sch)" using assms(3-5) by simp
  show ?thesis
    using si t pf pb append_fwd_total [OF own] append_bwd_total [OF own]
    by (cases s; cases pf; cases pb) auto
qed

lemma for_res_total:
  assumes "P s" and "\<And>x u. x \<in> set xs \<Longrightarrow> P u \<Longrightarrow> \<exists>v. body x u = Inr v \<and> P v"
  shows "\<exists>t. for_res body xs s = Inr t \<and> P t"
  using assms
proof (induction xs arbitrary: s)
  case (Cons x xs)
  from Cons.prems(2) [of x s] Cons.prems(1) obtain v where "body x s = Inr v" "P v" by auto
  with Cons.IH [of v] Cons.prems(2) show ?case by auto
qed simp

lemma column_step_total:
  assumes top: "closed_topology R S style" and placed: "well_placed R S style scheduler"
    and e: "expand_overlap_slots scheduler R = Inr expanded" and keys: "map fst sch = py_range 0 R"
  shows "\<exists>sch'. column_step R (insert_comms_for_step R S style) expanded t sch = Inr sch' \<and>
    map fst sch' = py_range 0 R"
proof -
  obtain u where u: "for_res (emit_items expanded t) (py_range 0 R) sch = Inr u" "map fst u = py_range 0 R"
  proof -
    have "\<exists>u. for_res (emit_items expanded t) (py_range 0 R) sch = Inr u \<and> map fst u = py_range 0 R"
    proof (rule for_res_total [where P = "\<lambda>u :: exec_order. map fst u = py_range 0 R", OF keys])
      fix k and v :: exec_order assume k: "k \<in> set (py_range 0 R)" and v: "map fst v = py_range 0 R"
      with for_dict_append_total [of k v] obtain w where "emit_items expanded t k v = Inr w"
        unfolding emit_items_def by (metis (no_types, lifting))
      moreover from this v have "map fst w = py_range 0 R"
        unfolding emit_items_def using for_dict_append by metis
      ultimately show "\<exists>w. emit_items expanded t k v = Inr w \<and> map fst w = py_range 0 R" by blast
    qed
    with that show thesis by blast
  qed
  have "\<exists>w. process_rank_items R (insert_comms_for_step R S style) expanded t u = Inr w \<and>
            map fst w = py_range 0 R"
    unfolding process_rank_items_def
  proof (rule for_res_total [where P = "\<lambda>w :: exec_order. map fst w = py_range 0 R", OF u(2)])
    fix k and v :: exec_order assume k: "k \<in> set (scan_ranks R)" and v: "map fst v = py_range 0 R"
    then have k': "k \<in> set (py_range 0 R)" by (auto simp: scan_ranks_def)
    show "\<exists>w. process_item (insert_comms_for_step R S style) expanded t k v = Inr w \<and>
              map fst w = py_range 0 R"
    proof (cases "slot_at expanded k t")
      case None
      with v show ?thesis by (simp add: process_item_def)
    next
      case (Some item)
      with insert_total [OF top slot_in_expanded [OF e placed k' Some], of v] k' v show ?thesis
        by (auto simp: process_item_def)
    qed
  qed
  with u show ?thesis by (auto simp: column_step_def)
qed

lemma add_send_recv_total:
  assumes top: "closed_topology R S style" and placed: "well_placed R S style scheduler"
  shows "\<exists>out. add_send_recv scheduler S R style = Inr out"
proof -
  from top have R: "0 < R" by (simp add: closed_topology_def)
  have "\<exists>exp. bind_res (dict_get scheduler r) (\<lambda>ord. bind_res (expand_order ord) (\<lambda>es. Inr (r, es))) = Inr exp"
    if "r \<in> set (py_range 0 R)" for r
  proof -
    from placed that have "map_of scheduler r \<noteq> None"
      and all: "\<forall>s \<in> set (somes (dict_list scheduler r)). schedulable R S style r s"
      unfolding well_placed_def by blast+
    then obtain ord where ord: "map_of scheduler r = Some ord" by blast
    with all have "\<forall>s \<in> set (somes ord). schedulable R S style r s" by (simp add: dict_list_def)
    then obtain es where "expand_order ord = Inr es" using expand_order_total by blast
    with ord show ?thesis by (simp add: dict_get_def)
  qed
  then obtain f where f: "\<And>r. r \<in> set (py_range 0 R) \<Longrightarrow>
      bind_res (dict_get scheduler r) (\<lambda>ord. bind_res (expand_order ord) (\<lambda>es. Inr (r, es))) = Inr (f r)"
    by metis
  have e: "expand_overlap_slots scheduler R = Inr (map f (py_range 0 R))"
    unfolding expand_overlap_slots_def by (rule map_res_total [OF f])
  have ne: "map f (py_range 0 R) \<noteq> []" using R by (simp add: py_range_Cons)
  have "\<exists>sch. for_res (column_step R (insert_comms_for_step R S style) (map f (py_range 0 R))) ts
              (map (\<lambda>rank. (rank, [])) (py_range 0 R)) = Inr sch \<and> map fst sch = py_range 0 R" for ts
    by (rule for_res_total) (auto simp: comp_def intro: column_step_total [OF top placed e])
  then obtain sch where "for_res (column_step R (insert_comms_for_step R S style) (map f (py_range 0 R)))
      [0..<Max (set (map (\<lambda>(_, es). length es) (map f (py_range 0 R))))]
      (map (\<lambda>rank. (rank, [])) (py_range 0 R)) = Inr sch" by blast
  with e ne show ?thesis by (simp add: add_send_recv_def column_scan_insert_comms_def)
qed

section \<open>Invariants of the scan\<close>

text \<open>
  An invariant of the growing schedule holds of the finished one when the appending of a scheduled
  step and the insertion of a placed step's transfers keep it.
\<close>

lemma scan_invariant:
  assumes pass: "add_send_recv scheduler S R style = Inr out"
    and placed: "well_placed R S style scheduler"
    and init: "\<And>start :: exec_order. (\<And>r. dict_list start r = []) \<Longrightarrow> Q start"
    and emit: "\<And>u v r x. Q u \<Longrightarrow> x \<in> set (dict_list scheduler r) \<Longrightarrow>
        (\<And>s. x = Some s \<Longrightarrow> schedulable R S style r s) \<Longrightarrow> dict_append u r x = Inr v \<Longrightarrow> Q v"
    and insert: "\<And>u v r s. Q u \<Longrightarrow> compute_leaf R S style r s \<Longrightarrow>
        insert_comms_for_step R S style s r u = Inr v \<Longrightarrow> Q v"
  obtains sch where "out = insert_dataload_before_fwd sch" and "Q sch"
proof -
  obtain expanded sch where e: "expand_overlap_slots scheduler R = Inr expanded"
    and c: "column_scan_insert_comms expanded R (insert_comms_for_step R S style) = Inr sch"
    and out: "out = insert_dataload_before_fwd sch"
    using pass by (auto simp: add_send_recv_def bind_res_Inr_iff)
  define start :: exec_order where "start = map (\<lambda>rank. (rank, [])) (py_range 0 R)"
  have nil: "dict_list start r = []" for r
    by (auto simp: start_def dict_list_def map_of_map_pair)
  obtain n where run:
    "for_res (column_step R (insert_comms_for_step R S style) expanded) [0..<n] start = Inr sch"
    using c by (auto simp: column_scan_insert_comms_def start_def split: if_splits)
  have items: "x \<in> set (dict_list scheduler r) \<and> (\<forall>s. x = Some s \<longrightarrow> schedulable R S style r s)"
    if "x \<in> set (emitted (dict_list expanded r) t)" for x r t
  proof -
    have "dict_list expanded r \<noteq> []" using that by (auto simp: emitted_def)
    then have r: "0 \<le> r" "r < R" using dict_list_expanded_outside [OF e] by blast+
    from expand_overlap_slots_nth(2) [OF e r] obtain ord where
      ord: "map_of scheduler r = Some ord" "expand_order ord = Inr (dict_list expanded r)" by blast
    have "x \<in> set (concat (map emit_slot (dict_list expanded r)))"
      using that by (auto simp: emitted_emit_slot split: if_splits)
    then have "x \<in> set ord" using expand_order_emits [OF ord(2)] by simp
    with placed ord(1) r show ?thesis unfolding well_placed_def by (auto simp: dict_list_def)
  qed
  have column: "Q v" if u: "Q u" and step: "column_step R (insert_comms_for_step R S style) expanded t u = Inr v"
    for t u v
  proof -
    obtain w where w: "for_res (emit_items expanded t) (py_range 0 R) u = Inr w"
      and pr: "process_rank_items R (insert_comms_for_step R S style) expanded t w = Inr v"
      using step by (auto simp: column_step_def bind_res_Inr_iff)
    have "Q w"
    proof (rule for_res_invariant [OF w, where P = Q, OF u])
      fix r a b
      assume a: "Q a" and ab: "emit_items expanded t r a = Inr b"
      show "Q b"
      proof (rule for_res_invariant [OF ab [unfolded emit_items_def], where P = Q, OF a])
        fix x c d
        assume x: "x \<in> set (emitted (dict_list expanded r) t)" and c: "Q c"
          and cd: "dict_append c r x = Inr d"
        note it = items [OF x]
        show "Q d" by (rule emit [OF c _ _ cd]) (use it in simp_all)
      qed
    qed
    show "Q v"
    proof (rule for_res_invariant [OF pr [unfolded process_rank_items_def], where P = Q, OF \<open>Q w\<close>])
      fix r a b
      assume r: "r \<in> set (scan_ranks R)" and a: "Q a"
        and ab: "process_item (insert_comms_for_step R S style) expanded t r a = Inr b"
      have rs: "r \<in> set (py_range 0 R)" using r by (auto simp: scan_ranks_def)
      show "Q b"
      proof (cases "slot_at expanded r t")
        case None
        with a ab show ?thesis by (simp add: process_item_def)
      next
        case (Some item)
        with ab have "insert_comms_for_step R S style (slot_step item) r a = Inr b"
          by (simp add: process_item_def)
        with insert [OF a slot_in_expanded [OF e placed rs Some]] show ?thesis by blast
      qed
    qed
  qed
  have "Q sch"
    by (rule for_res_invariant [OF run, where P = Q, OF init [OF nil]]) (use column in blast)
  with that out show ?thesis by blast
qed

section \<open>Properties of the insertion\<close>

text \<open>
  C1: on a schedule whose compute steps lie on the ranks that own their stages, \<open>add_send_recv\<close>
  returns, and in its result every channel is matched: the sequence of messages a rank sends to
  another (with kind, receiving stage and micro-batch) is the sequence the other one receives, so
  the n-th send of a channel pairs with its n-th receive. Without the inserted steps the schedule of
  every rank is the one that went in.
\<close>

theorem add_send_recv_correct:
  assumes "closed_topology R S style" and "well_placed R S style scheduler"
  shows "\<exists>out. add_send_recv scheduler S R style = Inr out \<and> channels_matched R S style out \<and>
    (\<forall>r \<in> set (py_range 0 R). kept (dict_list out r) = dict_list scheduler r)"
proof -
  obtain out where out: "add_send_recv scheduler S R style = Inr out"
    using add_send_recv_total [OF assms] by blast
  obtain sch where sch: "out = insert_dataload_before_fwd sch" "channels_matched R S style sch"
    "\<forall>r \<in> set (py_range 0 R). kept (dict_list sch r) = dict_list scheduler r"
    using add_send_recv_scan [OF out assms(2)] by metis
  have "channels_matched R S style out"
    using sch(2) by (simp add: channels_matched_def sch(1) dict_list_insert_dataload chan_insert_loads)
  moreover have "\<forall>r \<in> set (py_range 0 R). kept (dict_list out r) = dict_list scheduler r"
    using sch(3) by (simp add: sch(1) dict_list_insert_dataload kept_insert_loads)
  ultimately show ?thesis using out by blast
qed

theorem add_send_recv_correct_witness:
  "\<exists>out. add_send_recv
      [(0, [Some (mstep 0 FWD 0), None, Some (mstep 0 BWD 0)]),
       (1, [None, Some (mstep 0 FWD 1), Some (mstep 0 BWD 1)])] 2 2 ''loop'' = Inr out \<and>
    channels_matched 2 2 ''loop'' out \<and>
    (\<forall>r \<in> set (py_range 0 2). kept (dict_list out r) =
      dict_list [(0, [Some (mstep 0 FWD 0), None, Some (mstep 0 BWD 0)]),
                 (1, [None, Some (mstep 0 FWD 1), Some (mstep 0 BWD 1)])] r)"
  by (rule add_send_recv_correct)
    (simp_all add: closed_topology_def well_placed_def schedulable_def compute_leaf_def
      is_overlap_def stage_to_rank_def dict_list_def ball_py_range del: set_py_range)

end
