(* ===== verification/P2p_Passes.thy ===== *)
theory P2p_Passes
  imports Send_Recv_Channels "HOL-Library.Multiset"
begin

text \<open>
  The rewriting passes over a finished execution order (core/pipeline_parallel/scheduler.py):
  \<open>coalesce_p2p\<close>, \<open>attach_fwd_boundary_p2p\<close> with its helpers, and \<open>split_overlap_dxdw\<close>.

  Each pass works on one rank at a time, so each is a function on \<open>order\<close> lifted to the dictionary.
  The order in which the transfers of a rank leave is the list \<open>issue_order\<close>: it opens the
  coalesced batches and the boundary operations hung on an overlap.
\<close>

section \<open>Coalescing contiguous transfers\<close>

definition is_p2p :: "meta_step_type \<Rightarrow> bool" where
  "is_p2p t \<longleftrightarrow> t \<in> {FWD_SEND, FWD_RECV, BWD_SEND, BWD_RECV}"

definition flush_run :: "meta_step list \<Rightarrow> order" where
  "flush_run run =
     (if 2 \<le> length run then [Some (MetaStep None BATCH_SEND_RECV None (Some run) None)]
      else map Some run)"

fun coalesce_loop :: "meta_step list \<Rightarrow> order \<Rightarrow> order" where
  "coalesce_loop run [] = flush_run run"
| "coalesce_loop run (None # steps) = flush_run run @ None # coalesce_loop [] steps"
| "coalesce_loop run (Some s # steps) =
     (if is_p2p (step_type s) then coalesce_loop (run @ [s]) steps
      else flush_run run @ Some s # coalesce_loop [] steps)"

definition coalesce_order :: "order \<Rightarrow> order" where
  "coalesce_order ord = coalesce_loop [] ord"

definition coalesce_p2p :: "exec_order \<Rightarrow> exec_order" where
  "coalesce_p2p exec = dict_map coalesce_order exec"

section \<open>Boundary transfers of an overlap\<close>

text \<open>\<open>_p2p_run_after\<close>, on the suffix that starts at the given index: the run and what follows.\<close>

fun p2p_run_after :: "order \<Rightarrow> meta_step list \<times> order" where
  "p2p_run_after (Some s # steps) =
     (if is_p2p (step_type s) then (let (run, rest) = p2p_run_after steps in (s # run, rest))
      else ([], Some s # steps))"
| "p2p_run_after steps = ([], steps)"

definition is_recv :: "meta_step_type \<Rightarrow> bool" where
  "is_recv t \<longleftrightarrow> t \<in> {FWD_RECV, BWD_RECV}"

definition fwd_sub_step :: "meta_step \<Rightarrow> meta_step option" where
  "fwd_sub_step step =
     (case sub_steps step of None \<Rightarrow> None | Some xs \<Rightarrow> List.find (\<lambda>s. step_type s = FWD) xs)"

definition is_own_fwd_send :: "meta_step \<Rightarrow> meta_step \<Rightarrow> bool" where
  "is_own_fwd_send step s =
     (case fwd_sub_step step of
        None \<Rightarrow> False
      | Some f \<Rightarrow> step_type s = FWD_SEND \<and> stage_index s = stage_index f \<and>
                 micro_index s = micro_index f)"

definition split_boundary_run ::
    "meta_step \<Rightarrow> meta_step list \<Rightarrow> meta_step list \<times> meta_step list" where
  "split_boundary_run step run =
     (filter (is_own_fwd_send step) run @ filter (\<lambda>s. is_recv (step_type s)) run,
      filter (\<lambda>s. \<not> is_own_fwd_send step s \<and> \<not> is_recv (step_type s)) run)"

definition has_sub_steps :: "meta_step \<Rightarrow> bool" where
  "has_sub_steps s \<longleftrightarrow> sub_steps s \<noteq> None \<and> sub_steps s \<noteq> Some []"

lemma length_p2p_run_after: "length (snd (p2p_run_after xs)) \<le> length xs"
  by (induction xs rule: p2p_run_after.induct) (auto split: prod.splits)

function attach_boundary_order :: "order \<Rightarrow> order" where
  "attach_boundary_order [] = []"
| "attach_boundary_order (None # steps) = None # attach_boundary_order steps"
| "attach_boundary_order (Some s # steps) =
     (if step_type s \<noteq> OVERLAP_B_F \<or> \<not> has_sub_steps s then Some s # attach_boundary_order steps
      else
        (let boundary = fst (split_boundary_run s (fst (p2p_run_after steps)));
             leftover = snd (split_boundary_run s (fst (p2p_run_after steps)))
         in if boundary = [] then Some s # attach_boundary_order steps
            else Some (MetaStep (micro_index s) (step_type s) (stage_index s) (sub_steps s)
                         (Some boundary))
                 # map Some leftover @ attach_boundary_order (snd (p2p_run_after steps))))"
  by pat_completeness auto
termination
  by (relation "measure length") (auto simp: length_p2p_run_after less_Suc_eq_le)

definition attach_fwd_boundary_p2p :: "exec_order \<Rightarrow> exec_order" where
  "attach_fwd_boundary_p2p exec = dict_map attach_boundary_order exec"

section \<open>Splitting the overlapped backward\<close>

text \<open>Unpacking \<open>bwd_sub, fwd_sub = step.sub_steps\<close> is a ValueError unless there are two.\<close>

function split_dxdw_order :: "order \<Rightarrow> order result" where
  "split_dxdw_order [] = Inr []"
| "split_dxdw_order (None # steps) =
     bind_res (split_dxdw_order steps) (\<lambda>rest. Inr (None # rest))"
| "split_dxdw_order (Some s # steps) =
     (if step_type s \<noteq> OVERLAP_B_F \<or> \<not> has_sub_steps s then
        bind_res (split_dxdw_order steps) (\<lambda>rest. Inr (Some s # rest))
      else
        (case the (sub_steps s) of
           [bwd_sub, fwd_sub] \<Rightarrow>
             if step_type bwd_sub \<noteq> BWD \<or> stage_index bwd_sub = Some 0 then
               bind_res (split_dxdw_order steps) (\<lambda>rest. Inr (Some s # rest))
             else
               bind_res (split_dxdw_order (snd (p2p_run_after steps))) (\<lambda>rest.
                 Inr (Some (MetaStep (micro_index s) (step_type s) (stage_index s)
                        (Some [leaf_step (micro_index bwd_sub) BWD_INPUT (stage_index bwd_sub),
                               fwd_sub]) None)
                      # map Some (fst (p2p_run_after steps))
                      @ Some (leaf_step (micro_index bwd_sub) BWD_WEIGHT (stage_index bwd_sub))
                      # rest))
         | _ \<Rightarrow> Inl ValueError))"
  by pat_completeness auto
termination
  by (relation "measure length") (auto simp: length_p2p_run_after less_Suc_eq_le)

definition split_overlap_dxdw :: "exec_order \<Rightarrow> exec_order result" where
  "split_overlap_dxdw exec =
     map_res (\<lambda>(rank, ord). bind_res (split_dxdw_order ord) (\<lambda>new. Inr (rank, new))) exec"

section \<open>The order of issue\<close>

text \<open>
  The leaf operations of one step in the order the runtime reaches them: the members of a batch,
  or the step itself followed by the boundary operations it carries.
\<close>

definition issued_by :: "meta_step \<Rightarrow> meta_step list" where
  "issued_by s =
     (if step_type s = BATCH_SEND_RECV then (case sub_steps s of None \<Rightarrow> [] | Some xs \<Rightarrow> xs)
      else MetaStep (micro_index s) (step_type s) (stage_index s) (sub_steps s) None #
           (case boundary_p2p s of None \<Rightarrow> [] | Some xs \<Rightarrow> xs))"

definition issue_order :: "order \<Rightarrow> meta_step list" where
  "issue_order ord = concat (map issued_by (somes ord))"

definition of_type :: "meta_step_type \<Rightarrow> meta_step list \<Rightarrow> meta_step list" where
  "of_type t ss = filter (\<lambda>s. step_type s = t) ss"

lemma issue_order_simps [simp]:
  "issue_order [] = []"
  "issue_order (None # xs) = issue_order xs"
  "issue_order (Some s # xs) = issued_by s @ issue_order xs"
  "issue_order (xs @ ys) = issue_order xs @ issue_order ys"
  by (simp_all add: issue_order_def)

lemma of_type_append [simp]: "of_type t (xs @ ys) = of_type t xs @ of_type t ys"
  by (simp add: of_type_def)

text \<open>An order no pass has touched yet: no batches and no boundary operations.\<close>

definition plain_step :: "meta_step \<Rightarrow> bool" where
  "plain_step s \<longleftrightarrow> step_type s \<noteq> BATCH_SEND_RECV \<and> boundary_p2p s = None"

definition plain_order :: "order \<Rightarrow> bool" where
  "plain_order ord \<longleftrightarrow> (\<forall>s \<in> set (somes ord). plain_step s)"

lemma issued_by_plain: "plain_step s \<Longrightarrow> issued_by s = [s]"
  by (cases s) (simp add: plain_step_def issued_by_def)

lemma issue_order_plain: "plain_order ord \<Longrightarrow> issue_order ord = somes ord"
proof (induction ord)
  case (Cons x ord)
  then show ?case by (cases x) (auto simp: plain_order_def issued_by_plain)
qed simp

lemma p2p_run_after_split: "steps = map Some (fst (p2p_run_after steps)) @ snd (p2p_run_after steps)"
  by (induction steps rule: p2p_run_after.induct) (auto split: prod.splits)

lemma p2p_run_after_types: "s \<in> set (fst (p2p_run_after steps)) \<Longrightarrow> is_p2p (step_type s)"
  by (induction steps rule: p2p_run_after.induct) (auto split: prod.splits if_splits)

subsection \<open>Coalescing\<close>

lemma issued_flush: "\<forall>s \<in> set run. plain_step s \<Longrightarrow> issue_order (flush_run run) = run"
proof -
  assume plain: "\<forall>s \<in> set run. plain_step s"
  then have "issue_order (map Some run) = run"
    by (subst issue_order_plain) (auto simp: plain_order_def)
  then show ?thesis by (simp add: flush_run_def issued_by_def)
qed

lemma issue_coalesce_loop:
  "\<forall>s \<in> set run. plain_step s \<Longrightarrow> plain_order ord \<Longrightarrow>
     issue_order (coalesce_loop run ord) = run @ somes ord"
  by (induction run ord rule: coalesce_loop.induct)
    (auto simp: issued_flush issued_by_plain plain_order_def)

text \<open>Maximal runs: a batch has at least two members, all transfers, and a transfer left alone has
  no transfer and no batch next to it.\<close>

definition coalescible :: "meta_step option \<Rightarrow> bool" where
  "coalescible x = (case x of None \<Rightarrow> False
                    | Some s \<Rightarrow> is_p2p (step_type s) \<or> step_type s = BATCH_SEND_RECV)"

lemma coalescible_None [simp]: "\<not> coalescible None"
  by (simp add: coalescible_def)

fun no_adjacent :: "('a \<Rightarrow> bool) \<Rightarrow> 'a list \<Rightarrow> bool" where
  "no_adjacent P (x # y # xs) = (\<not> (P x \<and> P y) \<and> no_adjacent P (y # xs))"
| "no_adjacent P _ = True"

lemma no_adjacent_append:
  "no_adjacent P (xs @ z # ys) \<longleftrightarrow> no_adjacent P (xs @ [z]) \<and> no_adjacent P (z # ys)"
  by (induction P xs rule: no_adjacent.induct) (cases ys; auto)+

lemma no_adjacent_Cons_not: "\<not> P z \<Longrightarrow> no_adjacent P (z # ys) \<longleftrightarrow> no_adjacent P ys"
  by (cases ys) auto

lemma no_adjacent_snoc_not: "\<not> P z \<Longrightarrow> no_adjacent P (xs @ [z]) \<longleftrightarrow> no_adjacent P xs"
  by (induction P xs rule: no_adjacent.induct) auto

lemma no_adjacent_flush: "no_adjacent P (flush_run run)"
proof (cases "2 \<le> length run")
  case False
  then show ?thesis by (cases run; cases "tl run") (auto simp: flush_run_def)
qed (simp add: flush_run_def)

lemma no_adjacent_coalesce_loop:
  "\<forall>s \<in> set (somes ord). step_type s \<noteq> BATCH_SEND_RECV \<Longrightarrow>
     no_adjacent coalescible (coalesce_loop run ord)"
proof (induction run ord rule: coalesce_loop.induct)
  case (1 run)
  then show ?case by (simp add: no_adjacent_flush)
next
  case (2 run steps)
  then show ?case
    by (subst coalesce_loop.simps, subst no_adjacent_append)
      (simp add: no_adjacent_snoc_not no_adjacent_Cons_not no_adjacent_flush)
next
  case (3 run s steps)
  show ?case
  proof (cases "is_p2p (step_type s)")
    case False
    with 3 have "\<not> coalescible (Some s)" by (simp add: coalescible_def)
    moreover have "no_adjacent coalescible (coalesce_loop [] steps)"
      using 3(2) [OF False] 3(3) by simp
    moreover have "coalesce_loop run (Some s # steps) = flush_run run @ Some s # coalesce_loop [] steps"
      using False by simp
    ultimately show ?thesis
      using no_adjacent_append [of coalescible "flush_run run" "Some s" "coalesce_loop [] steps"]
      by (simp add: no_adjacent_snoc_not no_adjacent_Cons_not no_adjacent_flush)
  qed (use 3 in simp)
qed

definition good_batch :: "meta_step \<Rightarrow> bool" where
  "good_batch s \<longleftrightarrow>
     (\<exists>xs. sub_steps s = Some xs \<and> 2 \<le> length xs \<and> (\<forall>x \<in> set xs. is_p2p (step_type x)))"

lemma flush_run_batches:
  "\<forall>x \<in> set run. is_p2p (step_type x) \<Longrightarrow> Some s \<in> set (flush_run run) \<Longrightarrow>
     step_type s = BATCH_SEND_RECV \<Longrightarrow> good_batch s"
  by (auto simp: flush_run_def good_batch_def is_p2p_def split: if_splits)

lemma coalesce_loop_batches:
  assumes "Some s \<in> set (coalesce_loop run ord)" and "step_type s = BATCH_SEND_RECV"
    and "\<forall>x \<in> set run. is_p2p (step_type x)"
    and "\<forall>x \<in> set (somes ord). step_type x \<noteq> BATCH_SEND_RECV"
  shows "good_batch s"
  using assms
proof (induction run ord rule: coalesce_loop.induct)
  case (3 run x steps)
  show ?case
  proof (cases "is_p2p (step_type x)")
    case True
    with 3(1) [OF True] 3(3-6) show ?thesis by simp
  next
    case False
    with 3(3) have "Some s \<in> set (flush_run run) \<or> s = x \<or> Some s \<in> set (coalesce_loop [] steps)"
      by auto
    with 3(2) [OF False] 3(4-6) flush_run_batches [OF 3(5)] show ?thesis by auto
  qed
qed (auto dest: flush_run_batches)

subsection \<open>Boundary transfers\<close>

lemma own_fwd_send_type: "is_own_fwd_send step s \<Longrightarrow> step_type s = FWD_SEND"
  by (simp add: is_own_fwd_send_def split: option.splits)

lemma split_boundary_of_type:
  assumes "t \<noteq> FWD_SEND \<or> (\<forall>s \<in> set run. step_type s = FWD_SEND \<longrightarrow> is_own_fwd_send step s)"
  shows "of_type t (fst (split_boundary_run step run) @ snd (split_boundary_run step run)) =
         of_type t run"
proof -
  note own = own_fwd_send_type [of step]
  have pick: "of_type t (filter P run) = of_type t run"
    if "\<And>s. s \<in> set run \<Longrightarrow> step_type s = t \<Longrightarrow> P s" for P
    unfolding of_type_def filter_filter by (rule filter_cong) (use that in auto)
  have none: "of_type t (filter P run) = []"
    if "\<And>s. s \<in> set run \<Longrightarrow> step_type s = t \<Longrightarrow> \<not> P s" for P
    using that by (auto simp: of_type_def filter_empty_conv)
  consider "t = FWD_SEND" | "t \<noteq> FWD_SEND" "is_recv t" | "t \<noteq> FWD_SEND" "\<not> is_recv t" by blast
  then show ?thesis
  proof cases
    case 1
    with assms have "\<forall>s \<in> set run. step_type s = FWD_SEND \<longrightarrow> is_own_fwd_send step s" by simp
    with 1 have "of_type t (filter (is_own_fwd_send step) run) = of_type t run"
      by (intro pick) auto
    moreover have "of_type t (filter (\<lambda>s. is_recv (step_type s)) run) = []"
      using 1 by (intro none) (simp add: is_recv_def)
    moreover have "of_type t (filter (\<lambda>s. \<not> is_own_fwd_send step s \<and> \<not> is_recv (step_type s)) run) = []"
      using 1 \<open>\<forall>s \<in> set run. step_type s = FWD_SEND \<longrightarrow> is_own_fwd_send step s\<close> by (intro none) auto
    ultimately show ?thesis by (simp add: split_boundary_run_def)
  next
    case 2
    have "of_type t (filter (is_own_fwd_send step) run) = []"
      using 2 own by (intro none) auto
    moreover have "of_type t (filter (\<lambda>s. is_recv (step_type s)) run) = of_type t run"
      using 2 by (intro pick) simp
    moreover have "of_type t (filter (\<lambda>s. \<not> is_own_fwd_send step s \<and> \<not> is_recv (step_type s)) run) = []"
      using 2 by (intro none) simp
    ultimately show ?thesis by (simp add: split_boundary_run_def)
  next
    case 3
    have "of_type t (filter (is_own_fwd_send step) run) = []"
      using 3 own by (intro none) auto
    moreover have "of_type t (filter (\<lambda>s. is_recv (step_type s)) run) = []"
      using 3 by (intro none) auto
    moreover have "of_type t (filter (\<lambda>s. \<not> is_own_fwd_send step s \<and> \<not> is_recv (step_type s)) run) =
        of_type t run"
      using 3 own by (intro pick) auto
    ultimately show ?thesis by (simp add: split_boundary_run_def)
  qed
qed

lemma split_boundary_mset:
  "mset (fst (split_boundary_run step run) @ snd (split_boundary_run step run)) = mset run"
  by (induction run) (auto simp: split_boundary_run_def is_recv_def dest: own_fwd_send_type)

text \<open>Every forward send in the gap right after an overlap carries the output of that overlap.\<close>

fun own_gaps :: "order \<Rightarrow> bool" where
  "own_gaps [] = True"
| "own_gaps (None # steps) = own_gaps steps"
| "own_gaps (Some s # steps) =
     ((step_type s = OVERLAP_B_F \<and> has_sub_steps s \<longrightarrow>
        (\<forall>x \<in> set (fst (p2p_run_after steps)). step_type x = FWD_SEND \<longrightarrow> is_own_fwd_send s x)) \<and>
      own_gaps steps)"

lemma own_gaps_run_after: "own_gaps steps \<Longrightarrow> own_gaps (snd (p2p_run_after steps))"
  by (induction steps rule: p2p_run_after.induct) (auto split: prod.splits)

lemma plain_run_after:
  assumes "plain_order steps"
  shows "plain_order (snd (p2p_run_after steps))"
    and "\<forall>s \<in> set (fst (p2p_run_after steps)). plain_step s"
proof -
  have "somes steps = fst (p2p_run_after steps) @ somes (snd (p2p_run_after steps))"
    by (metis p2p_run_after_split somes_append somes_map_Some)
  with assms show "plain_order (snd (p2p_run_after steps))"
    and "\<forall>s \<in> set (fst (p2p_run_after steps)). plain_step s"
    unfolding plain_order_def by (metis Un_iff set_append)+
qed

lemma issue_order_map_plain: "\<forall>s \<in> set ss. plain_step s \<Longrightarrow> issue_order (map Some ss) = ss"
  by (induction ss) (simp_all add: issued_by_plain)

text \<open>What one attachment changes: the gap is permuted, nothing else.\<close>

lemma attach_step_issue:
  assumes "plain_order (Some s # steps)" and "step_type s = OVERLAP_B_F"
  defines "run \<equiv> fst (p2p_run_after steps)" and "rest \<equiv> snd (p2p_run_after steps)"
  defines "bl \<equiv> split_boundary_run s run"
  shows "issue_order (Some (MetaStep (micro_index s) (step_type s) (stage_index s) (sub_steps s)
            (Some (fst bl))) # map Some (snd bl) @ x) = s # fst bl @ snd bl @ issue_order x"
    and "issue_order (Some s # steps) = s # run @ issue_order rest"
proof -
  from assms(1) have s: "plain_step s" and st: "plain_order steps" by (auto simp: plain_order_def)
  from plain_run_after [OF st] have run: "\<forall>s \<in> set run. plain_step s" by (simp add: run_def)
  then have "\<forall>s \<in> set (snd bl). plain_step s" by (auto simp: bl_def split_boundary_run_def)
  with s assms(2) show "issue_order (Some (MetaStep (micro_index s) (step_type s) (stage_index s)
      (sub_steps s) (Some (fst bl))) # map Some (snd bl) @ x) = s # fst bl @ snd bl @ issue_order x"
    by (cases s) (simp add: issued_by_def issue_order_map_plain plain_step_def)
  have "issue_order steps = run @ issue_order rest"
    using issue_order_map_plain [OF run] p2p_run_after_split [of steps]
    unfolding run_def rest_def by (metis issue_order_simps(4))
  then show "issue_order (Some s # steps) = s # run @ issue_order rest"
    using issued_by_plain [OF s] by simp
qed

lemma attach_boundary_of_type:
  assumes "plain_order ord" and "t \<noteq> FWD_SEND \<or> own_gaps ord"
  shows "of_type t (issue_order (attach_boundary_order ord)) = of_type t (issue_order ord)"
  using assms
proof (induction ord rule: attach_boundary_order.induct)
  case (3 s steps)
  let ?run = "fst (p2p_run_after steps)" and ?rest = "snd (p2p_run_after steps)"
  let ?bl = "split_boundary_run s ?run"
  from 3(4) have st: "plain_order steps" by (simp add: plain_order_def)
  show ?case
  proof (cases "step_type s \<noteq> OVERLAP_B_F \<or> \<not> has_sub_steps s")
    case True
    with 3(1,5) st show ?thesis by auto
  next
    case ov: False
    show ?thesis
    proof (cases "fst ?bl = []")
      case True
      with ov 3(2,5) st show ?thesis by auto
    next
      case False
      have own: "t \<noteq> FWD_SEND \<or> (\<forall>x \<in> set ?run. step_type x = FWD_SEND \<longrightarrow> is_own_fwd_send s x)"
        using 3(5) ov by auto
      have IH: "of_type t (issue_order (attach_boundary_order ?rest)) = of_type t (issue_order ?rest)"
        using 3(3) ov False plain_run_after(1) [OF st] 3(5) own_gaps_run_after [of steps] by auto
      have "step_type s = OVERLAP_B_F" using ov by simp
      note issue = attach_step_issue [OF 3(4) this]
      from ov False have "attach_boundary_order (Some s # steps) =
          Some (MetaStep (micro_index s) (step_type s) (stage_index s) (sub_steps s) (Some (fst ?bl)))
          # map Some (snd ?bl) @ attach_boundary_order ?rest" by simp
      then have "of_type t (issue_order (attach_boundary_order (Some s # steps))) =
          of_type t [s] @ of_type t (fst ?bl @ snd ?bl) @ of_type t (issue_order ?rest)"
        using IH by (simp only: issue(1)) (simp add: of_type_def)
      also have "\<dots> = of_type t (issue_order (Some s # steps))"
        unfolding split_boundary_of_type [OF own] issue(2) by (simp add: of_type_def)
      finally show ?thesis .
    qed
  qed
qed (simp_all add: plain_order_def)

lemma attach_boundary_mset:
  assumes "plain_order ord"
  shows "mset (issue_order (attach_boundary_order ord)) = mset (issue_order ord)"
  using assms
proof (induction ord rule: attach_boundary_order.induct)
  case (3 s steps)
  let ?run = "fst (p2p_run_after steps)" and ?rest = "snd (p2p_run_after steps)"
  let ?bl = "split_boundary_run s ?run"
  from 3(4) have st: "plain_order steps" by (simp add: plain_order_def)
  show ?case
  proof (cases "step_type s \<noteq> OVERLAP_B_F \<or> \<not> has_sub_steps s \<or> fst ?bl = []")
    case True
    with 3(1,2) st show ?thesis by auto
  next
    case False
    then have "step_type s = OVERLAP_B_F" by simp
    note issue = attach_step_issue [OF 3(4) this]
    from False have "attach_boundary_order (Some s # steps) =
        Some (MetaStep (micro_index s) (step_type s) (stage_index s) (sub_steps s) (Some (fst ?bl)))
        # map Some (snd ?bl) @ attach_boundary_order ?rest" by simp
    then have "mset (issue_order (attach_boundary_order (Some s # steps))) =
        {#s#} + mset (fst ?bl @ snd ?bl) + mset (issue_order ?rest)"
      using 3(3) False plain_run_after(1) [OF st] by (simp only: issue(1)) simp
    also have "\<dots> = mset (issue_order (Some s # steps))"
      unfolding split_boundary_mset issue(2) by simp
    finally show ?thesis .
  qed
qed (simp_all add: plain_order_def)

subsection \<open>Splitting the backward\<close>

text \<open>The leaves of an order, by type, micro-batch and stage.\<close>

type_synonym step_key = "meta_step_type \<times> int option \<times> int option"

definition leaf_keys :: "order \<Rightarrow> step_key list" where
  "leaf_keys ord = map meta_hash_key (concat (map iter_leaf_meta_steps ord))"

text \<open>Reading a split backward as one: the input-gradient half stands for the whole.\<close>

definition unsplit_keys :: "step_key list \<Rightarrow> step_key list" where
  "unsplit_keys ks =
     map (\<lambda>(t, m, s). (if t = BWD_INPUT then BWD else t, m, s))
       (filter (\<lambda>(t, m, s). t \<noteq> BWD_WEIGHT) ks)"

definition keys_of :: "meta_step_type \<Rightarrow> step_key list \<Rightarrow> (int option \<times> int option) list" where
  "keys_of t ks = map snd (filter (\<lambda>k. fst k = t) ks)"

definition unsplit_order :: "order \<Rightarrow> bool" where
  "unsplit_order ord \<longleftrightarrow> (\<forall>k \<in> set (leaf_keys ord). fst k \<noteq> BWD_INPUT \<and> fst k \<noteq> BWD_WEIGHT)"

lemma leaf_keys_simps [simp]:
  "leaf_keys [] = []"
  "leaf_keys (x # xs) = map meta_hash_key (iter_leaf_meta_steps x) @ leaf_keys xs"
  "leaf_keys (xs @ ys) = leaf_keys xs @ leaf_keys ys"
  by (simp_all add: leaf_keys_def)

lemma unsplit_keys_append [simp]: "unsplit_keys (xs @ ys) = unsplit_keys xs @ unsplit_keys ys"
  by (simp add: unsplit_keys_def)

lemma keys_of_append [simp]: "keys_of t (xs @ ys) = keys_of t xs @ keys_of t ys"
  by (simp add: keys_of_def)

lemma unsplit_keys_id:
  "\<forall>k \<in> set ks. fst k \<noteq> BWD_INPUT \<and> fst k \<noteq> BWD_WEIGHT \<Longrightarrow> unsplit_keys ks = ks"
  by (induction ks) (auto simp: unsplit_keys_def)

lemma keys_of_none: "\<forall>k \<in> set ks. fst k \<noteq> t \<Longrightarrow> keys_of t ks = []"
  by (simp add: keys_of_def filter_empty_conv)

lemma run_leaf_keys:
  assumes "\<forall>s \<in> set ss. is_p2p (step_type s)"
  shows "leaf_keys (map Some ss) = map meta_hash_key ss"
proof -
  have "leaf_meta_steps s = [s]" if "s \<in> set ss" for s
    using assms that by (intro leaf_meta_steps_plain) (auto simp: is_p2p_def is_overlap_def)
  then show ?thesis by (induction ss) auto
qed

text \<open>The three shapes of a step of the pass.\<close>

lemma split_dxdw_cases:
  assumes "split_dxdw_order (Some s # steps) = Inr out"
  obtains (same) rest where "split_dxdw_order steps = Inr rest" and "out = Some s # rest"
  | (split) b f rest where "step_type s = OVERLAP_B_F" and "sub_steps s = Some [b, f]"
      and "step_type b = BWD" and "stage_index b \<noteq> Some 0"
      and "split_dxdw_order (snd (p2p_run_after steps)) = Inr rest"
      and "out = Some (MetaStep (micro_index s) (step_type s) (stage_index s)
                   (Some [leaf_step (micro_index b) BWD_INPUT (stage_index b), f]) None)
                 # map Some (fst (p2p_run_after steps))
                 @ Some (leaf_step (micro_index b) BWD_WEIGHT (stage_index b)) # rest"
  using assms
  by (auto simp: bind_res_Inr_iff has_sub_steps_def split: if_splits list.splits)

lemma split_dxdw_transfers:
  "split_dxdw_order ord = Inr out \<Longrightarrow>
     filter (\<lambda>s. is_transfer (step_type s)) (somes out) =
     filter (\<lambda>s. is_transfer (step_type s)) (somes ord)"
proof (induction "length ord" arbitrary: ord out rule: less_induct)
  case less
  show ?case
  proof (cases ord)
    case Nil
    with less show ?thesis by simp
  next
    case (Cons x steps)
    show ?thesis
    proof (cases x)
      case None
      with Cons less show ?thesis by (auto simp: bind_res_Inr_iff)
    next
      case (Some s)
      with Cons less.prems have "split_dxdw_order (Some s # steps) = Inr out" by simp
      then show ?thesis
      proof (cases rule: split_dxdw_cases)
        case (same rest)
        with less.hyps [of steps rest] Cons Some show ?thesis by simp
      next
        case (split b f rest)
        have "length (snd (p2p_run_after steps)) < length ord"
          using length_p2p_run_after [of steps] Cons by simp
        from less.hyps [OF this split(5)] have
          "filter (\<lambda>s. is_transfer (step_type s)) (somes rest) =
           filter (\<lambda>s. is_transfer (step_type s)) (somes (snd (p2p_run_after steps)))" .
        moreover have "somes steps = fst (p2p_run_after steps) @ somes (snd (p2p_run_after steps))"
          by (metis p2p_run_after_split somes_append somes_map_Some)
        ultimately show ?thesis using split Cons Some by (simp add: is_transfer_def)
      qed
    qed
  qed
qed

lemma split_dxdw_leaves:
  "split_dxdw_order ord = Inr out \<Longrightarrow> unsplit_order ord \<Longrightarrow>
     unsplit_keys (leaf_keys out) = leaf_keys ord \<and>
     keys_of BWD_WEIGHT (leaf_keys out) = keys_of BWD_INPUT (leaf_keys out)"
proof (induction "length ord" arbitrary: ord out rule: less_induct)
  case less
  show ?case
  proof (cases ord)
    case Nil
    with less show ?thesis by (simp add: unsplit_keys_def keys_of_def)
  next
    case (Cons x steps)
    have head: "\<forall>k \<in> set (map meta_hash_key (iter_leaf_meta_steps x)).
        fst k \<noteq> BWD_INPUT \<and> fst k \<noteq> BWD_WEIGHT"
      using less.prems(2) Cons unfolding unsplit_order_def by simp
    have st: "unsplit_order steps"
      using less.prems(2) Cons by (simp add: unsplit_order_def)
    show ?thesis
    proof (cases x)
      case None
      with Cons less.prems(1) obtain rest where "split_dxdw_order steps = Inr rest"
        and "out = None # rest" by (auto simp: bind_res_Inr_iff)
      with less.hyps [of steps rest] Cons None st show ?thesis by simp
    next
      case (Some s)
      with Cons less.prems have "split_dxdw_order (Some s # steps) = Inr out" by simp
      then show ?thesis
      proof (cases rule: split_dxdw_cases)
        case (same rest)
        with less.hyps [of steps rest] Cons Some st show ?thesis
          using unsplit_keys_id [OF head] keys_of_none [of _ BWD_INPUT] keys_of_none [of _ BWD_WEIGHT] head
          by simp
      next
        case (split b f rest)
        let ?run = "fst (p2p_run_after steps)" and ?rest = "snd (p2p_run_after steps)"
        have shorter: "length ?rest < length ord"
          using length_p2p_run_after [of steps] Cons by simp
        have runk: "leaf_keys (map Some ?run) = map meta_hash_key ?run"
          by (rule run_leaf_keys) (use p2p_run_after_types in blast)
        have steps: "leaf_keys steps = map meta_hash_key ?run @ leaf_keys ?rest"
          using p2p_run_after_split [of steps] runk by (metis leaf_keys_simps(3))
        have "unsplit_order ?rest" using st steps by (simp add: unsplit_order_def)
        note IH = less.hyps [OF shorter split(5) this]
        have quiet: "\<forall>k \<in> set (map meta_hash_key ?run). fst k \<noteq> BWD_INPUT \<and> fst k \<noteq> BWD_WEIGHT"
        proof -
          have "step_type y \<noteq> BWD_INPUT \<and> step_type y \<noteq> BWD_WEIGHT" if "y \<in> set ?run" for y
            using p2p_run_after_types [OF that] by (auto simp: is_p2p_def)
          then show ?thesis by (auto simp: meta_hash_key_def)
        qed
        have ov: "leaf_meta_steps (MetaStep m OVERLAP_B_F si (Some [a, c]) bd) =
            leaf_meta_steps a @ leaf_meta_steps c" for m si a c bd
          by (simp add: is_overlap_def)
        have s: "leaf_meta_steps s = b # leaf_meta_steps f"
          using split(1-3) ov [of "micro_index s" "stage_index s" b f "boundary_p2p s"]
            leaf_meta_steps_plain [of b] by (cases s) (simp add: is_overlap_def)
        have fq: "\<forall>k \<in> set (map meta_hash_key (leaf_meta_steps f)).
            fst k \<noteq> BWD_INPUT \<and> fst k \<noteq> BWD_WEIGHT"
          using head Some s by simp
        have out: "leaf_keys out = (BWD_INPUT, micro_index b, stage_index b) #
            map meta_hash_key (leaf_meta_steps f) @ map meta_hash_key ?run @
            (BWD_WEIGHT, micro_index b, stage_index b) # leaf_keys rest"
          using split(6) runk by (simp add: split(1) ov meta_hash_key_def del: leaf_meta_steps.simps)
        have ord: "leaf_keys ord = (BWD, micro_index b, stage_index b) #
            map meta_hash_key (leaf_meta_steps f) @ map meta_hash_key ?run @ leaf_keys ?rest"
          using Cons Some s steps split(3) by (simp add: meta_hash_key_def)
        have "unsplit_keys (k # ks) = unsplit_keys [k] @ unsplit_keys ks" for k ks
          using unsplit_keys_append [of "[k]" ks] by simp
        then have "unsplit_keys (leaf_keys out) = leaf_keys ord"
          using IH unsplit_keys_id [OF fq] unsplit_keys_id [OF quiet]
          unfolding out ord by (simp add: unsplit_keys_def)
        moreover have "keys_of BWD_WEIGHT (leaf_keys out) = keys_of BWD_INPUT (leaf_keys out)"
          using IH fq quiet keys_of_none [of _ BWD_INPUT] keys_of_none [of _ BWD_WEIGHT]
          unfolding out by (simp add: keys_of_def)
        ultimately show ?thesis by simp
      qed
    qed
  qed
qed

section \<open>The boundary pass behind the column scan\<close>

text \<open>
  The insertion puts a \<open>DATA_SEND\<close> right before every \<open>FWD_SEND\<close> and a \<open>DATA_RECV\<close> right before
  every \<open>FWD_RECV\<close>. Neither is a transfer of the P2P passes, so a forward transfer always opens a
  new run.
\<close>

definition guard_ok :: "meta_step option \<Rightarrow> meta_step option \<Rightarrow> bool" where
  "guard_ok prev x =
     (case x of
        None \<Rightarrow> True
      | Some s \<Rightarrow>
          (step_type s = FWD_SEND \<longrightarrow> map_option step_type prev = Some DATA_SEND) \<and>
          (step_type s = FWD_RECV \<longrightarrow> map_option step_type prev = Some DATA_RECV))"

fun data_guarded :: "meta_step option \<Rightarrow> order \<Rightarrow> bool" where
  "data_guarded prev [] = True"
| "data_guarded prev (x # xs) = (guard_ok prev x \<and> data_guarded x xs)"

lemma data_guarded_append:
  "data_guarded prev (xs @ ys) \<longleftrightarrow>
     data_guarded prev xs \<and> data_guarded (if xs = [] then prev else last xs) ys"
  by (induction prev xs rule: data_guarded.induct) auto

lemma run_after_guarded:
  assumes "data_guarded prev steps"
    and "map_option step_type prev \<noteq> Some DATA_SEND" and "map_option step_type prev \<noteq> Some DATA_RECV"
    and "s \<in> set (fst (p2p_run_after steps))"
  shows "step_type s \<noteq> FWD_SEND \<and> step_type s \<noteq> FWD_RECV"
  using assms
proof (induction steps arbitrary: prev rule: p2p_run_after.induct)
  case (1 x steps)
  show ?case
  proof (cases "is_p2p (step_type x)")
    case True
    with 1(5) have "s = x \<or> s \<in> set (fst (p2p_run_after steps))" by (simp split: prod.splits)
    moreover have "step_type x \<noteq> FWD_SEND \<and> step_type x \<noteq> FWD_RECV"
      using 1(2-4) by (auto simp: guard_ok_def)
    moreover have "step_type x \<noteq> DATA_SEND" "step_type x \<noteq> DATA_RECV"
      using True by (auto simp: is_p2p_def)
    ultimately show ?thesis using 1(1) [OF True, of "Some x"] 1(2) by auto
  next
    case False
    with 1(5) show ?thesis by simp
  qed
qed simp_all

lemma boundary_no_forward:
  assumes "data_guarded prev ord" and "plain_order ord"
    and "Some s \<in> set (attach_boundary_order ord)" and "boundary_p2p s = Some b" and "x \<in> set b"
  shows "step_type x = BWD_RECV"
  using assms
proof (induction ord arbitrary: prev rule: attach_boundary_order.induct)
  case (3 o' steps)
  let ?run = "fst (p2p_run_after steps)" and ?rest = "snd (p2p_run_after steps)"
  let ?bl = "split_boundary_run o' ?run"
  from 3(5) have o': "boundary_p2p o' = None" and st: "plain_order steps"
    by (auto simp: plain_order_def plain_step_def)
  from 3(4) have gd: "data_guarded (Some o') steps" by simp
  show ?case
  proof (cases "step_type o' \<noteq> OVERLAP_B_F \<or> \<not> has_sub_steps o' \<or> fst ?bl = []")
    case True
    with 3(6) have "Some s \<in> set (Some o' # attach_boundary_order steps)" by (auto split: if_splits)
    with o' 3(7) have "Some s \<in> set (attach_boundary_order steps)" by auto
    with True 3(1,2) gd st 3(7,8) show ?thesis by blast
  next
    case False
    then have ty: "step_type o' = OVERLAP_B_F" by simp
    with run_after_guarded [OF gd] have quiet:
      "y \<in> set ?run \<Longrightarrow> step_type y \<noteq> FWD_SEND \<and> step_type y \<noteq> FWD_RECV" for y by simp
    from False 3(6) consider
      "s = MetaStep (micro_index o') (step_type o') (stage_index o') (sub_steps o') (Some (fst ?bl))"
      | "s \<in> set (snd ?bl)" | "Some s \<in> set (attach_boundary_order ?rest)" by auto
    then show ?thesis
    proof cases
      case 1
      with 3(7,8) have "x \<in> set (fst ?bl)" by simp
      with quiet own_fwd_send_type show ?thesis by (auto simp: split_boundary_run_def is_recv_def)
    next
      case 2
      with plain_run_after(2) [OF st] 3(7) show ?thesis
        by (auto simp: split_boundary_run_def plain_step_def)
    next
      case 3
      obtain prev' where "data_guarded prev' ?rest"
        using gd p2p_run_after_split [of steps] by (metis data_guarded_append)
      with 3 "3.IH"(3) False plain_run_after(1) [OF st] "3.prems"(4,5) show ?thesis by blast
    qed
  qed
qed (auto simp: plain_order_def)

text \<open>The scan keeps its schedules guarded: it appends the data transfer first.\<close>

lemma data_guarded_any:
  "data_guarded None xs \<Longrightarrow> data_guarded prev xs"
  by (cases xs) (auto simp: guard_ok_def split: option.splits)

lemma data_guarded_snoc:
  assumes "data_guarded None xs" and "data_guarded None ys"
  shows "data_guarded None (xs @ ys)"
  using assms data_guarded_any by (simp add: data_guarded_append)

lemma data_guarded_loads:
  "\<forall>y \<in> set ss. step_type y = DATA_LOAD \<Longrightarrow> data_guarded p (map Some ss)"
  by (induction ss arbitrary: p) (simp_all add: guard_ok_def)

text \<open>What the boundary pass needs of the orders it rewrites.\<close>

definition guarded_plain :: "exec_order \<Rightarrow> bool" where
  "guarded_plain sch \<longleftrightarrow>
     (\<forall>r. data_guarded None (dict_list sch r) \<and> plain_order (dict_list sch r))"

lemma plain_order_append [simp]: "plain_order (xs @ ys) \<longleftrightarrow> plain_order xs \<and> plain_order ys"
  by (auto simp: plain_order_def)

lemma plain_order_Nil [simp]: "plain_order []"
  by (simp add: plain_order_def)

lemma plain_order_leaf [simp]: "plain_order [Some (leaf_step m t a)] \<longleftrightarrow> t \<noteq> BATCH_SEND_RECV"
  by (simp add: plain_order_def plain_step_def)

lemma guarded_plain_appended:
  assumes "guarded_plain u" and "appended u v delta"
    and "\<And>r. data_guarded None (map Some (delta r))"
    and "\<And>r. plain_order (map Some (delta r))"
  shows "guarded_plain v"
  using assms data_guarded_snoc by (auto simp: guarded_plain_def appended_def)

lemma insert_guarded:
  assumes "guarded_plain u" and "compute_leaf R S style r s"
    and "insert_comms_for_step R S style s r u = Inr v"
  shows "guarded_plain v"
  using assms(3,2)
proof (cases rule: insert_leaf_cases)
  case none
  with assms(1) show ?thesis by simp
next
  case (fwd si peer)
  from fwd_peer_Some [OF fwd(2)] fwd(3) have "peer \<noteq> r" by auto
  then show ?thesis
    by (intro guarded_plain_appended [OF assms(1) append_fwd_appended [OF fwd(4)]])
      (auto simp: guard_ok_def plain_order_def plain_step_def)
next
  case (bwd si peer)
  from bwd_peer_Some [OF bwd(2)] bwd(3) have "peer \<noteq> r" by auto
  then show ?thesis
    by (intro guarded_plain_appended [OF assms(1) append_bwd_appended [OF bwd(4)]])
      (auto simp: guard_ok_def plain_order_def plain_step_def)
qed

lemma emit_guarded:
  assumes "guarded_plain u" and "dict_append u r x = Inr v"
    and "\<And>s. x = Some s \<Longrightarrow> schedulable R S style r s" and "\<And>s. x = Some s \<Longrightarrow> plain_step s"
  shows "guarded_plain v"
proof -
  have "data_guarded None [x]"
    using schedulable_not_transfer [OF assms(3)]
    by (cases x) (auto simp: guard_ok_def is_transfer_def)
  moreover have "plain_order [x]" using assms(4) by (cases x) (auto simp: plain_order_def)
  ultimately show ?thesis
    using assms(1) data_guarded_snoc
    by (auto simp: guarded_plain_def dict_append_list(1) [OF assms(2)])
qed

lemma loads_not_guarding:
  "data_guarded prev ord \<Longrightarrow> data_guarded prev (insert_loads ord)"
proof (induction prev ord rule: data_guarded.induct)
  case (2 prev x xs)
  then have IH: "data_guarded x (insert_loads xs)" by simp
  have split: "insert_loads (x # xs) = map Some (loads_for x) @ x # insert_loads xs"
    by (simp add: insert_loads_def)
  show ?case
  proof (cases "loads_for x = []")
    case True
    with split IH 2(2) show ?thesis by simp
  next
    case False
    then obtain s where s: "x = Some s" "step_type s = FWD \<or> is_overlap (step_type s)"
      by (auto simp: loads_for_def split: option.splits if_splits)
    have loads: "data_guarded p (map Some (loads_for x))" for p
      by (rule data_guarded_loads) (auto simp: loads_for_def split: option.splits if_splits)
    have "guard_ok p x" for p using s by (auto simp: guard_ok_def is_overlap_def)
    with split IH loads show ?thesis by (simp add: data_guarded_append)
  qed
qed (simp add: insert_loads_def)

lemma plain_loads: "plain_order ord \<Longrightarrow> plain_order (insert_loads ord)"
proof (induction ord)
  case (Cons x ord)
  have "plain_order (map Some (loads_for x))"
    by (auto simp: plain_order_def plain_step_def loads_for_def split: option.splits if_splits)
  with Cons show ?case
    by (auto simp: insert_loads_def plain_order_def split: option.splits)
qed (simp add: insert_loads_def)

lemma add_send_recv_guarded:
  assumes "add_send_recv scheduler S R style = Inr out" and "well_placed R S style scheduler"
    and "\<And>r. plain_order (dict_list scheduler r)"
  shows "guarded_plain out"
proof -
  obtain sch where out: "out = insert_dataload_before_fwd sch" and sch: "guarded_plain sch"
  proof (rule scan_invariant [OF assms(1,2), where Q = guarded_plain])
    show "guarded_plain start" if "\<And>r. dict_list start r = []" for start :: exec_order
      using that by (simp add: guarded_plain_def)
  next
    fix u v r x
    assume u: "guarded_plain u" and x: "x \<in> set (dict_list scheduler r)"
      and sch: "\<And>s. x = Some s \<Longrightarrow> schedulable R S style r s"
      and uv: "dict_append u r x = Inr v"
    have "\<And>s. x = Some s \<Longrightarrow> plain_step s"
      using assms(3) [of r] x unfolding plain_order_def by auto
    with emit_guarded [OF u uv sch] show "guarded_plain v" by blast
  next
    fix u v r s
    assume "guarded_plain u" and "compute_leaf R S style r s"
      and "insert_comms_for_step R S style s r u = Inr v"
    then show "guarded_plain v" by (rule insert_guarded)
  qed (rule that)
  then show ?thesis
    using loads_not_guarding plain_loads
    by (simp add: guarded_plain_def dict_list_insert_dataload)
qed

section \<open>Properties of the passes\<close>

lemma dict_list_map: "f [] = [] \<Longrightarrow> dict_list (dict_map f d) k = f (dict_list d k)"
  by (simp add: dict_list_def split: option.splits)

text \<open>
  C20: \<open>coalesce_p2p\<close> keeps the order in which every rank issues its operations, leaves no two
  contiguous transfers (nor a transfer beside a batch) and makes batches of at least two transfers
  and of transfers only.
\<close>

theorem coalesce_p2p_correct:
  assumes "\<forall>r. plain_order (dict_list exec r)"
  shows "issue_order (dict_list (coalesce_p2p exec) r) = issue_order (dict_list exec r) \<and>
         no_adjacent coalescible (dict_list (coalesce_p2p exec) r) \<and>
         (\<forall>s. Some s \<in> set (dict_list (coalesce_p2p exec) r) \<and> step_type s = BATCH_SEND_RECV \<longrightarrow>
              good_batch s)"
proof -
  have plain: "plain_order (dict_list exec r)" using assms by blast
  then have nb: "\<forall>s \<in> set (somes (dict_list exec r)). step_type s \<noteq> BATCH_SEND_RECV"
    by (simp add: plain_order_def plain_step_def)
  have list: "dict_list (coalesce_p2p exec) r = coalesce_loop [] (dict_list exec r)"
    unfolding coalesce_p2p_def by (subst dict_list_map) (simp_all add: coalesce_order_def flush_run_def)
  show ?thesis
    unfolding list using issue_coalesce_loop [of "[]", OF _ plain] issue_order_plain [OF plain]
      no_adjacent_coalesce_loop [OF nb] coalesce_loop_batches [OF _ _ _ nb, of _ "[]"] by auto
qed

theorem coalesce_p2p_correct_witness:
  "issue_order (dict_list (coalesce_p2p
      [(0, [Some (mstep 0 FWD 0), Some (mstep 0 FWD_SEND 0), Some (mstep 0 BWD_RECV 0)])]) 0) =
   [mstep 0 FWD 0, mstep 0 FWD_SEND 0, mstep 0 BWD_RECV 0]"
proof -
  have "\<forall>r. plain_order (dict_list
      [(0, [Some (mstep 0 FWD 0), Some (mstep 0 FWD_SEND 0), Some (mstep 0 BWD_RECV 0)])] r)"
    by (simp add: dict_list_def plain_order_def plain_step_def)
  from coalesce_p2p_correct [OF this, of "0 :: int"] show ?thesis
    by (simp add: dict_list_def issued_by_def) (simp add: leaf_step_def)
qed


definition boundary_example :: order where
  "boundary_example =
     [Some (MetaStep None OVERLAP_B_F None (Some [mstep 0 BWD 1, mstep 1 FWD 1]) None),
      Some (mstep 1 FWD_SEND 1), Some (mstep 0 BWD_SEND 1), Some (mstep 2 FWD_RECV 1)]"


text \<open>
  behind \<open>add_send_recv\<close> the boundary pass never attaches a forward transfer: every
  \<open>FWD_SEND\<close> of its output stands right behind a \<open>DATA_SEND\<close> and every \<open>FWD_RECV\<close> right behind a
  \<open>DATA_RECV\<close>, which close the run the pass scans, so the only operation it hangs on an overlap is
  a \<open>BWD_RECV\<close>, and the forward send it is written for keeps its place.
\<close>

theorem boundary_pass_never_hoists:
  assumes "add_send_recv scheduler S R style = Inr out" and "well_placed R S style scheduler"
    and "\<forall>r. plain_order (dict_list scheduler r)"
    and "Some s \<in> set (dict_list (attach_fwd_boundary_p2p out) r)"
    and "boundary_p2p s = Some b" and "x \<in> set b"
  shows "step_type x = BWD_RECV"
proof -
  have "guarded_plain out" using add_send_recv_guarded [OF assms(1,2)] assms(3) by blast
  moreover have "dict_list (attach_fwd_boundary_p2p out) r = attach_boundary_order (dict_list out r)"
    unfolding attach_fwd_boundary_p2p_def by (rule dict_list_map) simp
  ultimately show ?thesis
    using assms(4-6) boundary_no_forward [of None "dict_list out r"] by (auto simp: guarded_plain_def)
qed

definition hoist_example :: exec_order where
  "hoist_example =
     [(0, [Some (MetaStep None OVERLAP_B_F None (Some [mstep 0 BWD 0, mstep 1 FWD 0]) None)]),
      (1, [Some (mstep 0 BWD 1), None])]"

definition hoist_result :: exec_order where
  "hoist_result =
     [(0, [Some (mstep 1 DATA_LOAD 0),
           Some (MetaStep None OVERLAP_B_F None (Some [mstep 0 BWD 0, mstep 1 FWD 0]) None),
           Some (mstep 0 BWD_RECV 0), Some (mstep 1 DATA_SEND 0), Some (mstep 1 FWD_SEND 0)]),
      (1, [Some (mstep 0 BWD 1), Some (mstep 0 BWD_SEND 1), None,
           Some (mstep 1 DATA_RECV 1), Some (mstep 1 FWD_RECV 1)])]"

theorem boundary_pass_never_hoists_witness:
  "add_send_recv hoist_example 2 2 ''loop'' = Inr hoist_result \<and>
   (\<exists>s b x. Some s \<in> set (dict_list (attach_fwd_boundary_p2p hoist_result) 0) \<and>
      boundary_p2p s = Some b \<and> x \<in> set b \<and> step_type x = BWD_RECV) \<and>
   dict_list (attach_fwd_boundary_p2p hoist_result) 0 =
     [Some (mstep 1 DATA_LOAD 0),
      Some (MetaStep None OVERLAP_B_F None (Some [mstep 0 BWD 0, mstep 1 FWD 0])
              (Some [mstep 0 BWD_RECV 0])),
      Some (mstep 1 DATA_SEND 0), Some (mstep 1 FWD_SEND 0)]"
proof -
  have run: "add_send_recv hoist_example 2 2 ''loop'' = Inr hoist_result"
    by code_simp
  have placed: "well_placed 2 2 ''loop'' hoist_example"
    by (simp add: hoist_example_def well_placed_def schedulable_def compute_leaf_def
      is_overlap_def stage_to_rank_def dict_list_def ball_py_range del: set_py_range)
  have plain: "\<forall>r. plain_order (dict_list hoist_example r)"
    by (simp add: hoist_example_def dict_list_def plain_order_def plain_step_def)
  have res: "dict_list (attach_fwd_boundary_p2p hoist_result) 0 =
     [Some (mstep 1 DATA_LOAD 0),
      Some (MetaStep None OVERLAP_B_F None (Some [mstep 0 BWD 0, mstep 1 FWD 0])
              (Some [mstep 0 BWD_RECV 0])),
      Some (mstep 1 DATA_SEND 0), Some (mstep 1 FWD_SEND 0)]"
    by (simp add: hoist_result_def attach_fwd_boundary_p2p_def dict_map_def dict_list_def is_p2p_def
        is_own_fwd_send_def fwd_sub_step_def has_sub_steps_def split_boundary_run_def is_recv_def)
  let ?s = "MetaStep None OVERLAP_B_F None (Some [mstep 0 BWD 0, mstep 1 FWD 0])
              (Some [mstep 0 BWD_RECV 0])"
  have "Some ?s \<in> set (dict_list (attach_fwd_boundary_p2p hoist_result) 0)" by (simp add: res)
  moreover from boundary_pass_never_hoists [OF run placed plain this, of _ "mstep 0 BWD_RECV 0"]
  have "step_type (mstep 0 BWD_RECV 0) = BWD_RECV" by simp
  ultimately have "\<exists>s b x. Some s \<in> set (dict_list (attach_fwd_boundary_p2p hoist_result) 0) \<and>
      boundary_p2p s = Some b \<and> x \<in> set b \<and> step_type x = BWD_RECV"
    by (intro exI [of _ ?s] exI [of _ "[mstep 0 BWD_RECV 0]"] exI [of _ "mstep 0 BWD_RECV 0"]) simp
  with run res show ?thesis by blast
qed



end
