(* ===== verification/Rendezvous.thy ===== *)
theory Rendezvous
  imports Meta_Step "HOL-Library.Product_Lexorder"
begin

text \<open>
  Execution of finished orders under rendezvous transfers: every rank works off its list from the
  front, a local step runs alone, and a transfer completes only together with its partner at the
  front of the partner's rank. This is the strictest transport the schedules are written for (plain
  send and receive on one queue per rank pair); a run that completes under it completes under
  buffered sends too.

  The locale \<open>timed_orders\<close> is the contract a family of orders keeps so that no run can get stuck:
  a time for every step, strictly increasing along every rank and equal for the two halves of a
  transfer. The schedules discharge it with explicit time functions.
\<close>

section \<open>Runs\<close>

type_synonym progs = "int \<Rightarrow> meta_step list"
type_synonym partner_fun = "int \<Rightarrow> meta_step \<Rightarrow> (int \<times> meta_step) option"

inductive exec_step :: "partner_fun \<Rightarrow> progs \<Rightarrow> progs \<Rightarrow> bool" for partner where
  run_local: "st r = a # rest \<Longrightarrow> partner r a = None \<Longrightarrow> exec_step partner st (st(r := rest))"
| run_pair: "st r = a # rest \<Longrightarrow> partner r a = Some (q, b) \<Longrightarrow> q \<noteq> r \<Longrightarrow> st q = b # rest' \<Longrightarrow>
     exec_step partner st (st(r := rest, q := rest'))"

inductive_cases exec_stepE: "exec_step partner st st'"

definition finished :: "progs \<Rightarrow> bool" where
  "finished st \<longleftrightarrow> (\<forall>r. st r = [])"

text \<open>Every run can be completed, whatever steps it has taken so far.\<close>

definition always_completes :: "partner_fun \<Rightarrow> progs \<Rightarrow> bool" where
  "always_completes partner st \<longleftrightarrow>
     (\<forall>st'. (exec_step partner)\<^sup>*\<^sup>* st st' \<longrightarrow>
        (\<exists>fin. (exec_step partner)\<^sup>*\<^sup>* st' fin \<and> finished fin) \<and>
        (\<not> finished st' \<longrightarrow> (\<exists>st''. exec_step partner st' st'')))"

section \<open>The contract\<close>

locale timed_orders =
  fixes ranks :: "int list" and prog :: progs and partner :: partner_fun
    and time :: "int \<Rightarrow> meta_step \<Rightarrow> 't :: linorder"
  assumes increasing: "sorted_wrt (\<lambda>a b. time r a < time r b) (prog r)"
    and outside: "r \<notin> set ranks \<Longrightarrow> prog r = []"
    and partner: "a \<in> set (prog r) \<Longrightarrow> partner r a = Some (q, b) \<Longrightarrow>
        q \<noteq> r \<and> b \<in> set (prog q) \<and> partner q b = Some (r, a) \<and> time q b = time r a"
begin

definition inv :: "progs \<Rightarrow> bool" where
  "inv st \<longleftrightarrow> (\<forall>r. suffix (st r) (prog r)) \<and>
     (\<forall>r a q b. a \<in> set (st r) \<and> partner r a = Some (q, b) \<longrightarrow> b \<in> set (st q))"

lemma inv_start: "inv prog"
  using partner by (auto simp: inv_def)

lemma inv_set: "inv st \<Longrightarrow> a \<in> set (st r) \<Longrightarrow> a \<in> set (prog r)"
  by (auto simp: inv_def dest: set_mono_suffix)

lemma inv_outside:
  assumes "inv st" and "r \<notin> set ranks"
  shows "st r = []"
proof -
  have "suffix (st r) (prog r)" using assms(1) by (simp add: inv_def)
  then show ?thesis by (simp add: outside [OF assms(2)] suffix_def)
qed

lemma inv_sorted:
  assumes "inv st"
  shows "sorted_wrt (\<lambda>a b. time r a < time r b) (st r)"
proof -
  from assms have "suffix (st r) (prog r)" by (simp add: inv_def)
  then obtain zs where "prog r = zs @ st r" by (auto simp: suffix_def)
  with increasing [of r] show ?thesis by (simp add: sorted_wrt_append)
qed

lemma head_not_tail: "inv st \<Longrightarrow> st r = a # rest \<Longrightarrow> a \<notin> set rest"
  using inv_sorted [of st r] by auto

lemma suffix_tail: "suffix (a # rest) xs \<Longrightarrow> suffix rest xs"
  by (rule suffix_ConsD)

lemma inv_step:
  assumes "exec_step partner st st'" and "inv st"
  shows "inv st'"
  using assms(1)
proof (cases rule: exec_step.cases)
  case (run_local r a rest)
  have "b \<in> set (st' q)" if "c \<in> set (st' k)" "partner k c = Some (q, b)" for k c q b
  proof -
    from that(1) run_local(1,2) have c: "c \<in> set (st k)" by (auto split: if_splits)
    with assms(2) that(2) have b: "b \<in> set (st q)" by (auto simp: inv_def)
    have "\<not> (q = r \<and> b = a)"
      using partner [OF inv_set [OF assms(2) c] that(2)] run_local(3) by auto
    with b run_local(1,2) show ?thesis by auto
  qed
  moreover have "suffix (st' k) (prog k)" for k
    using assms(2) run_local(1,2) suffix_tail [of a rest "prog r"] by (auto simp: inv_def) metis
  ultimately show ?thesis unfolding inv_def by blast
next
  case (run_pair r a rest q b rest')
  have a: "a \<in> set (st r)" and b: "b \<in> set (st q)" using run_pair by auto
  note sym = partner [OF inv_set [OF assms(2) a] run_pair(3)]
  have "d \<in> set (st' j)" if "c \<in> set (st' k)" "partner k c = Some (j, d)" for k c j d
  proof -
    from that(1) run_pair(1,2,5) have c: "c \<in> set (st k)" by (auto split: if_splits)
    with assms(2) that(2) have d: "d \<in> set (st j)" by (auto simp: inv_def)
    note symc = partner [OF inv_set [OF assms(2) c] that(2)]
    have "\<not> (j = r \<and> d = a)"
    proof
      assume "j = r \<and> d = a"
      with symc sym run_pair(3) have "k = q" "c = b" by auto
      with that(1) run_pair(1,4) head_not_tail [OF assms(2) run_pair(5)] show False by simp
    qed
    moreover have "\<not> (j = q \<and> d = b)"
    proof
      assume "j = q \<and> d = b"
      with symc sym have "k = r" "c = a" by auto
      with that(1) run_pair(1,4) head_not_tail [OF assms(2) run_pair(2)] show False by simp
    qed
    ultimately show ?thesis using d run_pair(1,2,4,5) by auto
  qed
  moreover have "suffix (st' k) (prog k)" for k
  proof -
    have "suffix rest (prog r)" and "suffix rest' (prog q)"
      using assms(2) run_pair(2,5) suffix_tail unfolding inv_def by metis+
    then show ?thesis using assms(2) run_pair(1) by (auto simp: inv_def)
  qed
  ultimately show ?thesis unfolding inv_def by blast
qed

lemma inv_run: "(exec_step partner)\<^sup>*\<^sup>* prog st \<Longrightarrow> inv st"
  by (induction rule: rtranclp_induct) (auto intro: inv_start inv_step)

text \<open>The front step of least time can run.\<close>

lemma progress:
  assumes "inv st" and "\<not> finished st"
  shows "\<exists>st'. exec_step partner st st'"
proof -
  define open_ranks where "open_ranks = filter (\<lambda>r. st r \<noteq> []) ranks"
  have in_open: "r \<in> set open_ranks" if "st r \<noteq> []" for r
    using that inv_outside [OF assms(1)] by (auto simp: open_ranks_def)
  obtain r0 where "st r0 \<noteq> []" using assms(2) by (auto simp: finished_def)
  then have "set open_ranks \<noteq> {}" using in_open by force
  then have "Min ((\<lambda>k. time k (hd (st k))) ` set open_ranks) \<in>
      (\<lambda>k. time k (hd (st k))) ` set open_ranks" by (intro Min_in) simp_all
  then obtain r where r: "r \<in> set open_ranks"
    and min: "Min ((\<lambda>k. time k (hd (st k))) ` set open_ranks) = time r (hd (st r))" by blast
  have least: "time r (hd (st r)) \<le> time k (hd (st k))" if "k \<in> set open_ranks" for k
    unfolding min [symmetric] using that by (intro Min_le) simp_all
  from r obtain a rest where st: "st r = a # rest" by (cases "st r") (auto simp: open_ranks_def)
  show ?thesis
  proof (cases "partner r a")
    case None
    with st show ?thesis by (blast intro: exec_step.run_local)
  next
    case (Some p)
    obtain q b where p: "partner r a = Some (q, b)" using Some by (cases p) auto
    have "a \<in> set (st r)" using st by simp
    note sym = partner [OF inv_set [OF assms(1) this] p]
    have b: "b \<in> set (st q)" using assms(1) p st unfolding inv_def by (metis list.set_intros(1))
    then obtain c rest' where q: "st q = c # rest'" by (cases "st q") auto
    have "q \<in> set open_ranks" using in_open q by simp
    with least have "time r a \<le> time q c" using st q by fastforce
    moreover have "time q c < time q b" if "b \<noteq> c"
      using inv_sorted [OF assms(1), of q] b that by (auto simp: q)
    ultimately have "b = c" using sym by force
    with st p q sym show ?thesis by (blast intro: exec_step.run_pair)
  qed
qed

definition work :: "progs \<Rightarrow> nat" where
  "work st = (\<Sum>r\<in>set ranks. length (st r))"

lemma work_step:
  assumes "exec_step partner st st'" and "inv st"
  shows "work st' < work st"
proof -
  have le: "length (st' k) \<le> length (st k)" for k
    using assms(1) by (cases rule: exec_stepE) auto
  obtain r where r: "length (st' r) < length (st r)"
    using assms(1)
  proof (cases rule: exec_step.cases)
    case (run_local r a rest)
    then show ?thesis by (intro that [of r]) simp
  next
    case (run_pair r a rest q b rest')
    then show ?thesis by (intro that [of r]) simp
  qed
  have "r \<in> set ranks" using r inv_outside [OF assms(2)] by force
  with r le show ?thesis unfolding work_def by (intro sum_strict_mono_ex1) auto
qed

lemma completes:
  assumes "inv st"
  shows "\<exists>fin. (exec_step partner)\<^sup>*\<^sup>* st fin \<and> finished fin"
  using assms
proof (induction "work st" arbitrary: st rule: less_induct)
  case less
  show ?case
  proof (cases "finished st")
    case False
    with progress [OF less.prems] obtain st' where s: "exec_step partner st st'" by blast
    with less.hyps [OF work_step [OF s less.prems] inv_step [OF s less.prems]] show ?thesis
      by (meson converse_rtranclp_into_rtranclp)
  qed blast
qed

lemma no_deadlock: "always_completes partner prog"
  unfolding always_completes_def using inv_run completes progress by blast

end

section \<open>Order of the steps of one rank\<close>

definition precedes :: "meta_step \<Rightarrow> meta_step \<Rightarrow> meta_step list \<Rightarrow> bool" where
  "precedes a b xs \<longleftrightarrow> (\<exists>us vs ws. xs = us @ a # vs @ b # ws)"

lemma sorted_precedes:
  assumes "sorted_wrt (\<lambda>a b. f a < f b) xs" and "a \<in> set xs" and "b \<in> set xs"
    and "f a < (f b :: 't :: linorder)"
  shows "precedes a b xs"
proof -
  obtain us ys where us: "xs = us @ a # ys" using assms(2) by (meson split_list)
  have "b \<notin> set us" using assms(1,4) us by (auto simp: sorted_wrt_append)
  moreover have "b \<noteq> a" using assms(4) by auto
  ultimately have "b \<in> set ys" using assms(3) us by auto
  then obtain vs ws where "ys = vs @ b # ws" by (meson split_list)
  with us show ?thesis unfolding precedes_def by blast
qed

lemma sorted_concat:
  assumes "\<And>i. i \<in> set is \<Longrightarrow> sorted_wrt P (f i)"
    and "sorted_wrt (\<lambda>i j. \<forall>a \<in> set (f i). \<forall>b \<in> set (f j). P a b) is"
  shows "sorted_wrt P (concat (map f is))"
  using assms by (induction "is") (auto simp: sorted_wrt_append)

lemma sorted_concat_range:
  assumes "\<And>i. a \<le> i \<Longrightarrow> i < b \<Longrightarrow> sorted_wrt P (f i)"
    and "\<And>i j x y. a \<le> i \<Longrightarrow> i < j \<Longrightarrow> j < b \<Longrightarrow> x \<in> set (f i) \<Longrightarrow> y \<in> set (f j) \<Longrightarrow> P x y"
  shows "sorted_wrt P (concat (map f (py_range a b)))"
proof (rule sorted_concat)
  have "sorted_wrt (<) (py_range a b)"
    using sorted_py_range [of a b] distinct_py_range [of a b] by (simp add: strict_sorted_iff)
  then show "sorted_wrt (\<lambda>i j. \<forall>x \<in> set (f i). \<forall>y \<in> set (f j). P x y) (py_range a b)"
    by (rule sorted_wrt_mono_rel [rotated]) (use assms(2) in auto)
qed (use assms(1) in auto)

end
