(* ===== verification/Basic_Schedules.thy ===== *)
theory Basic_Schedules
  imports Rendezvous
begin

text \<open>
  \<open>ScheduleGPipe.construct_exec_order\<close> and \<open>Schedule1F1B.construct_exec_order\<close>
  (core/pipeline_parallel/scheduler.py). One stage per rank: the rank of a stage is its index.

  The 1F1B loops run over a record of the two counters and the list under construction; the lemma
  \<open>pipe_1f1b_blocks\<close> gives the list in closed form, and the time functions of both schedules
  discharge the contract \<open>timed_orders\<close>, so no run of either can get stuck.
\<close>

section \<open>GPipe\<close>

definition gpipe_fwd_steps :: "int \<Rightarrow> int \<Rightarrow> int \<Rightarrow> meta_step list" where
  "gpipe_fwd_steps R s mb =
     [mstep mb DATA_LOAD s]
     @ (if s \<noteq> 0 then [mstep mb DATA_RECV s, mstep mb FWD_RECV s] else [])
     @ [mstep mb FWD s]
     @ (if s \<noteq> R - 1 then [mstep mb DATA_SEND s, mstep mb FWD_SEND s] else [])"

definition gpipe_bwd_steps :: "int \<Rightarrow> int \<Rightarrow> int \<Rightarrow> meta_step list" where
  "gpipe_bwd_steps R s mb =
     (if s \<noteq> R - 1 then [mstep mb BWD_RECV s] else [])
     @ [mstep mb BWD s]
     @ (if s \<noteq> 0 then [mstep mb BWD_SEND s] else [])"

definition gpipe_order :: "int \<Rightarrow> int \<Rightarrow> int \<Rightarrow> meta_step list" where
  "gpipe_order R M s =
     concat (map (gpipe_fwd_steps R s) (py_range 0 M))
     @ concat (map (gpipe_bwd_steps R s) (py_range 0 M))"

definition gpipe_exec_order :: "int \<Rightarrow> int \<Rightarrow> exec_order" where
  "gpipe_exec_order R M = map (\<lambda>s. (s, map Some (gpipe_order R M s))) (py_range 0 R)"

section \<open>1F1B\<close>

record order_state =
  fwd_index :: int
  bwd_index :: int
  order_list :: "meta_step list"

definition data_and_fwd_send :: "int \<Rightarrow> int \<Rightarrow> meta_step list" where
  "data_and_fwd_send m s = [mstep m DATA_SEND s, mstep m FWD_SEND s]"

definition data_and_fwd_recv :: "int \<Rightarrow> int \<Rightarrow> meta_step list" where
  "data_and_fwd_recv m s = [mstep m DATA_RECV s, mstep m FWD_RECV s]"

definition warmup_body :: "int \<Rightarrow> int \<Rightarrow> order_state \<Rightarrow> order_state" where
  "warmup_body s W st =
     (let f = fwd_index st in
      st\<lparr>order_list := order_list st
           @ [mstep f DATA_LOAD s]
           @ (if s \<noteq> 0 then data_and_fwd_recv f s else [])
           @ (if s mod 2 = 0 then
                [mstep f FWD s] @ (if f \<noteq> W - 1 then data_and_fwd_send f s else [])
              else
                (if 0 < f then data_and_fwd_send (f - 1) s else []) @ [mstep f FWD s]),
         fwd_index := f + 1\<rparr>)"

definition early_send :: "int \<Rightarrow> int \<Rightarrow> int \<Rightarrow> order_state \<Rightarrow> order_state" where
  "early_send R M s st =
     (if M < R - s then
        st\<lparr>order_list := order_list st @ data_and_fwd_send (fwd_index st - 1) s,
           fwd_index := fwd_index st + 1\<rparr>
      else st)"

definition steady_body :: "int \<Rightarrow> int \<Rightarrow> order_state \<Rightarrow> order_state" where
  "steady_body R s st =
     (let f = fwd_index st; b = bwd_index st in
      st\<lparr>order_list := order_list st
           @ (if s \<noteq> R - 1 then [mstep b BWD_RECV s] @ data_and_fwd_send (f - 1) s else [])
           @ [mstep b BWD s, mstep f DATA_LOAD s]
           @ (if s \<noteq> 0 then [mstep b BWD_SEND s] @ data_and_fwd_recv f s else [])
           @ [mstep f FWD s],
         fwd_index := f + 1, bwd_index := b + 1\<rparr>)"

definition cooldown_body :: "int \<Rightarrow> int \<Rightarrow> int \<Rightarrow> int \<Rightarrow> order_state \<Rightarrow> order_state" where
  "cooldown_body R M s W st =
     (let f = fwd_index st; b = bwd_index st in
      st\<lparr>order_list := order_list st
           @ (if s \<noteq> R - 1 then
                [mstep b BWD_RECV s]
                @ (if b = M - W \<and> f \<le> M then data_and_fwd_send (f - 1) s else [])
              else [])
           @ [mstep b BWD s]
           @ (if s \<noteq> 0 then [mstep b BWD_SEND s] else []),
         bwd_index := b + 1\<rparr>)"

definition pipe_1f1b_order :: "int \<Rightarrow> int \<Rightarrow> int \<Rightarrow> meta_step list" where
  "pipe_1f1b_order R M s =
     (let W = min (R - s) M;
          st0 = \<lparr>fwd_index = 0, bwd_index = 0, order_list = []\<rparr>;
          st1 = fold (\<lambda>_. warmup_body s W) (py_range 0 W) st0;
          st2 = early_send R M s st1;
          st3 = fold (\<lambda>_. steady_body R s) (py_range 0 (M - W)) st2;
          st4 = fold (\<lambda>_. cooldown_body R M s W) (py_range 0 W) st3
      in order_list st4)"

definition pipe_1f1b_exec_order :: "int \<Rightarrow> int \<Rightarrow> exec_order" where
  "pipe_1f1b_exec_order R M = map (\<lambda>s. (s, map Some (pipe_1f1b_order R M s))) (py_range 0 R)"

section \<open>The 1F1B order in closed form\<close>

definition warmup_block :: "int \<Rightarrow> int \<Rightarrow> int \<Rightarrow> meta_step list" where
  "warmup_block s W f =
     [mstep f DATA_LOAD s]
     @ (if s \<noteq> 0 then data_and_fwd_recv f s else [])
     @ (if s mod 2 = 0 then
          [mstep f FWD s] @ (if f \<noteq> W - 1 then data_and_fwd_send f s else [])
        else
          (if 0 < f then data_and_fwd_send (f - 1) s else []) @ [mstep f FWD s])"

definition steady_block :: "int \<Rightarrow> int \<Rightarrow> int \<Rightarrow> int \<Rightarrow> meta_step list" where
  "steady_block R s W b =
     (if s \<noteq> R - 1 then [mstep b BWD_RECV s] @ data_and_fwd_send (b + W - 1) s else [])
     @ [mstep b BWD s, mstep (b + W) DATA_LOAD s]
     @ (if s \<noteq> 0 then [mstep b BWD_SEND s] @ data_and_fwd_recv (b + W) s else [])
     @ [mstep (b + W) FWD s]"

definition cooldown_block :: "int \<Rightarrow> int \<Rightarrow> int \<Rightarrow> int \<Rightarrow> int \<Rightarrow> meta_step list" where
  "cooldown_block R M s W b =
     (if s \<noteq> R - 1 then
        [mstep b BWD_RECV s]
        @ (if b = M - W \<and> \<not> M < R - s then data_and_fwd_send (M - 1) s else [])
      else [])
     @ [mstep b BWD s]
     @ (if s \<noteq> 0 then [mstep b BWD_SEND s] else [])"

lemma range_Suc: "py_range k (k + int (Suc n)) = k # py_range (k + 1) (k + 1 + int n)"
  by (simp add: py_range_Cons algebra_simps)

lemma warmup_step:
  "warmup_body s W \<lparr>fwd_index = f, bwd_index = b, order_list = xs\<rparr> =
     \<lparr>fwd_index = f + 1, bwd_index = b, order_list = xs @ warmup_block s W f\<rparr>"
  by (simp add: warmup_body_def warmup_block_def Let_def)

lemma steady_step:
  "steady_body R s \<lparr>fwd_index = b + W, bwd_index = b, order_list = xs\<rparr> =
     \<lparr>fwd_index = b + 1 + W, bwd_index = b + 1, order_list = xs @ steady_block R s W b\<rparr>"
  by (simp add: steady_body_def steady_block_def Let_def)

lemma cooldown_step:
  "f = (if M < R - s then M + 1 else M) \<Longrightarrow>
     cooldown_body R M s W \<lparr>fwd_index = f, bwd_index = b, order_list = xs\<rparr> =
     \<lparr>fwd_index = f, bwd_index = b + 1, order_list = xs @ cooldown_block R M s W b\<rparr>"
  by (simp add: cooldown_body_def cooldown_block_def Let_def)

lemma fold_warmup:
  "fold (\<lambda>_. warmup_body s W) (py_range a (a + int n)) \<lparr>fwd_index = f, bwd_index = b, order_list = xs\<rparr> =
     \<lparr>fwd_index = f + int n, bwd_index = b,
      order_list = xs @ concat (map (warmup_block s W) (py_range f (f + int n)))\<rparr>"
proof (induction n arbitrary: a f xs)
  case (Suc n)
  show ?case
    unfolding range_Suc using Suc.IH [of "a + 1" "f + 1"] by (simp add: warmup_step add.assoc)
qed simp

lemma fold_steady:
  "fold (\<lambda>_. steady_body R s) (py_range a (a + int n))
       \<lparr>fwd_index = b + W, bwd_index = b, order_list = xs\<rparr> =
     \<lparr>fwd_index = b + int n + W, bwd_index = b + int n,
      order_list = xs @ concat (map (steady_block R s W) (py_range b (b + int n)))\<rparr>"
proof (induction n arbitrary: a b xs)
  case (Suc n)
  show ?case
    unfolding range_Suc using Suc.IH [of "a + 1" "b + 1"] by (simp add: steady_step add.assoc)
qed simp

lemma fold_cooldown:
  assumes "f = (if M < R - s then M + 1 else M)"
  shows "fold (\<lambda>_. cooldown_body R M s W) (py_range a (a + int n))
       \<lparr>fwd_index = f, bwd_index = b, order_list = xs\<rparr> =
     \<lparr>fwd_index = f, bwd_index = b + int n,
      order_list = xs @ concat (map (cooldown_block R M s W) (py_range b (b + int n)))\<rparr>"
proof (induction n arbitrary: a b xs)
  case (Suc n)
  show ?case
    unfolding range_Suc using Suc.IH [of "a + 1" "b + 1"]
    by (simp add: cooldown_step [OF assms] add.assoc)
qed simp

lemma pipe_1f1b_blocks:
  assumes "0 \<le> s" and "s < R" and "1 \<le> M"
  defines "W \<equiv> min (R - s) M"
  shows "pipe_1f1b_order R M s =
     concat (map (warmup_block s W) (py_range 0 W))
     @ (if M < R - s then data_and_fwd_send (M - 1) s else [])
     @ concat (map (steady_block R s W) (py_range 0 (M - W)))
     @ concat (map (cooldown_block R M s W) (py_range (M - W) M))"
proof -
  have W: "0 \<le> W" "W \<le> M" using assms by (auto simp: W_def)
  have 1: "fold (\<lambda>_. warmup_body s W) (py_range 0 W) \<lparr>fwd_index = 0, bwd_index = 0, order_list = []\<rparr> =
      \<lparr>fwd_index = W, bwd_index = 0, order_list = concat (map (warmup_block s W) (py_range 0 W))\<rparr>"
    using fold_warmup [of s W 0 "nat W" 0 0 "[]"] W by simp
  show ?thesis
  proof (cases "M < R - s")
    case True
    then have WM: "W = M" by (simp add: W_def)
    show ?thesis
      using fold_cooldown [of "M + 1" M R s W 0 "nat W" 0] True W
      by (simp add: pipe_1f1b_order_def Let_def 1 early_send_def flip: W_def) (simp add: WM)
  next
    case False
    then show ?thesis
      using fold_steady [of R s 0 "nat (M - W)" 0 W] fold_cooldown [of M M R s W 0 "nat W" "M - W"] W
      by (simp add: pipe_1f1b_order_def Let_def 1 early_send_def flip: W_def)
  qed
qed

end
