(* ===== verification/Basic_Schedule_Runs.thy ===== *)
theory Basic_Schedule_Runs
  imports Basic_Schedules
begin

text \<open>
  What the GPipe and 1F1B orders guarantee: every operation of every micro-batch exactly once and in
  micro-batch order, matching channels, the local data dependencies, a bound on the activations in
  flight, and runs that always complete under rendezvous transfers.
\<close>

section \<open>The micro-batches of one kind of step\<close>

definition micros :: "meta_step_type \<Rightarrow> meta_step list \<Rightarrow> int list" where
  "micros t xs = map (\<lambda>a. the (micro_index a)) (filter (\<lambda>a. step_type a = t) xs)"

lemma micros_simps [simp]:
  "micros t [] = []"
  "micros t (a # xs) = (if step_type a = t then [the (micro_index a)] else []) @ micros t xs"
  "micros t (xs @ ys) = micros t xs @ micros t ys"
  by (simp_all add: micros_def)

lemma micros_concat: "micros t (concat (map f is)) = concat (map (\<lambda>i. micros t (f i)) is)"
  by (induction "is") simp_all

lemma micros_if [simp]: "micros t (if b then xs else ys) = (if b then micros t xs else micros t ys)"
  by simp

lemma concat_single: "concat (map (\<lambda>i. [f i]) is) = map f is"
  by (induction "is") simp_all

lemma concat_nil: "concat (map (\<lambda>i. []) is) = []"
  by (induction "is") simp_all

lemma map_shift_range: "map (\<lambda>b. b + k) (py_range a b) = py_range (a + k) (b + k)"
  by (rule nth_equalityI) auto

lemma concat_but_last:
  "1 \<le> W \<Longrightarrow> concat (map (\<lambda>f. if f \<noteq> W - 1 then [f] else []) (py_range 0 W)) = py_range 0 (W - 1)"
proof -
  assume W: "1 \<le> W"
  have "py_range 0 W = py_range 0 (W - 1) @ [W - 1]" using py_range_snoc [of 0 "W - 1"] W by simp
  moreover have "concat (map (\<lambda>f. if f \<noteq> W - 1 then [f] else []) (py_range 0 (W - 1))) =
      concat (map (\<lambda>f. [f]) (py_range 0 (W - 1)))" by (intro arg_cong [where f = concat] map_cong) auto
  ultimately show ?thesis by (simp add: concat_single)
qed

lemma concat_delayed:
  "1 \<le> W \<Longrightarrow> concat (map (\<lambda>f. if 0 < f then [f - 1] else []) (py_range 0 W)) = py_range 0 (W - 1)"
proof -
  assume W: "1 \<le> W"
  have "py_range 0 W = 0 # py_range 1 W" using py_range_Cons [of 0 W] W by simp
  moreover have "concat (map (\<lambda>f. if 0 < f then [f - 1] else []) (py_range 1 W)) =
      concat (map (\<lambda>f. [f - 1]) (py_range 1 W))" by (intro arg_cong [where f = concat] map_cong) auto
  ultimately show ?thesis
    using map_shift_range [of "- 1" 1 W] by (simp add: concat_single)
qed

lemma concat_at:
  "concat (map (\<lambda>b. if b = k then [x] else []) (py_range a c)) = (if a \<le> k \<and> k < c then [x] else [])"
  using concat_map_singleton_filter [of "\<lambda>b. b = k" "\<lambda>_. x" "py_range a c"]
  by (simp add: filter_py_range_eq)

section \<open>Every operation once\<close>

text \<open>Which kinds of steps a stage has.\<close>

definition stage_ops :: "int \<Rightarrow> int \<Rightarrow> meta_step_type set" where
  "stage_ops R s =
     {DATA_LOAD, FWD, BWD}
     \<union> (if s \<noteq> 0 then {DATA_RECV, FWD_RECV, BWD_SEND} else {})
     \<union> (if s \<noteq> R - 1 then {DATA_SEND, FWD_SEND, BWD_RECV} else {})"

definition complete_order :: "int \<Rightarrow> int \<Rightarrow> int \<Rightarrow> meta_step list \<Rightarrow> bool" where
  "complete_order R M s xs \<longleftrightarrow>
     (\<forall>t. micros t xs = (if t \<in> stage_ops R s then py_range 0 M else [])) \<and>
     (\<forall>a \<in> set xs. \<exists>m t. a = mstep m t s)"

lemma complete_order_mem:
  assumes "complete_order R M s xs"
  shows "a \<in> set xs \<longleftrightarrow> (\<exists>m t. a = mstep m t s \<and> 0 \<le> m \<and> m < M \<and> t \<in> stage_ops R s)"
proof
  assume a: "a \<in> set xs"
  with assms obtain m t where m: "a = mstep m t s" unfolding complete_order_def by blast
  then have "m \<in> set (micros t xs)" using a by (force simp: micros_def)
  with assms have "0 \<le> m \<and> m < M \<and> t \<in> stage_ops R s"
    unfolding complete_order_def by (auto split: if_splits)
  with m show "\<exists>m t. a = mstep m t s \<and> 0 \<le> m \<and> m < M \<and> t \<in> stage_ops R s" by blast
next
  assume "\<exists>m t. a = mstep m t s \<and> 0 \<le> m \<and> m < M \<and> t \<in> stage_ops R s"
  then obtain m t where a: "a = mstep m t s" and m: "0 \<le> m" "m < M" "t \<in> stage_ops R s" by blast
  with assms have "m \<in> set (micros t xs)" by (simp add: complete_order_def)
  then obtain b where b: "b \<in> set xs" "step_type b = t" "the (micro_index b) = m"
    by (auto simp: micros_def)
  with assms obtain m' t' where "b = mstep m' t' s" unfolding complete_order_def by blast
  with a b show "a \<in> set xs" by simp
qed

lemma gpipe_complete: "complete_order R M s (gpipe_order R M s)"
  unfolding complete_order_def
proof
  show "\<forall>t. micros t (gpipe_order R M s) = (if t \<in> stage_ops R s then py_range 0 M else [])"
  proof
    fix t
    show "micros t (gpipe_order R M s) = (if t \<in> stage_ops R s then py_range 0 M else [])"
      by (cases t; cases "s = 0"; cases "s = R - 1") (simp_all add: gpipe_order_def micros_concat gpipe_fwd_steps_def
          gpipe_bwd_steps_def stage_ops_def concat_single concat_nil)
  qed
qed (auto simp: gpipe_order_def gpipe_fwd_steps_def gpipe_bwd_steps_def)

lemma pipe_1f1b_micros:
  assumes "0 \<le> s" and "s < R" and "1 \<le> M"
  shows "micros t (pipe_1f1b_order R M s) = (if t \<in> stage_ops R s then py_range 0 M else [])"
proof -
  define W where "W = min (R - s) M"
  have W: "1 \<le> W" "W \<le> M" using assms by (auto simp: W_def)
  have join: "py_range 0 W @ py_range W M = py_range 0 M"
    "py_range 0 (M - W) @ py_range (M - W) M = py_range 0 M"
    using W by (simp_all add: py_range_append)
  have fwd_part: "map (\<lambda>b. b + W) (py_range 0 (M - W)) = py_range W M"
    using map_shift_range [of W 0 "M - W"] by simp
  have send_part: "map (\<lambda>b. b + W - 1) (py_range 0 (M - W)) = py_range (W - 1) (M - 1)"
    using map_shift_range [of "W - 1" 0 "M - W"] by (simp add: algebra_simps)
  have send_join: "py_range 0 (W - 1) @ py_range (W - 1) (M - 1) @ [M - 1] = py_range 0 M"
    using W py_range_append [of 0 "W - 1" "M - 1"] py_range_snoc [of 0 "M - 1"] by simp
  have last: "W = 1" if "s = R - 1" using that assms by (simp add: W_def)
  have warm: "concat (map (\<lambda>f. micros t (warmup_block s W f)) (py_range 0 W)) =
     (if t \<in> {DATA_LOAD, FWD} \<or> t \<in> {DATA_RECV, FWD_RECV} \<and> s \<noteq> 0 then py_range 0 W
      else if t \<in> {DATA_SEND, FWD_SEND} then py_range 0 (W - 1) else [])"
    using concat_but_last [OF W(1)] concat_delayed [OF W(1)]
    by (cases t; cases "s mod 2 = 0"; cases "s = 0")
      (simp_all add: warmup_block_def data_and_fwd_send_def data_and_fwd_recv_def
        concat_single concat_nil if_distrib [of "micros _"] if_distribR cong: if_cong)
  have steady: "concat (map (\<lambda>b. micros t (steady_block R s W b)) (py_range 0 (M - W))) =
     (if t \<in> {DATA_LOAD, FWD} \<or> t \<in> {DATA_RECV, FWD_RECV} \<and> s \<noteq> 0 then py_range W M
      else if t \<in> {DATA_SEND, FWD_SEND} \<and> s \<noteq> R - 1 then py_range (W - 1) (M - 1)
      else if t = BWD \<or> t = BWD_RECV \<and> s \<noteq> R - 1 \<or> t = BWD_SEND \<and> s \<noteq> 0 then py_range 0 (M - W)
      else [])"
    using fwd_part send_part
    by (cases t; cases "s = 0"; cases "s = R - 1") (simp_all add: steady_block_def data_and_fwd_send_def data_and_fwd_recv_def
        concat_single concat_nil)
  have cool: "concat (map (\<lambda>b. micros t (cooldown_block R M s W b)) (py_range (M - W) M)) =
     (if t = BWD \<or> t = BWD_RECV \<and> s \<noteq> R - 1 \<or> t = BWD_SEND \<and> s \<noteq> 0 then py_range (M - W) M
      else if t \<in> {DATA_SEND, FWD_SEND} \<and> s \<noteq> R - 1 \<and> \<not> M < R - s then [M - 1] else [])"
    using concat_at [of "M - W" "M - 1" "M - W" M] W
    by (cases t; cases "s = 0"; cases "s = R - 1"; cases "M < R - s") (simp_all add: cooldown_block_def data_and_fwd_send_def
        concat_single concat_nil if_distrib [of "micros _"] if_distribR cong: if_cong)
  have early: "micros t (if M < R - s then data_and_fwd_send (M - 1) s else []) =
     (if t \<in> {DATA_SEND, FWD_SEND} \<and> M < R - s then [M - 1] else [])"
    by (simp add: data_and_fwd_send_def)
  have empty: "py_range (W - 1) (M - 1) = []" if "M < R - s" using that by (simp add: W_def)
  show ?thesis
    unfolding pipe_1f1b_blocks [OF assms] W_def [symmetric] micros_simps micros_concat
      warm steady cool early
    using join send_join last empty assms by (cases t) (auto simp: stage_ops_def)
qed

lemma pipe_1f1b_complete:
  assumes "0 \<le> s" and "s < R" and "1 \<le> M"
  shows "complete_order R M s (pipe_1f1b_order R M s)"
  unfolding complete_order_def
proof
  show "\<forall>t. micros t (pipe_1f1b_order R M s) = (if t \<in> stage_ops R s then py_range 0 M else [])"
    using pipe_1f1b_micros [OF assms] by blast
  have "\<exists>m t. a = mstep m t s" if "a \<in> set (warmup_block s W f)" for a W f
    using that by (auto simp: warmup_block_def data_and_fwd_send_def data_and_fwd_recv_def split: if_splits)
  moreover have "\<exists>m t. a = mstep m t s" if "a \<in> set (steady_block R s W b)" for a W b
    using that by (auto simp: steady_block_def data_and_fwd_send_def data_and_fwd_recv_def split: if_splits)
  moreover have "\<exists>m t. a = mstep m t s" if "a \<in> set (cooldown_block R M s W b)" for a W b
    using that by (auto simp: cooldown_block_def data_and_fwd_send_def split: if_splits)
  ultimately show "\<forall>a \<in> set (pipe_1f1b_order R M s). \<exists>m t. a = mstep m t s"
    unfolding pipe_1f1b_blocks [OF assms]
    by (auto simp: data_and_fwd_send_def split: if_splits)
qed

section \<open>Runs under rendezvous\<close>

text \<open>
  The other half of a transfer when the rank of a stage is its index: the receive one stage up for a
  forward send, one stage down for a backward send.
\<close>

definition p2p_partner :: partner_fun where
  "p2p_partner r a =
     (let m = the (micro_index a); t = step_type a in
      if t = DATA_SEND then Some (r + 1, mstep m DATA_RECV (r + 1))
      else if t = FWD_SEND then Some (r + 1, mstep m FWD_RECV (r + 1))
      else if t = DATA_RECV then Some (r - 1, mstep m DATA_SEND (r - 1))
      else if t = FWD_RECV then Some (r - 1, mstep m FWD_SEND (r - 1))
      else if t = BWD_SEND then Some (r - 1, mstep m BWD_RECV (r - 1))
      else if t = BWD_RECV then Some (r + 1, mstep m BWD_SEND (r + 1))
      else None)"

definition progs_of :: "exec_order \<Rightarrow> progs" where
  "progs_of exec r = somes (dict_list exec r)"

lemma progs_of_ranks:
  "progs_of (map (\<lambda>s. (s, map Some (f s))) (py_range 0 R)) r = (if 0 \<le> r \<and> r < R then f r else [])"
  by (simp add: progs_of_def dict_list_def map_of_map_pair)

text \<open>
  The two halves of every transfer of complete orders are present, so a time function that agrees on
  them is all that is missing.
\<close>

lemma complete_partner:
  assumes complete: "\<And>s. 0 \<le> s \<Longrightarrow> s < R \<Longrightarrow> complete_order R M s (f s)"
    and agree: "\<And>s m. 0 \<le> s \<Longrightarrow>
        time (s + 1) (mstep m DATA_RECV (s + 1)) = time s (mstep m DATA_SEND s) \<and>
        time (s + 1) (mstep m FWD_RECV (s + 1)) = time s (mstep m FWD_SEND s) \<and>
        time (s + 1) (mstep m BWD_SEND (s + 1)) = time s (mstep m BWD_RECV s)"
    and a: "a \<in> set (if 0 \<le> r \<and> r < R then f r else [])" and p: "p2p_partner r a = Some (q, b)"
  shows "q \<noteq> r \<and> b \<in> set (if 0 \<le> q \<and> q < R then f q else []) \<and> p2p_partner q b = Some (r, a) \<and>
    time q b = time r a"
proof -
  have r: "0 \<le> r" "r < R" using a by (auto split: if_splits)
  with a complete_order_mem [OF complete [OF r]] obtain m t where
    a_eq: "a = mstep m t r" and m: "0 \<le> m" "m < M" and t: "t \<in> stage_ops R r" by auto
  have mem: "b \<in> set (f q)" if "b = mstep m t' q" "t' \<in> stage_ops R q" "0 \<le> q" "q < R" for t'
    using that m complete_order_mem [OF complete [OF that(3,4)]] by blast
  from p t a_eq r show ?thesis
    using mem agree [OF r(1), of m] agree [of "r - 1" m]
    by (cases t) (auto simp: p2p_partner_def stage_ops_def Let_def split: if_splits)
qed

subsection \<open>GPipe\<close>

definition gpipe_time :: "int \<Rightarrow> int \<Rightarrow> int \<Rightarrow> meta_step \<Rightarrow> int \<times> int" where
  "gpipe_time R M s a =
     (let m = the (micro_index a); t = step_type a; back = 2 * M + 2 * R + (R - 1 - s) + 2 * m in
      if t = DATA_LOAD then (s + 2 * m - 1, 0)
      else if t = DATA_RECV then (s - 1 + 2 * m, 2)
      else if t = FWD_RECV then (s - 1 + 2 * m, 3)
      else if t = FWD then (s + 2 * m, 1)
      else if t = DATA_SEND then (s + 2 * m, 2)
      else if t = FWD_SEND then (s + 2 * m, 3)
      else if t = BWD_RECV then (back - 1, 2)
      else if t = BWD then (back, 1)
      else (back, 2))"

lemma gpipe_sorted:
  assumes "0 \<le> s" and "s < R"
  shows "sorted_wrt (\<lambda>a b. gpipe_time R M s a < gpipe_time R M s b) (gpipe_order R M s)"
proof -
  have fwd: "s + 2 * m - 1 \<le> fst (gpipe_time R M s a) \<and> fst (gpipe_time R M s a) \<le> s + 2 * m"
    if "a \<in> set (gpipe_fwd_steps R s m)" for a m
    using that by (auto simp: gpipe_fwd_steps_def gpipe_time_def Let_def split: if_splits)
  have bwd: "2 * M + 2 * R + (R - 1 - s) + 2 * m - 1 \<le> fst (gpipe_time R M s a) \<and>
      fst (gpipe_time R M s a) \<le> 2 * M + 2 * R + (R - 1 - s) + 2 * m"
    if "a \<in> set (gpipe_bwd_steps R s m)" for a m
    using that by (auto simp: gpipe_bwd_steps_def gpipe_time_def Let_def split: if_splits)
  have "sorted_wrt (\<lambda>a b. gpipe_time R M s a < gpipe_time R M s b)
      (concat (map (gpipe_fwd_steps R s) (py_range 0 M)))"
  proof (rule sorted_concat_range)
    show "sorted_wrt (\<lambda>a b. gpipe_time R M s a < gpipe_time R M s b) (gpipe_fwd_steps R s i)" for i
      by (auto simp: gpipe_fwd_steps_def gpipe_time_def Let_def)
    show "gpipe_time R M s x < gpipe_time R M s y"
      if "i < j" "x \<in> set (gpipe_fwd_steps R s i)" "y \<in> set (gpipe_fwd_steps R s j)" for i j x y
      using fwd [OF that(2)] fwd [OF that(3)] that(1) by (simp add: less_prod_def')
  qed
  moreover have "sorted_wrt (\<lambda>a b. gpipe_time R M s a < gpipe_time R M s b)
      (concat (map (gpipe_bwd_steps R s) (py_range 0 M)))"
  proof (rule sorted_concat_range)
    show "sorted_wrt (\<lambda>a b. gpipe_time R M s a < gpipe_time R M s b) (gpipe_bwd_steps R s i)" for i
      by (auto simp: gpipe_bwd_steps_def gpipe_time_def Let_def)
    show "gpipe_time R M s x < gpipe_time R M s y"
      if "i < j" "x \<in> set (gpipe_bwd_steps R s i)" "y \<in> set (gpipe_bwd_steps R s j)" for i j x y
      using bwd [OF that(2)] bwd [OF that(3)] that(1) by (simp add: less_prod_def')
  qed
  moreover have "gpipe_time R M s x < gpipe_time R M s y"
    if "x \<in> set (gpipe_fwd_steps R s i)" "y \<in> set (gpipe_bwd_steps R s j)" "i < M" "0 \<le> j" for i j x y
    using fwd [OF that(1)] bwd [OF that(2)] that(3,4) assms by (simp add: less_prod_def')
  ultimately show ?thesis by (auto simp: gpipe_order_def sorted_wrt_append)
qed

interpretation gpipe: timed_orders "py_range 0 R" "progs_of (gpipe_exec_order R M)" p2p_partner
    "gpipe_time R M" for R M
proof
  show "sorted_wrt (\<lambda>a b. gpipe_time R M r a < gpipe_time R M r b) (progs_of (gpipe_exec_order R M) r)"
    for r using gpipe_sorted by (simp add: gpipe_exec_order_def progs_of_ranks)
  show "progs_of (gpipe_exec_order R M) r = []" if "r \<notin> set (py_range 0 R)" for r
    using that by (auto simp: gpipe_exec_order_def progs_of_ranks)
  show "q \<noteq> r \<and> b \<in> set (progs_of (gpipe_exec_order R M) q) \<and> p2p_partner q b = Some (r, a) \<and>
      gpipe_time R M q b = gpipe_time R M r a"
    if "a \<in> set (progs_of (gpipe_exec_order R M) r)" "p2p_partner r a = Some (q, b)" for a r q b
    using that complete_partner [of R M "gpipe_order R M" "gpipe_time R M" a r q b] gpipe_complete
    by (simp add: gpipe_exec_order_def progs_of_ranks gpipe_time_def Let_def)
qed

subsection \<open>1F1B\<close>

text \<open>
  Times are slots with a position inside the slot. Micro-batch \<open>m\<close> goes forward on stage \<open>s\<close> in slot
  \<open>s + 2 m\<close> and backward in slot \<open>2 m + 2 R - 1 - s\<close>. During the warmup an even stage sends at once
  and an odd stage after its next receive; from the last warmup forward on, the transfers of a slot
  come at its end, the gradients before the activations.
\<close>

definition fwd_send_time :: "int \<Rightarrow> int \<Rightarrow> int \<Rightarrow> int \<Rightarrow> int \<Rightarrow> int \<times> int" where
  "fwd_send_time R M s m k =
     (if m < min (R - s) M - 1 then
        (if s mod 2 = 0 then (s + 2 * m, 6 * s + 1 + k) else (s + 2 * m + 1, 6 * s - 3 + k))
      else if M < R - s then (s + 2 * m, 6 * s + 1 + k)
      else (s + 2 * m, 6 * R + 3 + k))"

definition pipe_1f1b_time :: "int \<Rightarrow> int \<Rightarrow> int \<Rightarrow> meta_step \<Rightarrow> int \<times> int" where
  "pipe_1f1b_time R M s a =
     (let m = the (micro_index a); t = step_type a in
      if t = DATA_LOAD then (s + 2 * m - 1, - 1)
      else if t = DATA_RECV then fwd_send_time R M (s - 1) m 0
      else if t = FWD_RECV then fwd_send_time R M (s - 1) m 1
      else if t = FWD then (s + 2 * m, 6 * s)
      else if t = DATA_SEND then fwd_send_time R M s m 0
      else if t = FWD_SEND then fwd_send_time R M s m 1
      else if t = BWD_RECV then (2 * m + 2 * R - 2 - s, 6 * R + 1)
      else if t = BWD then (2 * m + 2 * R - 1 - s, - 2)
      else (2 * m + 2 * R - 1 - s, 6 * R + 1))"

abbreviation before_1f1b :: "int \<Rightarrow> int \<Rightarrow> int \<Rightarrow> meta_step \<Rightarrow> meta_step \<Rightarrow> bool" where
  "before_1f1b R M s a b \<equiv> pipe_1f1b_time R M s a < pipe_1f1b_time R M s b"

lemma time_1f1b_simps [simp]:
  "pipe_1f1b_time R M s (mstep m DATA_LOAD k) = (s + 2 * m - 1, - 1)"
  "pipe_1f1b_time R M s (mstep m DATA_RECV k) = fwd_send_time R M (s - 1) m 0"
  "pipe_1f1b_time R M s (mstep m FWD_RECV k) = fwd_send_time R M (s - 1) m 1"
  "pipe_1f1b_time R M s (mstep m FWD k) = (s + 2 * m, 6 * s)"
  "pipe_1f1b_time R M s (mstep m DATA_SEND k) = fwd_send_time R M s m 0"
  "pipe_1f1b_time R M s (mstep m FWD_SEND k) = fwd_send_time R M s m 1"
  "pipe_1f1b_time R M s (mstep m BWD_RECV k) = (2 * m + 2 * R - 2 - s, 6 * R + 1)"
  "pipe_1f1b_time R M s (mstep m BWD k) = (2 * m + 2 * R - 1 - s, - 2)"
  "pipe_1f1b_time R M s (mstep m BWD_SEND k) = (2 * m + 2 * R - 1 - s, 6 * R + 1)"
  by (simp_all add: pipe_1f1b_time_def Let_def)

lemma pred_mod_2: "(s - 1) mod 2 = 0 \<longleftrightarrow> s mod 2 \<noteq> (0 :: int)"
  by presburger

text \<open>The times of one block: increasing, and between a first and a last one.\<close>

lemma warmup_recv_time:
  assumes "0 \<le> f" and "f < min (R - s) M"
  shows "fwd_send_time R M (s - 1) f k =
    (if s mod 2 \<noteq> 0 \<or> f = M - 1 \<and> M < R - s + 1 then (s + 2 * f - 1, 6 * s - 5 + k)
     else (s + 2 * f, 6 * s - 9 + k))"
proof -
  have "f < min (R - (s - 1)) M - 1 \<longleftrightarrow> \<not> (f = M - 1 \<and> M < R - s + 1)"
  proof (cases "M < R - s + 1")
    case True
    then have "min (R - (s - 1)) M = M" by simp
    moreover have "f < M" using assms(2) by simp
    ultimately show ?thesis using True by auto
  next
    case False
    then have "min (R - (s - 1)) M = R - s + 1" by simp
    moreover have "f < R - s" using assms(2) by simp
    ultimately show ?thesis using False by auto
  qed
  then show ?thesis
    using assms by (auto simp: fwd_send_time_def pred_mod_2 algebra_simps)
qed

lemma warmup_send_time:
  assumes "f < min (R - s) M - 1"
  shows "fwd_send_time R M s f k =
    (if s mod 2 = 0 then (s + 2 * f, 6 * s + 1 + k) else (s + 2 * f + 1, 6 * s - 3 + k))"
  using assms by (simp add: fwd_send_time_def)

lemma warmup_times:
  assumes "0 \<le> s" and "s < R" and "0 \<le> f" and "f < min (R - s) M"
  defines "W \<equiv> min (R - s) M"
  shows "sorted_wrt (before_1f1b R M s) (warmup_block s W f) \<and>
    (\<forall>a \<in> set (warmup_block s W f).
      (s + 2 * f - 1, - 1) \<le> pipe_1f1b_time R M s a \<and>
      pipe_1f1b_time R M s a \<le> (s + 2 * f, 6 * s + (if f = W - 1 then 0 else 2)))"
proof -
  define last where "last \<longleftrightarrow> f = W - 1"
  define late where "late \<longleftrightarrow> f = M - 1 \<and> M < R - s + 1"
  note recv = warmup_recv_time [OF assms(3,4), folded late_def]
  have own: "fwd_send_time R M s f k = (s + 2 * f, 6 * s + 1 + k)"
    if "s mod 2 = 0" "\<not> last" for k
  proof -
    have "f < min (R - s) M - 1" using that(2) assms(4) unfolding W_def last_def by linarith
    from warmup_send_time [OF this] that(1) show ?thesis by simp
  qed
  have prev: "fwd_send_time R M s (f - 1) k = (s + 2 * f - 1, 6 * s - 3 + k)"
    if "s mod 2 \<noteq> 0" for k
  proof -
    have "f - 1 < min (R - s) M - 1" using assms(4) by linarith
    from warmup_send_time [OF this] that show ?thesis by (simp add: algebra_simps)
  qed
  show ?thesis
  proof (cases "s mod 2 = 0")
    case True
    then show ?thesis
      unfolding warmup_block_def last_def [symmetric]
      using assms(1) own
      by (cases "s = 0"; cases last; cases late)
        (simp_all add: warmup_block_def data_and_fwd_send_def data_and_fwd_recv_def recv
          less_prod_def' less_eq_prod_def)
  next
    case False
    then have "s \<noteq> 0" by auto
    with False show ?thesis
      using assms(1) prev
      by (cases "0 < f") (simp_all add: warmup_block_def data_and_fwd_send_def data_and_fwd_recv_def
          recv less_prod_def' less_eq_prod_def)
  qed
qed

lemma steady_times:
  assumes "0 \<le> s" and "s < R" and "0 \<le> b" and "b < M - (R - s)"
  shows "sorted_wrt (before_1f1b R M s) (steady_block R s (R - s) b)"
    and "a \<in> set (steady_block R s (R - s) b) \<Longrightarrow>
      (2 * b + 2 * R - 2 - s, 6 * R + 1) \<le> pipe_1f1b_time R M s a \<and>
      pipe_1f1b_time R M s a \<le> (2 * b + 2 * R - s, 6 * s)"
  using assms
  by (auto simp: steady_block_def data_and_fwd_send_def data_and_fwd_recv_def fwd_send_time_def
      less_prod_def' less_eq_prod_def split: if_splits)

lemma cooldown_times:
  assumes "0 \<le> s" and "s < R" and "1 \<le> M" and "M - min (R - s) M \<le> b"
  defines "W \<equiv> min (R - s) M"
  shows "sorted_wrt (before_1f1b R M s) (cooldown_block R M s W b)"
    and "a \<in> set (cooldown_block R M s W b) \<Longrightarrow>
      (2 * b + 2 * R - 2 - s, 6 * R + 1) \<le> pipe_1f1b_time R M s a \<and>
      pipe_1f1b_time R M s a \<le> (2 * b + 2 * R - 1 - s, 6 * R + 1)"
  using assms
  by (auto simp: W_def cooldown_block_def data_and_fwd_send_def fwd_send_time_def
      less_prod_def' less_eq_prod_def split: if_splits)

lemma pipe_1f1b_sorted:
  assumes "0 \<le> s" and "s < R" and "1 \<le> M"
  shows "sorted_wrt (before_1f1b R M s) (pipe_1f1b_order R M s)"
proof -
  define W where "W = min (R - s) M"
  note warm = warmup_times [OF assms(1,2), of _ M, folded W_def]
  note steady = steady_times [OF assms(1,2), of _ M]
  note cool = cooldown_times [OF assms, folded W_def]
  have warms: "sorted_wrt (before_1f1b R M s) (concat (map (warmup_block s W) (py_range 0 W)))"
  proof (rule sorted_concat_range)
    show "before_1f1b R M s x y" if ij: "0 \<le> i" "i < j" "j < W"
      and x: "x \<in> set (warmup_block s W i)" and y: "y \<in> set (warmup_block s W j)" for i j x y
      using bspec [OF conjunct2 [OF warm] x] bspec [OF conjunct2 [OF warm] y] ij
      by (auto simp: less_prod_def' less_eq_prod_def split: if_splits)
  qed (use warm in blast)
  have steadies: "sorted_wrt (before_1f1b R M s) (concat (map (steady_block R s W) (py_range 0 (M - W))))"
  proof (cases "M < R - s")
    case False
    then have W: "W = R - s" by (simp add: W_def)
    show ?thesis
      unfolding W
    proof (rule sorted_concat_range)
      show "before_1f1b R M s x y" if ij: "0 \<le> i" "i < j" "j < M - (R - s)"
        and x: "x \<in> set (steady_block R s (R - s) i)" and y: "y \<in> set (steady_block R s (R - s) j)"
        for i j x y
        using steady(2) [OF _ _ x] steady(2) [OF _ _ y] ij assms(2)
        by (auto simp: less_prod_def' less_eq_prod_def)
    qed (use steady(1) in blast)
  qed (simp add: W_def)
  have cools: "sorted_wrt (before_1f1b R M s) (concat (map (cooldown_block R M s W) (py_range (M - W) M)))"
  proof (rule sorted_concat_range)
    show "before_1f1b R M s x y" if ij: "M - W \<le> i" "i < j" "j < M"
      and x: "x \<in> set (cooldown_block R M s W i)" and y: "y \<in> set (cooldown_block R M s W j)"
      for i j x y
      using cool(2) [OF _ x] cool(2) [OF _ y] ij by (auto simp: less_prod_def' less_eq_prod_def)
  qed (use cool(1) in blast)
  have early: "pipe_1f1b_time R M s a \<in> {(s + 2 * M - 2, 6 * s + 1), (s + 2 * M - 2, 6 * s + 2)}"
    if "a \<in> set (data_and_fwd_send (M - 1) s)" "M < R - s" for a
    using that by (auto simp: data_and_fwd_send_def fwd_send_time_def)
  have warm_hi: "pipe_1f1b_time R M s x \<le> (s + 2 * W - 2, 6 * s)"
    if f: "0 \<le> f" "f < W" and x: "x \<in> set (warmup_block s W f)" for f x
    using bspec [OF conjunct2 [OF warm] x] f by (auto simp: less_eq_prod_def split: if_splits)
  show ?thesis
  proof (cases "M < R - s")
    case True
    then have W: "W = M" by (simp add: W_def)
    have "before_1f1b R M s x y"
      if "x \<in> set (warmup_block s W f)" "0 \<le> f" "f < W" "y \<in> set (data_and_fwd_send (M - 1) s)" for x y f
      using warm_hi [OF that(2,3,1)] early [OF that(4) True] W by (auto simp: less_prod_def' less_eq_prod_def)
    moreover have "before_1f1b R M s x y"
      if "x \<in> set (warmup_block s W f)" "0 \<le> f" "f < W" "y \<in> set (cooldown_block R M s W b)" "0 \<le> b"
      for x y f b
      using warm_hi [OF that(2,3,1)] cool(2) [OF _ that(4)] W True that(5) assms(2)
      by (auto simp: less_prod_def' less_eq_prod_def)
    moreover have "before_1f1b R M s x y"
      if "x \<in> set (data_and_fwd_send (M - 1) s)" "y \<in> set (cooldown_block R M s W b)" "0 \<le> b" for x y b
      using early [OF that(1) True] cool(2) [OF _ that(2)] W True that(3) assms(2)
      by (auto simp: less_prod_def' less_eq_prod_def)
    moreover have "sorted_wrt (before_1f1b R M s) (data_and_fwd_send (M - 1) s)"
      using True by (simp add: data_and_fwd_send_def fwd_send_time_def less_prod_def')
    ultimately show ?thesis
      unfolding pipe_1f1b_blocks [OF assms] W_def [symmetric]
      using True W warms cools by (auto simp: sorted_wrt_append)
  next
    case False
    then have W: "W = R - s" by (simp add: W_def)
    have "before_1f1b R M s x y"
      if "x \<in> set (warmup_block s W f)" "0 \<le> f" "f < W" "y \<in> set (steady_block R s W b)" "0 \<le> b" "b < M - W"
      for x y f b
      using warm_hi [OF that(2,3,1)] steady(2) [OF that(5) _ that(4) [unfolded W]] that(5,6) assms(2) W
      by (auto simp: less_prod_def' less_eq_prod_def)
    moreover have "before_1f1b R M s x y"
      if "x \<in> set (warmup_block s W f)" "0 \<le> f" "f < W" "y \<in> set (cooldown_block R M s W b)" "M - W \<le> b"
      for x y f b
      using warm_hi [OF that(2,3,1)] cool(2) [OF that(5,4)] that(5) assms(2) W False
      by (auto simp: less_prod_def' less_eq_prod_def)
    moreover have "before_1f1b R M s x y"
      if "x \<in> set (steady_block R s W b)" "0 \<le> b" "b < M - W"
        "y \<in> set (cooldown_block R M s W c)" "M - W \<le> c" for x y b c
      using steady(2) [OF that(2) _ that(1) [unfolded W]] cool(2) [OF that(5,4)] that(2,3,5) assms(2) W
      by (auto simp: less_prod_def' less_eq_prod_def)
    ultimately show ?thesis
      unfolding pipe_1f1b_blocks [OF assms] W_def [symmetric]
      using False warms steadies cools by (auto simp: sorted_wrt_append)
  qed
qed

text \<open>With no micro-batch the lists hold a send of micro-batch -1, so there is at least one.\<close>

interpretation one_f_one_b: timed_orders "py_range 0 R" "progs_of (pipe_1f1b_exec_order R (int (Suc n)))"
    p2p_partner "pipe_1f1b_time R (int (Suc n))" for R n
proof
  let ?M = "int (Suc n)"
  show "sorted_wrt (before_1f1b R ?M r) (progs_of (pipe_1f1b_exec_order R ?M) r)" for r
    using pipe_1f1b_sorted by (simp add: pipe_1f1b_exec_order_def progs_of_ranks)
  show "progs_of (pipe_1f1b_exec_order R ?M) r = []" if "r \<notin> set (py_range 0 R)" for r
    using that by (auto simp: pipe_1f1b_exec_order_def progs_of_ranks)
  show "q \<noteq> r \<and> b \<in> set (progs_of (pipe_1f1b_exec_order R ?M) q) \<and> p2p_partner q b = Some (r, a) \<and>
      pipe_1f1b_time R ?M q b = pipe_1f1b_time R ?M r a"
    if "a \<in> set (progs_of (pipe_1f1b_exec_order R ?M) r)" "p2p_partner r a = Some (q, b)" for a r q b
    using that complete_partner [of R ?M "pipe_1f1b_order R ?M" "pipe_1f1b_time R ?M" a r q b]
      pipe_1f1b_complete
    by (simp add: pipe_1f1b_exec_order_def progs_of_ranks)
qed

section \<open>Activations in flight\<close>

text \<open>The forwards a rank has run and not yet gone back over, after every prefix of its list.\<close>

definition in_flight :: "meta_step list \<Rightarrow> int" where
  "in_flight xs = int (length (micros FWD xs)) - int (length (micros BWD xs))"

text \<open>The count starts at \<open>c\<close> and never leaves \<open>0..cap\<close>.\<close>

fun stays :: "int \<Rightarrow> int \<Rightarrow> meta_step list \<Rightarrow> bool" where
  "stays cap c [] = (0 \<le> c \<and> c \<le> cap)"
| "stays cap c (x # xs) =
     (0 \<le> c \<and> c \<le> cap \<and>
      stays cap (if step_type x = FWD then c + 1 else if step_type x = BWD then c - 1 else c) xs)"

lemma stays_append: "stays cap c (xs @ ys) \<longleftrightarrow> stays cap c xs \<and> stays cap (c + in_flight xs) ys"
proof (induction xs arbitrary: c)
  case Nil
  then show ?case by (cases ys) (auto simp: in_flight_def)
next
  case (Cons x xs)
  then show ?case by (simp add: in_flight_def algebra_simps)
qed

lemma stays_prefix: "stays cap c xs \<Longrightarrow> prefix p xs \<Longrightarrow> 0 \<le> c + in_flight p \<and> c + in_flight p \<le> cap"
proof (induction xs arbitrary: c p)
  case Nil
  then show ?case by (simp add: in_flight_def)
next
  case (Cons x xs)
  then show ?case
    by (cases p) (force simp: in_flight_def split: if_splits)+
qed

lemma in_flight_append [simp]: "in_flight (xs @ ys) = in_flight xs + in_flight ys"
  by (simp add: in_flight_def)

lemma stays_range:
  assumes "\<And>i. a \<le> i \<Longrightarrow> i < b \<Longrightarrow> stays cap (c + d * (i - a)) (f i) \<and> in_flight (f i) = d"
    and "a \<le> b" and "0 \<le> c" and "c \<le> cap"
  shows "stays cap c (concat (map f (py_range a b))) \<and>
         in_flight (concat (map f (py_range a b))) = d * (b - a)"
  using assms
proof (induction "nat (b - a)" arbitrary: a c)
  case 0
  then show ?case by (simp add: in_flight_def)
next
  case (Suc n)
  then have ab: "a < b" and n: "n = nat (b - (a + 1))" by auto
  have head: "stays cap c (f a)" "in_flight (f a) = d" using Suc.prems(1) [of a] ab by auto
  have "0 \<le> c + d" "c + d \<le> cap" using stays_prefix [OF head(1) prefix_order.order_refl] head(2) by auto
  moreover have "stays cap (c + d + d * (i - (a + 1))) (f i) \<and> in_flight (f i) = d"
    if "a + 1 \<le> i" "i < b" for i
    using Suc.prems(1) [of i] that by (simp add: algebra_simps)
  ultimately have "stays cap (c + d) (concat (map f (py_range (a + 1) b))) \<and>
      in_flight (concat (map f (py_range (a + 1) b))) = d * (b - (a + 1))"
    using Suc.hyps(1) [OF n, of "c + d"] ab by auto
  with head show ?case by (simp add: py_range_Cons ab stays_append algebra_simps)
qed

lemma pipe_1f1b_stays:
  assumes "0 \<le> s" and "s < R" and "1 \<le> M"
  shows "stays (min (R - s) M) 0 (pipe_1f1b_order R M s)"
proof -
  define W where "W = min (R - s) M"
  have W: "1 \<le> W" "W \<le> M" using assms by (auto simp: W_def)
  note ops = data_and_fwd_send_def data_and_fwd_recv_def in_flight_def
  have "stays W 0 (concat (map (warmup_block s W) (py_range 0 W))) \<and>
      in_flight (concat (map (warmup_block s W) (py_range 0 W))) = 1 * (W - 0)"
    by (rule stays_range) (use W in \<open>auto simp: warmup_block_def ops\<close>)
  moreover have "stays W W (concat (map (steady_block R s W) (py_range 0 (M - W)))) \<and>
      in_flight (concat (map (steady_block R s W) (py_range 0 (M - W)))) = 0 * (M - W - 0)"
    by (rule stays_range) (use W in \<open>auto simp: steady_block_def ops\<close>)
  moreover have "stays W W (concat (map (cooldown_block R M s W) (py_range (M - W) M))) \<and>
      in_flight (concat (map (cooldown_block R M s W) (py_range (M - W) M))) = - 1 * (M - (M - W))"
    by (rule stays_range) (use W in \<open>auto simp: cooldown_block_def ops\<close>)
  moreover have "stays W W (data_and_fwd_send m s) \<and> in_flight (data_and_fwd_send m s) = 0" for m
    using W by (simp add: ops)
  ultimately show ?thesis
    unfolding pipe_1f1b_blocks [OF assms] W_def [symmetric]
    using W by (simp add: stays_append in_flight_def)
qed

section \<open>Properties of the schedules\<close>

text \<open>
  C5: no run of the 1F1B schedule gets stuck: under rendezvous transfers, from every state the ranks
  can reach some step can run until all lists are worked off, and every run can be completed.
\<close>

theorem pipe_1f1b_deadlock_free:
  assumes "1 \<le> M"
  shows "always_completes p2p_partner (progs_of (pipe_1f1b_exec_order R M))"
proof -
  obtain n where "M = int (Suc n)" using assms by (metis nat_eq_iff2 Suc_pred' One_nat_def
    int_one_le_iff_zero_less nat_0_iff not_le zero_less_nat_eq)
  then show ?thesis using one_f_one_b.no_deadlock [of R n] by simp
qed

theorem pipe_1f1b_deadlock_free_witness:
  "always_completes p2p_partner (progs_of (pipe_1f1b_exec_order 4 8))"
  by (rule pipe_1f1b_deadlock_free) simp

text \<open>
  no run of the GPipe schedule gets stuck, for any number of stages and micro-batches.
\<close>

theorem gpipe_deadlock_free:
  "always_completes p2p_partner (progs_of (gpipe_exec_order R M))"
  by (rule gpipe.no_deadlock)

text \<open>
  C30: on every stage, GPipe and 1F1B run each operation of each micro-batch exactly once and in
  micro-batch order, so the sequence of transfers a stage sends to its neighbour is the sequence the
  neighbour receives; receives are there exactly for stages with a predecessor (a successor, for
  gradients).
\<close>

theorem schedules_complete:
  assumes "0 \<le> s" and "s < R" and "1 \<le> M"
  shows "complete_order R M s (pipe_1f1b_order R M s) \<and> complete_order R M s (gpipe_order R M s) \<and>
    (s + 1 < R \<longrightarrow>
       micros FWD_SEND (pipe_1f1b_order R M s) = micros FWD_RECV (pipe_1f1b_order R M (s + 1)) \<and>
       micros BWD_RECV (pipe_1f1b_order R M s) = micros BWD_SEND (pipe_1f1b_order R M (s + 1)) \<and>
       micros FWD_SEND (gpipe_order R M s) = micros FWD_RECV (gpipe_order R M (s + 1)) \<and>
       micros BWD_RECV (gpipe_order R M s) = micros BWD_SEND (gpipe_order R M (s + 1)))"
proof -
  have "complete_order R M k (pipe_1f1b_order R M k)" if "0 \<le> k" "k < R" for k
    using pipe_1f1b_complete that assms(3) by blast
  with assms gpipe_complete show ?thesis by (auto simp: complete_order_def stage_ops_def)
qed

theorem schedules_complete_witness:
  "complete_order 3 5 1 (pipe_1f1b_order 3 5 1) \<and>
   micros FWD_SEND (pipe_1f1b_order 3 5 1) = micros FWD_RECV (pipe_1f1b_order 3 5 2)"
  using schedules_complete [of 1 3 5] by simp

text \<open>
  C31: the local data dependencies of 1F1B: on every stage a micro-batch is received before its
  forward, its forward comes before the send of its output and before its backward, and its backward
  comes after the receive of the gradient and before the send of the input gradient.
\<close>

theorem pipe_1f1b_dependencies:
  assumes "0 \<le> s" and "s < R" and "0 \<le> m" and "m < M"
  defines "ord \<equiv> pipe_1f1b_order R M s"
  shows "precedes (mstep m FWD s) (mstep m BWD s) ord \<and>
    (s \<noteq> 0 \<longrightarrow> precedes (mstep m FWD_RECV s) (mstep m FWD s) ord \<and>
                precedes (mstep m BWD s) (mstep m BWD_SEND s) ord) \<and>
    (s \<noteq> R - 1 \<longrightarrow> precedes (mstep m FWD s) (mstep m FWD_SEND s) ord \<and>
                    precedes (mstep m BWD_RECV s) (mstep m BWD s) ord)"
proof -
  have M: "1 \<le> M" using assms by simp
  note sorted = pipe_1f1b_sorted [OF assms(1,2) M, folded ord_def]
  note mem = complete_order_mem [OF pipe_1f1b_complete [OF assms(1,2) M], folded ord_def]
  have pre: "precedes (mstep m t s) (mstep m t' s) ord"
    if "t \<in> stage_ops R s" "t' \<in> stage_ops R s" "before_1f1b R M s (mstep m t s) (mstep m t' s)" for t t'
    by (rule sorted_precedes [OF sorted _ _ that(3)]) (use mem that(1,2) assms(3,4) in auto)
  have "before_1f1b R M s (mstep m FWD s) (mstep m BWD s)" using assms(1,2) by (simp add: less_prod_def')
  moreover have "before_1f1b R M s (mstep m FWD_RECV s) (mstep m FWD s)"
    using assms by (auto simp: fwd_send_time_def less_prod_def')
  moreover have "before_1f1b R M s (mstep m FWD s) (mstep m FWD_SEND s)"
    using assms by (auto simp: fwd_send_time_def less_prod_def')
  moreover have "before_1f1b R M s (mstep m BWD_RECV s) (mstep m BWD s)"
    "before_1f1b R M s (mstep m BWD s) (mstep m BWD_SEND s)"
    using assms by (simp_all add: less_prod_def')
  ultimately show ?thesis using pre by (simp add: stage_ops_def)
qed

theorem pipe_1f1b_dependencies_witness:
  "precedes (mstep 2 FWD_RECV 1) (mstep 2 FWD 1) (pipe_1f1b_order 3 5 1) \<and>
   precedes (mstep 2 FWD 1) (mstep 2 BWD 1) (pipe_1f1b_order 3 5 1)"
  using pipe_1f1b_dependencies [of 1 3 2 5] by simp

text \<open>
  C32: 1F1B bounds the activations in flight: after every prefix of the list of stage \<open>s\<close>, the
  forwards not yet followed by their backward number at most \<open>min (R - s) M\<close>, and never go below
  zero.
\<close>

theorem pipe_1f1b_in_flight:
  assumes "0 \<le> s" and "s < R" and "1 \<le> M" and "prefix p (pipe_1f1b_order R M s)"
  shows "0 \<le> in_flight p \<and> in_flight p \<le> min (R - s) M"
  using stays_prefix [OF pipe_1f1b_stays [OF assms(1-3)] assms(4)] by simp

theorem pipe_1f1b_in_flight_witness:
  "0 \<le> in_flight (take 9 (pipe_1f1b_order 3 5 1)) \<and> in_flight (take 9 (pipe_1f1b_order 3 5 1)) \<le> min 2 5"
  using pipe_1f1b_in_flight [of 1 3 5, OF _ _ _ take_is_prefix] by simp

end
