(* ===== verification/Interleaved.thy ===== *)
theory Interleaved
  imports P2p_Passes Rendezvous
begin

text \<open>
  \<open>ScheduleInterleaved1F1B\<close> (core/pipeline_parallel/scheduler.py): several stages per rank, in
  rounds of micro-batches. The fields of the schedule that its methods read are a record; the two
  per-stage micro-batch counters (\<open>defaultdict(int)\<close>) are functions. Every emitted list is paired
  with the counters it leaves behind.
\<close>

section \<open>The schedule object\<close>

record interleaved =
  real_stage_num :: int
  micro_batch_num :: int
  n_local_stages :: int
  less_memory :: bool
  overlap_b_f :: bool
  n_microbatch_per_round :: "int list"
  n_microbatch_per_round_accu :: "int list"

text \<open>\<open>_init_round_layout\<close>: the round sizes and their prefix sums times the local stages.\<close>

definition round_sizes :: "int \<Rightarrow> int \<Rightarrow> int list" where
  "round_sizes R M =
     (let n_rounds = max 1 (M div R);
          base = (if M < R then M - R else (M mod R) div n_rounds);
          remainder = (if M < R then 0 else (M mod R) mod n_rounds)
      in map (\<lambda>i. if i < remainder then R + base + 1 else R + base) (py_range 0 n_rounds))"

definition init_round_layout :: "interleaved \<Rightarrow> interleaved result" where
  "init_round_layout L =
     (if real_stage_num L = 0 then Inl ZeroDivisionError
      else
        (let sizes = round_sizes (real_stage_num L) (micro_batch_num L) in
         Inr (L\<lparr>n_microbatch_per_round := sizes,
                n_microbatch_per_round_accu :=
                  0 # map (\<lambda>x. x * n_local_stages L) (accumulate 0 sizes)\<rparr>)))"

text \<open>\<open>warmup_ops\<close>; there is always a first round.\<close>

definition warmup_ops :: "interleaved \<Rightarrow> int \<Rightarrow> int" where
  "warmup_ops L s =
     (let last_stage = (n_local_stages L - 1) * n_microbatch_per_round L ! 0;
          depth = real_stage_num L - 1 - s
      in min (last_stage + (if less_memory L then depth else 2 * depth))
             (micro_batch_num L * n_local_stages L))"

definition local_index :: "interleaved \<Rightarrow> int \<Rightarrow> int result" where
  "local_index L op_index =
     (let accu_index = bisect_right (n_microbatch_per_round_accu L) op_index - 1 in
      bind_res (py_nth (n_microbatch_per_round_accu L) accu_index) (\<lambda>start.
      bind_res (py_nth (n_microbatch_per_round L) accu_index) (\<lambda>size.
      if size = 0 then Inl ZeroDivisionError else Inr ((op_index - start) div size))))"

definition forward_stage_index :: "interleaved \<Rightarrow> int \<Rightarrow> int \<Rightarrow> int result" where
  "forward_stage_index L op_index s =
     bind_res (local_index L op_index) (\<lambda>v. Inr (v * real_stage_num L + s))"

definition backward_stage_index :: "interleaved \<Rightarrow> int \<Rightarrow> int \<Rightarrow> int result" where
  "backward_stage_index L op_index s =
     bind_res (local_index L op_index) (\<lambda>v.
       Inr ((n_local_stages L - 1 - v) * real_stage_num L + s))"

definition short_micro :: "interleaved \<Rightarrow> bool" where
  "short_micro L \<longleftrightarrow> micro_batch_num L < real_stage_num L"

definition trailing_bubble :: "interleaved \<Rightarrow> int" where
  "trailing_bubble L = real_stage_num L - micro_batch_num L"

abbreviation bubbles :: "int \<Rightarrow> order" where
  "bubbles n \<equiv> replicate (nat n) None"

section \<open>Emission\<close>

type_synonym counters = "int \<Rightarrow> int"

definition bump :: "counters \<Rightarrow> int \<Rightarrow> counters" where
  "bump c stage = c(stage := c stage + 1)"

definition emit_warmup_ops ::
    "interleaved \<Rightarrow> int \<Rightarrow> int \<Rightarrow> counters \<Rightarrow> (order \<times> counters) result" where
  "emit_warmup_ops L s w fc =
     for_res (\<lambda>op (ops, fc).
       bind_res (forward_stage_index L op s) (\<lambda>fs.
         Inr (ops @ [Some (mstep (fc fs) FWD fs)]
               @ (if short_micro L \<and> fc fs = micro_batch_num L - 1
                     \<and> (op \<noteq> w - 1 \<or> s = real_stage_num L - 1)
                  then bubbles (trailing_bubble L) else []),
              bump fc fs)))
       (py_range 0 w) ([], fc)"

definition emit_cooldown_ops ::
    "interleaved \<Rightarrow> int \<Rightarrow> int \<Rightarrow> int \<Rightarrow> int \<Rightarrow> counters \<Rightarrow> (order \<times> counters) result" where
  "emit_cooldown_ops L s w fwd_bwd total_ops bc =
     for_res (\<lambda>op (ops, bc).
       bind_res (backward_stage_index L (op - w) s) (\<lambda>bs.
         Inr (ops @ [None, Some (mstep (bc bs) BWD bs)]
               @ (if short_micro L \<and> bc bs = micro_batch_num L - 1
                  then bubbles (2 * trailing_bubble L) else []),
              bump bc bs)))
       (py_range (w + fwd_bwd) total_ops) ([], bc)"

definition emit_1f1b_ops ::
    "interleaved \<Rightarrow> int \<Rightarrow> int \<Rightarrow> int \<Rightarrow> counters \<Rightarrow> counters \<Rightarrow>
     (order \<times> counters \<times> counters) result" where
  "emit_1f1b_ops L s w fwd_bwd fc bc =
     for_res (\<lambda>op (ops, fc, bc).
       bind_res (forward_stage_index L op s) (\<lambda>fs.
       bind_res (backward_stage_index L (op - w) s) (\<lambda>bs.
         Inr (ops @ [Some (mstep (fc fs) FWD fs), Some (mstep (bc bs) BWD bs)]
               @ (if short_micro L \<and> bc bs = micro_batch_num L - 1 \<and> s = real_stage_num L - 1
                  then bubbles (2 * trailing_bubble L) else []),
              bump fc fs, bump bc bs))))
       (py_range w (w + fwd_bwd)) ([], fc, bc)"

text \<open>\<open>_collect_fwd_bwd_steps\<close> with the two emitters of \<open>_emit_1f1b_overlap_ops\<close>.\<close>

definition collect_fwd_bwd_steps ::
    "interleaved \<Rightarrow> int \<Rightarrow> int \<Rightarrow> int \<Rightarrow> counters \<Rightarrow> counters \<Rightarrow>
     (meta_step list \<times> meta_step list \<times> counters \<times> counters) result" where
  "collect_fwd_bwd_steps L s w fwd_bwd fc bc =
     for_res (\<lambda>op (fwds, bwds, fc, bc).
       bind_res (forward_stage_index L op s) (\<lambda>fs.
       bind_res (backward_stage_index L (op - w) s) (\<lambda>bs.
         Inr (fwds @ [mstep (fc fs) FWD fs], bwds @ [mstep (bc bs) BWD bs],
              bump fc fs, bump bc bs))))
       (py_range w (w + fwd_bwd)) ([], [], fc, bc)"

text \<open>\<open>_pair_into_overlap_b_f\<close>: the forward one place ahead of every backward but the last.\<close>

definition overlap_pair :: "meta_step \<Rightarrow> meta_step \<Rightarrow> meta_step" where
  "overlap_pair b f = MetaStep None OVERLAP_B_F None (Some [b, f]) None"

definition pair_into_overlap_b_f :: "meta_step list \<Rightarrow> meta_step list \<Rightarrow> order result" where
  "pair_into_overlap_b_f fwds bwds =
     bind_res
       (map_res (\<lambda>i. bind_res (py_nth bwds i) (\<lambda>b. bind_res (py_nth fwds (i + 1)) (\<lambda>f.
                       Inr (Some (overlap_pair b f)))))
          (py_range 0 (int (length bwds) - 1)))
       (\<lambda>pairs.
         Inr ((if fwds = [] then [] else [Some (hd fwds)])
              @ pairs
              @ (if bwds = [] then [] else [Some (last bwds)])))"

definition emit_1f1b_overlap_ops ::
    "interleaved \<Rightarrow> int \<Rightarrow> int \<Rightarrow> int \<Rightarrow> counters \<Rightarrow> counters \<Rightarrow>
     (order \<times> counters \<times> counters) result" where
  "emit_1f1b_overlap_ops L s w fwd_bwd fc bc =
     bind_res (collect_fwd_bwd_steps L s w fwd_bwd fc bc) (\<lambda>(fwds, bwds, fc, bc).
     bind_res (pair_into_overlap_b_f fwds bwds) (\<lambda>ops.
       Inr (ops @ (if short_micro L \<and> s = real_stage_num L - 1 \<and> bwds \<noteq> []
                      \<and> micro_index (last bwds) = Some (micro_batch_num L - 1)
                   then bubbles (2 * trailing_bubble L) else []),
            fc, bc)))"

definition construct_stage_exec_order :: "interleaved \<Rightarrow> int \<Rightarrow> order result" where
  "construct_stage_exec_order L s =
     (let w = warmup_ops L s;
          fwd_bwd = n_local_stages L * micro_batch_num L - w;
          total_ops = 2 * w + fwd_bwd;
          depth = real_stage_num L - 1 - s;
          gap = max 0 ((if less_memory L then depth else 2 * depth) - micro_batch_num L)
      in
      bind_res (emit_warmup_ops L s w (\<lambda>_. 0)) (\<lambda>(warm, fc).
      bind_res (if overlap_b_f L then emit_1f1b_overlap_ops L s w fwd_bwd fc (\<lambda>_. 0)
                else emit_1f1b_ops L s w fwd_bwd fc (\<lambda>_. 0)) (\<lambda>(steady, fc, bc).
      bind_res (emit_cooldown_ops L s w fwd_bwd total_ops bc) (\<lambda>(cool, bc).
        Inr (bubbles s @ warm @ bubbles gap @ bubbles (real_stage_num L - 1 - s)
             @ steady @ cool)))))"

text \<open>
  \<open>construct_exec_order\<close>: the orders of all ranks, the transfers, and the split of the backward
  when it is enabled. The number of stages is the number of ranks times the local stages.
\<close>

definition construct_exec_order :: "interleaved \<Rightarrow> bool \<Rightarrow> exec_order result" where
  "construct_exec_order L enable_dxdw_split =
     bind_res (map_res (\<lambda>s. bind_res (construct_stage_exec_order L s) (\<lambda>ord. Inr (s, ord)))
                 (py_range 0 (real_stage_num L))) (\<lambda>exec.
     bind_res (add_send_recv exec (n_local_stages L * real_stage_num L) (real_stage_num L) ''loop'')
       (\<lambda>exec. if enable_dxdw_split then split_overlap_dxdw exec else Inr exec))"

end
