(* ===== verification/Interleaved_Runs.thy ===== *)
theory Interleaved_Runs
  imports Interleaved Basic_Schedule_Runs
begin

text \<open>
  What the interleaved schedule runs. The operations of a rank are numbered: forward operation \<open>k\<close>
  belongs to the local stage \<open>local_of L k\<close> and to the micro-batch that many earlier operations of
  that local stage count, and backward operation \<open>k\<close> mirrors the local stages. The emitted orders
  are shown to be exactly these numbered operations, interleaved.
\<close>

section \<open>The round layout\<close>

definition layout_ok :: "interleaved \<Rightarrow> bool" where
  "layout_ok L \<longleftrightarrow>
     1 \<le> real_stage_num L \<and> 1 \<le> micro_batch_num L \<and> 1 \<le> n_local_stages L \<and>
     init_round_layout L = Inr L"

abbreviation "sizes \<equiv> n_microbatch_per_round"

definition before_round :: "interleaved \<Rightarrow> nat \<Rightarrow> int" where
  "before_round L i = sum_list (take i (sizes L))"

lemma layout_fields:
  assumes "layout_ok L"
  shows "sizes L = round_sizes (real_stage_num L) (micro_batch_num L)"
    and "n_microbatch_per_round_accu L = 0 # map (\<lambda>x. x * n_local_stages L) (accumulate 0 (sizes L))"
proof -
  from assms have "init_round_layout L = Inr L" and "real_stage_num L \<noteq> 0" by (auto simp: layout_ok_def)
  then have L: "L\<lparr>n_microbatch_per_round := round_sizes (real_stage_num L) (micro_batch_num L),
     n_microbatch_per_round_accu := 0 # map (\<lambda>x. x * n_local_stages L)
       (accumulate 0 (round_sizes (real_stage_num L) (micro_batch_num L)))\<rparr> = L"
    by (simp add: init_round_layout_def Let_def)
  show s: "sizes L = round_sizes (real_stage_num L) (micro_batch_num L)"
    using arg_cong [OF L, of sizes] by simp
  show "n_microbatch_per_round_accu L = 0 # map (\<lambda>x. x * n_local_stages L) (accumulate 0 (sizes L))"
    using arg_cong [OF L, of n_microbatch_per_round_accu] s by simp
qed

lemma sum_list_if_range:
  assumes "0 \<le> r" and "r \<le> q"
  shows "sum_list (map (\<lambda>i. if i < r then c + 1 else c) (py_range 0 q)) = q * c + (r :: int)"
proof -
  have const: "sum_list (map (\<lambda>i. d) xs) = int (length xs) * d" for d :: int and xs :: "int list"
    by (induction xs) (simp_all add: algebra_simps)
  have "py_range 0 q = py_range 0 r @ py_range r q" using assms by (simp add: py_range_append)
  moreover have "sum_list (map (\<lambda>i. if i < r then c + 1 else c) (py_range 0 r)) = r * (c + 1)"
  proof -
    have "map (\<lambda>i. if i < r then c + 1 else c) (py_range 0 r) = map (\<lambda>i. c + 1) (py_range 0 r)"
      by (rule map_cong) auto
    then have "sum_list (map (\<lambda>i. if i < r then c + 1 else c) (py_range 0 r)) =
        sum_list (map (\<lambda>i. c + 1) (py_range 0 r))" by (rule arg_cong)
    also have "\<dots> = r * (c + 1)" using const [of "c + 1" "py_range 0 r"] assms by simp
    finally show ?thesis .
  qed
  moreover have "sum_list (map (\<lambda>i. if i < r then c + 1 else c) (py_range r q)) = (q - r) * c"
  proof -
    have "map (\<lambda>i. if i < r then c + 1 else c) (py_range r q) = map (\<lambda>i. c) (py_range r q)"
      by (rule map_cong) auto
    then have "sum_list (map (\<lambda>i. if i < r then c + 1 else c) (py_range r q)) =
        sum_list (map (\<lambda>i. c) (py_range r q))" by (rule arg_cong)
    also have "\<dots> = (q - r) * c" using const [of c "py_range r q"] assms by simp
    finally show ?thesis .
  qed
  ultimately show ?thesis by (simp add: algebra_simps)
qed

text \<open>The rounds share out all micro-batches; the first round is a largest one.\<close>

lemma round_sizes_props:
  assumes "1 \<le> R" and "1 \<le> M"
  shows "sum_list (round_sizes R M) = M"
    and "n \<in> set (round_sizes R M) \<Longrightarrow> 1 \<le> n \<and> n \<le> round_sizes R M ! 0"
    and "round_sizes R M \<noteq> []"
proof -
  define q where "q = max 1 (M div R)"
  define base where "base = (if M < R then M - R else (M mod R) div q)"
  define r where "r = (if M < R then 0 else (M mod R) mod q)"
  have q: "1 \<le> q" by (simp add: q_def)
  have r: "0 \<le> r" "r < q" using q by (auto simp: r_def)
  have base: "1 \<le> R + base"
    using assms q by (auto simp: base_def intro!: add_increasing2 div_int_pos_iff [THEN iffD2])
  have sizes: "round_sizes R M = map (\<lambda>i. if i < r then R + base + 1 else R + base) (py_range 0 q)"
    by (simp add: round_sizes_def Let_def q_def base_def r_def)
  have "q * (R + base) + r = M"
  proof (cases "M < R")
    case True
    then have "q = 1" using assms by (simp add: q_def)
    with True show ?thesis by (simp add: base_def r_def)
  next
    case False
    then have "0 < M div R" using assms by (simp add: pos_imp_zdiv_pos_iff)
    then have "q = M div R" by (simp add: q_def)
    then have "q * R + M mod R = M" by simp
    moreover have "q * base + r = M mod R" using False by (simp add: base_def r_def)
    ultimately show ?thesis by (simp add: algebra_simps)
  qed
  then show "sum_list (round_sizes R M) = M"
    unfolding sizes using sum_list_if_range [of r q "R + base"] r by simp
  show "1 \<le> n \<and> n \<le> round_sizes R M ! 0" if "n \<in> set (round_sizes R M)"
    using that base q r by (auto simp: sizes py_range_Cons split: if_splits)
  show "round_sizes R M \<noteq> []" using q by (simp add: sizes py_range_Cons)
qed

lemma accu_nth:
  assumes "layout_ok L" and "i \<le> length (sizes L)"
  shows "n_microbatch_per_round_accu L ! i = before_round L i * n_local_stages L"
  using assms(2)
  by (cases i) (simp_all add: layout_fields(2) [OF assms(1)] nth_accumulate before_round_def)

lemma before_round_end:
  "layout_ok L \<Longrightarrow> before_round L (length (sizes L)) = micro_batch_num L"
  using round_sizes_props(1) [of "real_stage_num L" "micro_batch_num L"]
  by (simp add: before_round_def layout_fields(1) layout_ok_def)

lemma before_round_Suc:
  "i < length (sizes L) \<Longrightarrow> before_round L (Suc i) = before_round L i + sizes L ! i"
  by (simp add: before_round_def take_Suc_conv_app_nth)

lemma size_bounds:
  assumes "layout_ok L" and "i < length (sizes L)"
  shows "1 \<le> sizes L ! i" and "sizes L ! i \<le> sizes L ! 0"
proof -
  have "sizes L ! i \<in> set (round_sizes (real_stage_num L) (micro_batch_num L))"
    using assms nth_mem [OF assms(2)] by (simp add: layout_fields(1))
  from round_sizes_props(2) [OF _ _ this] assms(1)
  show "1 \<le> sizes L ! i" and "sizes L ! i \<le> sizes L ! 0"
    by (simp_all add: layout_ok_def layout_fields(1) [OF assms(1)])
qed

section \<open>Numbered operations\<close>

text \<open>The round of an operation.\<close>

lemma round_of_op:
  assumes "layout_ok L" and "0 \<le> k" and "k < micro_batch_num L * n_local_stages L"
  obtains i where "i < length (sizes L)"
    and "\<forall>j \<le> i. before_round L j * n_local_stages L \<le> k"
    and "k < before_round L (Suc i) * n_local_stages L"
proof -
  have "\<exists>i < length (sizes L). (\<forall>j \<le> i. \<not> k < before_round L j * n_local_stages L) \<and>
      k < before_round L (Suc i) * n_local_stages L"
    by (rule ex_least_nat_less)
      (use assms before_round_end [OF assms(1)] in \<open>simp_all add: before_round_def [of L 0]\<close>)
  with that show ?thesis by (metis linorder_not_less)
qed

lemma local_index_round:
  assumes "layout_ok L" and i: "i < length (sizes L)"
    and "\<forall>j \<le> i. before_round L j * n_local_stages L \<le> k"
    and "k < before_round L (Suc i) * n_local_stages L"
  shows "local_index L k = Inr ((k - before_round L i * n_local_stages L) div (sizes L ! i))"
proof -
  have len: "length (n_microbatch_per_round_accu L) = Suc (length (sizes L))"
    by (simp add: layout_fields(2) [OF assms(1)])
  have "takeWhile (\<lambda>y. y \<le> k) (n_microbatch_per_round_accu L) = take (Suc i) (n_microbatch_per_round_accu L)"
    by (rule takeWhile_eq_take_P_nth)
      (use assms accu_nth [OF assms(1)] len in \<open>auto simp: less_Suc_eq_le\<close>)
  then have "bisect_right (n_microbatch_per_round_accu L) k - 1 = int i"
    using len i by (simp add: bisect_right_def)
  then show ?thesis
    using i len accu_nth [OF assms(1), of i] size_bounds(1) [OF assms(1) i]
    by (simp add: local_index_def Let_def)
qed

definition local_of :: "interleaved \<Rightarrow> int \<Rightarrow> int" where
  "local_of L k = (case local_index L k of Inl _ \<Rightarrow> 0 | Inr v \<Rightarrow> v)"

lemma local_index_of:
  assumes "layout_ok L" and "0 \<le> k" and "k < micro_batch_num L * n_local_stages L"
  shows "local_index L k = Inr (local_of L k)" and "0 \<le> local_of L k" and "local_of L k < n_local_stages L"
proof -
  obtain i where i: "i < length (sizes L)" "\<forall>j \<le> i. before_round L j * n_local_stages L \<le> k"
    "k < before_round L (Suc i) * n_local_stages L" by (rule round_of_op [OF assms])
  note eq = local_index_round [OF assms(1) i]
  then show "local_index L k = Inr (local_of L k)" by (simp add: local_of_def)
  have n: "1 \<le> sizes L ! i" using size_bounds [OF assms(1) i(1)] by simp
  define x where "x = k - before_round L i * n_local_stages L"
  have x: "0 \<le> x" "x < n_local_stages L * sizes L ! i"
    using i before_round_Suc [OF i(1)] by (auto simp: x_def algebra_simps)
  have "local_of L k = x div (sizes L ! i)" using eq by (simp add: local_of_def x_def)
  moreover have "0 \<le> x div (sizes L ! i)" using x n by (simp add: pos_imp_zdiv_nonneg_iff)
  moreover have "x div (sizes L ! i) < n_local_stages L"
  proof (rule ccontr)
    assume "\<not> x div (sizes L ! i) < n_local_stages L"
    then have "n_local_stages L * sizes L ! i \<le> x div (sizes L ! i) * sizes L ! i"
      using n by (intro mult_right_mono) auto
    also have "\<dots> \<le> x" using n by (simp flip: minus_mod_eq_div_mult)
    finally show False using x by simp
  qed
  ultimately show "0 \<le> local_of L k" and "local_of L k < n_local_stages L" by simp_all
qed

text \<open>How many of the first \<open>k\<close> operations belong to a local stage.\<close>

definition done_of :: "interleaved \<Rightarrow> int \<Rightarrow> int \<Rightarrow> int" where
  "done_of L k v = int (length (filter (\<lambda>j. local_of L j = v) (py_range 0 k)))"

lemma done_of_0 [simp]: "done_of L 0 v = 0"
  by (simp add: done_of_def)

lemma done_of_Suc: "0 \<le> k \<Longrightarrow> done_of L (k + 1) v = done_of L k v + (if local_of L k = v then 1 else 0)"
  by (simp add: done_of_def py_range_snoc)

text \<open>The operation of a local stage and a micro-batch.\<close>

lemma local_of_round:
  assumes "layout_ok L" and i: "i < length (sizes L)" and v: "0 \<le> v" "v < n_local_stages L"
    and j: "0 \<le> j" "j < sizes L ! i"
  shows "local_of L (before_round L i * n_local_stages L + v * sizes L ! i + j) = v"
proof -
  define k where "k = before_round L i * n_local_stages L + v * sizes L ! i + j"
  have n: "1 \<le> sizes L ! i" using size_bounds [OF assms(1) i] by simp
  have V: "1 \<le> n_local_stages L" using assms(1) by (simp add: layout_ok_def)
  have mono: "before_round L a \<le> before_round L b" if "a \<le> b" "b \<le> length (sizes L)" for a b
    using that
  proof (induction b rule: dec_induct)
    case (step b)
    then show ?case using before_round_Suc [of b L] size_bounds [OF assms(1), of b] by simp
  qed simp
  have "v * sizes L ! i + j < n_local_stages L * sizes L ! i"
  proof -
    have "v * sizes L ! i + j < (v + 1) * sizes L ! i" using j by (simp add: algebra_simps)
    also have "\<dots> \<le> n_local_stages L * sizes L ! i" using v n by (intro mult_right_mono) auto
    finally show ?thesis .
  qed
  then have hi: "k < before_round L (Suc i) * n_local_stages L"
    by (simp add: k_def before_round_Suc [OF i] algebra_simps)
  have lo: "\<forall>a \<le> i. before_round L a * n_local_stages L \<le> k"
  proof (intro allI impI)
    fix a assume "a \<le> i"
    then have "before_round L a * n_local_stages L \<le> before_round L i * n_local_stages L"
      using mono [of a i] i V by (intro mult_right_mono) auto
    moreover have "0 \<le> v * sizes L ! i" using v n by simp
    ultimately show "before_round L a * n_local_stages L \<le> k" using j by (simp add: k_def)
  qed
  have "(k - before_round L i * n_local_stages L) div (sizes L ! i) = v"
    using j n by (simp add: k_def)
  with local_index_round [OF assms(1) i lo hi] show ?thesis by (simp add: local_of_def k_def)
qed

lemma local_of_offset:
  assumes "layout_ok L" and i: "i < length (sizes L)" and x: "0 \<le> x" "x < n_local_stages L * sizes L ! i"
  shows "local_of L (before_round L i * n_local_stages L + x) = x div (sizes L ! i)"
proof -
  define n where "n = sizes L ! i"
  have n: "1 \<le> n" using size_bounds [OF assms(1) i] by (simp add: n_def)
  have split: "x = (x div n) * n + x mod n" by simp
  have "x div n < n_local_stages L"
  proof (rule ccontr)
    assume "\<not> x div n < n_local_stages L"
    then have "n_local_stages L * n \<le> x div n * n" using n by (intro mult_right_mono) auto
    also have "\<dots> \<le> x" using n by (simp flip: minus_mod_eq_div_mult)
    finally show False using x by (simp add: n_def)
  qed
  moreover have "0 \<le> x div n" using x n by (simp add: pos_imp_zdiv_nonneg_iff)
  moreover have "0 \<le> x mod n" "x mod n < n" using n by simp_all
  ultimately have loc: "local_of L (before_round L i * n_local_stages L + (x div n) * n + x mod n) = x div n"
    using local_of_round [OF assms(1) i] by (simp add: n_def)
  have eq: "before_round L i * n_local_stages L + (x div n) * n + x mod n =
      before_round L i * n_local_stages L + x" using split by linarith
  show ?thesis using loc unfolding eq by (simp add: n_def)
qed

lemma done_of_range:
  assumes "0 \<le> a" and "a \<le> b"
  shows "done_of L b v = done_of L a v + int (length (filter (\<lambda>k. local_of L k = v) (py_range a b)))"
proof -
  have "py_range 0 b = py_range 0 a @ py_range a b" using assms by (simp add: py_range_append)
  then show ?thesis by (simp add: done_of_def)
qed

lemma done_of_none:
  assumes "0 \<le> a" and "a \<le> b" and "\<And>k. a \<le> k \<Longrightarrow> k < b \<Longrightarrow> local_of L k \<noteq> v"
  shows "done_of L b v = done_of L a v"
proof -
  have "filter (\<lambda>k. local_of L k = v) (py_range a b) = []" using assms(3) by (auto simp: filter_empty_conv)
  with done_of_range [OF assms(1,2)] show ?thesis by simp
qed

lemma done_of_all:
  assumes "0 \<le> a" and "a \<le> b" and "\<And>k. a \<le> k \<Longrightarrow> k < b \<Longrightarrow> local_of L k = v"
  shows "done_of L b v = done_of L a v + (b - a)"
proof -
  have "filter (\<lambda>k. local_of L k = v) (py_range a b) = py_range a b"
    using assms(3) by (auto simp: filter_id_conv)
  with done_of_range [OF assms(1,2)] assms(2) show ?thesis by simp
qed

lemma before_round_nonneg: "layout_ok L \<Longrightarrow> i \<le> length (sizes L) \<Longrightarrow> 0 \<le> before_round L i"
proof (induction i)
  case 0
  then show ?case by (simp add: before_round_def)
next
  case (Suc i)
  then show ?case using before_round_Suc [of i L] size_bounds(1) [of L i] by simp
qed

text \<open>Within round \<open>i\<close>, and at its two ends.\<close>

lemma done_of_within:
  assumes ok: "layout_ok L" and i: "i < length (sizes L)" and v: "0 \<le> v" "v < n_local_stages L"
    and start: "done_of L (before_round L i * n_local_stages L) v = before_round L i"
    and j: "0 \<le> j" "j \<le> sizes L ! i"
  shows "done_of L (before_round L i * n_local_stages L + v * sizes L ! i + j) v = before_round L i + j"
    and "done_of L (before_round L (Suc i) * n_local_stages L) v = before_round L (Suc i)"
proof -
  define n where "n = sizes L ! i"
  define p where "p = before_round L i * n_local_stages L"
  have n: "1 \<le> n" using size_bounds [OF ok i] by (simp add: n_def)
  have V: "1 \<le> n_local_stages L" using ok by (simp add: layout_ok_def)
  have p: "0 \<le> p" using before_round_nonneg [OF ok, of i] i V by (simp add: p_def)
  have vn: "0 \<le> v * n" "v * n + n \<le> n_local_stages L * n"
  proof -
    show "0 \<le> v * n" using v n by simp
    have "(v + 1) * n \<le> n_local_stages L * n" using v n by (intro mult_right_mono) auto
    then show "v * n + n \<le> n_local_stages L * n" by (simp add: algebra_simps)
  qed
  have at: "local_of L k = (k - p) div n" if "p \<le> k" "k < p + n_local_stages L * n" for k
    using local_of_offset [OF ok i, of "k - p"] that by (simp add: p_def n_def)
  have low: "done_of L (p + v * n) v = before_round L i"
  proof -
    have "done_of L (p + v * n) v = done_of L p v"
    proof (rule done_of_none)
      fix k assume k: "p \<le> k" "k < p + v * n"
      have "(k - p) div n \<noteq> v"
      proof
        assume "(k - p) div n = v"
        moreover have "0 \<le> (k - p) mod n" using n by simp
        ultimately have "v * n \<le> k - p" by (metis div_mult_mod_eq le_add_same_cancel1)
        with k show False by simp
      qed
      with at [of k] k vn n show "local_of L k \<noteq> v" by simp
    qed (use p vn in simp_all)
    with start show ?thesis by (simp add: p_def)
  qed
  have mid: "done_of L (p + v * n + j) v = before_round L i + j" if "0 \<le> j" "j \<le> n" for j
  proof -
    have "done_of L (p + v * n + j) v = done_of L (p + v * n) v + (p + v * n + j - (p + v * n))"
    proof (rule done_of_all)
      fix k assume k: "p + v * n \<le> k" "k < p + v * n + j"
      have "(k - p) div n = v"
        by (rule int_div_pos_eq [of _ _ _ "k - p - v * n"]) (use k that in \<open>auto simp: algebra_simps\<close>)
      with at [of k] k vn that show "local_of L k = v" by simp
    qed (use p vn that in simp_all)
    with low show ?thesis by simp
  qed
  show "done_of L (before_round L i * n_local_stages L + v * sizes L ! i + j) v = before_round L i + j"
    using mid [of j] j by (simp add: n_def p_def)
  have "done_of L (p + n_local_stages L * n) v = done_of L (p + v * n + n) v"
  proof (rule done_of_none)
    fix k assume k: "p + v * n + n \<le> k" "k < p + n_local_stages L * n"
    have "(k - p) div n \<noteq> v"
    proof
      assume "(k - p) div n = v"
      moreover have "(k - p) mod n < n" using n by simp
      ultimately have "k - p < v * n + n" by (metis add_strict_left_mono div_mult_mod_eq)
      with k show False by simp
    qed
    with at [of k] k vn n show "local_of L k \<noteq> v" by simp
  qed (use p vn n in simp_all)
  with mid [of n] n show "done_of L (before_round L (Suc i) * n_local_stages L) v = before_round L (Suc i)"
    by (simp add: before_round_Suc [OF i] p_def n_def algebra_simps)
qed

lemma done_of_round:
  assumes "layout_ok L" and "i \<le> length (sizes L)" and "0 \<le> v" "v < n_local_stages L"
  shows "done_of L (before_round L i * n_local_stages L) v = before_round L i"
  using assms(2)
proof (induction i)
  case 0
  then show ?case by (simp add: before_round_def)
next
  case (Suc i)
  then show ?case
    using done_of_within(2) [OF assms(1) _ assms(3,4), of i 0] size_bounds(1) [OF assms(1), of i] by simp
qed

lemma done_of_end:
  "layout_ok L \<Longrightarrow> 0 \<le> v \<Longrightarrow> v < n_local_stages L \<Longrightarrow>
     done_of L (micro_batch_num L * n_local_stages L) v = micro_batch_num L"
  using done_of_round [of L "length (sizes L)" v] before_round_end [of L] by simp

text \<open>Every micro-batch of every local stage has its operation, mirrored for the backward.\<close>

lemma op_of_micro:
  assumes ok: "layout_ok L" and m: "0 \<le> m" "m < micro_batch_num L"
  obtains i j where "i < length (sizes L)" and "0 \<le> j" and "j < sizes L ! i" and "m = before_round L i + j"
proof -
  have "\<exists>i < length (sizes L). (\<forall>j \<le> i. \<not> m < before_round L j) \<and> m < before_round L (Suc i)"
    by (rule ex_least_nat_less)
      (use m before_round_end [OF ok] in \<open>simp_all add: before_round_def [of L 0]\<close>)
  then obtain i where i: "i < length (sizes L)" "\<not> m < before_round L i" "m < before_round L (Suc i)"
    by blast
  then show ?thesis
    using before_round_Suc [OF i(1)] by (intro that [of i "m - before_round L i"]) auto
qed

section \<open>Emission in closed form\<close>

definition fwd_op :: "interleaved \<Rightarrow> int \<Rightarrow> int \<Rightarrow> meta_step" where
  "fwd_op L s k = mstep (done_of L k (local_of L k)) FWD (local_of L k * real_stage_num L + s)"

definition bwd_op :: "interleaved \<Rightarrow> int \<Rightarrow> int \<Rightarrow> meta_step" where
  "bwd_op L s k =
     mstep (done_of L k (local_of L k)) BWD
       ((n_local_stages L - 1 - local_of L k) * real_stage_num L + s)"

text \<open>Counters that have seen the first \<open>k\<close> operations.\<close>

definition fwd_tracks :: "interleaved \<Rightarrow> int \<Rightarrow> counters \<Rightarrow> int \<Rightarrow> bool" where
  "fwd_tracks L s fc k \<longleftrightarrow>
     (\<forall>v. 0 \<le> v \<and> v < n_local_stages L \<longrightarrow> fc (v * real_stage_num L + s) = done_of L k v)"

definition bwd_tracks :: "interleaved \<Rightarrow> int \<Rightarrow> counters \<Rightarrow> int \<Rightarrow> bool" where
  "bwd_tracks L s bc k \<longleftrightarrow>
     (\<forall>v. 0 \<le> v \<and> v < n_local_stages L \<longrightarrow>
        bc ((n_local_stages L - 1 - v) * real_stage_num L + s) = done_of L k v)"

abbreviation total_ops :: "interleaved \<Rightarrow> int" where
  "total_ops L \<equiv> micro_batch_num L * n_local_stages L"

lemma tracks_start [simp]: "fwd_tracks L s (\<lambda>_. 0) 0" "bwd_tracks L s (\<lambda>_. 0) 0"
  by (simp_all add: fwd_tracks_def bwd_tracks_def)

lemma fwd_emit:
  assumes ok: "layout_ok L" and k: "0 \<le> k" "k < total_ops L" and tr: "fwd_tracks L s fc k"
  obtains fs where "forward_stage_index L k s = Inr fs" and "mstep (fc fs) FWD fs = fwd_op L s k"
    and "fwd_tracks L s (bump fc fs) (k + 1)"
proof -
  let ?v = "local_of L k" and ?R = "real_stage_num L"
  note v = local_index_of [OF ok k]
  have R: "?R \<noteq> 0" using ok by (auto simp: layout_ok_def)
  have "fc (?v * ?R + s) = done_of L k ?v" using tr v by (simp add: fwd_tracks_def)
  moreover have "fwd_tracks L s (bump fc (?v * ?R + s)) (k + 1)"
    using tr v R by (auto simp: fwd_tracks_def bump_def done_of_Suc [OF k(1)])
  ultimately show ?thesis
    using v by (intro that [of "?v * ?R + s"]) (simp_all add: forward_stage_index_def fwd_op_def)
qed

lemma bwd_emit:
  assumes ok: "layout_ok L" and k: "0 \<le> k" "k < total_ops L" and tr: "bwd_tracks L s bc k"
  obtains bs where "backward_stage_index L k s = Inr bs" and "mstep (bc bs) BWD bs = bwd_op L s k"
    and "bwd_tracks L s (bump bc bs) (k + 1)"
proof -
  let ?v = "local_of L k" and ?R = "real_stage_num L" and ?V = "n_local_stages L"
  note v = local_index_of [OF ok k]
  have R: "?R \<noteq> 0" using ok by (auto simp: layout_ok_def)
  have "bc ((?V - 1 - ?v) * ?R + s) = done_of L k ?v" using tr v by (simp add: bwd_tracks_def)
  moreover have "bwd_tracks L s (bump bc ((?V - 1 - ?v) * ?R + s)) (k + 1)"
    using tr v R by (auto simp: bwd_tracks_def bump_def done_of_Suc [OF k(1)])
  ultimately show ?thesis
    using v by (intro that [of "(?V - 1 - ?v) * ?R + s"]) (simp_all add: backward_stage_index_def bwd_op_def)
qed

definition leaves_of :: "order \<Rightarrow> meta_step list" where
  "leaves_of ord = concat (map iter_leaf_meta_steps ord)"

lemma leaves_of_simps [simp]:
  "leaves_of [] = []"
  "leaves_of (x # xs) = iter_leaf_meta_steps x @ leaves_of xs"
  "leaves_of (xs @ ys) = leaves_of xs @ leaves_of ys"
  "leaves_of (bubbles n) = []"
proof -
  show "leaves_of (bubbles n) = []" by (induction "nat n") (simp_all add: leaves_of_def)
qed (simp_all add: leaves_of_def)

lemma leaves_of_if [simp]:
  "leaves_of (if b then xs else ys) = (if b then leaves_of xs else leaves_of ys)"
  by simp

text \<open>The steps of an order: numbered operations, alone or paired.\<close>

definition overlap_shape :: "interleaved \<Rightarrow> int \<Rightarrow> meta_step \<Rightarrow> bool" where
  "overlap_shape L s x \<longleftrightarrow>
     (\<exists>k. x = fwd_op L s k \<or> x = bwd_op L s k) \<or> (\<exists>j k. x = overlap_pair (bwd_op L s j) (fwd_op L s k))"

definition shaped :: "interleaved \<Rightarrow> int \<Rightarrow> order \<Rightarrow> bool" where
  "shaped L s ord \<longleftrightarrow> (\<forall>x \<in> set (somes ord). overlap_shape L s x)"

lemma shaped_simps [simp]:
  "shaped L s []"
  "shaped L s (None # xs) = shaped L s xs"
  "shaped L s (Some x # xs) = (overlap_shape L s x \<and> shaped L s xs)"
  "shaped L s (xs @ ys) = (shaped L s xs \<and> shaped L s ys)"
  "shaped L s (bubbles n)"
  by (auto simp: shaped_def)

lemma shaped_if [simp]: "shaped L s (if b then xs else ys) = (if b then shaped L s xs else shaped L s ys)"
  by simp

lemma overlap_shape_ops [simp]: "overlap_shape L s (fwd_op L s k)" "overlap_shape L s (bwd_op L s k)"
  "overlap_shape L s (overlap_pair (bwd_op L s j) (fwd_op L s k))"
  by (auto simp: overlap_shape_def)

lemma leaf_ops [simp]: "leaf_meta_steps (fwd_op L s k) = [fwd_op L s k]"
  "leaf_meta_steps (bwd_op L s k) = [bwd_op L s k]"
  by (simp_all add: fwd_op_def bwd_op_def)

lemma emit_warmup:
  assumes ok: "layout_ok L" and w: "0 \<le> w" "w \<le> total_ops L"
  shows "\<exists>ops fc. emit_warmup_ops L s w (\<lambda>_. 0) = Inr (ops, fc) \<and>
    shaped L s ops \<and> leaves_of ops = map (fwd_op L s) (py_range 0 w) \<and> fwd_tracks L s fc w"
proof -
  let ?I = "\<lambda>k (ops, fc). shaped L s ops \<and> leaves_of ops = map (fwd_op L s) (py_range 0 k) \<and> fwd_tracks L s fc k"
  have "\<exists>t. emit_warmup_ops L s w (\<lambda>_. 0) = Inr t \<and> ?I w t"
    unfolding emit_warmup_ops_def
  proof (rule for_res_range [where I = ?I])
    fix k and u :: "order \<times> counters"
    assume k: "0 \<le> k" "k < w" and I: "?I k u"
    obtain ops fc where u: "u = (ops, fc)" by (cases u)
    have "k < total_ops L" using k w by simp
    from fwd_emit [OF ok k(1) this, of s fc] I u obtain fs where
      fs: "forward_stage_index L k s = Inr fs" "mstep (fc fs) FWD fs = fwd_op L s k"
      "fwd_tracks L s (bump fc fs) (k + 1)" by auto
    show "\<exists>v. (case u of (ops, fc) \<Rightarrow> bind_res (forward_stage_index L k s) (\<lambda>fs.
        Inr (ops @ [Some (mstep (fc fs) FWD fs)]
             @ (if short_micro L \<and> fc fs = micro_batch_num L - 1
                   \<and> (k \<noteq> w - 1 \<or> s = real_stage_num L - 1)
                then bubbles (trailing_bubble L) else []), bump fc fs))) = Inr v \<and> ?I (k + 1) v"
      using fs(3) I u k by (simp add: fs(1,2) py_range_snoc)
  qed (use w in simp_all)
  then show ?thesis by auto
qed

lemma emit_cooldown:
  assumes ok: "layout_ok L" and fb: "0 \<le> fb" "fb \<le> total_ops L" and bc: "bwd_tracks L s bc fb"
  shows "\<exists>ops bc'. emit_cooldown_ops L s w fb (w + total_ops L) bc = Inr (ops, bc') \<and>
    shaped L s ops \<and> leaves_of ops = map (bwd_op L s) (py_range fb (total_ops L))"
proof -
  let ?I = "\<lambda>k (ops, bc). shaped L s ops \<and> leaves_of ops = map (bwd_op L s) (py_range fb (k - w)) \<and> bwd_tracks L s bc (k - w)"
  have "\<exists>t. emit_cooldown_ops L s w fb (w + total_ops L) bc = Inr t \<and> ?I (w + total_ops L) t"
    unfolding emit_cooldown_ops_def
  proof (rule for_res_range [where I = ?I])
    fix k and u :: "order \<times> counters"
    assume k: "w + fb \<le> k" "k < w + total_ops L" and I: "?I k u"
    obtain ops bc where u: "u = (ops, bc)" by (cases u)
    have kw: "0 \<le> k - w" "k - w < total_ops L" "fb \<le> k - w" using k fb by simp_all
    from bwd_emit [OF ok kw(1,2), of s bc] I u obtain bs where
      bs: "backward_stage_index L (k - w) s = Inr bs" "mstep (bc bs) BWD bs = bwd_op L s (k - w)"
      "bwd_tracks L s (bump bc bs) (k - w + 1)" by auto
    have "py_range fb (k + 1 - w) = py_range fb (k - w) @ [k - w]"
      using py_range_snoc [OF kw(3)] by (simp add: algebra_simps)
    with bs(3) I u
    show "\<exists>v. (case u of (ops, bc) \<Rightarrow> bind_res (backward_stage_index L (k - w) s) (\<lambda>bs.
        Inr (ops @ [None, Some (mstep (bc bs) BWD bs)]
             @ (if short_micro L \<and> bc bs = micro_batch_num L - 1
                then bubbles (2 * trailing_bubble L) else []), bump bc bs))) = Inr v \<and> ?I (k + 1) v"
      by (simp add: bs(1,2) algebra_simps)
  qed (use fb bc in simp_all)
  then show ?thesis by auto
qed

text \<open>The steady state: forward \<open>w + j\<close>, then backward \<open>j\<close>.\<close>

definition steady_leaves :: "interleaved \<Rightarrow> int \<Rightarrow> int \<Rightarrow> int \<Rightarrow> meta_step list" where
  "steady_leaves L s w fb = concat (map (\<lambda>j. [fwd_op L s (w + j), bwd_op L s j]) (py_range 0 fb))"

lemma emit_1f1b:
  assumes ok: "layout_ok L" and w: "0 \<le> w" and fb: "0 \<le> fb" "w + fb = total_ops L"
    and fc: "fwd_tracks L s fc w"
  shows "\<exists>ops fc' bc. emit_1f1b_ops L s w fb fc (\<lambda>_. 0) = Inr (ops, fc', bc) \<and>
    shaped L s ops \<and> leaves_of ops = steady_leaves L s w fb \<and> bwd_tracks L s bc fb"
proof -
  let ?I = "\<lambda>k (ops, fc, bc). shaped L s ops \<and> leaves_of ops = steady_leaves L s w (k - w) \<and>
    fwd_tracks L s fc k \<and> bwd_tracks L s bc (k - w)"
  have "\<exists>t. emit_1f1b_ops L s w fb fc (\<lambda>_. 0) = Inr t \<and> ?I (w + fb) t"
    unfolding emit_1f1b_ops_def
  proof (rule for_res_range [where I = ?I])
    fix k and u :: "order \<times> counters \<times> counters"
    assume k: "w \<le> k" "k < w + fb" and I: "?I k u"
    obtain ops fc bc where u: "u = (ops, fc, bc)" by (cases u)
    have ks: "0 \<le> k" "k < total_ops L" "0 \<le> k - w" "k - w < total_ops L" using k w fb by simp_all
    from fwd_emit [OF ok ks(1,2), of s fc] I u obtain fs where
      fs: "forward_stage_index L k s = Inr fs" "mstep (fc fs) FWD fs = fwd_op L s k"
      "fwd_tracks L s (bump fc fs) (k + 1)" by auto
    from bwd_emit [OF ok ks(3,4), of s bc] I u obtain bs where
      bs: "backward_stage_index L (k - w) s = Inr bs" "mstep (bc bs) BWD bs = bwd_op L s (k - w)"
      "bwd_tracks L s (bump bc bs) (k - w + 1)" by auto
    have "steady_leaves L s w (k + 1 - w) = steady_leaves L s w (k - w) @ [fwd_op L s k, bwd_op L s (k - w)]"
      using py_range_snoc [OF ks(3)] by (simp add: steady_leaves_def algebra_simps)
    with fs(3) bs(3) I u
    show "\<exists>v. (case u of (ops, fc, bc) \<Rightarrow> bind_res (forward_stage_index L k s) (\<lambda>fs.
        bind_res (backward_stage_index L (k - w) s) (\<lambda>bs.
        Inr (ops @ [Some (mstep (fc fs) FWD fs), Some (mstep (bc bs) BWD bs)]
             @ (if short_micro L \<and> bc bs = micro_batch_num L - 1 \<and> s = real_stage_num L - 1
                then bubbles (2 * trailing_bubble L) else []), bump fc fs, bump bc bs)))) = Inr v \<and>
        ?I (k + 1) v"
      by (simp add: fs(1,2) bs(1,2) algebra_simps)
  qed (use fb fc in \<open>simp_all add: steady_leaves_def\<close>)
  then show ?thesis by auto
qed

lemma collect_steps:
  assumes ok: "layout_ok L" and w: "0 \<le> w" and fb: "0 \<le> fb" "w + fb = total_ops L"
    and fc: "fwd_tracks L s fc w"
  shows "\<exists>fc' bc. collect_fwd_bwd_steps L s w fb fc (\<lambda>_. 0) =
      Inr (map (\<lambda>j. fwd_op L s (w + j)) (py_range 0 fb), map (bwd_op L s) (py_range 0 fb), fc', bc) \<and>
    bwd_tracks L s bc fb"
proof -
  let ?I = "\<lambda>k (fwds, bwds, fc, bc). fwds = map (\<lambda>j. fwd_op L s (w + j)) (py_range 0 (k - w)) \<and>
    bwds = map (bwd_op L s) (py_range 0 (k - w)) \<and> fwd_tracks L s fc k \<and> bwd_tracks L s bc (k - w)"
  have "\<exists>t. collect_fwd_bwd_steps L s w fb fc (\<lambda>_. 0) = Inr t \<and> ?I (w + fb) t"
    unfolding collect_fwd_bwd_steps_def
  proof (rule for_res_range [where I = ?I])
    fix k and u :: "meta_step list \<times> meta_step list \<times> counters \<times> counters"
    assume k: "w \<le> k" "k < w + fb" and I: "?I k u"
    obtain fwds bwds fc bc where u: "u = (fwds, bwds, fc, bc)" by (cases u)
    have ks: "0 \<le> k" "k < total_ops L" "0 \<le> k - w" "k - w < total_ops L" using k w fb by simp_all
    from fwd_emit [OF ok ks(1,2), of s fc] I u obtain fs where
      fs: "forward_stage_index L k s = Inr fs" "mstep (fc fs) FWD fs = fwd_op L s k"
      "fwd_tracks L s (bump fc fs) (k + 1)" by auto
    from bwd_emit [OF ok ks(3,4), of s bc] I u obtain bs where
      bs: "backward_stage_index L (k - w) s = Inr bs" "mstep (bc bs) BWD bs = bwd_op L s (k - w)"
      "bwd_tracks L s (bump bc bs) (k - w + 1)" by auto
    have "py_range 0 (k + 1 - w) = py_range 0 (k - w) @ [k - w]"
      using py_range_snoc [OF ks(3)] by (simp add: algebra_simps)
    with fs(3) bs(3) I u
    show "\<exists>v. (case u of (fwds, bwds, fc, bc) \<Rightarrow> bind_res (forward_stage_index L k s) (\<lambda>fs.
        bind_res (backward_stage_index L (k - w) s) (\<lambda>bs.
        Inr (fwds @ [mstep (fc fs) FWD fs], bwds @ [mstep (bc bs) BWD bs], bump fc fs, bump bc bs)))) =
        Inr v \<and> ?I (k + 1) v"
      by (simp add: fs(1,2) bs(1,2) algebra_simps)
  qed (use fb fc in simp_all)
  then show ?thesis by auto
qed

text \<open>Pairing shifts the forwards by one and keeps the sequence of leaves.\<close>

lemma leaf_overlap_pair [simp]: "leaf_meta_steps (overlap_pair b f) = leaf_meta_steps b @ leaf_meta_steps f"
  by (simp add: overlap_pair_def is_overlap_def)

lemma interleave_shift:
  "f 0 # concat (map (\<lambda>j. [b j, f (j + 1)]) (py_range 0 (int n))) @ [b (int n)] =
   concat (map (\<lambda>j. [f j, b j]) (py_range 0 (int n + 1)))"
proof (induction n)
  case (Suc n)
  have "py_range 0 (int (Suc n)) = py_range 0 (int n) @ [int n]"
    using py_range_snoc [of 0 "int n"] by (simp add: algebra_simps)
  moreover have "py_range 0 (int (Suc n) + 1) = py_range 0 (int n + 1) @ [int n + 1]"
    using py_range_snoc [of 0 "int n + 1"] by (simp add: algebra_simps)
  ultimately show ?case using Suc by (simp add: add.commute [of 1])
qed (simp add: py_range_Cons)

lemma leaves_of_map_Some: "leaves_of (map Some xs) = concat (map leaf_meta_steps xs)"
  by (induction xs) simp_all

lemma pair_leaves:
  assumes "0 \<le> fb"
  shows "\<exists>ops. pair_into_overlap_b_f (map (\<lambda>j. fwd_op L s (w + j)) (py_range 0 fb))
      (map (bwd_op L s) (py_range 0 fb)) = Inr ops \<and> shaped L s ops \<and>
      leaves_of ops = steady_leaves L s w fb"
proof (cases "fb = 0")
  case True
  then show ?thesis by (simp add: pair_into_overlap_b_f_def steady_leaves_def)
next
  case False
  with assms obtain n where fb: "fb = int n + 1" by (metis zle_iff_zadd add.commute add.left_neutral
        int_one_le_iff_zero_less order_le_less)
  let ?f = "\<lambda>j. fwd_op L s (w + j)" and ?b = "bwd_op L s"
  have pairs: "map_res (\<lambda>i. bind_res (py_nth (map ?b (py_range 0 fb)) i) (\<lambda>b.
        bind_res (py_nth (map ?f (py_range 0 fb)) (i + 1)) (\<lambda>f. Inr (Some (overlap_pair b f)))))
        (py_range 0 (int n)) = Inr (map (\<lambda>j. Some (overlap_pair (?b j) (?f (j + 1)))) (py_range 0 (int n)))"
    by (rule map_res_total) (simp add: fb)
  have cons: "py_range 0 fb = 0 # py_range 1 fb" and snoc: "py_range 0 fb = py_range 0 (int n) @ [int n]"
    using py_range_Cons [of 0 fb] py_range_snoc [of 0 "int n"] by (simp_all add: fb)
  have ends: "hd (map ?f (py_range 0 fb)) = ?f 0" "last (map ?b (py_range 0 fb)) = ?b (int n)"
    "py_range 0 fb \<noteq> []" "int (length (map ?b (py_range 0 fb))) - 1 = int n"
    by (simp add: cons, simp add: snoc, simp add: cons, simp add: fb)
  have ne: "map ?f (py_range 0 fb) \<noteq> []" "map ?b (py_range 0 fb) \<noteq> []" using ends(3) by simp_all
  have "leaves_of (map (\<lambda>j. Some (overlap_pair (?b j) (?f (j + 1)))) js) =
      concat (map (\<lambda>j. [?b j, ?f (j + 1)]) js)" for js
    by (induction js) simp_all
  moreover have "pair_into_overlap_b_f (map ?f (py_range 0 fb)) (map ?b (py_range 0 fb)) =
      Inr ([Some (?f 0)] @ map (\<lambda>j. Some (overlap_pair (?b j) (?f (j + 1)))) (py_range 0 (int n))
           @ [Some (?b (int n))])"
    unfolding pair_into_overlap_b_f_def ends(4) pairs bind_res_simps ends(1,2) if_not_P [OF ne(1)]
      if_not_P [OF ne(2)] by (rule refl)
  moreover have "?f 0 # concat (map (\<lambda>j. [?b j, ?f (j + 1)]) (py_range 0 (int n))) @ [?b (int n)] =
      steady_leaves L s w fb"
    unfolding steady_leaves_def fb by (rule interleave_shift)
  moreover have "shaped L s (map (\<lambda>j. Some (overlap_pair (?b j) (?f (j + 1)))) js)" for js
    by (induction js) simp_all
  ultimately show ?thesis by simp
qed

lemma emit_overlap:
  assumes ok: "layout_ok L" and w: "0 \<le> w" and fb: "0 \<le> fb" "w + fb = total_ops L"
    and fc: "fwd_tracks L s fc w"
  shows "\<exists>ops fc' bc. emit_1f1b_overlap_ops L s w fb fc (\<lambda>_. 0) = Inr (ops, fc', bc) \<and>
    shaped L s ops \<and> leaves_of ops = steady_leaves L s w fb \<and> bwd_tracks L s bc fb"
proof -
  obtain fc' bc where c: "collect_fwd_bwd_steps L s w fb fc (\<lambda>_. 0) =
      Inr (map (\<lambda>j. fwd_op L s (w + j)) (py_range 0 fb), map (bwd_op L s) (py_range 0 fb), fc', bc)"
    and bc: "bwd_tracks L s bc fb" using collect_steps [OF assms] by blast
  obtain ops where p: "pair_into_overlap_b_f (map (\<lambda>j. fwd_op L s (w + j)) (py_range 0 fb))
      (map (bwd_op L s) (py_range 0 fb)) = Inr ops"
    and l: "shaped L s ops" "leaves_of ops = steady_leaves L s w fb"
    using pair_leaves [OF fb(1)] by blast
  show ?thesis
    using bc l by (simp add: emit_1f1b_overlap_ops_def c p)
qed

text \<open>The order of a rank, by its leaves.\<close>

definition interleaved_leaves :: "interleaved \<Rightarrow> int \<Rightarrow> meta_step list" where
  "interleaved_leaves L s =
     (let w = warmup_ops L s; fb = total_ops L - w in
      map (fwd_op L s) (py_range 0 w) @ steady_leaves L s w fb
      @ map (bwd_op L s) (py_range fb (total_ops L)))"

lemma warmup_bounds:
  assumes "layout_ok L" and "s < real_stage_num L"
  shows "0 \<le> warmup_ops L s" and "warmup_ops L s \<le> total_ops L"
    and "min ((n_local_stages L - 1) * sizes L ! 0) (total_ops L) \<le> warmup_ops L s"
proof -
  have V: "1 \<le> n_local_stages L" and M: "1 \<le> micro_batch_num L" using assms(1) by (auto simp: layout_ok_def)
  have "sizes L \<noteq> []"
    using round_sizes_props(3) assms(1) by (simp add: layout_fields(1) layout_ok_def)
  then have "1 \<le> sizes L ! 0" using size_bounds(1) [OF assms(1), of 0] by simp
  then have "0 \<le> (n_local_stages L - 1) * sizes L ! 0" using V by simp
  moreover have "0 \<le> total_ops L" using V M by simp
  ultimately show "0 \<le> warmup_ops L s" and "warmup_ops L s \<le> total_ops L"
    and "min ((n_local_stages L - 1) * sizes L ! 0) (total_ops L) \<le> warmup_ops L s"
    using assms(2) unfolding warmup_ops_def Let_def by (simp_all add: min_def)
qed

lemma construct_leaves:
  assumes ok: "layout_ok L" and s: "0 \<le> s" "s < real_stage_num L"
  shows "\<exists>ord. construct_stage_exec_order L s = Inr ord \<and> shaped L s ord \<and>
    leaves_of ord = interleaved_leaves L s"
proof -
  define w fb where "w = warmup_ops L s" and "fb = total_ops L - w"
  have w: "0 \<le> w" "w \<le> total_ops L" using warmup_bounds [OF ok s(2)] by (simp_all add: w_def)
  then have fb: "0 \<le> fb" "w + fb = total_ops L" "fb \<le> total_ops L" by (simp_all add: fb_def)
  obtain warm fc where warm: "emit_warmup_ops L s w (\<lambda>_. 0) = Inr (warm, fc)"
    "leaves_of warm = map (fwd_op L s) (py_range 0 w)" "fwd_tracks L s fc w" "shaped L s warm"
    using emit_warmup [OF ok w] by blast
  obtain steady fc' bc where steady: "(if overlap_b_f L then emit_1f1b_overlap_ops L s w fb fc (\<lambda>_. 0)
      else emit_1f1b_ops L s w fb fc (\<lambda>_. 0)) = Inr (steady, fc', bc)"
    "leaves_of steady = steady_leaves L s w fb" "bwd_tracks L s bc fb" "shaped L s steady"
    using emit_1f1b [OF ok w(1) fb(1,2) warm(3)] emit_overlap [OF ok w(1) fb(1,2) warm(3)]
    by (cases "overlap_b_f L") auto
  obtain cool bc' where cool: "emit_cooldown_ops L s w fb (w + total_ops L) bc = Inr (cool, bc')"
    "leaves_of cool = map (bwd_op L s) (py_range fb (total_ops L))" "shaped L s cool"
    using emit_cooldown [OF ok fb(1,3) steady(3)] by blast
  have args: "n_local_stages L * micro_batch_num L - w = fb" "2 * w + fb = w + total_ops L"
    by (simp_all add: fb_def mult.commute)
  define gap where "gap = max 0 ((if less_memory L then real_stage_num L - 1 - s
      else 2 * (real_stage_num L - 1 - s)) - micro_batch_num L)"
  have "construct_stage_exec_order L s =
      Inr (bubbles s @ warm @ bubbles gap @ bubbles (real_stage_num L - 1 - s) @ steady @ cool)"
    unfolding construct_stage_exec_order_def Let_def w_def [symmetric] args gap_def [symmetric]
    by (simp only: warm(1) steady(1) cool(1) bind_res_simps prod.case)
  moreover have "leaves_of (bubbles s @ warm @ bubbles gap @ bubbles (real_stage_num L - 1 - s) @ steady @ cool) =
      interleaved_leaves L s"
    by (simp add: warm(2) steady(2) cool(2) interleaved_leaves_def Let_def fb_def flip: w_def)
  moreover have "shaped L s (bubbles s @ warm @ bubbles gap @ bubbles (real_stage_num L - 1 - s) @ steady @ cool)"
    by (simp add: warm(4) steady(4) cool(3))
  ultimately show ?thesis by blast
qed

section \<open>Every micro-batch of every local stage\<close>

definition stage_micros :: "meta_step_type \<Rightarrow> int \<Rightarrow> meta_step list \<Rightarrow> int list" where
  "stage_micros t stage xs =
     map (\<lambda>a. the (micro_index a)) (filter (\<lambda>a. step_type a = t \<and> stage_index a = Some stage) xs)"

lemma stage_micros_simps [simp]:
  "stage_micros t g [] = []"
  "stage_micros t g (a # xs) =
     (if step_type a = t \<and> stage_index a = Some g then [the (micro_index a)] else []) @ stage_micros t g xs"
  "stage_micros t g (xs @ ys) = stage_micros t g xs @ stage_micros t g ys"
  by (simp_all add: stage_micros_def)

lemma op_sel [simp]:
  "step_type (fwd_op L s k) = FWD" "step_type (bwd_op L s k) = BWD"
  "micro_index (fwd_op L s k) = Some (done_of L k (local_of L k))"
  "micro_index (bwd_op L s k) = Some (done_of L k (local_of L k))"
  "stage_index (fwd_op L s k) = Some (local_of L k * real_stage_num L + s)"
  "stage_index (bwd_op L s k) = Some ((n_local_stages L - 1 - local_of L k) * real_stage_num L + s)"
  by (simp_all add: fwd_op_def bwd_op_def)

lemma filter_done:
  "map (\<lambda>k. done_of L k (local_of L k)) (filter (\<lambda>k. local_of L k = v) (py_range 0 (int n))) =
   py_range 0 (done_of L (int n) v)"
proof (induction n)
  case (Suc n)
  have "py_range 0 (int (Suc n)) = py_range 0 (int n) @ [int n]"
    using py_range_snoc [of 0 "int n"] by (simp add: algebra_simps)
  moreover have "done_of L (int (Suc n)) v = done_of L (int n) v + (if local_of L (int n) = v then 1 else 0)"
    using done_of_Suc [of "int n" L v] by (simp add: algebra_simps)
  moreover have "0 \<le> done_of L (int n) v" by (simp add: done_of_def)
  ultimately show ?case using Suc py_range_snoc [of 0 "done_of L (int n) v"] by simp
qed simp

lemma stage_micros_ops:
  assumes ok: "layout_ok L" and v: "0 \<le> v" "v < n_local_stages L"
  shows "stage_micros FWD (v * real_stage_num L + s) (map (fwd_op L s) (py_range 0 (total_ops L))) =
           py_range 0 (micro_batch_num L)"
    and "stage_micros BWD (v * real_stage_num L + s) (map (bwd_op L s) (py_range 0 (total_ops L))) =
           py_range 0 (micro_batch_num L)"
proof -
  have R: "real_stage_num L \<noteq> 0" and T: "0 \<le> total_ops L" using ok by (auto simp: layout_ok_def)
  have f: "stage_micros FWD (v * real_stage_num L + s) (map (fwd_op L s) ks) =
      map (\<lambda>k. done_of L k (local_of L k)) (filter (\<lambda>k. local_of L k = v) ks)" for ks
    using R by (induction ks) auto
  have b: "stage_micros BWD (v * real_stage_num L + s) (map (bwd_op L s) ks) =
      map (\<lambda>k. done_of L k (local_of L k)) (filter (\<lambda>k. local_of L k = n_local_stages L - 1 - v) ks)" for ks
    using R by (induction ks) auto
  show "stage_micros FWD (v * real_stage_num L + s) (map (fwd_op L s) (py_range 0 (total_ops L))) =
      py_range 0 (micro_batch_num L)"
    unfolding f using filter_done [of L v "nat (total_ops L)"] T done_of_end [OF ok v] by simp
  have "done_of L (total_ops L) (n_local_stages L - 1 - v) = micro_batch_num L"
    by (rule done_of_end [OF ok]) (use v in simp_all)
  then show "stage_micros BWD (v * real_stage_num L + s) (map (bwd_op L s) (py_range 0 (total_ops L))) =
      py_range 0 (micro_batch_num L)"
    unfolding b using filter_done [of L "n_local_stages L - 1 - v" "nat (total_ops L)"] T by simp
qed

lemma stage_micros_leaves:
  assumes ok: "layout_ok L" and s: "s < real_stage_num L"
  shows "stage_micros FWD g (interleaved_leaves L s) =
           stage_micros FWD g (map (fwd_op L s) (py_range 0 (total_ops L)))"
    and "stage_micros BWD g (interleaved_leaves L s) =
           stage_micros BWD g (map (bwd_op L s) (py_range 0 (total_ops L)))"
proof -
  define w fb where "w = warmup_ops L s" and "fb = total_ops L - w"
  have w: "0 \<le> w" "w \<le> total_ops L" using warmup_bounds [OF ok s] by (simp_all add: w_def)
  then have fb: "0 \<le> fb" "fb \<le> total_ops L" by (simp_all add: fb_def)
  have steady_f: "stage_micros FWD g (concat (map (\<lambda>j. [fwd_op L s (w + j), bwd_op L s j]) js)) =
      stage_micros FWD g (map (\<lambda>j. fwd_op L s (w + j)) js)" for js
    by (induction js) simp_all
  have steady_b: "stage_micros BWD g (concat (map (\<lambda>j. [fwd_op L s (w + j), bwd_op L s j]) js)) =
      stage_micros BWD g (map (bwd_op L s) js)" for js
    by (induction js) simp_all
  have none: "stage_micros FWD g (map (bwd_op L s) js) = []" "stage_micros BWD g (map (fwd_op L s) js) = []"
    for js by (simp_all add: stage_micros_def filter_empty_conv)
  have "map (\<lambda>j. fwd_op L s (w + j)) (py_range 0 fb) = map (fwd_op L s) (map (\<lambda>j. j + w) (py_range 0 fb))"
    by (simp add: add.commute)
  also have "\<dots> = map (fwd_op L s) (py_range w (total_ops L))"
    using map_shift_range [of w 0 fb] by (simp add: fb_def del: map_map)
  finally have shift: "map (\<lambda>j. fwd_op L s (w + j)) (py_range 0 fb) = map (fwd_op L s) (py_range w (total_ops L))" .
  have join: "py_range 0 w @ py_range w (total_ops L) = py_range 0 (total_ops L)"
    "py_range 0 fb @ py_range fb (total_ops L) = py_range 0 (total_ops L)"
    using w fb by (simp_all add: py_range_append)
  note leaves = interleaved_leaves_def [of L s, unfolded Let_def, folded w_def, folded fb_def]
  show "stage_micros FWD g (interleaved_leaves L s) =
      stage_micros FWD g (map (fwd_op L s) (py_range 0 (total_ops L)))"
    unfolding leaves steady_leaves_def stage_micros_simps steady_f shift none
    by (simp flip: stage_micros_simps(3) map_append add: join)
  show "stage_micros BWD g (interleaved_leaves L s) =
      stage_micros BWD g (map (bwd_op L s) (py_range 0 (total_ops L)))"
    unfolding leaves steady_leaves_def stage_micros_simps steady_b none
    by (simp flip: stage_micros_simps(3) map_append add: join)
qed

section \<open>A backward comes after its forward\<close>

lemma precedes_append_left: "precedes a b xs \<Longrightarrow> precedes a b (xs @ ys)"
  unfolding precedes_def by (metis append.assoc append_Cons)

lemma precedes_append_right: "precedes a b ys \<Longrightarrow> precedes a b (xs @ ys)"
  unfolding precedes_def by (metis append.assoc)

lemma precedes_across:
  assumes "a \<in> set xs" and "b \<in> set ys"
  shows "precedes a b (xs @ ys)"
proof -
  obtain us vs where "xs = us @ a # vs" using assms(1) by (meson split_list)
  moreover obtain ws zs where "ys = ws @ b # zs" using assms(2) by (meson split_list)
  ultimately have "xs @ ys = us @ a # (vs @ ws) @ b # zs" by simp
  then show ?thesis unfolding precedes_def by blast
qed

lemma precedes_ops:
  assumes ok: "layout_ok L" and s: "s < real_stage_num L"
    and kf: "0 \<le> kf" "kf < total_ops L" and kb: "0 \<le> kb" "kb < total_ops L"
    and close: "kf \<le> kb + warmup_ops L s"
  shows "precedes (fwd_op L s kf) (bwd_op L s kb) (interleaved_leaves L s)"
proof -
  define w fb where "w = warmup_ops L s" and "fb = total_ops L - w"
  have w: "0 \<le> w" "w \<le> total_ops L" using warmup_bounds [OF ok s] by (simp_all add: w_def)
  define warm cool where "warm = map (fwd_op L s) (py_range 0 w)"
    and "cool = map (bwd_op L s) (py_range fb (total_ops L))"
  let ?st = "\<lambda>a b. concat (map (\<lambda>j. [fwd_op L s (w + j), bwd_op L s j]) (py_range a b))"
  have leaves: "interleaved_leaves L s = warm @ ?st 0 fb @ cool"
    by (simp add: interleaved_leaves_def Let_def steady_leaves_def fb_def warm_def cool_def flip: w_def)
  have b: "bwd_op L s kb \<in> set (?st 0 fb @ cool)" using kb by (force simp: cool_def)
  show ?thesis
  proof (cases "kf < w")
    case True
    then have "fwd_op L s kf \<in> set warm" using kf by (simp add: warm_def)
    with b show ?thesis unfolding leaves by (rule precedes_across [rotated])
  next
    case False
    define j where "j = kf - w"
    have j: "0 \<le> j" "j < fb" "j \<le> kb" using False kf close by (simp_all add: j_def fb_def w_def)
    have "py_range 0 fb = py_range 0 j @ j # py_range (j + 1) fb"
      using j py_range_append [of 0 j fb] py_range_Cons [of j fb] by simp
    then have split: "?st 0 fb = ?st 0 j @ [fwd_op L s kf] @ [bwd_op L s j] @ ?st (j + 1) fb"
      by (simp add: j_def)
    have "bwd_op L s kb \<in> set ([bwd_op L s j] @ ?st (j + 1) fb @ cool)"
    proof (cases "kb = j")
      case False
      then show ?thesis using kb j by (force simp: cool_def)
    qed simp
    then have "precedes (fwd_op L s kf) (bwd_op L s kb)
        ([fwd_op L s kf] @ [bwd_op L s j] @ ?st (j + 1) fb @ cool)"
      by (intro precedes_across) simp_all
    then have "precedes (fwd_op L s kf) (bwd_op L s kb)
        ((warm @ ?st 0 j) @ [fwd_op L s kf] @ [bwd_op L s j] @ ?st (j + 1) fb @ cool)"
      by (rule precedes_append_right)
    then show ?thesis unfolding leaves split by simp
  qed
qed

lemma micro_precedes:
  assumes ok: "layout_ok L" and s: "s < real_stage_num L"
    and v: "0 \<le> v" "v < n_local_stages L" and m: "0 \<le> m" "m < micro_batch_num L"
  shows "precedes (mstep m FWD (v * real_stage_num L + s)) (mstep m BWD (v * real_stage_num L + s))
           (interleaved_leaves L s)"
proof -
  obtain i j where i: "i < length (sizes L)" and j: "0 \<le> j" "j < sizes L ! i"
    and mij: "m = before_round L i + j" by (rule op_of_micro [OF ok m])
  define V n p where "V = n_local_stages L" and "n = sizes L ! i" and "p = before_round L i * n_local_stages L"
  define v' where "v' = V - 1 - v"
  have v': "0 \<le> v'" "v' < n_local_stages L" using v by (simp_all add: v'_def V_def)
  have n: "1 \<le> n" "n \<le> sizes L ! 0" using size_bounds [OF ok i] by (simp_all add: n_def)
  have p: "0 \<le> p" using before_round_nonneg [OF ok, of i] i v by (simp add: p_def)
  have at: "local_of L (p + u * n + j) = u" "done_of L (p + u * n + j) u = m"
    if "0 \<le> u" "u < n_local_stages L" for u
    using local_of_round [OF ok i that j] done_of_within(1) [OF ok i that done_of_round [OF ok _ that]] i j
    by (simp_all add: p_def n_def mij)
  have bound: "0 \<le> p + u * n + j \<and> p + u * n + j < total_ops L" if "0 \<le> u" "u < n_local_stages L" for u
  proof -
    have "u * n + j < (u + 1) * n" using j by (simp add: n_def algebra_simps)
    also have "\<dots> \<le> V * n" using that n by (intro mult_right_mono) (auto simp: V_def)
    finally have "p + u * n + j < before_round L (Suc i) * V"
      by (simp add: p_def n_def V_def before_round_Suc [OF i] algebra_simps)
    also have "\<dots> \<le> total_ops L"
    proof -
      have "before_round L (Suc i) \<le> micro_batch_num L"
      proof -
        have "before_round L a \<le> before_round L b" if "a \<le> b" "b \<le> length (sizes L)" for a b
          using that
        proof (induction b rule: dec_induct)
          case (step b)
          then show ?case using before_round_Suc [of b L] size_bounds [OF ok, of b] by simp
        qed simp
        from this [of "Suc i" "length (sizes L)"] i before_round_end [OF ok] show ?thesis by simp
      qed
      then show ?thesis using v unfolding V_def by (intro mult_right_mono) auto
    qed
    finally show ?thesis using p that n j by simp
  qed
  have "p + v * n + j \<le> p + v' * n + j + warmup_ops L s"
  proof -
    have "v * n \<le> (V - 1) * n" using v n by (intro mult_right_mono) (auto simp: V_def)
    also have "\<dots> \<le> (V - 1) * sizes L ! 0" using v n by (intro mult_left_mono) (auto simp: V_def)
    finally have "v * n \<le> (V - 1) * sizes L ! 0" .
    moreover have "0 \<le> v' * n" using v' n by simp
    moreover have "p + v * n + j < total_ops L" using bound v by blast
    ultimately show ?thesis
      using warmup_bounds(3) [OF ok s] p j unfolding V_def by linarith
  qed
  with precedes_ops [OF ok s, of "p + v * n + j" "p + v' * n + j"] bound v v'
  have "precedes (fwd_op L s (p + v * n + j)) (bwd_op L s (p + v' * n + j)) (interleaved_leaves L s)" by blast
  moreover have "fwd_op L s (p + v * n + j) = mstep m FWD (v * real_stage_num L + s)"
    using at [OF v] by (simp add: fwd_op_def)
  moreover have "bwd_op L s (p + v' * n + j) = mstep m BWD (v * real_stage_num L + s)"
    using at [OF v'] by (simp add: bwd_op_def) (simp add: v'_def V_def)
  ultimately show ?thesis by simp
qed

section \<open>Activations in flight\<close>

lemma interleaved_stays:
  assumes ok: "layout_ok L" and s: "s < real_stage_num L"
  shows "stays (min (warmup_ops L s + 1) (total_ops L)) 0 (interleaved_leaves L s)"
proof -
  define w fb where "w = warmup_ops L s" and "fb = total_ops L - w"
  define cap where "cap = min (w + 1) (total_ops L)"
  have w: "0 \<le> w" "w \<le> total_ops L" using warmup_bounds [OF ok s] by (simp_all add: w_def)
  have fb: "0 \<le> fb" by (simp add: fb_def w)
  have cap: "w \<le> cap" "0 < fb \<Longrightarrow> cap = w + 1" using w by (auto simp: cap_def fb_def)
  have single: "concat (map (\<lambda>k. [f k]) ks) = map f ks" for f :: "int \<Rightarrow> meta_step" and ks
    by (induction ks) simp_all
  have 1: "stays cap 0 (concat (map (\<lambda>k. [fwd_op L s k]) (py_range 0 w))) \<and>
      in_flight (concat (map (\<lambda>k. [fwd_op L s k]) (py_range 0 w))) = 1 * (w - 0)"
    by (rule stays_range) (use w cap in \<open>auto simp: in_flight_def\<close>)
  have 2: "stays cap w (concat (map (\<lambda>j. [fwd_op L s (w + j), bwd_op L s j]) (py_range 0 fb))) \<and>
      in_flight (concat (map (\<lambda>j. [fwd_op L s (w + j), bwd_op L s j]) (py_range 0 fb))) = 0 * (fb - 0)"
    by (rule stays_range) (use w fb cap in \<open>auto simp: in_flight_def\<close>)
  have 3: "stays cap w (concat (map (\<lambda>k. [bwd_op L s k]) (py_range fb (total_ops L)))) \<and>
      in_flight (concat (map (\<lambda>k. [bwd_op L s k]) (py_range fb (total_ops L)))) = - 1 * (total_ops L - fb)"
    by (rule stays_range) (use w fb cap in \<open>auto simp: in_flight_def fb_def\<close>)
  show ?thesis
    using 1 2 3 unfolding single
    by (simp add: interleaved_leaves_def Let_def steady_leaves_def stays_append flip: w_def)
      (simp add: fb_def cap_def)
qed

section \<open>Placement\<close>

lemma compute_leaf_ops:
  assumes "0 \<le> s" and "s < real_stage_num L"
  shows "compute_leaf (real_stage_num L) S ''loop'' s (fwd_op L s k)"
    and "compute_leaf (real_stage_num L) S ''loop'' s (bwd_op L s k)"
proof -
  have "(a * real_stage_num L + s) mod real_stage_num L = s" for a using assms by simp
  then show "compute_leaf (real_stage_num L) S ''loop'' s (fwd_op L s k)"
    and "compute_leaf (real_stage_num L) S ''loop'' s (bwd_op L s k)"
    using assms by (simp_all add: compute_leaf_def stage_to_rank_def)
qed

lemma shaped_schedulable:
  assumes "0 \<le> s" and "s < real_stage_num L" and "overlap_shape L s x"
  shows "schedulable (real_stage_num L) S ''loop'' s x \<and> plain_step x"
  using assms(3) compute_leaf_ops [OF assms(1,2)] unfolding overlap_shape_def
  by (auto simp: schedulable_def is_overlap_def overlap_pair_def plain_step_def fwd_op_def bwd_op_def)

lemma construct_all:
  assumes ok: "layout_ok L"
  obtains exec where
    "map_res (\<lambda>s. bind_res (construct_stage_exec_order L s) (\<lambda>ord. Inr (s, ord)))
       (py_range 0 (real_stage_num L)) = Inr exec"
    and "well_placed (real_stage_num L) S ''loop'' exec"
    and "\<forall>r. plain_order (dict_list exec r)"
    and "\<forall>s \<in> set (py_range 0 (real_stage_num L)).
           construct_stage_exec_order L s = Inr (dict_list exec s) \<and>
           leaves_of (dict_list exec s) = interleaved_leaves L s"
proof -
  define ord where "ord s = (SOME x. construct_stage_exec_order L s = Inr x)" for s
  have ord: "construct_stage_exec_order L s = Inr (ord s)" "shaped L s (ord s)"
    "leaves_of (ord s) = interleaved_leaves L s" if r: "0 \<le> s" "s < real_stage_num L" for s
  proof -
    obtain x where x: "construct_stage_exec_order L s = Inr x" "shaped L s x"
      "leaves_of x = interleaved_leaves L s" using construct_leaves [OF ok r] by blast
    then have "ord s = x" by (simp add: ord_def)
    with x show "construct_stage_exec_order L s = Inr (ord s)" "shaped L s (ord s)"
      "leaves_of (ord s) = interleaved_leaves L s" by simp_all
  qed
  let ?exec = "map (\<lambda>s. (s, ord s)) (py_range 0 (real_stage_num L))"
  have list: "dict_list ?exec r = (if 0 \<le> r \<and> r < real_stage_num L then ord r else [])" for r
    by (simp add: dict_list_def map_of_map_pair)
  have "map_res (\<lambda>s. bind_res (construct_stage_exec_order L s) (\<lambda>ord. Inr (s, ord)))
      (py_range 0 (real_stage_num L)) = Inr ?exec"
    by (rule map_res_total) (simp add: ord)
  moreover have "well_placed (real_stage_num L) S ''loop'' ?exec"
    unfolding well_placed_def
  proof (intro ballI conjI)
    fix r x
    assume r: "r \<in> set (py_range 0 (real_stage_num L))" and x: "x \<in> set (somes (dict_list ?exec r))"
    have "overlap_shape L r x" using ord(2) [of r] r x by (simp add: list shaped_def)
    with shaped_schedulable [of r L] r show "schedulable (real_stage_num L) S ''loop'' r x" by simp
  qed (simp add: map_of_map_pair)
  moreover have "\<forall>r. plain_order (dict_list ?exec r)"
  proof
    fix r
    show "plain_order (dict_list ?exec r)"
      using ord(2) [of r] shaped_schedulable [of r L] by (auto simp: list shaped_def plain_order_def)
  qed
  moreover have "\<forall>s \<in> set (py_range 0 (real_stage_num L)).
      construct_stage_exec_order L s = Inr (dict_list ?exec s) \<and>
      leaves_of (dict_list ?exec s) = interleaved_leaves L s"
    by (simp add: list ord)
  ultimately show ?thesis using that by blast
qed

section \<open>Properties of the interleaved schedule\<close>

text \<open>
  C27: every rank of the interleaved schedule runs the forward and the backward of every micro-batch
  of each of its local stages exactly once and in micro-batch order, whatever the number of
  micro-batches (fewer than the ranks, or not a multiple of them), and with and without overlap
  pairs or the shallow warmup.
\<close>

theorem interleaved_complete:
  assumes "layout_ok L" and "0 \<le> s" and "s < real_stage_num L"
    and "0 \<le> v" and "v < n_local_stages L"
  shows "\<exists>ord. construct_stage_exec_order L s = Inr ord \<and>
    stage_micros FWD (v * real_stage_num L + s) (leaves_of ord) = py_range 0 (micro_batch_num L) \<and>
    stage_micros BWD (v * real_stage_num L + s) (leaves_of ord) = py_range 0 (micro_batch_num L)"
  using construct_leaves [OF assms(1-3)] stage_micros_leaves [OF assms(1,3)]
    stage_micros_ops [OF assms(1,4,5)] by fastforce

definition interleaved_example :: interleaved where
  "interleaved_example =
     \<lparr>real_stage_num = 2, micro_batch_num = 3, n_local_stages = 2, less_memory = True,
      overlap_b_f = True, n_microbatch_per_round = [3], n_microbatch_per_round_accu = [0, 6]\<rparr>"

lemma interleaved_example_ok: "layout_ok interleaved_example"
  by (simp add: layout_ok_def interleaved_example_def init_round_layout_def round_sizes_def Let_def
      py_range_Cons)

theorem interleaved_complete_witness:
  "\<exists>ord. construct_stage_exec_order interleaved_example 1 = Inr ord \<and>
    stage_micros FWD (1 * 2 + 1) (leaves_of ord) = py_range 0 3 \<and>
    stage_micros BWD (1 * 2 + 1) (leaves_of ord) = py_range 0 3"
  using interleaved_complete [OF interleaved_example_ok, of 1 1] by (simp add: interleaved_example_def)

text \<open>
  pairing backwards with forwards into \<open>OVERLAP_B_F\<close> steps does not change what a rank runs: the
  sequence of leaves is the same with and without \<open>overlap_b_f\<close>.
\<close>

theorem overlap_keeps_leaves:
  assumes "layout_ok L" and "0 \<le> s" and "s < real_stage_num L"
  shows "\<exists>paired single.
    construct_stage_exec_order (L\<lparr>overlap_b_f := True\<rparr>) s = Inr paired \<and>
    construct_stage_exec_order (L\<lparr>overlap_b_f := False\<rparr>) s = Inr single \<and>
    leaves_of paired = leaves_of single"
proof -
  have ok: "layout_ok (L\<lparr>overlap_b_f := b\<rparr>)" for b
  proof -
    have "init_round_layout (L\<lparr>overlap_b_f := b\<rparr>) = Inr (L\<lparr>overlap_b_f := b\<rparr>)"
      using assms(1) layout_fields [OF assms(1)]
      by (cases L) (auto simp: layout_ok_def init_round_layout_def Let_def)
    with assms(1) show ?thesis by (simp add: layout_ok_def)
  qed
  have same: "interleaved_leaves (L\<lparr>overlap_b_f := b\<rparr>) s = interleaved_leaves L s" for b
  proof -
    have l: "local_of (L\<lparr>overlap_b_f := b\<rparr>) = local_of L"
      by (rule ext) (simp add: local_of_def local_index_def)
    then have d: "done_of (L\<lparr>overlap_b_f := b\<rparr>) = done_of L"
      by (intro ext) (simp add: done_of_def)
    have "fwd_op (L\<lparr>overlap_b_f := b\<rparr>) s = fwd_op L s" "bwd_op (L\<lparr>overlap_b_f := b\<rparr>) s = bwd_op L s"
      by (intro ext; simp add: fwd_op_def bwd_op_def l d)+
    moreover have "warmup_ops (L\<lparr>overlap_b_f := b\<rparr>) s = warmup_ops L s" by (simp add: warmup_ops_def)
    ultimately show ?thesis by (simp add: interleaved_leaves_def steady_leaves_def)
  qed
  show ?thesis
    using construct_leaves [OF ok [of True], of s] construct_leaves [OF ok [of False], of s] assms(2,3)
    by (auto simp: same)
qed

theorem overlap_keeps_leaves_witness:
  "\<exists>paired single.
    construct_stage_exec_order (interleaved_example\<lparr>overlap_b_f := True\<rparr>) 1 = Inr paired \<and>
    construct_stage_exec_order (interleaved_example\<lparr>overlap_b_f := False\<rparr>) 1 = Inr single \<and>
    leaves_of paired = leaves_of single"
  by (rule overlap_keeps_leaves [OF interleaved_example_ok]) (simp_all add: interleaved_example_def)

text \<open>
  C28: on every rank of the interleaved schedule the backward of a micro-batch on a local stage comes
  after its forward there.
\<close>

theorem interleaved_backward_after_forward:
  assumes "layout_ok L" and "0 \<le> s" and "s < real_stage_num L"
    and "0 \<le> v" and "v < n_local_stages L" and "0 \<le> m" and "m < micro_batch_num L"
  shows "\<exists>ord. construct_stage_exec_order L s = Inr ord \<and>
    precedes (mstep m FWD (v * real_stage_num L + s)) (mstep m BWD (v * real_stage_num L + s))
      (leaves_of ord)"
  using construct_leaves [OF assms(1-3)] micro_precedes [OF assms(1,3-7)] by auto

theorem interleaved_backward_after_forward_witness:
  "\<exists>ord. construct_stage_exec_order interleaved_example 0 = Inr ord \<and>
    precedes (mstep 2 FWD (1 * 2 + 0)) (mstep 2 BWD (1 * 2 + 0)) (leaves_of ord)"
  using interleaved_backward_after_forward [OF interleaved_example_ok, of 0 1 2]
  by (simp add: interleaved_example_def)

text \<open>
  C29: the activations in flight on a rank, over all its local stages, never exceed its warmup depth
  plus one (nor the number of all its forwards), and never go below zero.
\<close>

theorem interleaved_in_flight:
  assumes "layout_ok L" and "0 \<le> s" and "s < real_stage_num L"
    and "construct_stage_exec_order L s = Inr ord" and "prefix p (leaves_of ord)"
  shows "0 \<le> in_flight p \<and>
         in_flight p \<le> min (warmup_ops L s + 1) (micro_batch_num L * n_local_stages L)"
proof -
  have "leaves_of ord = interleaved_leaves L s" using construct_leaves [OF assms(1-3)] assms(4) by auto
  with assms(5) stays_prefix [OF interleaved_stays [OF assms(1,3)], of p] show ?thesis by simp
qed

text \<open>The example runs past the bound \<open>V * P - i\<close> on activations in flight.\<close>

theorem interleaved_in_flight_witness:
  "\<exists>ord. construct_stage_exec_order interleaved_example 0 = Inr ord \<and>
    in_flight (take 5 (leaves_of ord)) = 5 \<and> 5 \<le> warmup_ops interleaved_example 0 + 1 \<and>
    2 * 2 - 0 < in_flight (take 5 (leaves_of ord))"
proof -
  obtain ord where ord: "construct_stage_exec_order interleaved_example 0 = Inr ord"
    using construct_leaves [OF interleaved_example_ok, of 0] by (auto simp: interleaved_example_def)
  have "construct_stage_exec_order interleaved_example 0 =
      Inr (map Some (map (\<lambda>m. mstep m FWD 0) [0, 1, 2] @ [mstep 0 FWD 2]) @ [None, Some (mstep 1 FWD 2)] @
           [Some (overlap_pair (mstep 0 BWD 2) (mstep 2 FWD 2)), Some (mstep 1 BWD 2)] @
           concat (map (\<lambda>s. [None, Some s]) [mstep 2 BWD 2, mstep 0 BWD 0, mstep 1 BWD 0, mstep 2 BWD 0]))"
    by code_simp
  with ord have "ord = map Some (map (\<lambda>m. mstep m FWD 0) [0, 1, 2] @ [mstep 0 FWD 2]) @ [None, Some (mstep 1 FWD 2)] @
           [Some (overlap_pair (mstep 0 BWD 2) (mstep 2 FWD 2)), Some (mstep 1 BWD 2)] @
           concat (map (\<lambda>s. [None, Some s]) [mstep 2 BWD 2, mstep 0 BWD 0, mstep 1 BWD 0, mstep 2 BWD 0])" by simp
  then have "in_flight (take 5 (leaves_of ord)) = 5"
    by (simp add: in_flight_def)
  moreover have "in_flight (take 5 (leaves_of ord)) \<le> min (warmup_ops interleaved_example 0 + 1) (3 * 2)"
    using interleaved_in_flight [OF interleaved_example_ok _ _ ord take_is_prefix, of 5]
    by (simp add: interleaved_example_def)
  ultimately show ?thesis using ord by auto
qed



end
