(* ===== verification/Fsdp_Actions.thy ===== *)
theory Fsdp_Actions
  imports P2p_Passes
begin

text \<open>
  The FSDP control steps of one rank (core/pipeline_parallel/scheduler.py):
  \<open>_next_active_stage_indices\<close>, \<open>add_fsdp_unshard_reshard\<close>, \<open>add_fsdp_reduce_grad\<close> and
  \<open>_inject_local_fsdp_actions\<close>. Which stages are managed is asked of the module objects, so the
  managed stages are an argument.

  The specification \<open>fsdp_run\<close> replays an annotated order on the set of unsharded stages.
\<close>

section \<open>The lookahead\<close>

definition is_compute :: "meta_step_type \<Rightarrow> bool" where
  "is_compute t \<longleftrightarrow> t \<in> {FWD, BWD, BWD_INPUT, BWD_WEIGHT}"

text \<open>The managed stages of the compute leaves of one action.\<close>

definition compute_stages :: "int set \<Rightarrow> meta_step option \<Rightarrow> int list" where
  "compute_stages managed action =
     concat (map (\<lambda>leaf.
       if is_compute (step_type leaf) then
         (case stage_index leaf of
            None \<Rightarrow> []
          | Some si \<Rightarrow> if si \<in> managed then [si] else [])
       else []) (iter_leaf_meta_steps action))"

text \<open>The scan that keeps first occurrences and returns when the window is full.\<close>

fun take_distinct :: "int \<Rightarrow> int list \<Rightarrow> int list \<Rightarrow> int list" where
  "take_distinct cap acc [] = acc"
| "take_distinct cap acc (x # xs) =
     (if x \<in> set acc then take_distinct cap acc xs
      else if int (length (acc @ [x])) = cap then acc @ [x]
      else take_distinct cap (acc @ [x]) xs)"

definition next_active_stage_indices :: "order \<Rightarrow> int \<Rightarrow> int set \<Rightarrow> int list" where
  "next_active_stage_indices actions cap managed =
     take_distinct cap [] (concat (map (compute_stages managed) actions))"

section \<open>Unshard and reshard\<close>

abbreviation fsdp_step :: "meta_step_type \<Rightarrow> int \<Rightarrow> meta_step option" where
  "fsdp_step t si \<equiv> Some (leaf_step None t (Some si))"

fun unshard_loop :: "int set \<Rightarrow> int \<Rightarrow> int list \<Rightarrow> order \<Rightarrow> order" where
  "unshard_loop managed cap active [] = map (fsdp_step FSDP_RESHARD) active"
| "unshard_loop managed cap active (action # rest) =
     (let upcoming = next_active_stage_indices (action # rest) cap managed;
          evicted = filter (\<lambda>si. si \<notin> set upcoming) active;
          fetched = filter (\<lambda>si. si \<notin> set active) upcoming;
          active' = fold remove1 evicted active @ fetched
      in map (fsdp_step FSDP_RESHARD) evicted @ map (fsdp_step FSDP_UNSHARD) fetched
         @ action # unshard_loop managed cap active' rest)"

definition add_fsdp_unshard_reshard :: "order \<Rightarrow> int set \<Rightarrow> int \<Rightarrow> order" where
  "add_fsdp_unshard_reshard actions managed cap =
     (if managed = {} then actions else unshard_loop managed cap [] actions)"

section \<open>Gradient reduction\<close>

fun reduced_stages :: "int set \<Rightarrow> int \<Rightarrow> int list \<Rightarrow> meta_step list \<Rightarrow> int list" where
  "reduced_stages managed M acc [] = acc"
| "reduced_stages managed M acc (leaf # leaves) =
     (case stage_index leaf of
        None \<Rightarrow> reduced_stages managed M acc leaves
      | Some si \<Rightarrow>
          if si \<in> managed \<and> (step_type leaf = BWD \<or> step_type leaf = BWD_WEIGHT)
             \<and> micro_index leaf = Some (M - 1) \<and> si \<notin> set acc
          then reduced_stages managed M (acc @ [si]) leaves
          else reduced_stages managed M acc leaves)"

definition add_fsdp_reduce_grad :: "order \<Rightarrow> int set \<Rightarrow> int \<Rightarrow> order" where
  "add_fsdp_reduce_grad actions managed M =
     (if managed = {} then actions
      else concat (map (\<lambda>action.
             action # map (fsdp_step FSDP_REDUCE_GRAD)
                        (reduced_stages managed M [] (iter_leaf_meta_steps action))) actions))"

text \<open>\<open>_inject_local_fsdp_actions\<close> on the rank of the local stages.\<close>

definition inject_local_fsdp_actions ::
    "exec_order \<Rightarrow> int \<Rightarrow> int set \<Rightarrow> int \<Rightarrow> int \<Rightarrow> exec_order result" where
  "inject_local_fsdp_actions exec rank managed n_stages M =
     (if managed = {} then Inr exec
      else if int (card managed) \<noteq> n_stages then Inl RuntimeError
      else bind_res (dict_get exec rank) (\<lambda>actions.
        Inr (dict_set exec rank
          (add_fsdp_reduce_grad (add_fsdp_unshard_reshard actions managed 3) managed M))))"

section \<open>Replaying the control steps\<close>

text \<open>
  The set of unsharded stages along an order: unshard only what is sharded, reshard only what is
  not, compute only on unsharded stages, and never more than \<open>cap\<close> stages at a time.
\<close>

fun fsdp_run :: "int set \<Rightarrow> int \<Rightarrow> int set \<Rightarrow> order \<Rightarrow> int set option" where
  "fsdp_run managed cap A [] = Some A"
| "fsdp_run managed cap A (None # xs) = fsdp_run managed cap A xs"
| "fsdp_run managed cap A (Some s # xs) =
     (case (step_type s, stage_index s) of
        (FSDP_UNSHARD, Some si) \<Rightarrow>
          if si \<notin> A \<and> int (card (insert si A)) \<le> cap then fsdp_run managed cap (insert si A) xs else None
      | (FSDP_RESHARD, Some si) \<Rightarrow> if si \<in> A then fsdp_run managed cap (A - {si}) xs else None
      | _ \<Rightarrow> if set (compute_stages managed (Some s)) \<subseteq> A then fsdp_run managed cap A xs else None)"

lemma fsdp_run_append:
  "fsdp_run managed cap A (xs @ ys) =
     (case fsdp_run managed cap A xs of None \<Rightarrow> None | Some B \<Rightarrow> fsdp_run managed cap B ys)"
  by (induction managed cap A xs rule: fsdp_run.induct)
    (auto split: meta_step_type.splits option.splits)

definition is_fsdp :: "meta_step_type \<Rightarrow> bool" where
  "is_fsdp t \<longleftrightarrow> t \<in> {FSDP_UNSHARD, FSDP_RESHARD, FSDP_REDUCE_GRAD}"

definition without_fsdp :: "order \<Rightarrow> order" where
  "without_fsdp ord = filter (\<lambda>x. case x of None \<Rightarrow> True | Some s \<Rightarrow> \<not> is_fsdp (step_type s)) ord"

lemma without_fsdp_simps [simp]:
  "without_fsdp [] = []"
  "without_fsdp (None # xs) = None # without_fsdp xs"
  "without_fsdp (Some s # xs) = (if is_fsdp (step_type s) then [] else [Some s]) @ without_fsdp xs"
  "without_fsdp (xs @ ys) = without_fsdp xs @ without_fsdp ys"
  by (simp_all add: without_fsdp_def)

lemma without_fsdp_map:
  "is_fsdp t \<Longrightarrow> without_fsdp (map (fsdp_step t) sis) = []"
  by (induction sis) simp_all

lemma fsdp_run_reshard:
  "distinct sis \<Longrightarrow> set sis \<subseteq> A \<Longrightarrow>
     fsdp_run managed cap A (map (fsdp_step FSDP_RESHARD) sis) = Some (A - set sis)"
proof (induction sis arbitrary: A)
  case (Cons si sis)
  then have "set sis \<subseteq> A - {si}" by auto
  with Cons show ?case by (auto simp: Diff_insert2 [symmetric])
qed simp

lemma fsdp_run_unshard:
  assumes "finite A" and "distinct sis" and "set sis \<inter> A = {}" and "int (card (A \<union> set sis)) \<le> cap"
  shows "fsdp_run managed cap A (map (fsdp_step FSDP_UNSHARD) sis) = Some (A \<union> set sis)"
  using assms
proof (induction sis arbitrary: A)
  case (Cons si sis)
  have "card (insert si A) \<le> card (A \<union> set (si # sis))"
    using Cons.prems(1) by (intro card_mono) auto
  moreover have "insert si A \<union> set sis = A \<union> set (si # sis)" by auto
  ultimately show ?case using Cons by simp
qed simp

subsection \<open>The window\<close>

lemma take_distinct_props:
  assumes "distinct acc" and "int (length acc) < cap"
  shows "distinct (take_distinct cap acc xs) \<and> int (length (take_distinct cap acc xs)) \<le> cap \<and>
    set acc \<subseteq> set (take_distinct cap acc xs) \<and>
    set (take_distinct cap acc xs) \<subseteq> set acc \<union> set xs"
  using assms by (induction cap acc xs rule: take_distinct.induct) auto

lemma take_distinct_prefix:
  assumes "int (card (set acc \<union> set xs)) \<le> cap" and "distinct acc" and "int (length acc) < cap"
  shows "set acc \<union> set xs \<subseteq> set (take_distinct cap acc (xs @ ys))"
  using assms
proof (induction xs arbitrary: acc)
  case Nil
  then show ?case using take_distinct_props [of acc cap ys] by simp
next
  case (Cons x xs)
  show ?case
  proof (cases "x \<in> set acc")
    case True
    then have "set acc \<union> set (x # xs) = set acc \<union> set xs" by auto
    with Cons True show ?thesis by simp
  next
    case False
    have eq: "set (acc @ [x]) \<union> set xs = set acc \<union> set (x # xs)" by auto
    show ?thesis
    proof (cases "int (length (acc @ [x])) = cap")
      case True
      have "card (set (acc @ [x])) = length (acc @ [x])"
        using Cons.prems(2) False by (intro distinct_card) simp
      then have "card (set acc \<union> set (x # xs)) \<le> card (set (acc @ [x]))"
        using Cons.prems(1) True by simp
      moreover have "set (acc @ [x]) \<subseteq> set acc \<union> set (x # xs)" by auto
      ultimately have "set (acc @ [x]) = set acc \<union> set (x # xs)"
        by (intro card_seteq) simp_all
      with False True show ?thesis by simp
    next
      case cap: False
      have "int (length (acc @ [x])) < cap" using Cons.prems(3) cap by simp
      with Cons.IH [of "acc @ [x]"] Cons.prems(1,2) False eq have
        "set (acc @ [x]) \<union> set xs \<subseteq> set (take_distinct cap (acc @ [x]) (xs @ ys))" by simp
      with eq False cap show ?thesis by simp
    qed
  qed
qed

lemma next_active_props:
  assumes "1 \<le> cap"
  shows "distinct (next_active_stage_indices actions cap managed)"
    and "int (length (next_active_stage_indices actions cap managed)) \<le> cap"
  using take_distinct_props [of "[]" cap] assms by (simp_all add: next_active_stage_indices_def)

lemma next_active_head:
  assumes "1 \<le> cap" and "int (card (set (compute_stages managed action))) \<le> cap"
  shows "set (compute_stages managed action) \<subseteq> set (next_active_stage_indices (action # rest) cap managed)"
  using take_distinct_prefix [of "[]" "compute_stages managed action" cap] assms
  by (simp add: next_active_stage_indices_def)

subsection \<open>The annotated order\<close>

lemma fold_remove1_filter:
  "distinct xs \<Longrightarrow> fold remove1 (filter P xs) xs = filter (\<lambda>x. \<not> P x) xs"
proof -
  have gen: "fold remove1 (filter P ys) (zs @ ys) = zs @ filter (\<lambda>x. \<not> P x) ys"
    if "distinct (zs @ ys)" "\<forall>z \<in> set zs. \<not> P z" for ys zs
    using that
  proof (induction ys arbitrary: zs)
    case (Cons y ys)
    show ?case
    proof (cases "P y")
      case True
      with Cons show ?thesis by (simp add: remove1_append)
    next
      case False
      with Cons.IH [of "zs @ [y]"] Cons.prems show ?thesis by simp
    qed
  qed simp
  assume "distinct xs"
  with gen [of "[]" xs] show ?thesis by simp
qed

lemma compute_stages_managed: "set (compute_stages managed a) \<subseteq> managed"
  by (auto simp: compute_stages_def split: if_splits option.splits)

definition no_fsdp :: "order \<Rightarrow> bool" where
  "no_fsdp ord \<longleftrightarrow> (\<forall>s \<in> set (somes ord). \<not> is_fsdp (step_type s))"

lemma fsdp_run_action:
  assumes "x = None \<or> (\<exists>s. x = Some s \<and> \<not> is_fsdp (step_type s))"
    and "set (compute_stages managed x) \<subseteq> A"
  shows "fsdp_run managed cap A (x # xs) = fsdp_run managed cap A xs"
  using assms by (auto simp: is_fsdp_def split: meta_step_type.splits option.splits)

lemma unshard_loop_run:
  assumes "1 \<le> cap" and "distinct active" and "no_fsdp actions"
    and "\<forall>a \<in> set actions. int (card (set (compute_stages managed a))) \<le> cap"
  shows "fsdp_run managed cap (set active) (unshard_loop managed cap active actions) = Some {} \<and>
         without_fsdp (unshard_loop managed cap active actions) = actions"
  using assms(2-4)
proof (induction actions arbitrary: active)
  case Nil
  then show ?case
    using fsdp_run_reshard [of active "set active" managed cap] without_fsdp_map [of FSDP_RESHARD active]
    by (simp add: is_fsdp_def)
next
  case (Cons action rest)
  define upcoming where "upcoming = next_active_stage_indices (action # rest) cap managed"
  define evicted where "evicted = filter (\<lambda>si. si \<notin> set upcoming) active"
  define fetched where "fetched = filter (\<lambda>si. si \<notin> set active) upcoming"
  define active' where "active' = fold remove1 evicted active @ fetched"
  have up: "distinct upcoming" "int (length upcoming) \<le> cap"
    using next_active_props [OF assms(1)] by (simp_all add: upcoming_def)
  have act: "active' = filter (\<lambda>si. si \<in> set upcoming) active @ fetched"
    using fold_remove1_filter [OF Cons.prems(1), of "\<lambda>si. si \<notin> set upcoming"]
    by (simp add: active'_def evicted_def)
  then have dist: "distinct active'" using Cons.prems(1) up by (auto simp: fetched_def)
  have sets: "set active' = set upcoming" by (auto simp: act fetched_def)
  have loop: "unshard_loop managed cap active (action # rest) =
      map (fsdp_step FSDP_RESHARD) evicted @ map (fsdp_step FSDP_UNSHARD) fetched
      @ action # unshard_loop managed cap active' rest"
    by (simp add: Let_def upcoming_def evicted_def fetched_def active'_def)
  have r1: "fsdp_run managed cap (set active) (map (fsdp_step FSDP_RESHARD) evicted) =
      Some (set active - set evicted)"
    by (rule fsdp_run_reshard) (use Cons.prems(1) in \<open>auto simp: evicted_def\<close>)
  have kept: "set active - set evicted = set active \<inter> set upcoming" by (auto simp: evicted_def)
  have union: "(set active \<inter> set upcoming) \<union> set fetched = set upcoming" by (auto simp: fetched_def)
  have r2: "fsdp_run managed cap (set active \<inter> set upcoming) (map (fsdp_step FSDP_UNSHARD) fetched) =
      Some (set upcoming)"
  proof -
    have "int (card ((set active \<inter> set upcoming) \<union> set fetched)) \<le> cap"
      unfolding union using up by (simp add: distinct_card)
    then show ?thesis
      using fsdp_run_unshard [of "set active \<inter> set upcoming" fetched cap managed] up union
      by (auto simp: fetched_def)
  qed
  have plain: "action = None \<or> (\<exists>s. action = Some s \<and> \<not> is_fsdp (step_type s))"
    using Cons.prems(2) by (cases action) (auto simp: no_fsdp_def)
  have "set (compute_stages managed action) \<subseteq> set upcoming"
    unfolding upcoming_def using next_active_head [OF assms(1)] Cons.prems(3) by simp
  then have r3: "fsdp_run managed cap (set upcoming) (action # unshard_loop managed cap active' rest) =
      fsdp_run managed cap (set upcoming) (unshard_loop managed cap active' rest)"
    by (rule fsdp_run_action [OF plain])
  have "no_fsdp rest" using Cons.prems(2) by (cases action) (auto simp: no_fsdp_def)
  then have IH: "fsdp_run managed cap (set active') (unshard_loop managed cap active' rest) = Some {}"
    "without_fsdp (unshard_loop managed cap active' rest) = rest"
    using Cons.IH [OF dist] Cons.prems(3) by simp_all
  have "without_fsdp (unshard_loop managed cap active (action # rest)) = action # rest"
    using plain IH(2) unfolding loop
    by (auto simp: without_fsdp_map is_fsdp_def)
  moreover have "fsdp_run managed cap (set active) (unshard_loop managed cap active (action # rest)) = Some {}"
    unfolding loop fsdp_run_append r1 option.case kept r2 r3 using IH(1) by (simp add: sets)
  ultimately show ?case by blast
qed

section \<open>Properties of the FSDP steps\<close>

text \<open>
  C14: in the order \<open>add_fsdp_unshard_reshard\<close> produces, a managed stage computes only while it is
  unsharded, a stage is unsharded only when it is sharded and the other way round, at most
  \<open>max_active_stages\<close> stages are unsharded at a time and none at the end; without the control steps
  the order is the one that went in. The window has to hold the stages of one action (two for an
  overlap pair).
\<close>

theorem unshard_reshard_safe:
  assumes "1 \<le> cap" and "no_fsdp actions" and "managed \<noteq> {}"
    and "\<forall>a \<in> set actions. int (card (set (compute_stages managed a))) \<le> cap"
  shows "fsdp_run managed cap {} (add_fsdp_unshard_reshard actions managed cap) = Some {} \<and>
         without_fsdp (add_fsdp_unshard_reshard actions managed cap) = actions"
  using unshard_loop_run [OF assms(1), of "[]" actions managed] assms(2-4)
  by (simp add: add_fsdp_unshard_reshard_def)

theorem unshard_reshard_safe_witness:
  "fsdp_run {0, 2} 1 {} (add_fsdp_unshard_reshard
     [Some (mstep 0 FWD 0), None, Some (mstep 0 FWD 2), Some (mstep 0 BWD 2), Some (mstep 0 BWD 0)]
     {0, 2} 1) = Some {}"
  by (rule conjunct1 [OF unshard_reshard_safe])
    code_simp+

text \<open>
  The hypothesis on the window is needed: one stage is too small for an overlap pair of two managed
  stages.
\<close>

lemma unshard_window_too_small:
  "fsdp_run {0, 1} 1 {} (add_fsdp_unshard_reshard
     [Some (MetaStep None OVERLAP_B_F None (Some [mstep 0 BWD 1, mstep 1 FWD 0]) None)] {0, 1} 1) = None"
  by (simp add: add_fsdp_unshard_reshard_def next_active_stage_indices_def compute_stages_def
      is_compute_def is_overlap_def)

lemma reduced_stages_spec:
  "set (reduced_stages managed M acc leaves) =
     set acc \<union> {si. si \<in> managed \<and>
       (\<exists>l \<in> set leaves. stage_index l = Some si \<and> (step_type l = BWD \<or> step_type l = BWD_WEIGHT) \<and>
          micro_index l = Some (M - 1))} \<and>
   (distinct acc \<longrightarrow> distinct (reduced_stages managed M acc leaves))"
  by (induction managed M acc leaves rule: reduced_stages.induct) (auto split: option.splits)

definition reduces_of :: "int \<Rightarrow> order \<Rightarrow> nat" where
  "reduces_of si ord = length (filter (\<lambda>x. x = fsdp_step FSDP_REDUCE_GRAD si) ord)"

text \<open>The last micro-batch's gradient of a stage is computed in an action.\<close>

definition last_grad :: "int \<Rightarrow> int \<Rightarrow> meta_step option \<Rightarrow> bool" where
  "last_grad M si action \<longleftrightarrow>
     (\<exists>l \<in> set (iter_leaf_meta_steps action). stage_index l = Some si \<and>
        (step_type l = BWD \<or> step_type l = BWD_WEIGHT) \<and> micro_index l = Some (M - 1))"

lemma filter_eq_distinct: "distinct xs \<Longrightarrow> length (filter (\<lambda>x. x = y) xs) = (if y \<in> set xs then 1 else 0)"
  by (induction xs) auto

lemma reduces_of_simps [simp]:
  "reduces_of si [] = 0"
  "reduces_of si (xs @ ys) = reduces_of si xs + reduces_of si ys"
  by (simp_all add: reduces_of_def)

lemma reduces_of_action:
  assumes "si \<in> managed" and "\<forall>s. action = Some s \<longrightarrow> \<not> is_fsdp (step_type s)"
  shows "reduces_of si (action # map (fsdp_step FSDP_REDUCE_GRAD)
           (reduced_stages managed M [] (iter_leaf_meta_steps action))) = (if last_grad M si action then 1 else 0)"
proof -
  let ?rs = "reduced_stages managed M [] (iter_leaf_meta_steps action)"
  have spec: "distinct ?rs" "si \<in> set ?rs \<longleftrightarrow> last_grad M si action"
    using reduced_stages_spec [of managed M "[]" "iter_leaf_meta_steps action"] assms(1)
    by (auto simp: last_grad_def)
  have "action \<noteq> fsdp_step FSDP_REDUCE_GRAD si" using assms(2) by (auto simp: is_fsdp_def)
  moreover have "length (filter (\<lambda>x. x = fsdp_step FSDP_REDUCE_GRAD si) (map (fsdp_step FSDP_REDUCE_GRAD) ?rs)) =
      length (filter (\<lambda>x. x = si) ?rs)" by (simp add: filter_map o_def)
  ultimately show ?thesis using filter_eq_distinct [OF spec(1), of si] spec(2) by (simp add: reduces_of_def)
qed

text \<open>
  \<open>add_fsdp_reduce_grad\<close> inserts one \<open>FSDP_REDUCE_GRAD\<close> of a managed stage for every action that
  computes the stage's gradient of the last micro-batch, right behind that action, and nothing else:
  when the order has one such action, every step up to and including it is in front of the only
  reduction of the stage.
\<close>

theorem reduce_grad_placement:
  assumes "no_fsdp actions" and "si \<in> managed"
  shows "reduces_of si (add_fsdp_reduce_grad actions managed M) = length (filter (last_grad M si) actions) \<and>
    without_fsdp (add_fsdp_reduce_grad actions managed M) = actions \<and>
    (actions = before @ action # after \<and> last_grad M si action \<and>
       (\<forall>a \<in> set before \<union> set after. \<not> last_grad M si a) \<longrightarrow>
     (\<exists>us vs. add_fsdp_reduce_grad actions managed M =
        us @ action # map (fsdp_step FSDP_REDUCE_GRAD)
               (reduced_stages managed M [] (iter_leaf_meta_steps action)) @ vs \<and>
        without_fsdp us = before \<and> reduces_of si us = 0 \<and> reduces_of si vs = 0))"
proof -
  let ?f = "\<lambda>action. action # map (fsdp_step FSDP_REDUCE_GRAD)
      (reduced_stages managed M [] (iter_leaf_meta_steps action))"
  have out: "add_fsdp_reduce_grad as managed M = concat (map ?f as)" for as
    using assms(2) by (auto simp: add_fsdp_reduce_grad_def)
  have props: "reduces_of si (concat (map ?f as)) = length (filter (last_grad M si) as) \<and>
      without_fsdp (concat (map ?f as)) = as" if "no_fsdp as" for as
    using that
  proof (induction as)
    case (Cons a as)
    then have a: "\<forall>s. a = Some s \<longrightarrow> \<not> is_fsdp (step_type s)" and as: "no_fsdp as"
      by (cases a; auto simp: no_fsdp_def)+
    have "without_fsdp (?f a) = [a]"
      using a without_fsdp_map [of FSDP_REDUCE_GRAD] by (cases a) (simp_all add: is_fsdp_def)
    with Cons.IH [OF as] reduces_of_action [OF assms(2) a, of M] show ?case
      by (simp only: concat.simps list.map reduces_of_simps without_fsdp_simps(4)) simp
  qed simp
  have "\<exists>us vs. add_fsdp_reduce_grad actions managed M = us @ ?f action @ vs \<and>
      without_fsdp us = before \<and> reduces_of si us = 0 \<and> reduces_of si vs = 0"
    if split: "actions = before @ action # after" and "last_grad M si action"
      and none: "\<forall>a \<in> set before \<union> set after. \<not> last_grad M si a"
  proof -
    have "no_fsdp before" "no_fsdp after"
      using assms(1) split by (auto simp: no_fsdp_def split: option.splits)
    from props [OF this(1)] props [OF this(2)] none
    show ?thesis
      by (intro exI [of _ "concat (map ?f before)"] exI [of _ "concat (map ?f after)"])
        (simp add: out split filter_empty_conv)
  qed
  with props [OF assms(1)] show ?thesis by (simp add: out)
qed

theorem reduce_grad_placement_witness:
  "reduces_of 1 (add_fsdp_reduce_grad [Some (mstep 0 BWD 1), Some (mstep 1 BWD 1), Some (mstep 1 BWD_SEND 1)]
     {1} 2) = length (filter (last_grad 2 1)
       [Some (mstep 0 BWD 1), Some (mstep 1 BWD 1), Some (mstep 1 BWD_SEND 1)])"
  by (rule conjunct1 [OF reduce_grad_placement]) (simp_all add: no_fsdp_def is_fsdp_def)

end
