(* ===== verification/Schedule_Validation.thy ===== *)
theory Schedule_Validation
  imports Meta_Step
begin

text \<open>
  The offline checks of an execution order (core/pipeline_parallel/scheduler.py):
  \<open>detect_cycle_in_graph\<close>, \<open>generate_operations\<close>, \<open>parse_and_validate\<close> and
  \<open>validate_pipeline_execution\<close>.

  The cycle search is the program's iterative depth-first search: a stack of nodes with a processed
  mark (its top is the head of the list), the visited set, the current path and the position of
  every node of the path. The search returns for every input; it reports a cycle exactly when the
  graph has one.

  The formatted operation \<open>Send_Receive_(s)->(d)_microm_nth\<close> is kept as its four fields, and the
  messages the checks log are values.
\<close>

section \<open>The graph of a rank map\<close>

type_synonym 'n graph = "('n, 'n list) dict"

definition add_edges ::
    "'r \<Rightarrow> 'n list \<Rightarrow> 'n graph \<times> ('n \<times> 'n, 'r) dict \<Rightarrow> 'n graph \<times> ('n \<times> 'n, 'r) dict" where
  "add_edges rank nodes st =
     fold (\<lambda>(u, v) (graph, rank_edges). (ddict_append graph u v, dict_set rank_edges (u, v) rank))
       (zip nodes (tl nodes)) st"

definition build_graph :: "('r, 'n list) dict \<Rightarrow> 'n graph \<times> ('n \<times> 'n, 'r) dict" where
  "build_graph ranks_map = fold (\<lambda>(rank, nodes). add_edges rank nodes) ranks_map ([], [])"

section \<open>The search\<close>

datatype ('r, 'n) search_end =
    CycleFound "'n list" "('r \<times> 'n \<times> 'n) list"
  | Exhausted "'n list" "'n list" "('n, nat) dict"

text \<open>The entries \<open>rank u -> v\<close> along the cycle.\<close>

definition cycle_entries ::
    "('n \<times> 'n, 'r) dict \<Rightarrow> 'n list \<Rightarrow> ('r \<times> 'n \<times> 'n) list result" where
  "cycle_entries rank_edges cycle =
     map_res (\<lambda>(u, v). bind_res (dict_get rank_edges (u, v)) (\<lambda>rank. Inr (rank, u, v)))
       (zip cycle (tl cycle))"

definition graph_nodes :: "'n graph \<Rightarrow> 'n set" where
  "graph_nodes graph = (\<Union>(u, vs) \<in> set graph. insert u (set vs))"

lemma finite_graph_nodes [simp]: "finite (graph_nodes graph)"
  by (auto simp: graph_nodes_def)

lemma dict_list_nodes: "set (dict_list graph u) \<subseteq> graph_nodes graph"
proof
  fix v assume v: "v \<in> set (dict_list graph u)"
  then obtain vs where "map_of graph u = Some vs" "v \<in> set vs"
    by (cases "map_of graph u") (auto simp: dict_list_def)
  then show "v \<in> graph_nodes graph" unfolding graph_nodes_def by (force dest: map_of_SomeD)
qed

function search_loop ::
    "'n graph \<Rightarrow> ('n \<times> 'n, 'r) dict \<Rightarrow> 'n list \<Rightarrow> 'n list \<Rightarrow> ('n, nat) dict \<Rightarrow> ('n \<times> bool) list \<Rightarrow>
     ('r, 'n) search_end result" where
  "search_loop graph rank_edges visited path indices [] = Inr (Exhausted visited path indices)"
| "search_loop graph rank_edges visited path indices ((current, True) # stack) =
     (if path = [] then Inl IndexError
      else if map_of indices current = None then Inl KeyError
      else search_loop graph rank_edges visited (butlast path) (dict_del indices current) stack)"
| "search_loop graph rank_edges visited path indices ((current, False) # stack) =
     (case map_of indices current of
        Some start \<Rightarrow>
          (let cycle = drop start path @ [current] in
           bind_res (cycle_entries rank_edges cycle) (\<lambda>ranks. Inr (CycleFound cycle ranks)))
      | None \<Rightarrow>
          if current \<in> set visited then search_loop graph rank_edges visited path indices stack
          else search_loop graph rank_edges (visited @ [current]) (path @ [current])
                 (dict_set indices current (length path))
                 (map (\<lambda>n. (n, False)) (dict_list graph current) @ (current, True) # stack))"
  by pat_completeness auto
termination
proof (relation "measures [\<lambda>(graph, rank_edges, visited, path, indices, stack).
      card ((graph_nodes graph \<union> fst ` set stack) - set visited),
    \<lambda>(graph, rank_edges, visited, path, indices, stack). length stack]")
  show "((graph, rank_edges, visited, butlast path, dict_del indices current, stack),
      graph, rank_edges, visited, path, indices, (current, True) # stack)
    \<in> measures [\<lambda>(graph, rank_edges, visited, path, indices, stack).
      card ((graph_nodes graph \<union> fst ` set stack) - set visited),
    \<lambda>(graph, rank_edges, visited, path, indices, stack). length stack]"
    for graph :: "'n graph" and rank_edges :: "('n \<times> 'n, 'r) dict" and visited path indices current stack
    by (auto simp: le_less [symmetric] intro!: card_mono)
next
  show "((graph, rank_edges, visited, path, indices, stack),
      graph, rank_edges, visited, path, indices, (current, False) # stack)
    \<in> measures [\<lambda>(graph, rank_edges, visited, path, indices, stack).
      card ((graph_nodes graph \<union> fst ` set stack) - set visited),
    \<lambda>(graph, rank_edges, visited, path, indices, stack). length stack]"
    for graph :: "'n graph" and rank_edges :: "('n \<times> 'n, 'r) dict" and visited path indices current stack
    by (auto simp: le_less [symmetric] intro!: card_mono)
next
  fix graph :: "'n graph" and rank_edges :: "('n \<times> 'n, 'r) dict"
    and visited path :: "'n list" and indices and current :: 'n and stack
  assume new: "current \<notin> set visited"
  let ?new = "(graph_nodes graph \<union> fst ` set (map (\<lambda>n. (n, False)) (dict_list graph current)
      @ (current, True) # stack)) - set (visited @ [current])"
  let ?old = "(graph_nodes graph \<union> fst ` set ((current, False) # stack)) - set visited"
  have "?new \<subseteq> ?old - {current}" using dict_list_nodes [of graph current] by auto
  then have "card ?new \<le> card (?old - {current})" by (intro card_mono) simp_all
  also have "\<dots> < card ?old" using new by (intro card_Diff1_less) simp_all
  finally show "((graph, rank_edges, visited @ [current], path @ [current],
      dict_set indices current (length path),
      map (\<lambda>n. (n, False)) (dict_list graph current) @ (current, True) # stack),
      graph, rank_edges, visited, path, indices, (current, False) # stack)
    \<in> measures [\<lambda>(graph, rank_edges, visited, path, indices, stack).
      card ((graph_nodes graph \<union> fst ` set stack) - set visited),
    \<lambda>(graph, rank_edges, visited, path, indices, stack). length stack]" by simp
qed simp

text \<open>The outer loop over the nodes with a successor.\<close>

fun search_roots ::
    "'n graph \<Rightarrow> ('n \<times> 'n, 'r) dict \<Rightarrow> 'n list \<Rightarrow> 'n list \<Rightarrow> ('n, nat) dict \<Rightarrow> 'n list \<Rightarrow>
     ('n list \<times> ('r \<times> 'n \<times> 'n) list) option result" where
  "search_roots graph rank_edges visited path indices [] = Inr None"
| "search_roots graph rank_edges visited path indices (node # nodes) =
     (if node \<in> set visited then search_roots graph rank_edges visited path indices nodes
      else bind_res (search_loop graph rank_edges visited path indices [(node, False)]) (\<lambda>found.
        case found of
          CycleFound cycle ranks \<Rightarrow> Inr (Some (cycle, ranks))
        | Exhausted visited' path' indices' \<Rightarrow>
            search_roots graph rank_edges visited' path' indices' nodes))"

definition detect_cycle_in_graph ::
    "('r, 'n list) dict \<Rightarrow> ('n list \<times> ('r \<times> 'n \<times> 'n) list) option result" where
  "detect_cycle_in_graph ranks_map =
     (let (graph, rank_edges) = build_graph ranks_map
      in search_roots graph rank_edges [] [] [] (map fst graph))"

section \<open>The formatted operations\<close>

record comm_op =
  op_src :: int
  op_dst :: int
  op_micro :: "int option"
  op_nth :: int

definition forward_comm :: "int \<Rightarrow> (int, int) dict" where
  "forward_comm total_stages = map (\<lambda>i. (i, i + 1)) (filter (\<lambda>i. i + 1 < total_stages) (py_range 0 total_stages))"

definition backward_comm :: "int \<Rightarrow> (int, int) dict" where
  "backward_comm total_stages = map (\<lambda>i. (i, i - 1)) (filter (\<lambda>i. 0 \<le> i - 1) (py_range 0 total_stages))"

definition find_send_target :: "int \<Rightarrow> int option \<Rightarrow> meta_step_type \<Rightarrow> int option" where
  "find_send_target total_stages stage t =
     (case stage of
        None \<Rightarrow> None
      | Some si \<Rightarrow> map_of (if t = FWD_SEND then forward_comm total_stages else backward_comm total_stages) si)"

definition find_recv_source :: "int \<Rightarrow> int option \<Rightarrow> meta_step_type \<Rightarrow> int option" where
  "find_recv_source total_stages stage t =
     map_option fst
       (List.find (\<lambda>(src, dst). Some dst = stage)
          (if t = FWD_RECV then forward_comm total_stages else backward_comm total_stages))"

text \<open>One step of the loop over the steps of a rank; a bubble has no type (AttributeError).\<close>

definition count_op ::
    "int \<Rightarrow> int \<Rightarrow> int option \<Rightarrow> (int \<times> int \<times> int option \<Rightarrow> int) \<times> comm_op list \<Rightarrow>
     (int \<times> int \<times> int option \<Rightarrow> int) \<times> comm_op list" where
  "count_op src dst micro st =
     (let (counter, ops) = st; n = counter (src, dst, micro) + 1 in
      (counter((src, dst, micro) := n),
       ops @ [\<lparr>op_src = src, op_dst = dst, op_micro = micro, op_nth = n\<rparr>]))"

definition format_step ::
    "int \<Rightarrow> int \<Rightarrow> string \<Rightarrow> int \<Rightarrow> meta_step option \<Rightarrow>
     (int \<times> int \<times> int option \<Rightarrow> int) \<times> comm_op list \<Rightarrow>
     ((int \<times> int \<times> int option \<Rightarrow> int) \<times> comm_op list) result" where
  "format_step total_stages real_stage com_type rank step st =
     (case step of
        None \<Rightarrow> Inl AttributeError
      | Some s \<Rightarrow>
          if step_type s = FWD_SEND \<or> step_type s = BWD_SEND then
            (case find_send_target total_stages (stage_index s) (step_type s) of
               None \<Rightarrow> Inr st
             | Some target \<Rightarrow> bind_res (stage_to_rank real_stage total_stages com_type target) (\<lambda>dst.
                 Inr (count_op rank dst (micro_index s) st)))
          else if step_type s = FWD_RECV \<or> step_type s = BWD_RECV then
            (case find_recv_source total_stages (stage_index s) (step_type s) of
               None \<Rightarrow> Inr st
             | Some source \<Rightarrow> bind_res (stage_to_rank real_stage total_stages com_type source) (\<lambda>src.
                 Inr (count_op src rank (micro_index s) st)))
          else Inr st)"

text \<open>Only a rank with an operation gets a key.\<close>

definition generate_operations ::
    "exec_order \<Rightarrow> int \<Rightarrow> string \<Rightarrow> (int, comm_op list) dict result" where
  "generate_operations order_list chunk_num com_type =
     (let real_stage = int (length order_list); total_stages = real_stage * chunk_num in
      for_res (\<lambda>(rank, steps) out.
        bind_res (for_res (format_step total_stages real_stage com_type rank) steps (\<lambda>_. 0, []))
          (\<lambda>(counter, ops). Inr (if ops = [] then out else dict_set out rank ops)))
        order_list [])"

section \<open>The pairing check\<close>

text \<open>The logged complaints. A negative rank is not matched by the digits of the pattern.\<close>

datatype complaint =
    MissingKeys comm_op "int list"
  | MissingValue int comm_op

definition parse_elements :: "comm_op \<Rightarrow> int list" where
  "parse_elements op = remdups (filter (\<lambda>r. 0 \<le> r) [op_src op, op_dst op])"

definition parse_and_validate :: "(int, comm_op list) dict \<Rightarrow> complaint list" where
  "parse_and_validate data =
     concat (map (\<lambda>(key, values). concat (map (\<lambda>value.
       let missing = filter (\<lambda>e. map_of data e = None) (parse_elements value) in
       if missing \<noteq> [] then [MissingKeys value missing]
       else concat (map (\<lambda>e. if value \<in> set (dict_list data e) then [] else [MissingValue e value])
              (parse_elements value))) values)) data)"

definition validate_pipeline_execution ::
    "exec_order \<Rightarrow> int \<Rightarrow> string \<Rightarrow>
     ((int, comm_op list) dict \<times> complaint list \<times>
      (comm_op list \<times> (int \<times> comm_op \<times> comm_op) list) option) result" where
  "validate_pipeline_execution order_list chunk_num com_type =
     bind_res (generate_operations order_list chunk_num com_type) (\<lambda>ops.
     bind_res (detect_cycle_in_graph ops) (\<lambda>cycle.
       Inr (ops, parse_and_validate ops, cycle)))"

section \<open>The edges\<close>

text \<open>Two nodes follow each other directly in the list of a rank.\<close>

definition follows :: "('r, 'n list) dict \<Rightarrow> 'r \<Rightarrow> 'n \<Rightarrow> 'n \<Rightarrow> bool" where
  "follows ranks_map rank u v \<longleftrightarrow> (\<exists>nodes. (rank, nodes) \<in> set ranks_map \<and> (u, v) \<in> set (zip nodes (tl nodes)))"

definition edges :: "('r, 'n list) dict \<Rightarrow> ('n \<times> 'n) set" where
  "edges ranks_map = {(u, v). \<exists>rank. follows ranks_map rank u v}"

text \<open>What the two dictionaries hold after some edges.\<close>

definition graph_ok :: "('n \<Rightarrow> 'n \<Rightarrow> bool) \<Rightarrow> ('r \<Rightarrow> 'n \<Rightarrow> 'n \<Rightarrow> bool) \<Rightarrow>
    'n graph \<times> ('n \<times> 'n, 'r) dict \<Rightarrow> bool" where
  "graph_ok E P st \<longleftrightarrow>
     (\<forall>u v. v \<in> set (dict_list (fst st) u) \<longleftrightarrow> E u v) \<and>
     (\<forall>u. dict_list (fst st) u \<noteq> [] \<longrightarrow> u \<in> set (map fst (fst st))) \<and>
     (\<forall>u v. E u v \<longrightarrow> (\<exists>rank. map_of (snd st) (u, v) = Some rank \<and> P rank u v))"

lemma add_edges_ok:
  assumes "graph_ok E P st" and "\<And>rank' u v. P rank' u v \<Longrightarrow> P' rank' u v"
    and "\<And>u v. (u, v) \<in> set es \<Longrightarrow> P' rank u v"
  shows "graph_ok (\<lambda>u v. E u v \<or> (u, v) \<in> set es) P'
     (fold (\<lambda>(u, v) (graph, rank_edges). (ddict_append graph u v, dict_set rank_edges (u, v) rank)) es st)"
  using assms
proof (induction es arbitrary: st E P)
  case Nil
  then show ?case by (auto simp: graph_ok_def) blast
next
  case (Cons e es)
  obtain u v where e: "e = (u, v)" by (cases e)
  obtain graph rank_edges where st: "st = (graph, rank_edges)" by (cases st)
  have keys: "set (map fst (ddict_append graph u v)) = insert u (set (map fst graph))"
    unfolding ddict_append_def keys_dict_set by auto
  from Cons.prems(1) have
    succ: "\<And>x y. y \<in> set (dict_list graph x) \<longleftrightarrow> E x y" and
    dom: "\<And>x. dict_list graph x \<noteq> [] \<Longrightarrow> x \<in> set (map fst graph)" and
    lab: "\<And>x y. E x y \<Longrightarrow> \<exists>r. map_of rank_edges (x, y) = Some r \<and> P r x y"
    by (auto simp: graph_ok_def st)
  have uv: "P' rank u v" using Cons.prems(3) [of u v] by (simp add: e)
  have "graph_ok (\<lambda>x y. E x y \<or> (x = u \<and> y = v)) P'
      (ddict_append graph u v, dict_set rank_edges (u, v) rank)"
    unfolding graph_ok_def fst_conv snd_conv keys
  proof (intro conjI allI impI)
    show "y \<in> set (dict_list (ddict_append graph u v) x) \<longleftrightarrow> E x y \<or> x = u \<and> y = v" for x y
      using succ [of y x] by auto
    show "x \<in> insert u (set (map fst graph))" if "dict_list (ddict_append graph u v) x \<noteq> []" for x
      using that dom [of x] by (auto split: if_splits)
    show "\<exists>r. map_of (dict_set rank_edges (u, v) rank) (x, y) = Some r \<and> P' r x y"
      if "E x y \<or> x = u \<and> y = v" for x y
      using that lab [of x y] uv Cons.prems(2) by auto
  qed
  moreover have "(\<lambda>x y. (E x y \<or> (x = u \<and> y = v)) \<or> (x, y) \<in> set es) =
      (\<lambda>x y. E x y \<or> (x, y) \<in> set (e # es))" by (auto simp: e fun_eq_iff)
  ultimately show ?case
    using Cons.IH [of "\<lambda>x y. E x y \<or> (x = u \<and> y = v)" P'
        "(ddict_append graph u v, dict_set rank_edges (u, v) rank)"] Cons.prems(3) by (simp add: e st)
qed

lemma build_graph_ok:
  "graph_ok (\<lambda>u v. (u, v) \<in> edges ranks_map) (follows ranks_map) (build_graph ranks_map)"
proof -
  have gen: "graph_ok (\<lambda>u v. E u v \<or> (u, v) \<in> edges rm) (\<lambda>r u v. P r u v \<or> follows rm r u v)
      (fold (\<lambda>(rank, nodes). add_edges rank nodes) rm st)"
    if "graph_ok E P st" for rm st E P
    using that
  proof (induction rm arbitrary: st E P)
    case Nil
    then show ?case by (simp add: graph_ok_def edges_def follows_def)
  next
    case (Cons x rm)
    obtain rank nodes where x: "x = (rank, nodes)" by (cases x)
    have "graph_ok (\<lambda>u v. E u v \<or> (u, v) \<in> set (zip nodes (tl nodes)))
        (\<lambda>r u v. P r u v \<or> r = rank \<and> (u, v) \<in> set (zip nodes (tl nodes))) (add_edges rank nodes st)"
      unfolding add_edges_def by (rule add_edges_ok [OF Cons.prems]) auto
    from Cons.IH [OF this]
    have "graph_ok (\<lambda>u v. (E u v \<or> (u, v) \<in> set (zip nodes (tl nodes))) \<or> (u, v) \<in> edges rm)
        (\<lambda>r u v. (P r u v \<or> r = rank \<and> (u, v) \<in> set (zip nodes (tl nodes))) \<or> follows rm r u v)
        (fold (\<lambda>(rank, nodes). add_edges rank nodes) (x # rm) st)" by (simp add: x)
    moreover have "(u, v) \<in> edges (x # rm) \<longleftrightarrow> (u, v) \<in> set (zip nodes (tl nodes)) \<or> (u, v) \<in> edges rm" for u v
      by (auto simp: edges_def follows_def x)
    moreover have "follows (x # rm) r u v \<longleftrightarrow>
        r = rank \<and> (u, v) \<in> set (zip nodes (tl nodes)) \<or> follows rm r u v" for r u v
      by (auto simp: follows_def x)
    ultimately show ?case by (simp add: disj_assoc)
  qed
  have "graph_ok (\<lambda>u v. False) (\<lambda>r u v. False) ([], [])"
    by (simp add: graph_ok_def dict_list_def)
  from gen [OF this, of ranks_map] show ?thesis by (simp add: build_graph_def)
qed

section \<open>Correctness of the search\<close>

text \<open>
  The stack in terms of frames, the top first: a node of the path with its successors still to try.
\<close>

fun stack_of :: "('n \<times> 'n list) list \<Rightarrow> ('n \<times> bool) list" where
  "stack_of [] = []"
| "stack_of ((p, rem) # fs) = map (\<lambda>n. (n, False)) rem @ (p, True) # stack_of fs"

text \<open>Finished nodes, the latest first: their successors were finished before.\<close>

fun topo :: "'n graph \<Rightarrow> 'n list \<Rightarrow> bool" where
  "topo graph [] = True"
| "topo graph (u # fin) = (set (dict_list graph u) \<subseteq> set fin \<and> u \<notin> set fin \<and> topo graph fin)"

text \<open>A successor of a node of the path is still to try, finished, or the next node of the path.\<close>

fun framed :: "'n graph \<Rightarrow> 'n list \<Rightarrow> 'n set \<Rightarrow> ('n \<times> 'n list) list \<Rightarrow> bool" where
  "framed graph fin C [] = True"
| "framed graph fin C ((p, rem) # fs) =
     (set rem \<subseteq> set (dict_list graph p) \<and> C \<subseteq> set (dict_list graph p) \<and>
      set (dict_list graph p) \<subseteq> set rem \<union> set fin \<union> C \<and> framed graph fin {p} fs)"

definition positions :: "('n, nat) dict \<Rightarrow> 'n list \<Rightarrow> bool" where
  "positions indices path \<longleftrightarrow> (\<forall>n i. map_of indices n = Some i \<longleftrightarrow> i < length path \<and> path ! i = n)"

definition search_inv ::
    "'n graph \<Rightarrow> 'n list \<Rightarrow> 'n list \<Rightarrow> ('n, nat) dict \<Rightarrow> ('n \<times> 'n list) list \<Rightarrow> 'n list \<Rightarrow> bool" where
  "search_inv graph visited path indices frames fin \<longleftrightarrow>
     path = rev (map fst frames) \<and> distinct path \<and> positions indices path \<and>
     set visited = set path \<union> set fin \<and> set path \<inter> set fin = {} \<and>
     topo graph fin \<and> framed graph fin {} frames"

definition closed_walk :: "('n \<Rightarrow> 'n \<Rightarrow> bool) \<Rightarrow> 'n list \<Rightarrow> bool" where
  "closed_walk E cycle \<longleftrightarrow>
     2 \<le> length cycle \<and> hd cycle = last cycle \<and> (\<forall>(u, v) \<in> set (zip cycle (tl cycle)). E u v)"

definition good_cycle :: "('r \<Rightarrow> 'n \<Rightarrow> 'n \<Rightarrow> bool) \<Rightarrow> 'n list \<Rightarrow> ('r \<times> 'n \<times> 'n) list \<Rightarrow> bool" where
  "good_cycle P cycle entries \<longleftrightarrow>
     2 \<le> length cycle \<and> hd cycle = last cycle \<and> map snd entries = zip cycle (tl cycle) \<and>
     (\<forall>(rank, u, v) \<in> set entries. P rank u v)"

lemma framed_mono: "framed graph fin C fs \<Longrightarrow> set fin \<subseteq> set fin' \<Longrightarrow> framed graph fin' C fs"
proof (induction fs arbitrary: C)
  case (Cons f fs)
  obtain p rem where f: "f = (p, rem)" by (cases f)
  have "framed graph fin' {p} fs" using Cons.prems by (intro Cons.IH) (simp_all add: f)
  moreover have "set (dict_list graph p) \<subseteq> set rem \<union> set fin' \<union> C"
    using Cons.prems unfolding f framed.simps by blast
  ultimately show ?case using Cons.prems(1) unfolding f framed.simps by blast
qed simp

lemma framed_pop:
  assumes "framed graph fin {p} fs"
  shows "framed graph (p # fin) {} fs"
proof (cases fs)
  case (Cons f fs')
  obtain a b where f: "f = (a, b)" by (cases f)
  have "framed graph (p # fin) {a} fs'"
    by (rule framed_mono [of graph fin]) (use assms in \<open>simp_all add: Cons f subset_insertI\<close>)
  with assms show ?thesis unfolding Cons f framed.simps by auto
qed simp

lemma framed_chain:
  "framed graph fin C frames \<Longrightarrow> successively (\<lambda>c p. c \<in> set (dict_list graph p)) (map fst frames)"
proof (induction graph fin C frames rule: framed.induct)
  case (2 graph fin C p rem fs)
  then show ?case by (cases fs) auto
qed simp

lemma successively_zip:
  "successively P xs \<longleftrightarrow> (\<forall>(u, v) \<in> set (zip xs (tl xs)). P u v)"
  by (induction xs rule: induct_list012) auto

lemma successively_drop: "successively P xs \<Longrightarrow> successively P (drop i xs)"
  by (metis append_take_drop_id successively_append_iff)

lemma cycle_entries_ok:
  assumes "\<forall>(u, v) \<in> set (zip cycle (tl cycle)). \<exists>rank. map_of rank_edges (u, v) = Some rank \<and> P rank u v"
  shows "\<exists>entries. cycle_entries rank_edges cycle = Inr entries \<and>
    map snd entries = zip cycle (tl cycle) \<and> (\<forall>(rank, u, v) \<in> set entries. P rank u v)"
proof -
  have "\<exists>entries. map_res (\<lambda>(u, v). bind_res (dict_get rank_edges (u, v)) (\<lambda>rank. Inr (rank, u, v))) es = Inr entries \<and>
      map snd entries = es \<and> (\<forall>(rank, u, v) \<in> set entries. P rank u v)"
    if "\<forall>(u, v) \<in> set es. \<exists>rank. map_of rank_edges (u, v) = Some rank \<and> P rank u v" for es
    using that
  proof (induction es)
    case (Cons e es)
    obtain u v where e: "e = (u, v)" by (cases e)
    from Cons.prems e obtain rank where "map_of rank_edges (u, v) = Some rank" "P rank u v" by auto
    with Cons e show ?case by (auto simp: dict_get_def)
  qed simp
  with assms show ?thesis unfolding cycle_entries_def by blast
qed

lemma positions_push:
  assumes "positions indices path" and "n \<notin> set path"
  shows "positions (dict_set indices n (length path)) (path @ [n])"
  using assms by (auto simp: positions_def nth_append in_set_conv_nth less_Suc_eq)

lemma positions_pop:
  assumes "positions indices (path @ [n])" and "distinct (path @ [n])"
  shows "positions (dict_del indices n) path"
  using assms by (auto simp: positions_def nth_append in_set_conv_nth less_Suc_eq split: if_splits)

lemma positions_mem:
  assumes "positions indices path"
  shows "map_of indices n = None \<longleftrightarrow> n \<notin> set path"
proof -
  have "map_of indices n \<noteq> None \<longleftrightarrow> (\<exists>i. map_of indices n = Some i)" by auto
  also have "\<dots> \<longleftrightarrow> n \<in> set path" using assms by (simp add: positions_def in_set_conv_nth)
  finally show ?thesis by blast
qed

text \<open>The four kinds of a step.\<close>

lemma inv_split:
  assumes "search_inv graph visited path indices ((p, rem) # fs) fin"
  shows "path = rev (map fst fs) @ [p]" and "distinct path" and "positions indices path"
    and "set visited = set path \<union> set fin" and "set path \<inter> set fin = {}" and "topo graph fin"
    and "framed graph fin {} ((p, rem) # fs)"
proof -
  note inv = assms [unfolded search_inv_def]
  have "path = rev (map fst ((p, rem) # fs))" using inv by (rule conjunct1)
  then show "path = rev (map fst fs) @ [p]" by simp
  show "distinct path" "positions indices path" "set visited = set path \<union> set fin"
    "set path \<inter> set fin = {}" "topo graph fin" "framed graph fin {} ((p, rem) # fs)"
    using inv by blast+
qed

lemma inv_pop:
  assumes "search_inv graph visited path indices ((p, []) # fs) fin"
  shows "search_inv graph visited (butlast path) (dict_del indices p) fs (p # fin)"
    and "map_of indices p \<noteq> None" and "path \<noteq> []"
proof -
  note inv = inv_split [OF assms]
  have pos: "positions (dict_del indices p) (rev (map fst fs))"
    by (rule positions_pop) (use inv(1-3) in simp_all)
  have dist: "distinct (rev (map fst fs))" "p \<notin> set (rev (map fst fs))" "p \<notin> set fin"
    using inv(1,2,5) by auto
  have topo: "topo graph (p # fin)" using inv(6,7) dist(3) by auto
  have fr: "framed graph (p # fin) {} fs" using inv(7) framed_pop [of graph fin p fs] by simp
  have path: "set path = insert p (set (rev (map fst fs)))" by (simp add: inv(1))
  have vis: "set visited = set (rev (map fst fs)) \<union> set (p # fin)" using inv(4) path by simp
  have disj: "set (rev (map fst fs)) \<inter> set (p # fin) = {}"
    using inv(5) dist(2) unfolding path by simp
  have bl: "butlast path = rev (map fst fs)" by (simp add: inv(1))
  show "search_inv graph visited (butlast path) (dict_del indices p) fs (p # fin)"
    unfolding search_inv_def bl using pos dist(1) topo fr vis disj by blast
  show "map_of indices p \<noteq> None" using positions_mem [OF inv(3)] path by simp
  show "path \<noteq> []" by (simp add: inv(1))
qed

lemma inv_skip:
  assumes "search_inv graph visited path indices ((p, n # rem) # fs) fin"
    and "map_of indices n = None" and "n \<in> set visited"
  shows "search_inv graph visited path indices ((p, rem) # fs) fin"
proof -
  note inv = inv_split [OF assms(1)]
  have "n \<in> set fin" using assms(2,3) inv(4) positions_mem [OF inv(3)] by blast
  with inv(7) have "framed graph fin {} ((p, rem) # fs)" by auto
  moreover have "path = rev (map fst ((p, rem) # fs))" by (simp add: inv(1))
  ultimately show ?thesis unfolding search_inv_def using inv(2-6) by blast
qed

lemma inv_push:
  assumes "search_inv graph visited path indices ((p, n # rem) # fs) fin"
    and "map_of indices n = None" and "n \<notin> set visited"
  shows "search_inv graph (visited @ [n]) (path @ [n]) (dict_set indices n (length path))
           ((n, dict_list graph n) # (p, rem) # fs) fin"
proof -
  note inv = inv_split [OF assms(1)]
  have new: "n \<notin> set path" "n \<notin> set fin" using assms(3) inv(4) by blast+
  have "framed graph fin {} ((n, dict_list graph n) # (p, rem) # fs)" using inv(7) by auto
  moreover have "path @ [n] = rev (map fst ((n, dict_list graph n) # (p, rem) # fs))" by (simp add: inv(1))
  moreover have "distinct (path @ [n])" using inv(2) new by simp
  moreover have "set (visited @ [n]) = set (path @ [n]) \<union> set fin" using inv(4) by simp
  moreover have "set (path @ [n]) \<inter> set fin = {}" using inv(5) new by simp
  ultimately show ?thesis
    unfolding search_inv_def using inv(6) positions_push [OF inv(3) new(1)] by blast
qed

lemma inv_root:
  assumes "search_inv graph visited [] indices [] fin" and "n \<notin> set visited"
  shows "search_inv graph (visited @ [n]) [n] (dict_set indices n 0) [(n, dict_list graph n)] fin"
    and "map_of indices n = None"
proof -
  from assms(1) have inv: "positions indices []" "set visited = set fin" "topo graph fin"
    by (auto simp: search_inv_def)
  show "map_of indices n = None" using positions_mem [OF inv(1)] by simp
  show "search_inv graph (visited @ [n]) [n] (dict_set indices n 0) [(n, dict_list graph n)] fin"
    using inv assms(2) positions_push [OF inv(1), of n] by (auto simp: search_inv_def)
qed

lemma inv_hit:
  assumes lab: "\<And>u v. v \<in> set (dict_list graph u) \<Longrightarrow> \<exists>rank. map_of rank_edges (u, v) = Some rank \<and> P rank u v"
    and "search_inv graph visited path indices ((p, n # rem) # fs) fin"
    and "map_of indices n = Some start"
  shows "\<exists>entries. cycle_entries rank_edges (drop start path @ [n]) = Inr entries \<and>
    good_cycle P (drop start path @ [n]) entries"
proof -
  have inv: "path = rev (map fst ((p, n # rem) # fs))" "positions indices path"
    "framed graph fin {} ((p, n # rem) # fs)"
    using inv_split [OF assms(2)] by simp_all
  have start: "start < length path" "path ! start = n" using assms(3) inv(2) by (auto simp: positions_def)
  define cycle where "cycle = drop start path @ [n]"
  have ne: "drop start path \<noteq> []" using start by simp
  have "successively (\<lambda>u v. v \<in> set (dict_list graph u)) path"
    unfolding inv(1) successively_rev using framed_chain [OF inv(3)] .
  then have "successively (\<lambda>u v. v \<in> set (dict_list graph u)) (drop start path)" by (rule successively_drop)
  moreover have "last (drop start path) = p" using start(1) inv(1) by simp
  moreover have "n \<in> set (dict_list graph p)" using inv(3) by simp
  ultimately have succ: "successively (\<lambda>u v. v \<in> set (dict_list graph u)) cycle"
    using ne by (simp add: cycle_def successively_append_iff)
  have "\<forall>(u, v) \<in> set (zip cycle (tl cycle)). \<exists>rank. map_of rank_edges (u, v) = Some rank \<and> P rank u v"
    using succ lab unfolding successively_zip by fast
  from cycle_entries_ok [OF this] obtain entries where
    entries: "cycle_entries rank_edges cycle = Inr entries" "map snd entries = zip cycle (tl cycle)"
    "\<forall>(rank, u, v) \<in> set entries. P rank u v" by blast
  have "hd cycle = n" using start ne by (simp add: cycle_def hd_append hd_drop_conv_nth)
  then have "good_cycle P cycle entries"
    using entries ne by (cases "drop start path") (simp_all add: good_cycle_def cycle_def)
  with entries(1) show ?thesis by (auto simp: cycle_def)
qed

lemma search_loop_correct:
  assumes "\<And>u v. v \<in> set (dict_list graph u) \<Longrightarrow> \<exists>rank. map_of rank_edges (u, v) = Some rank \<and> P rank u v"
    and "search_inv graph visited path indices frames fin" and "stack = stack_of frames"
  shows "(\<exists>cycle entries. search_loop graph rank_edges visited path indices stack =
            Inr (CycleFound cycle entries) \<and> good_cycle P cycle entries) \<or>
         (\<exists>visited' indices' fin'. search_loop graph rank_edges visited path indices stack =
            Inr (Exhausted visited' [] indices') \<and> search_inv graph visited' [] indices' [] fin' \<and>
            set visited \<subseteq> set visited')"
  using assms
proof (induction graph rank_edges visited path indices stack arbitrary: frames fin rule: search_loop.induct)
  case (1 graph rank_edges visited path indices)
  then have frames: "frames = []" by (cases frames rule: stack_of.cases) auto
  with 1(2) have "path = []" by (simp add: search_inv_def)
  with 1(2) frames show ?case by auto
next
  case (2 graph rank_edges visited path indices current stack)
  have "\<exists>fs. frames = (current, []) # fs \<and> stack = stack_of fs"
    using 2(4) by (cases frames rule: stack_of.cases) (auto simp: Cons_eq_append_conv map_eq_Cons_conv)
  then obtain fs where frames: "frames = (current, []) # fs" and stack: "stack = stack_of fs" by blast
  note pop = inv_pop [OF 2(3) [unfolded frames]]
  from 2(1) [OF pop(3,2) 2(2) pop(1) stack] show ?case using pop(2,3) by simp
next
  case (3 graph rank_edges visited path indices current stack)
  have "\<exists>p rem fs. frames = (p, current # rem) # fs \<and> stack = stack_of ((p, rem) # fs)"
    using 3(5) by (cases frames rule: stack_of.cases) (auto simp: Cons_eq_append_conv map_eq_Cons_conv)
  then obtain p rem fs where frames: "frames = (p, current # rem) # fs"
    and stack: "stack = stack_of ((p, rem) # fs)" by blast
  show ?case
  proof (cases "map_of indices current")
    case (Some start)
    from inv_hit [OF 3(3) 3(4) [unfolded frames] Some] Some show ?thesis by auto
  next
    case None
    show ?thesis
    proof (cases "current \<in> set visited")
      case True
      from 3(1) [OF None True 3(3) inv_skip [OF 3(4) [unfolded frames] None True] stack] None True
      show ?thesis by simp
    next
      case False
      have stack': "map (\<lambda>n. (n, False)) (dict_list graph current) @ (current, True) # stack =
          stack_of ((current, dict_list graph current) # (p, rem) # fs)" by (simp add: stack)
      from 3(2) [OF None False 3(3) inv_push [OF 3(4) [unfolded frames] None False] stack'] None False
      show ?thesis by auto
    qed
  qed
qed

lemma search_roots_correct:
  assumes lab: "\<And>u v. v \<in> set (dict_list graph u) \<Longrightarrow> \<exists>rank. map_of rank_edges (u, v) = Some rank \<and> P rank u v"
    and inv: "search_inv graph visited [] indices [] fin"
  shows "(\<exists>cycle entries. search_roots graph rank_edges visited [] indices nodes =
            Inr (Some (cycle, entries)) \<and> good_cycle P cycle entries) \<or>
         (\<exists>fin'. search_roots graph rank_edges visited [] indices nodes = Inr None \<and>
            topo graph fin' \<and> set visited \<union> set nodes \<subseteq> set fin')"
  using inv
proof (induction nodes arbitrary: visited indices fin)
  case Nil
  then show ?case by (auto simp: search_inv_def)
next
  case (Cons node nodes)
  show ?case
  proof (cases "node \<in> set visited")
    case True
    with Cons.IH [OF Cons.prems] show ?thesis by auto
  next
    case False
    note root = inv_root [OF Cons.prems False]
    have step: "search_loop graph rank_edges visited [] indices [(node, False)] =
        search_loop graph rank_edges (visited @ [node]) [node] (dict_set indices node 0)
          (stack_of [(node, dict_list graph node)])"
      using root(2) False by simp
    from search_loop_correct [OF lab root(1) refl]
    consider cycle entries where "search_loop graph rank_edges visited [] indices [(node, False)] =
        Inr (CycleFound cycle entries)" "good_cycle P cycle entries"
      | visited' indices' fin' where "search_loop graph rank_edges visited [] indices [(node, False)] =
        Inr (Exhausted visited' [] indices')" "search_inv graph visited' [] indices' [] fin'"
        "set (visited @ [node]) \<subseteq> set visited'"
      unfolding step by blast
    then show ?thesis
    proof cases
      case 1
      with False show ?thesis by simp
    next
      case 2
      from Cons.IH [OF 2(2)] 2(1,3) False show ?thesis by auto
    qed
  qed
qed

text \<open>Finished nodes in topological order carry no cycle.\<close>

lemma topo_trancl:
  assumes "topo graph fin" and "(u, v) \<in> {(u, v). v \<in> set (dict_list graph u)}\<^sup>+" and "u \<in> set fin"
  shows "v \<in> set fin"
proof -
  have closed: "w \<in> set fin" if "topo graph fin" "z \<in> set fin" "w \<in> set (dict_list graph z)" for z w
    using that by (induction fin) auto
  from assms(2,3) show ?thesis
    by (induction rule: trancl_induct) (use closed [OF assms(1)] in auto)
qed

lemma topo_no_cycle:
  assumes "topo graph fin" and "u \<in> set fin"
  shows "(u, u) \<notin> {(u, v). v \<in> set (dict_list graph u)}\<^sup>+"
  using assms
proof (induction fin)
  case (Cons a fin)
  show ?case
  proof (cases "u = a")
    case True
    show ?thesis
    proof
      assume "(u, u) \<in> {(u, v). v \<in> set (dict_list graph u)}\<^sup>+"
      then obtain w where w: "w \<in> set (dict_list graph u)"
        and loop: "w = u \<or> (w, u) \<in> {(u, v). v \<in> set (dict_list graph u)}\<^sup>+"
        by (auto dest: tranclD rtranclD)
      have "w \<in> set fin" using w Cons.prems(1) True by auto
      with loop topo_trancl [of graph fin w u] Cons.prems(1) True show False by auto
    qed
  qed (use Cons in auto)
qed simp

lemma closed_walk_trancl:
  assumes "successively (\<lambda>u v. (u, v) \<in> E) (x # xs)" and "xs \<noteq> []"
  shows "(x, last xs) \<in> E\<^sup>+"
  using assms
proof (induction xs arbitrary: x)
  case (Cons y ys)
  then show ?case by (cases "ys = []") (auto intro: trancl_into_trancl2)
qed simp

lemma good_cycle_closed:
  assumes "good_cycle (follows ranks_map) cycle entries"
  shows "\<not> acyclic (edges ranks_map)"
proof -
  have c: "2 \<le> length cycle" "hd cycle = last cycle" "map snd entries = zip cycle (tl cycle)"
    and lab: "\<forall>(rank, u, v) \<in> set entries. follows ranks_map rank u v"
    using assms by (auto simp: good_cycle_def)
  have "(u, v) \<in> edges ranks_map" if "(u, v) \<in> set (zip cycle (tl cycle))" for u v
    using that lab unfolding c(3) [symmetric] edges_def by fastforce
  then have succ: "successively (\<lambda>u v. (u, v) \<in> edges ranks_map) cycle"
    unfolding successively_zip by blast
  obtain x xs where "cycle = x # xs" "xs \<noteq> []" using c(1) by (cases cycle; cases "tl cycle") auto
  with closed_walk_trancl [of "edges ranks_map" x xs] succ c(2) have "(x, x) \<in> (edges ranks_map)\<^sup>+" by simp
  then show ?thesis by (auto simp: acyclic_def)
qed

lemma detect_cycle_cases:
  "(\<exists>cycle entries. detect_cycle_in_graph ranks_map = Inr (Some (cycle, entries)) \<and>
      good_cycle (follows ranks_map) cycle entries) \<or>
   detect_cycle_in_graph ranks_map = Inr None \<and> acyclic (edges ranks_map)"
proof -
  obtain graph rank_edges where build: "build_graph ranks_map = (graph, rank_edges)"
    by (cases "build_graph ranks_map")
  from build_graph_ok [of ranks_map] have
    succ: "{(u, v). v \<in> set (dict_list graph u)} = edges ranks_map" and
    dom: "\<And>x. dict_list graph x \<noteq> [] \<Longrightarrow> x \<in> set (map fst graph)" and
    lab: "\<And>u v. v \<in> set (dict_list graph u) \<Longrightarrow>
      \<exists>rank. map_of rank_edges (u, v) = Some rank \<and> follows ranks_map rank u v"
    by (auto simp: graph_ok_def build)
  have inv: "search_inv graph [] [] [] [] []" by (simp add: search_inv_def positions_def)
  have "acyclic (edges ranks_map)" if "topo graph fin" "set (map fst graph) \<subseteq> set fin" for fin
    unfolding acyclic_def
  proof
    fix u
    show "(u, u) \<notin> (edges ranks_map)\<^sup>+"
    proof
      assume cyc: "(u, u) \<in> (edges ranks_map)\<^sup>+"
      then obtain w where "w \<in> set (dict_list graph u)" unfolding succ [symmetric] by (auto dest: tranclD)
      then have "dict_list graph u \<noteq> []" by auto
      then have "u \<in> set fin" using dom [of u] that(2) by blast
      with topo_no_cycle [OF that(1)] cyc show False by (simp add: succ)
    qed
  qed
  with search_roots_correct [of graph rank_edges "follows ranks_map", OF lab inv, of "map fst graph"]
  show ?thesis unfolding detect_cycle_in_graph_def build by simp blast
qed

section \<open>Properties of the search\<close>

text \<open>
  C19: the cycle search returns without an exception for every rank map; it answers None exactly when
  the graph of the rank map has no cycle, and otherwise gives a closed walk of the graph whose
  entries each name a rank on which the two operations follow each other.
\<close>

theorem detect_cycle_decides:
  "\<exists>answer. detect_cycle_in_graph ranks_map = Inr answer \<and>
     (answer = None \<longleftrightarrow> acyclic (edges ranks_map)) \<and>
     (case answer of None \<Rightarrow> True
      | Some (cycle, entries) \<Rightarrow> good_cycle (follows ranks_map) cycle entries)"
  using detect_cycle_cases [of ranks_map] good_cycle_closed [of ranks_map] by force

end
