(* ===== verification/Validation_Runs.thy ===== *)
theory Validation_Runs
  imports Schedule_Validation Basic_Schedule_Runs
begin

text \<open>
  What \<open>validate_pipeline_execution\<close> answers on real orders. Every family of matched orders (complete
  micro-batches on every stage and a time that both halves of a transfer share, the locale
  \<open>matched_orders\<close>) passes: the validator returns, reports no complaint and finds no cycle. GPipe
  and 1F1B are such families. An order with a bubble makes the validator fail.
\<close>

section \<open>The operations of one stage\<close>

lemma find_only: "(\<And>x. x \<in> set xs \<Longrightarrow> P x \<longleftrightarrow> x = y) \<Longrightarrow> List.find P xs = (if y \<in> set xs then Some y else None)"
  by (induction xs) auto

lemma find_send_target_eq:
  "find_send_target S (Some s) FWD_SEND = (if 0 \<le> s \<and> s + 1 < S then Some (s + 1) else None)"
  "find_send_target S (Some s) BWD_SEND = (if 0 < s \<and> s < S then Some (s - 1) else None)"
  by (auto simp: find_send_target_def forward_comm_def backward_comm_def map_of_map_pair)

lemma find_recv_source_eq:
  "find_recv_source S (Some s) FWD_RECV = (if 0 < s \<and> s < S then Some (s - 1) else None)"
  "find_recv_source S (Some s) BWD_RECV = (if 0 \<le> s \<and> s + 1 < S then Some (s + 1) else None)"
proof -
  have "List.find (\<lambda>(src, dst). Some dst = Some s) (forward_comm S) =
      (if (s - 1, s) \<in> set (forward_comm S) then Some (s - 1, s) else None)"
    by (rule find_only) (auto simp: forward_comm_def)
  then show "find_recv_source S (Some s) FWD_RECV = (if 0 < s \<and> s < S then Some (s - 1) else None)"
    by (auto simp: find_recv_source_def forward_comm_def)
  have "List.find (\<lambda>(src, dst). Some dst = Some s) (backward_comm S) =
      (if (s + 1, s) \<in> set (backward_comm S) then Some (s + 1, s) else None)"
    by (rule find_only) (auto simp: backward_comm_def)
  then show "find_recv_source S (Some s) BWD_RECV = (if 0 \<le> s \<and> s + 1 < S then Some (s + 1) else None)"
    by (auto simp: find_recv_source_def backward_comm_def)
qed

text \<open>Source, destination and micro-batch of the transfer a step of stage \<open>r\<close> takes part in.\<close>

definition comm_of :: "int \<Rightarrow> meta_step \<Rightarrow> (int \<times> int \<times> int option) option" where
  "comm_of r a =
     (let m = micro_index a; t = step_type a in
      if t = FWD_SEND then Some (r, r + 1, m)
      else if t = FWD_RECV then Some (r - 1, r, m)
      else if t = BWD_SEND then Some (r, r - 1, m)
      else if t = BWD_RECV then Some (r + 1, r, m)
      else None)"

definition first_op :: "int \<times> int \<times> int option \<Rightarrow> comm_op" where
  "first_op c = (case c of (s, d, m) \<Rightarrow> \<lparr>op_src = s, op_dst = d, op_micro = m, op_nth = 1\<rparr>)"

lemma first_op_simps [simp]: "first_op (s, d, m) = \<lparr>op_src = s, op_dst = d, op_micro = m, op_nth = 1\<rparr>"
  by (simp add: first_op_def)

lemma format_step_stage:
  assumes "0 \<le> r" and "r < R" and "t \<in> stage_ops R r"
  shows "format_step R R ''loop'' r (Some (mstep m t r)) st =
    Inr (case comm_of r (mstep m t r) of None \<Rightarrow> st | Some (s, d, m) \<Rightarrow> count_op s d m st)"
proof -
  have "(r - 1) mod R = r - 1" if "r \<noteq> 0" using that assms(1,2) by (intro mod_pos_pos_trivial) auto
  moreover have "(r + 1) mod R = r + 1" if "r \<noteq> R - 1" using that assms(1,2) by (intro mod_pos_pos_trivial) auto
  ultimately show ?thesis using assms
    by (cases t) (auto simp: format_step_def comm_of_def find_send_target_eq find_recv_source_eq
      stage_to_rank_def stage_ops_def split: if_splits)
qed

lemma format_steps:
  assumes "0 \<le> r" and "r < R"
    and "\<And>a. a \<in> set xs \<Longrightarrow> \<exists>m t. a = mstep m t r \<and> t \<in> stage_ops R r"
    and "distinct (List.map_filter (comm_of r) xs)"
    and "\<And>c. c \<in> set (List.map_filter (comm_of r) xs) \<Longrightarrow> counter c = 0"
  shows "\<exists>counter'. for_res (format_step R R ''loop'' r) (map Some xs) (counter, ops) =
    Inr (counter', ops @ map first_op (List.map_filter (comm_of r) xs))"
  using assms(3-)
proof (induction xs arbitrary: counter ops)
  case Nil
  then show ?case by (simp add: map_filter_simps)
next
  case (Cons a xs)
  obtain m t where a: "a = mstep m t r" "t \<in> stage_ops R r" using Cons.prems(1) by force
  note step = format_step_stage [OF assms(1,2) a(2), of m "(counter, ops)", folded a(1)]
  show ?case
  proof (cases "comm_of r a")
    case None
    with Cons step show ?thesis by (simp add: map_filter_simps)
  next
    case (Some c)
    obtain s d k where c: "c = (s, d, k)" by (cases c)
    have zero: "counter c = 0" using Cons.prems(3) Some by (simp add: map_filter_simps)
    have "\<exists>counter'. for_res (format_step R R ''loop'' r) (map Some xs) (counter(c := 1), ops @ [first_op c]) =
      Inr (counter', (ops @ [first_op c]) @ map first_op (List.map_filter (comm_of r) xs))"
      by (rule Cons.IH) (use Cons.prems Some in \<open>auto simp: map_filter_simps\<close>)
    with Some step zero show ?thesis
      by (simp add: map_filter_simps count_op_def c)
  qed
qed

lemma map_filter_memI: "x \<in> set xs \<Longrightarrow> f x = Some y \<Longrightarrow> y \<in> set (List.map_filter f xs)"
  by (induction xs) (auto simp: map_filter_simps split: option.splits)

lemma sorted_wrt_distinct: "sorted_wrt P xs \<Longrightarrow> (\<And>x. \<not> P x x) \<Longrightarrow> distinct xs"
  by (induction xs) auto

lemma for_res_collect:
  assumes "\<And>r out. r \<in> set rs \<Longrightarrow> body r out = Inr (if g r = [] then out else dict_set out (k r) (g r))"
    and "distinct (map k rs)" and "set (map k rs) \<inter> set (map fst out) = {}"
  shows "for_res body rs out = Inr (out @ map (\<lambda>r. (k r, g r)) (filter (\<lambda>r. g r \<noteq> []) rs))"
  using assms
proof (induction rs arbitrary: out)
  case (Cons r rs)
  then show ?case by (auto simp: dict_set_fresh)
qed simp

section \<open>Matched orders\<close>

locale matched_orders =
  fixes R M :: int and order :: "int \<Rightarrow> meta_step list"
    and time :: "int \<Rightarrow> meta_step \<Rightarrow> 't :: linorder"
  assumes complete: "0 \<le> s \<Longrightarrow> s < R \<Longrightarrow> complete_order R M s (order s)"
    and increasing: "0 \<le> s \<Longrightarrow> s < R \<Longrightarrow> sorted_wrt (\<lambda>a b. time s a < time s b) (order s)"
    and agree: "0 \<le> s \<Longrightarrow> time (s + 1) (mstep m FWD_RECV (s + 1)) = time s (mstep m FWD_SEND s)"
      "0 \<le> s \<Longrightarrow> time (s + 1) (mstep m BWD_SEND (s + 1)) = time s (mstep m BWD_RECV s)"
begin

definition comms :: "int \<Rightarrow> comm_op list" where
  "comms r = map first_op (List.map_filter (comm_of r) (order r))"

text \<open>The time of an operation is that of its sending half.\<close>

definition op_time :: "comm_op \<Rightarrow> 't" where
  "op_time op = time (op_src op)
     (mstep (the (op_micro op)) (if op_src op < op_dst op then FWD_SEND else BWD_SEND) (op_src op))"

lemma op_time_comm:
  assumes "0 \<le> r" and "t \<in> stage_ops R r" and "comm_of r (mstep m t r) = Some c"
  shows "op_time (first_op c) = time r (mstep m t r)"
  using assms agree(1) [of "r - 1" m] agree(2) [of r m]
  by (cases t) (auto simp: comm_of_def op_time_def stage_ops_def split: if_splits)

lemma comms_sorted:
  assumes "0 \<le> r" and "r < R"
  shows "sorted_wrt (\<lambda>u v. op_time u < op_time v) (comms r)"
proof -
  have "sorted_wrt (\<lambda>u v. op_time u < op_time v) (map first_op (List.map_filter (comm_of r) xs))"
    if "sorted_wrt (\<lambda>a b. time r a < time r b) xs"
      and "\<And>a. a \<in> set xs \<Longrightarrow> \<exists>m t. a = mstep m t r \<and> t \<in> stage_ops R r" for xs
    using that
  proof (induction xs)
    case (Cons a xs)
    have at: "op_time (first_op c) = time r x" if "x \<in> set (a # xs)" "comm_of r x = Some c" for x c
      using Cons.prems(2) [OF that(1)] op_time_comm [OF assms(1), of _ _ c] that(2) by blast
    show ?case
    proof (cases "comm_of r a")
      case (Some c)
      have "op_time (first_op c) < op_time (first_op d)" if "d \<in> set (List.map_filter (comm_of r) xs)" for d
      proof -
        from that obtain x where "x \<in> set xs" "comm_of r x = Some d" by (auto simp: List.map_filter_def)
        with at [of x d] at [of a c] Some Cons.prems(1) show ?thesis by auto
      qed
      with Cons Some show ?thesis by (auto simp: map_filter_simps)
    qed (use Cons in \<open>auto simp: map_filter_simps\<close>)
  qed (simp add: map_filter_simps)
  then show ?thesis unfolding comms_def
    using increasing [OF assms] complete_order_mem [OF complete [OF assms]] by blast
qed

lemma comms_mem:
  assumes "0 \<le> r" and "r < R"
  shows "op \<in> set (comms r) \<longleftrightarrow>
    (\<exists>s m. 0 \<le> m \<and> m < M \<and> 0 \<le> s \<and> s + 1 < R \<and> (r = s \<or> r = s + 1) \<and>
       (op = first_op (s, s + 1, Some m) \<or> op = first_op (s + 1, s, Some m)))" (is "_ \<longleftrightarrow> ?rhs")
proof
  assume "op \<in> set (comms r)"
  then obtain a c where a: "a \<in> set (order r)" "comm_of r a = Some c" "op = first_op c"
    by (auto simp: comms_def List.map_filter_def)
  from a(1) complete_order_mem [OF complete [OF assms]] obtain m t where
    m: "a = mstep m t r" "0 \<le> m" "m < M" "t \<in> stage_ops R r" by blast
  have "0 \<le> m \<and> m < M \<and> 0 \<le> s \<and> s + 1 < R \<and> (r = s \<or> r = s + 1) \<and>
       (op = first_op (s, s + 1, Some m) \<or> op = first_op (s + 1, s, Some m))"
    if "s = (if t \<in> {FWD_SEND, BWD_RECV} then r else r - 1)" for s
    using a(2,3) m assms that by (cases t) (auto simp: comm_of_def stage_ops_def split: if_splits)
  then show ?rhs by blast
next
  assume ?rhs
  then obtain s m where m: "0 \<le> m" "m < M" "0 \<le> s" "s + 1 < R" and r: "r = s \<or> r = s + 1"
    and op: "op = first_op (s, s + 1, Some m) \<or> op = first_op (s + 1, s, Some m)" by blast
  have mem: "first_op c \<in> set (comms r)"
    if "comm_of r (mstep m t r) = Some c" "t \<in> stage_ops R r" for t c
  proof -
    have "mstep m t r \<in> set (order r)" using that(2) m complete_order_mem [OF complete [OF assms]] by blast
    with that(1) have "c \<in> set (List.map_filter (comm_of r) (order r))"
      by (rule map_filter_memI [rotated])
    then show ?thesis by (simp add: comms_def)
  qed
  from r show "op \<in> set (comms r)"
  proof
    assume "r = s"
    with op m mem [of FWD_SEND] mem [of BWD_RECV] show ?thesis by (auto simp: comm_of_def stage_ops_def)
  next
    assume "r = s + 1"
    with op m mem [of FWD_RECV] mem [of BWD_SEND] show ?thesis by (auto simp: comm_of_def stage_ops_def)
  qed
qed

lemma comms_generated:
  assumes "0 \<le> R"
  shows "generate_operations (map (\<lambda>s. (s, map Some (order s))) (py_range 0 R)) 1 ''loop'' =
    Inr (map (\<lambda>r. (r, comms r)) (filter (\<lambda>r. comms r \<noteq> []) (py_range 0 R)))"
proof -
  have one: "\<exists>counter'. for_res (format_step R R ''loop'' r) (map Some (order r)) (\<lambda>_. 0, []) =
      Inr (counter', comms r)" if r: "0 \<le> r" "r < R" for r
  proof -
    have "distinct (comms r)"
      using comms_sorted [OF r] by (rule sorted_wrt_distinct) simp
    then have "distinct (List.map_filter (comm_of r) (order r))"
      unfolding comms_def by (rule distinct_map [THEN iffD1, THEN conjunct1])
    moreover have "\<exists>m t. a = mstep m t r \<and> t \<in> stage_ops R r" if "a \<in> set (order r)" for a
      using that complete_order_mem [OF complete [OF r]] by blast
    ultimately show ?thesis
      using format_steps [OF r, of "order r" "\<lambda>_. 0" "[]"] by (simp add: comms_def)
  qed
  have body: "(\<lambda>(rank, steps) out. bind_res (for_res (format_step R R ''loop'' rank) steps (\<lambda>_. 0, []))
        (\<lambda>(counter, ops). Inr (if ops = [] then out else dict_set out rank ops))) x out =
      Inr (if comms (fst x) = [] then out else dict_set out (fst x) (comms (fst x)))"
    if "x \<in> set (map (\<lambda>s. (s, map Some (order s))) (py_range 0 R))" for x out
    using that one by force
  show ?thesis
    unfolding generate_operations_def Let_def
    using for_res_collect [where k = fst and g = "\<lambda>x. comms (fst x)" and out = "[]"
      and rs = "map (\<lambda>s. (s, map Some (order s))) (py_range 0 R)", OF body] assms
    by (simp add: o_def filter_map)
qed

lemma comms_parse:
  "parse_and_validate (map (\<lambda>r. (r, comms r)) (filter (\<lambda>r. comms r \<noteq> []) (py_range 0 R))) = []"
proof -
  define data where "data = map (\<lambda>r. (r, comms r)) (filter (\<lambda>r. comms r \<noteq> []) (py_range 0 R))"
  have there: "map_of data e = Some (comms e) \<and> op \<in> set (comms e)"
    if "(r, ops) \<in> set data" "op \<in> set ops" "e \<in> set (parse_elements op)" for r ops op e
  proof -
    from that(1,2) have r: "0 \<le> r" "r < R" and mem: "op \<in> set (comms r)" by (auto simp: data_def)
    from mem comms_mem [OF r] obtain s m where
      m: "0 \<le> m" "m < M" "0 \<le> s" "s + 1 < R"
      and op: "op = first_op (s, s + 1, Some m) \<or> op = first_op (s + 1, s, Some m)" by blast
    from op that(3) have e: "e = s \<or> e = s + 1" by (auto simp: parse_elements_def split: if_splits)
    then have range_e: "0 \<le> e" "e < R" using m by auto
    have "op \<in> set (comms e)" unfolding comms_mem [OF range_e] using m op e by blast
    moreover from this have "comms e \<noteq> []" by auto
    ultimately show ?thesis using range_e by (simp add: data_def map_of_map_pair)
  qed
  have key: "map_of data e \<noteq> None"
    if "(r, ops) \<in> set data" "op \<in> set ops" "e \<in> set (parse_elements op)" for r ops op e
    using there [OF that] by simp
  have val: "op \<in> set (dict_list data e)"
    if "(r, ops) \<in> set data" "op \<in> set ops" "e \<in> set (parse_elements op)" for r ops op e
    using there [OF that] by (simp add: dict_list_def)
  have missing: "filter (\<lambda>e. map_of data e = None) (parse_elements op) = []"
    if "(r, ops) \<in> set data" "op \<in> set ops" for r ops op
    using key [OF that] by (simp add: filter_empty_conv)
  show ?thesis
    unfolding data_def [symmetric] parse_and_validate_def Let_def concat_eq_Nil_conv
    using missing val by force
qed

lemma comms_acyclic:
  "acyclic (edges (map (\<lambda>r. (r, comms r)) (filter (\<lambda>r. comms r \<noteq> []) (py_range 0 R))))"
proof -
  have "op_time u < op_time v"
    if "follows (map (\<lambda>r. (r, comms r)) (filter (\<lambda>r. comms r \<noteq> []) (py_range 0 R))) rank u v" for rank u v
  proof -
    from that have "(u, v) \<in> set (zip (comms rank) (tl (comms rank)))" "0 \<le> rank" "rank < R"
      by (auto simp: follows_def)
    moreover have "successively (\<lambda>u v. op_time u < op_time v) xs"
      if "sorted_wrt (\<lambda>u v. op_time u < op_time v) xs" for xs
      using that by (induction xs rule: induct_list012) auto
    ultimately show ?thesis using comms_sorted unfolding successively_zip by blast
  qed
  then have "acyclic ((edges (map (\<lambda>r. (r, comms r)) (filter (\<lambda>r. comms r \<noteq> []) (py_range 0 R))))\<inverse>)"
    by (intro acyclicI_order [where f = op_time]) (auto simp: edges_def)
  then show ?thesis by simp
qed

lemma validated:
  assumes "0 \<le> R"
  shows "\<exists>ops. validate_pipeline_execution (map (\<lambda>s. (s, map Some (order s))) (py_range 0 R)) 1 ''loop'' =
    Inr (ops, [], None)"
  using detect_cycle_cases [of "map (\<lambda>r. (r, comms r)) (filter (\<lambda>r. comms r \<noteq> []) (py_range 0 R))"]
    comms_acyclic good_cycle_closed comms_generated [OF assms] comms_parse
  unfolding validate_pipeline_execution_def by fastforce

end

interpretation gpipe_matched: matched_orders R M "gpipe_order R M" "gpipe_time R M" for R M
  by unfold_locales (use gpipe_complete gpipe_sorted in \<open>auto simp: gpipe_time_def Let_def\<close>)

interpretation pipe_1f1b_matched: matched_orders R "int (Suc n)" "pipe_1f1b_order R (int (Suc n))"
    "pipe_1f1b_time R (int (Suc n))" for R n
  by unfold_locales (use pipe_1f1b_complete pipe_1f1b_sorted in auto)

section \<open>Properties of the validator\<close>

text \<open>
  C33: the validator accepts the schedules: on the orders GPipe and 1F1B construct, for any number of
  stages and at least one micro-batch, it returns without a complaint and without a cycle.
\<close>

theorem validator_accepts_basic:
  assumes "0 \<le> R" and "1 \<le> M"
  shows "(\<exists>ops. validate_pipeline_execution (gpipe_exec_order R M) 1 ''loop'' = Inr (ops, [], None)) \<and>
    (\<exists>ops. validate_pipeline_execution (pipe_1f1b_exec_order R M) 1 ''loop'' = Inr (ops, [], None))"
proof -
  obtain n where "M = int (Suc n)" using assms(2) by (metis Suc_pred' int_one_le_iff_zero_less
    zero_less_imp_eq_int)
  then show ?thesis
    using gpipe_matched.validated [OF assms(1)] pipe_1f1b_matched.validated [OF assms(1)]
    by (simp add: gpipe_exec_order_def pipe_1f1b_exec_order_def)
qed

theorem validator_accepts_basic_witness:
  "\<exists>ops. validate_pipeline_execution (pipe_1f1b_exec_order 4 6) 1 ''loop'' = Inr (ops, [], None)"
  using validator_accepts_basic [of 4 6] by simp

text \<open>
  an order with a bubble is never validated: the step loop reads the type of every step of a
  rank and a bubble has none, so the validator raises AttributeError, in both mapping styles.
\<close>

theorem validator_fails_on_bubble:
  assumes "com_type = ''loop'' \<or> com_type = ''v''" and "(rank, steps) \<in> set order" and "None \<in> set steps"
  shows "validate_pipeline_execution order chunk_num com_type = Inl AttributeError"
proof -
  define R where "R = int (length order)"
  have R: "0 < R" using assms(2) by (auto simp: R_def length_pos_if_in_set)
  have step: "format_step (R * chunk_num) R com_type r (Some a) st \<noteq> Inl e" for r a st e
    using assms(1) R by (auto simp: format_step_def stage_to_rank_def split: option.splits)
  have only: "(None \<in> set xs \<longrightarrow> for_res (format_step (R * chunk_num) R com_type r) xs st = Inl AttributeError) \<and>
      (None \<notin> set xs \<longrightarrow> (\<exists>st'. for_res (format_step (R * chunk_num) R com_type r) xs st = Inr st'))"
    for r xs st
  proof (induction xs arbitrary: st)
    case (Cons x xs)
    show ?case
    proof (cases x)
      case None
      then show ?thesis by (simp add: format_step_def)
    next
      case (Some a)
      with step [of r a st] obtain st' where "format_step (R * chunk_num) R com_type r x st = Inr st'"
        by (cases "format_step (R * chunk_num) R com_type r x st") auto
      with Cons [of st'] Some show ?thesis by auto
    qed
  qed simp
  define body where "body = (\<lambda>(rank, steps) out.
      bind_res (for_res (format_step (R * chunk_num) R com_type rank) steps (\<lambda>_. 0, []))
        (\<lambda>(counter, ops). Inr (if ops = [] then out else dict_set out rank ops)))"
  have bubble: "body x out = Inl AttributeError" if "None \<in> set (snd x)" for x out
    using that only [of "snd x" "fst x" "(\<lambda>_. 0, [])"] by (simp add: body_def case_prod_beta)
  have plain: "\<exists>out'. body x out = Inr out'" if "None \<notin> set (snd x)" for x out
  proof -
    from only [of "snd x" "fst x" "(\<lambda>_. 0, [])"] that
    obtain st where "for_res (format_step (R * chunk_num) R com_type (fst x)) (snd x) (\<lambda>_. 0, []) = Inr st"
      by blast
    then show ?thesis by (simp add: body_def case_prod_beta)
  qed
  have "for_res body xs out = Inl AttributeError" if "x \<in> set xs" "None \<in> set (snd x)" for x xs out
    using that
  proof (induction xs arbitrary: out)
    case (Cons y ys)
    show ?case
    proof (cases "None \<in> set (snd y)")
      case False
      with Cons obtain out' where "body y out = Inr out'" using plain by blast
      with Cons False show ?thesis by auto
    qed (simp add: bubble)
  qed simp
  from this [OF assms(2)] assms(3) have "generate_operations order chunk_num com_type = Inl AttributeError"
    unfolding generate_operations_def Let_def body_def R_def by simp
  then show ?thesis by (simp add: validate_pipeline_execution_def)
qed

theorem validator_fails_on_bubble_witness:
  "validate_pipeline_execution [(0, [Some (mstep 0 FWD 0), None]), (1, [])] 2 ''loop'' = Inl AttributeError"
  by (rule validator_fails_on_bubble) auto

end
