(* ===== verification/Chunk_Geometry.thy ===== *)
theory Chunk_Geometry
  imports Hyper_Prelude
begin

text \<open>
  Which part of a tensor a rank holds (core/dtensor/layout.py): the balanced and the ceil chunk
  ranges, the mesh coordinate of a rank, and the slice of every tensor dimension from the tensor map.

  The two chunk rules keep one contract, the locale \<open>chunk_rule\<close>: consecutive chunks that start at 0
  and end at the size. Everything about slices is proved from it. Indices into the mesh shape and the
  coordinate are Python indices: a negative one counts from the end (\<open>py_nth\<close>).
\<close>

section \<open>Chunks\<close>

definition balanced_range :: "int \<Rightarrow> int \<Rightarrow> int \<Rightarrow> int \<times> int" where
  "balanced_range tensor_size shard_count shard_rank =
     (let shard_size = tensor_size div shard_count; remainder = tensor_size mod shard_count;
          chunk_start = shard_rank * shard_size + min shard_rank remainder;
          chunk_end = chunk_start + shard_size + (if shard_rank < remainder then 1 else 0)
      in (chunk_start, chunk_end))"

definition infer_balanced_chunk_range :: "int \<Rightarrow> int \<Rightarrow> int \<Rightarrow> (int \<times> int) result" where
  "infer_balanced_chunk_range tensor_size shard_count shard_rank =
     (if shard_count = 0 then Inl ZeroDivisionError
      else Inr (balanced_range tensor_size shard_count shard_rank))"

definition ceil_range :: "int \<Rightarrow> int \<Rightarrow> int \<Rightarrow> int \<times> int" where
  "ceil_range tensor_size shard_count shard_rank =
     (let chunk_size = (tensor_size + shard_count - 1) div shard_count;
          chunk_start = min (shard_rank * chunk_size) tensor_size;
          chunk_end = min (chunk_start + chunk_size) tensor_size
      in (chunk_start, chunk_end))"

definition infer_ceil_chunk_range :: "int \<Rightarrow> int \<Rightarrow> int \<Rightarrow> (int \<times> int) result" where
  "infer_ceil_chunk_range tensor_size shard_count shard_rank =
     (if shard_count = 0 then Inl ZeroDivisionError
      else Inr (ceil_range tensor_size shard_count shard_rank))"

section \<open>Coordinates\<close>

text \<open>The loop runs over the mesh dimensions from the last one, filling the coordinate from its end.\<close>

fun coordinate_loop :: "int list \<Rightarrow> int \<Rightarrow> int list \<Rightarrow> int list result" where
  "coordinate_loop [] remaining coordinate = Inr coordinate"
| "coordinate_loop (dim # dims) remaining coordinate =
     (if dim = 0 then Inl ZeroDivisionError
      else coordinate_loop dims (remaining div dim) (remaining mod dim # coordinate))"

definition calculate_mesh_coordinate_for_rank :: "int list \<Rightarrow> int \<Rightarrow> int list result" where
  "calculate_mesh_coordinate_for_rank mesh_shape rank_id = coordinate_loop (rev mesh_shape) rank_id []"

section \<open>Slices\<close>

text \<open>An entry of a tensor map: one mesh dimension counted from the last one, or several of them.\<close>

datatype dim_map = One int | Many "int list"

fun mapped_dims :: "dim_map \<Rightarrow> int list" where
  "mapped_dims (One d) = [d]"
| "mapped_dims (Many ds) = ds"

definition refine_slice ::
    "int list \<Rightarrow> int list \<Rightarrow> int set \<Rightarrow> int \<Rightarrow> int \<times> int \<Rightarrow> (int \<times> int) result" where
  "refine_slice mesh_shape mesh_coordinate uneven mapped_mesh_dim slice =
     (if mapped_mesh_dim = -1 then Inr slice
      else
        let mesh_dim = int (length mesh_shape) - mapped_mesh_dim - 1;
            infer_chunk_range =
              (if mesh_dim \<in> uneven then infer_ceil_chunk_range else infer_balanced_chunk_range);
            (slice_start, slice_end) = slice
        in bind_res (py_nth mesh_shape mesh_dim) (\<lambda>shard_count.
           bind_res (py_nth mesh_coordinate mesh_dim) (\<lambda>shard_rank.
           bind_res (infer_chunk_range (slice_end - slice_start) shard_count shard_rank)
             (\<lambda>(chunk_start, chunk_end).
               let start = slice_start + chunk_start in
               Inr (start, start + chunk_end - chunk_start)))))"

definition infer_tensor_dimension_slice ::
    "int \<Rightarrow> dim_map \<Rightarrow> int list \<Rightarrow> int list \<Rightarrow> int set \<Rightarrow> (int \<times> int) result" where
  "infer_tensor_dimension_slice global_size tensor_mapping mesh_shape mesh_coordinate uneven =
     for_res (refine_slice mesh_shape mesh_coordinate uneven) (mapped_dims tensor_mapping) (0, global_size)"

definition infer_slice_area_by_rank ::
    "int list \<Rightarrow> dim_map list \<Rightarrow> int \<Rightarrow> int list \<Rightarrow> int list option \<Rightarrow> (int \<times> int) list result" where
  "infer_slice_area_by_rank mesh_shape tensor_map rank_id full_shape uneven_shard_mesh_dims =
     (let uneven = set (case uneven_shard_mesh_dims of None \<Rightarrow> [] | Some ds \<Rightarrow> ds) in
      bind_res (calculate_mesh_coordinate_for_rank mesh_shape rank_id) (\<lambda>mesh_coordinate.
        map_res (\<lambda>(tensor_dim, global_size).
          bind_res (py_nth tensor_map tensor_dim) (\<lambda>tensor_mapping.
            infer_tensor_dimension_slice global_size tensor_mapping mesh_shape mesh_coordinate uneven))
          (zip (py_range 0 (int (length full_shape))) full_shape)))"

section \<open>The contract of a chunk rule\<close>

locale chunk_rule =
  fixes chunk :: "int \<Rightarrow> int \<Rightarrow> int \<Rightarrow> int \<times> int"
  assumes first_chunk: "0 \<le> n \<Longrightarrow> 0 < c \<Longrightarrow> fst (chunk n c 0) = 0"
    and last_chunk: "0 \<le> n \<Longrightarrow> 0 < c \<Longrightarrow> snd (chunk n c (c - 1)) = n"
    and next_chunk: "0 \<le> n \<Longrightarrow> 0 \<le> r \<Longrightarrow> r + 1 < c \<Longrightarrow> fst (chunk n c (r + 1)) = snd (chunk n c r)"
    and ordered: "0 \<le> n \<Longrightarrow> 0 \<le> r \<Longrightarrow> r < c \<Longrightarrow> fst (chunk n c r) \<le> snd (chunk n c r)"
begin

lemma start_mono:
  assumes "0 \<le> n" and "0 \<le> r" and "r < r'" and "r' < c"
  shows "snd (chunk n c r) \<le> fst (chunk n c r')"
  using assms(3,4)
proof (induction "nat (r' - r)" arbitrary: r')
  case (Suc k)
  show ?case
  proof (cases "r' = r + 1")
    case True
    then show ?thesis using next_chunk [OF assms(1,2), of c] Suc.prems by simp
  next
    case False
    with Suc have "snd (chunk n c r) \<le> fst (chunk n c (r' - 1))" by simp
    also have "\<dots> \<le> snd (chunk n c (r' - 1))" using ordered [OF assms(1), of "r' - 1" c] Suc.prems assms(2) by simp
    also have "\<dots> = fst (chunk n c r')"
      using next_chunk [OF assms(1), of "r' - 1" c] Suc.prems assms(2) by simp
    finally show ?thesis .
  qed
qed simp

lemma inside:
  assumes "0 \<le> n" and "0 \<le> r" and "r < c"
  shows "0 \<le> fst (chunk n c r)" and "snd (chunk n c r) \<le> n"
proof -
  have "0 \<le> fst (chunk n c 0)" using first_chunk [OF assms(1), of c] assms by simp
  also have "fst (chunk n c 0) \<le> snd (chunk n c 0)" using ordered [OF assms(1), of 0 c] assms by simp
  finally have "0 \<le> snd (chunk n c 0)" .
  then show "0 \<le> fst (chunk n c r)"
    using first_chunk [OF assms(1), of c] start_mono [OF assms(1), of 0 r c] assms by (cases "r = 0") auto
  have "fst (chunk n c (c - 1)) \<le> n"
    using ordered [OF assms(1), of "c - 1" c] last_chunk [OF assms(1), of c] assms by simp
  then show "snd (chunk n c r) \<le> n"
    using last_chunk [OF assms(1), of c] start_mono [OF assms(1,2), of "c - 1" c] assms by (cases "r = c - 1") auto
qed

lemma owner_unique:
  assumes "0 \<le> n" and "0 \<le> r" "r < c" and "0 \<le> r'" "r' < c"
    and "fst (chunk n c r) \<le> i" "i < snd (chunk n c r)"
    and "fst (chunk n c r') \<le> i" "i < snd (chunk n c r')"
  shows "r = r'"
  using start_mono [of n r r' c] start_mono [of n r' r c] assms by (cases r r' rule: linorder_cases) auto

lemma owner_exists:
  assumes "0 \<le> i" and "i < n" and "0 < c"
  shows "\<exists>r. 0 \<le> r \<and> r < c \<and> fst (chunk n c r) \<le> i \<and> i < snd (chunk n c r)"
proof -
  have n: "0 \<le> n" using assms by simp
  have "\<exists>r. 0 \<le> r \<and> r \<le> k \<and> fst (chunk n c r) \<le> i \<and> i < snd (chunk n c r)"
    if "0 \<le> k" "k < c" "i < snd (chunk n c k)" for k
    using that
  proof (induction "nat k" arbitrary: k)
    case 0
    then show ?case using first_chunk [OF n, of c] assms by (intro exI [of _ 0]) simp
  next
    case (Suc m)
    show ?case
    proof (cases "fst (chunk n c k) \<le> i")
      case True
      with Suc.prems show ?thesis by auto
    next
      case False
      then have "i < snd (chunk n c (k - 1))" using next_chunk [OF n, of "k - 1" c] Suc by simp
      with Suc.hyps(1) [of "k - 1"] Suc.hyps(2) Suc.prems show ?thesis by force
    qed
  qed
  from this [of "c - 1"] last_chunk [OF n assms(3)] assms show ?thesis by force
qed

lemma sizes_sum:
  assumes "0 \<le> n" and "0 < c"
  shows "(\<Sum>r\<leftarrow>py_range 0 c. snd (chunk n c r) - fst (chunk n c r)) = n"
proof -
  have "(\<Sum>r\<leftarrow>py_range 0 k. snd (chunk n c r) - fst (chunk n c r)) = (if k = 0 then 0 else snd (chunk n c (k - 1)))"
    if "0 \<le> k" "k \<le> c" for k
    using that
  proof (induction "nat k" arbitrary: k)
    case (Suc m)
    then have k: "0 < k" by simp
    then have "py_range 0 k = py_range 0 (k - 1) @ [k - 1]" using py_range_snoc [of 0 "k - 1"] by simp
    with Suc k first_chunk [OF assms] next_chunk [OF assms(1), of "k - 2" c] show ?case by simp
  qed simp
  from this [of c] last_chunk [OF assms] assms show ?thesis by simp
qed

end

lemma ceil_times:
  assumes "0 < (c :: int)"
  shows "n \<le> ((n + c - 1) div c) * c"
proof -
  have "(n + c - 1) div c * c = n + c - 1 - (n + c - 1) mod c" by (simp add: minus_mod_eq_div_mult)
  moreover have "(n + c - 1) mod c \<le> c - 1" using assms by simp
  ultimately show ?thesis by simp
qed

interpretation balanced: chunk_rule balanced_range
proof
  fix n c r :: int
  assume n: "0 \<le> n"
  show "fst (balanced_range n c 0) = 0" if "0 < c"
    using that by (simp add: balanced_range_def Let_def)
  show "snd (balanced_range n c (c - 1)) = n" if c: "0 < c"
  proof -
    have "n mod c \<le> c - 1" using c by simp
    then have "snd (balanced_range n c (c - 1)) = n div c * c + n mod c"
      by (simp add: balanced_range_def Let_def algebra_simps)
    then show ?thesis by simp
  qed
  show "fst (balanced_range n c (r + 1)) = snd (balanced_range n c r)" if "0 \<le> r" "r + 1 < c"
    using that by (auto simp: balanced_range_def Let_def algebra_simps min_def)
  show "fst (balanced_range n c r) \<le> snd (balanced_range n c r)" if "0 \<le> r" "r < c"
    using that n by (simp add: balanced_range_def Let_def pos_imp_zdiv_nonneg_iff)
qed

interpretation ceil: chunk_rule ceil_range
proof
  fix n c r :: int
  assume n: "0 \<le> n"
  have size: "0 \<le> (n + c - 1) div c" if "0 < c" using that n by (simp add: pos_imp_zdiv_nonneg_iff)
  show "fst (ceil_range n c 0) = 0" if "0 < c"
    using that n by (simp add: ceil_range_def Let_def)
  show "snd (ceil_range n c (c - 1)) = n" if c: "0 < c"
    using ceil_times [OF c, of n] size [OF c] by (simp add: ceil_range_def Let_def algebra_simps min_def)
  show "fst (ceil_range n c (r + 1)) = snd (ceil_range n c r)" if "0 \<le> r" "r + 1 < c"
    using that size by (simp add: ceil_range_def Let_def algebra_simps min_def)
  show "fst (ceil_range n c r) \<le> snd (ceil_range n c r)" if "0 \<le> r" "r < c"
    using that size by (simp add: ceil_range_def Let_def)
qed

section \<open>Row-major ranks\<close>

text \<open>The rank of a coordinate, the last dimension running fastest.\<close>

fun row_major :: "int list \<Rightarrow> int list \<Rightarrow> int" where
  "row_major (n # ns) (c # cs) = c * prod_list ns + row_major ns cs"
| "row_major _ _ = 0"

definition valid_coordinate :: "int list \<Rightarrow> int list \<Rightarrow> bool" where
  "valid_coordinate shape coordinate \<longleftrightarrow> list_all2 (\<lambda>n c. 0 \<le> c \<and> c < n) shape coordinate"

lemma prod_list_rev: "prod_list (rev ns) = prod_list (ns :: int list)"
  by (induction ns) (simp_all add: prod_list.append)

fun digits :: "int list \<Rightarrow> int \<Rightarrow> int list" where
  "digits [] r = []"
| "digits (n # ns) r = r mod n # digits ns (r div n)"

fun of_digits :: "int list \<Rightarrow> int list \<Rightarrow> int" where
  "of_digits (n # ns) (d # ds) = d + n * of_digits ns ds"
| "of_digits _ _ = 0"

lemma coordinate_loop_digits:
  "(\<forall>n \<in> set ns. 0 < n) \<Longrightarrow> coordinate_loop ns r acc = Inr (rev (digits ns r) @ acc)"
  by (induction ns arbitrary: r acc) auto

lemma digits_valid: "(\<forall>n \<in> set ns. 0 < n) \<Longrightarrow> list_all2 (\<lambda>n c. 0 \<le> c \<and> c < n) ns (digits ns r)"
  by (induction ns arbitrary: r) auto

lemma of_digits_digits:
  "(\<forall>n \<in> set ns. 0 < n) \<Longrightarrow> 0 \<le> r \<Longrightarrow> r < prod_list ns \<Longrightarrow> of_digits ns (digits ns r) = r"
proof (induction ns arbitrary: r)
  case (Cons n ns)
  have "r div n < prod_list ns"
  proof (rule ccontr)
    assume "\<not> r div n < prod_list ns"
    then have "n * prod_list ns \<le> n * (r div n)" using Cons.prems by (intro mult_left_mono) auto
    also have "\<dots> \<le> r"
    proof -
      have "0 \<le> r mod n" using Cons.prems(1) by simp
      with mult_div_mod_eq [of n r] show ?thesis by linarith
    qed
    finally show False using Cons.prems by simp
  qed
  moreover have "0 \<le> r div n" using Cons.prems by (simp add: pos_imp_zdiv_nonneg_iff)
  ultimately show ?case using Cons by simp
qed simp

lemma digits_of_digits:
  "list_all2 (\<lambda>n c. 0 \<le> c \<and> c < n) ns ds \<Longrightarrow> digits ns (of_digits ns ds) = ds"
  by (induction ns ds rule: list_all2_induct) auto

lemma of_digits_bound:
  "list_all2 (\<lambda>n c. 0 \<le> c \<and> c < n) ns ds \<Longrightarrow> 0 \<le> of_digits ns ds \<and> of_digits ns ds < prod_list ns"
proof (induction ns ds rule: list_all2_induct)
  case (Cons n ns d ds)
  have "d + n * of_digits ns ds < n + n * of_digits ns ds" using Cons by simp
  also have "\<dots> = n * (of_digits ns ds + 1)" by (simp add: algebra_simps)
  also have "\<dots> \<le> n * prod_list ns" using Cons by (intro mult_left_mono) auto
  finally show ?case using Cons by simp
qed simp

lemma of_digits_append:
  "length ns = length ds \<Longrightarrow> of_digits (ns @ [n]) (ds @ [d]) = of_digits ns ds + prod_list ns * d"
  by (induction ns ds rule: list_induct2) (auto simp: algebra_simps)

lemma row_major_digits:
  "length ns = length cs \<Longrightarrow> row_major ns cs = of_digits (rev ns) (rev cs)"
  by (induction ns cs rule: list_induct2) (auto simp: of_digits_append)

lemma valid_rev: "valid_coordinate shape coordinate \<longleftrightarrow>
    list_all2 (\<lambda>n c. 0 \<le> c \<and> c < n) (rev shape) (rev coordinate)"
  by (simp add: valid_coordinate_def list_all2_rev)

lemma valid_length: "valid_coordinate shape coordinate \<Longrightarrow> length coordinate = length shape"
  by (auto simp: valid_coordinate_def dest: list_all2_lengthD)

lemma coordinate_of_rank:
  assumes "\<forall>n \<in> set shape. 0 < n"
  shows "calculate_mesh_coordinate_for_rank shape r = Inr (rev (digits (rev shape) r))"
    and "valid_coordinate shape (rev (digits (rev shape) r))"
    and "0 \<le> r \<Longrightarrow> r < prod_list shape \<Longrightarrow> row_major shape (rev (digits (rev shape) r)) = r"
proof -
  have pos: "\<forall>n \<in> set (rev shape). 0 < n" using assms by simp
  show "calculate_mesh_coordinate_for_rank shape r = Inr (rev (digits (rev shape) r))"
    using coordinate_loop_digits [OF pos, of r "[]"] by (simp add: calculate_mesh_coordinate_for_rank_def)
  show valid: "valid_coordinate shape (rev (digits (rev shape) r))"
    using digits_valid [OF pos, of r] by (simp add: valid_rev)
  show "row_major shape (rev (digits (rev shape) r)) = r" if "0 \<le> r" "r < prod_list shape"
    using of_digits_digits [OF pos that(1)] that valid_length [OF valid]
    by (simp add: row_major_digits prod_list_rev)
qed

lemma rank_of_coordinate:
  assumes "\<forall>n \<in> set shape. 0 < n" and "valid_coordinate shape coordinate"
  shows "calculate_mesh_coordinate_for_rank shape (row_major shape coordinate) = Inr coordinate"
    and "0 \<le> row_major shape coordinate \<and> row_major shape coordinate < prod_list shape"
proof -
  have eq: "row_major shape coordinate = of_digits (rev shape) (rev coordinate)"
    using valid_length [OF assms(2)] by (simp add: row_major_digits)
  note valid = assms(2) [unfolded valid_rev]
  show "calculate_mesh_coordinate_for_rank shape (row_major shape coordinate) = Inr coordinate"
    using coordinate_of_rank(1) [OF assms(1)] digits_of_digits [OF valid] by (simp add: eq)
  show "0 \<le> row_major shape coordinate \<and> row_major shape coordinate < prod_list shape"
    using of_digits_bound [OF valid] by (simp add: eq prod_list_rev)
qed

section \<open>Slices as nested chunks\<close>

text \<open>The mesh axes a mapping names, in the order the slice is cut_along along them.\<close>

definition axes_of :: "int \<Rightarrow> dim_map \<Rightarrow> int list" where
  "axes_of ndim mapping = map (\<lambda>m. ndim - m - 1) (filter (\<lambda>m. m \<noteq> -1) (mapped_dims mapping))"

definition chunk_of :: "int set \<Rightarrow> int \<Rightarrow> int \<Rightarrow> int \<Rightarrow> int \<Rightarrow> int \<times> int" where
  "chunk_of uneven axis = (if axis \<in> uneven then ceil_range else balanced_range)"

definition cut_along :: "int list \<Rightarrow> int set \<Rightarrow> (int \<Rightarrow> int) \<Rightarrow> int \<Rightarrow> int \<times> int \<Rightarrow> int \<times> int" where
  "cut_along shape uneven f axis slice =
     (let (s, e) = slice; (cs, ce) = chunk_of uneven axis (e - s) (shape ! nat axis) (f axis)
      in (s + cs, s + ce))"

definition on_axes :: "int list \<Rightarrow> (int \<Rightarrow> int) \<Rightarrow> bool" where
  "on_axes shape f \<longleftrightarrow> (\<forall>a. 0 \<le> a \<and> a < int (length shape) \<longrightarrow> 0 \<le> f a \<and> f a < shape ! nat a)"

definition within :: "int \<Rightarrow> int \<times> int \<Rightarrow> bool" where
  "within i slice \<longleftrightarrow> fst slice \<le> i \<and> i < snd slice"

lemma refine_slice_cut:
  assumes "length coordinate = length shape" and "\<forall>n \<in> set shape. 0 < n"
    and "m \<noteq> -1 \<Longrightarrow> 0 \<le> m \<and> m < int (length shape)"
  shows "refine_slice shape coordinate uneven m slice =
    Inr (if m = -1 then slice else cut_along shape uneven (\<lambda>a. coordinate ! nat a) (int (length shape) - m - 1) slice)"
proof (cases "m = -1")
  case False
  with assms(3) have m: "0 \<le> m" "m < int (length shape)" by auto
  then have "shape ! nat (int (length shape) - m - 1) \<in> set shape" by (intro nth_mem) auto
  then have "0 < shape ! nat (int (length shape) - m - 1)" using assms(2) by blast
  then have "shape ! nat (int (length shape) - m - 1) \<noteq> 0" by simp
  with m False assms(1) show ?thesis
    by (simp add: refine_slice_def cut_along_def chunk_of_def infer_ceil_chunk_range_def
        infer_balanced_chunk_range_def Let_def case_prod_beta)
qed (simp add: refine_slice_def)

lemma dimension_slice_cut:
  assumes "length coordinate = length shape" and "\<forall>n \<in> set shape. 0 < n"
    and "\<forall>m \<in> set (mapped_dims mapping). m = -1 \<or> 0 \<le> m \<and> m < int (length shape)"
  shows "infer_tensor_dimension_slice n mapping shape coordinate uneven =
    Inr (fold (cut_along shape uneven (\<lambda>a. coordinate ! nat a)) (axes_of (int (length shape)) mapping) (0, n))"
proof -
  have "for_res (refine_slice shape coordinate uneven) ms slice =
      Inr (fold (cut_along shape uneven (\<lambda>a. coordinate ! nat a))
        (map (\<lambda>m. int (length shape) - m - 1) (filter (\<lambda>m. m \<noteq> -1) ms)) slice)"
    if "\<forall>m \<in> set ms. m = -1 \<or> 0 \<le> m \<and> m < int (length shape)" for ms slice
    using that
  proof (induction ms arbitrary: slice)
    case (Cons m ms)
    then have "refine_slice shape coordinate uneven m slice =
        Inr (if m = -1 then slice else cut_along shape uneven (\<lambda>a. coordinate ! nat a) (int (length shape) - m - 1) slice)"
      by (intro refine_slice_cut [OF assms(1,2)]) auto
    with Cons show ?case by simp
  qed simp
  from this [OF assms(3)] show ?thesis by (simp add: infer_tensor_dimension_slice_def axes_of_def)
qed

interpretation chosen: chunk_rule "chunk_of uneven axis" for uneven axis
  by (cases "axis \<in> uneven") (simp_all add: chunk_of_def balanced.chunk_rule_axioms ceil.chunk_rule_axioms)

lemma chunk_of_rule:
  assumes "0 \<le> n"
  shows "0 \<le> r \<Longrightarrow> r < c \<Longrightarrow> 0 \<le> fst (chunk_of uneven a n c r) \<and> snd (chunk_of uneven a n c r) \<le> n"
    and "0 \<le> r \<Longrightarrow> r < c \<Longrightarrow> fst (chunk_of uneven a n c r) \<le> snd (chunk_of uneven a n c r)"
    and "0 < c \<Longrightarrow> 0 \<le> i \<Longrightarrow> i < n \<Longrightarrow> \<exists>r. 0 \<le> r \<and> r < c \<and> within i (chunk_of uneven a n c r)"
    and "0 \<le> r \<Longrightarrow> r < c \<Longrightarrow> 0 \<le> r' \<Longrightarrow> r' < c \<Longrightarrow> within i (chunk_of uneven a n c r) \<Longrightarrow>
      within i (chunk_of uneven a n c r') \<Longrightarrow> r = r'"
  using chosen.inside [OF assms, where r = r and c = c and uneven = uneven and axis = a]
    chosen.ordered [OF assms, where r = r and c = c and uneven = uneven and axis = a]
    chosen.owner_exists [where i = i and n = n and c = c and uneven = uneven and axis = a]
    chosen.owner_unique [OF assms, where r = r and c = c and r' = r' and i = i and uneven = uneven and axis = a]
  unfolding within_def by auto

lemma cut_within:
  assumes "within i (cut_along shape uneven f a slice)" and "fst slice \<le> snd slice"
    and "0 \<le> f a" and "f a < shape ! nat a"
  shows "within i slice" and "fst (cut_along shape uneven f a slice) \<le> snd (cut_along shape uneven f a slice)"
  using assms(1) chunk_of_rule(1,2) [of "snd slice - fst slice" "f a" "shape ! nat a" uneven a] assms(2-)
  by (auto simp: cut_along_def within_def case_prod_beta)

text \<open>Along distinct axes every index has one owner coordinate per axis.\<close>

lemma cuts_own:
  assumes "distinct as" and "\<forall>a \<in> set as. 0 \<le> a \<and> a < int (length shape)"
    and "\<forall>n \<in> set shape. 0 < n" and "within i slice"
  shows "\<exists>f. on_axes shape f \<and> within i (fold (cut_along shape uneven f) as slice)"
  using assms(1,2,4)
proof (induction as arbitrary: slice)
  case Nil
  have "on_axes shape (\<lambda>_. 0)"
    using assms(3) by (auto simp: on_axes_def)
  with Nil show ?case by (intro exI [of _ "\<lambda>_. 0"]) simp
next
  case (Cons a as)
  obtain s e where slice: "slice = (s, e)" by (cases slice)
  have a: "0 \<le> a" "a < int (length shape)" using Cons.prems(2) by auto
  then have pos: "0 < shape ! nat a" using assms(3) by simp
  have "0 \<le> e - s" "0 \<le> i - s" "i - s < e - s" using Cons.prems(3) by (auto simp: within_def slice)
  from chunk_of_rule(3) [OF this(1) pos this(2,3), of uneven a]
  obtain r where r: "0 \<le> r" "r < shape ! nat a" "within (i - s) (chunk_of uneven a (e - s) (shape ! nat a) r)"
    by blast
  have cut_r: "cut_along shape uneven g a slice =
      (s + fst (chunk_of uneven a (e - s) (shape ! nat a) r), s + snd (chunk_of uneven a (e - s) (shape ! nat a) r))"
    if "g a = r" for g using that by (simp add: cut_along_def slice case_prod_beta)
  have "within i (cut_along shape uneven (\<lambda>_. r) a slice)" using r(3) by (auto simp: cut_r within_def)
  from Cons.IH [OF _ _ this] Cons.prems obtain f where f: "on_axes shape f"
    "within i (fold (cut_along shape uneven f) as (cut_along shape uneven (\<lambda>_. r) a slice))" by auto
  have same: "fold (cut_along shape uneven (f(a := r))) as sl = fold (cut_along shape uneven f) as sl" for sl
    using Cons.prems(1) by (intro fold_cong) (auto simp: cut_along_def)
  have "within i (fold (cut_along shape uneven (f(a := r))) (a # as) slice)"
    using f(2) same cut_r [of "\<lambda>_. r"] cut_r [of "f(a := r)"] by simp
  moreover have "on_axes shape (f(a := r))" using f(1) r a by (auto simp: on_axes_def)
  ultimately show ?case by blast
qed

lemma cuts_agree:
  assumes "\<forall>a \<in> set as. 0 \<le> a \<and> a < int (length shape)"
    and "on_axes shape f" and "on_axes shape g" and "fst slice \<le> snd slice"
    and "within i (fold (cut_along shape uneven f) as slice)" and "within i (fold (cut_along shape uneven g) as slice)"
  shows "\<forall>a \<in> set as. f a = g a"
  using assms(1,4-)
proof (induction as arbitrary: slice)
  case (Cons a as)
  have range_f: "0 \<le> f a" "f a < shape ! nat a" and range_g: "0 \<le> g a" "g a < shape ! nat a"
    using assms(2,3) Cons.prems(1) by (auto simp: on_axes_def)
  have deep: "within i sl" if "within i (fold (cut_along shape uneven h) bs sl)" "fst sl \<le> snd sl" "on_axes shape h"
    "\<forall>a \<in> set bs. 0 \<le> a \<and> a < int (length shape)" for h bs sl
    using that
  proof (induction bs arbitrary: sl)
    case (Cons b bs)
    have b: "0 \<le> h b" "h b < shape ! nat b" using Cons.prems by (auto simp: on_axes_def)
    have le: "fst (cut_along shape uneven h b sl) \<le> snd (cut_along shape uneven h b sl)"
      using chunk_of_rule(2) [of "snd sl - fst sl" "h b" "shape ! nat b" uneven b] Cons.prems(2) b
      by (simp add: cut_along_def case_prod_beta)
    have "within i (cut_along shape uneven h b sl)"
      by (rule Cons.IH) (use Cons.prems le in auto)
    from cut_within(1) [OF this Cons.prems(2) b] show ?case .
  qed simp
  have le: "fst (cut_along shape uneven h a slice) \<le> snd (cut_along shape uneven h a slice)"
    if "0 \<le> h a" "h a < shape ! nat a" for h
    using chunk_of_rule(2) [of "snd slice - fst slice" "h a" "shape ! nat a" uneven a] Cons.prems(2) that
    by (simp add: cut_along_def case_prod_beta)
  have "within i (cut_along shape uneven f a slice)"
    by (rule deep [of f as]) (use Cons.prems assms(2) le [of f, OF range_f] in auto)
  moreover have "within i (cut_along shape uneven g a slice)"
    by (rule deep [of g as]) (use Cons.prems assms(3) le [of g, OF range_g] in auto)
  ultimately have "f a = g a"
    using chunk_of_rule(4) [of "snd slice - fst slice" "f a" "shape ! nat a" "g a" "i - fst slice" uneven a]
      range_f range_g Cons.prems(2) by (auto simp: cut_along_def within_def case_prod_beta)
  moreover from this have "cut_along shape uneven f a slice = cut_along shape uneven g a slice" by (simp add: cut_along_def)
  ultimately show ?case
    using Cons.IH [of "cut_along shape uneven f a slice"] Cons.prems le [of f, OF range_f] by simp
qed simp

section \<open>Properties\<close>

lemma valid_on_axes:
  "valid_coordinate shape coordinate \<Longrightarrow> on_axes shape (\<lambda>a. coordinate ! nat a)"
  by (auto simp: valid_coordinate_def on_axes_def list_all2_conv_all_nth)

lemma valid_of_axes:
  assumes "on_axes shape f"
  shows "valid_coordinate shape (map f (py_range 0 (int (length shape))))"
  unfolding valid_coordinate_def list_all2_conv_all_nth
proof (intro conjI allI impI)
  fix k assume k: "k < length shape"
  then have "0 \<le> f (int k) \<and> f (int k) < shape ! nat (int k)"
    using assms [unfolded on_axes_def, rule_format, of "int k"] by simp
  with k show "0 \<le> map f (py_range 0 (int (length shape))) ! k" and
    "map f (py_range 0 (int (length shape))) ! k < shape ! k" by simp_all
qed simp

text \<open>
  A mesh of positive sizes and a tensor map that names every mesh dimension at most once.
\<close>

definition well_mapped :: "int list \<Rightarrow> dim_map list \<Rightarrow> bool" where
  "well_mapped shape tensor_map \<longleftrightarrow>
     (\<forall>n \<in> set shape. 0 < n) \<and>
     (\<forall>mapping \<in> set tensor_map. \<forall>m \<in> set (mapped_dims mapping). m = -1 \<or> 0 \<le> m \<and> m < int (length shape)) \<and>
     distinct (concat (map (axes_of (int (length shape))) tensor_map))"

definition owns ::
    "int list \<Rightarrow> dim_map list \<Rightarrow> int list \<Rightarrow> int list option \<Rightarrow> int \<Rightarrow> int list \<Rightarrow> bool" where
  "owns shape tensor_map full uneven rank index =
     (case infer_slice_area_by_rank shape tensor_map rank full uneven of
        Inl e \<Rightarrow> False
      | Inr area \<Rightarrow> list_all2 within index area)"

lemma slice_area_cuts:
  assumes "\<forall>n \<in> set shape. 0 < n"
    and range: "\<forall>mapping \<in> set tensor_map. \<forall>m \<in> set (mapped_dims mapping). m = -1 \<or> 0 \<le> m \<and> m < int (length shape)"
    and "length tensor_map = length full"
    and "calculate_mesh_coordinate_for_rank shape r = Inr coordinate" and "length coordinate = length shape"
    and u: "u = set (case uneven of None \<Rightarrow> [] | Some ds \<Rightarrow> ds)"
  shows "\<exists>area. infer_slice_area_by_rank shape tensor_map r full uneven = Inr area \<and> length area = length full \<and>
    (\<forall>j < length full. area ! j =
       fold (cut_along shape u (\<lambda>a. coordinate ! nat a)) (axes_of (int (length shape)) (tensor_map ! j)) (0, full ! j))"
proof -
  let ?g = "\<lambda>(d, n). fold (cut_along shape u (\<lambda>a. coordinate ! nat a))
    (axes_of (int (length shape)) (tensor_map ! nat d)) (0, n)"
  have "map_res (\<lambda>(tensor_dim, global_size). bind_res (py_nth tensor_map tensor_dim) (\<lambda>tensor_mapping.
      infer_tensor_dimension_slice global_size tensor_mapping shape coordinate u))
      (zip (py_range 0 (int (length full))) full) = Inr (map ?g (zip (py_range 0 (int (length full))) full))"
  proof (rule map_res_total)
    fix x assume "x \<in> set (zip (py_range 0 (int (length full))) full)"
    moreover obtain d n where x: "x = (d, n)" by (cases x)
    ultimately have "d \<in> set (py_range 0 (int (length full)))" by (auto dest: set_zip_leftD)
    with assms(3) have d: "0 \<le> d" "d < int (length tensor_map)" by simp_all
    then have "tensor_map ! nat d \<in> set tensor_map" by simp
    then have "\<forall>m \<in> set (mapped_dims (tensor_map ! nat d)). m = -1 \<or> 0 \<le> m \<and> m < int (length shape)"
      using range by blast
    from dimension_slice_cut [OF assms(5,1) this] d
    show "(case x of (tensor_dim, global_size) \<Rightarrow> bind_res (py_nth tensor_map tensor_dim) (\<lambda>tensor_mapping.
      infer_tensor_dimension_slice global_size tensor_mapping shape coordinate u)) = Inr (?g x)"
      by (simp add: x)
  qed
  then show ?thesis
    unfolding infer_slice_area_by_rank_def u [symmetric] Let_def assms(4) by simp
qed

lemma slice_area_eq:
  assumes "well_mapped shape tensor_map" and "length tensor_map = length full"
    and "calculate_mesh_coordinate_for_rank shape r = Inr coordinate" and "length coordinate = length shape"
    and "u = set (case uneven of None \<Rightarrow> [] | Some ds \<Rightarrow> ds)"
  shows "\<exists>area. infer_slice_area_by_rank shape tensor_map r full uneven = Inr area \<and> length area = length full \<and>
    (\<forall>j < length full. area ! j =
       fold (cut_along shape u (\<lambda>a. coordinate ! nat a)) (axes_of (int (length shape)) (tensor_map ! j)) (0, full ! j))"
  using assms by (intro slice_area_cuts) (auto simp: well_mapped_def)

lemma owns_iff:
  assumes "well_mapped shape tensor_map" and "length tensor_map = length full" and "length index = length full"
    and "calculate_mesh_coordinate_for_rank shape r = Inr coordinate" and "length coordinate = length shape"
  shows "owns shape tensor_map full uneven r index \<longleftrightarrow>
    (\<forall>j < length full. within (index ! j)
       (fold (cut_along shape (set (case uneven of None \<Rightarrow> [] | Some ds \<Rightarrow> ds)) (\<lambda>a. coordinate ! nat a))
          (axes_of (int (length shape)) (tensor_map ! j)) (0, full ! j)))"
  using slice_area_eq [OF assms(1,2,4,5) refl, of uneven] assms(3)
  by (auto simp: owns_def list_all2_conv_all_nth)

lemma well_mapped_axes:
  assumes "well_mapped shape tensor_map" and "j < length tensor_map"
  shows "distinct (axes_of (int (length shape)) (tensor_map ! j))"
    and "\<forall>a \<in> set (axes_of (int (length shape)) (tensor_map ! j)). 0 \<le> a \<and> a < int (length shape)"
    and "k < length tensor_map \<Longrightarrow> a \<in> set (axes_of (int (length shape)) (tensor_map ! j)) \<Longrightarrow>
      a \<in> set (axes_of (int (length shape)) (tensor_map ! k)) \<Longrightarrow> k = j"
proof -
  have mem: "tensor_map ! j \<in> set tensor_map" using assms(2) by simp
  have dist: "distinct (concat (map (axes_of (int (length shape))) tensor_map))"
    using assms(1) by (simp add: well_mapped_def)
  then show "distinct (axes_of (int (length shape)) (tensor_map ! j))"
    using mem by (simp add: distinct_concat_iff)
  have "\<forall>m \<in> set (mapped_dims (tensor_map ! j)). m = -1 \<or> 0 \<le> m \<and> m < int (length shape)"
    using assms(1) mem unfolding well_mapped_def by blast
  then show "\<forall>a \<in> set (axes_of (int (length shape)) (tensor_map ! j)). 0 \<le> a \<and> a < int (length shape)"
    by (auto simp: axes_of_def)
  have once: "k = j" if "distinct (concat xss)" "j < length xss" "k < length xss" "a \<in> set (xss ! j)" "a \<in> set (xss ! k)"
    for xss :: "int list list" and j k a
    using that
  proof (induction xss arbitrary: j k)
    case (Cons xs xss)
    show ?case
    proof (cases j)
      case 0
      show ?thesis
      proof (cases k)
        case (Suc k')
        with Cons.prems 0 have "a \<in> set xs" "a \<in> set (concat xss)" by (auto intro: nth_mem)
        with Cons.prems(1) show ?thesis by auto
      qed (simp add: 0)
    next
      case (Suc j')
      show ?thesis
      proof (cases k)
        case 0
        with Cons.prems Suc have "a \<in> set xs" "a \<in> set (concat xss)" by (auto intro: nth_mem)
        with Cons.prems(1) show ?thesis by auto
      next
        case (Suc k')
        with Cons.IH [of j' k'] Cons.prems \<open>j = Suc j'\<close> show ?thesis by simp
      qed
    qed
  qed simp
  show "k = j" if "k < length tensor_map" "a \<in> set (axes_of (int (length shape)) (tensor_map ! j))"
    "a \<in> set (axes_of (int (length shape)) (tensor_map ! k))"
    using once [OF dist] that assms(2) by simp
qed

lemma slices_partition:
  assumes "well_mapped shape tensor_map" and "length tensor_map = length full"
    and "list_all2 (\<lambda>n i. 0 \<le> i \<and> i < n) full index"
  shows "(\<exists>r. 0 \<le> r \<and> r < prod_list shape \<and> owns shape tensor_map full uneven r index) \<and>
    (\<forall>r r' c c'. calculate_mesh_coordinate_for_rank shape r = Inr c \<and>
       calculate_mesh_coordinate_for_rank shape r' = Inr c' \<and> owns shape tensor_map full uneven r index \<longrightarrow>
       (owns shape tensor_map full uneven r' index \<longleftrightarrow>
          (\<forall>a \<in> set (concat (map (axes_of (int (length shape))) tensor_map)). c ! nat a = c' ! nat a)))"
proof
  define u where "u = set (case uneven of None \<Rightarrow> [] | Some ds \<Rightarrow> ds)"
  define axes where "axes j = axes_of (int (length shape)) (tensor_map ! j)" for j
  have pos: "\<forall>n \<in> set shape. 0 < n" using assms(1) by (simp add: well_mapped_def)
  have len: "length index = length full" using assms(3) by (simp add: list_all2_conv_all_nth)
  have idx: "within (index ! j) (0, full ! j)" if "j < length full" for j
    using that assms(3) by (simp add: list_all2_conv_all_nth within_def)
  note wm = well_mapped_axes [OF assms(1), unfolded assms(2), folded axes_def]
  show "\<exists>r. 0 \<le> r \<and> r < prod_list shape \<and> owns shape tensor_map full uneven r index"
  proof -
    have "\<forall>j. \<exists>f. j < length full \<longrightarrow> on_axes shape f \<and> within (index ! j) (fold (cut_along shape u f) (axes j) (0, full ! j))"
    proof
      fix j
      show "\<exists>f. j < length full \<longrightarrow> on_axes shape f \<and> within (index ! j) (fold (cut_along shape u f) (axes j) (0, full ! j))"
      proof (cases "j < length full")
        case True
        obtain f where "on_axes shape f \<and> within (index ! j) (fold (cut_along shape u f) (axes j) (0, full ! j))"
          using cuts_own [OF wm(1) [OF True] wm(2) [OF True] pos idx [OF True], of u] by (rule exE)
        then show ?thesis by (intro exI [of _ f] impI)
      qed simp
    qed
    then obtain G where G: "\<And>j. j < length full \<Longrightarrow> on_axes shape (G j) \<and>
        within (index ! j) (fold (cut_along shape u (G j)) (axes j) (0, full ! j))" by metis
    define f where "f = (\<lambda>a. if \<exists>j < length full. a \<in> set (axes j)
        then G (SOME j. j < length full \<and> a \<in> set (axes j)) a else 0)"
    have f_eq: "f a = G j a" if "j < length full" "a \<in> set (axes j)" for j a
    proof -
      have "(SOME j. j < length full \<and> a \<in> set (axes j)) = j"
        using that wm(3) by (intro some_equality) blast+
      with that show ?thesis by (auto simp: f_def)
    qed
    have f_ok: "on_axes shape f"
      unfolding on_axes_def
    proof (intro allI impI)
      fix a assume a: "0 \<le> a \<and> a < int (length shape)"
      show "0 \<le> f a \<and> f a < shape ! nat a"
      proof (cases "\<exists>j < length full. a \<in> set (axes j)")
        case True
        then obtain j where j: "j < length full" "a \<in> set (axes j)" by blast
        with G [OF j(1)] f_eq [OF j] a show ?thesis by (simp add: on_axes_def)
      next
        case False
        have "shape ! nat a \<in> set shape" using a by (intro nth_mem) auto
        moreover have "f a = 0" using False unfolding f_def by (rule if_not_P)
        ultimately show ?thesis using pos by simp
      qed
    qed
    define c where "c = map f (py_range 0 (int (length shape)))"
    have c_ok: "valid_coordinate shape c" unfolding c_def by (rule valid_of_axes [OF f_ok])
    have c_nth: "c ! nat a = f a" if "a \<in> set (axes j)" "j < length full" for a j
      using bspec [OF wm(2) [OF that(2)] that(1)] by (simp add: c_def nat_less_iff)
    note rank = rank_of_coordinate [OF pos c_ok]
    have "within (index ! j) (fold (cut_along shape u (\<lambda>a. c ! nat a)) (axes j) (0, full ! j))"
      if j: "j < length full" for j
    proof -
      have "fold (cut_along shape u (\<lambda>a. c ! nat a)) (axes j) sl = fold (cut_along shape u (G j)) (axes j) sl" for sl
        using c_nth [OF _ j] f_eq [OF j] by (intro fold_cong) (auto simp: cut_along_def)
      with G [OF j] show ?thesis by simp
    qed
    then have "owns shape tensor_map full uneven (row_major shape c) index"
      using owns_iff [OF assms(1,2) len rank(1) valid_length [OF c_ok], of uneven] by (simp add: u_def axes_def)
    with rank(2) show ?thesis by blast
  qed
  show "\<forall>r r' c c'. calculate_mesh_coordinate_for_rank shape r = Inr c \<and>
       calculate_mesh_coordinate_for_rank shape r' = Inr c' \<and> owns shape tensor_map full uneven r index \<longrightarrow>
       (owns shape tensor_map full uneven r' index \<longleftrightarrow>
          (\<forall>a \<in> set (concat (map (axes_of (int (length shape))) tensor_map)). c ! nat a = c' ! nat a))"
  proof (intro allI impI)
    fix r r' c c'
    assume prem: "calculate_mesh_coordinate_for_rank shape r = Inr c \<and>
       calculate_mesh_coordinate_for_rank shape r' = Inr c' \<and> owns shape tensor_map full uneven r index"
    have valid: "valid_coordinate shape c" "valid_coordinate shape c'"
      using prem coordinate_of_rank(1,2) [OF pos, of r] coordinate_of_rank(1,2) [OF pos, of r'] by auto
    from prem have coord: "calculate_mesh_coordinate_for_rank shape r = Inr c"
      "calculate_mesh_coordinate_for_rank shape r' = Inr c'" and own: "owns shape tensor_map full uneven r index"
      by blast+
    note own_r = owns_iff [OF assms(1,2) len coord(1) valid_length [OF valid(1)], of uneven, folded u_def axes_def]
    note own_r' = owns_iff [OF assms(1,2) len coord(2) valid_length [OF valid(2)], of uneven, folded u_def axes_def]
    have all_axes: "set (concat (map (axes_of (int (length shape))) tensor_map)) = (\<Union>j \<in> {..<length full}. set (axes j))"
      unfolding axes_def assms(2) [symmetric] set_concat set_map image_image set_conv_nth [of tensor_map] by blast
    show "owns shape tensor_map full uneven r' index \<longleftrightarrow>
        (\<forall>a \<in> set (concat (map (axes_of (int (length shape))) tensor_map)). c ! nat a = c' ! nat a)"
    proof
      assume own': "owns shape tensor_map full uneven r' index"
      have "\<forall>a \<in> set (axes j). c ! nat a = c' ! nat a" if j: "j < length full" for j
      proof (rule cuts_agree [OF wm(2) [OF j] valid_on_axes [OF valid(1)] valid_on_axes [OF valid(2)]])
        show "within (index ! j) (fold (cut_along shape u (\<lambda>a. c ! nat a)) (axes j) (0, full ! j))"
          using own_r own j by blast
        show "within (index ! j) (fold (cut_along shape u (\<lambda>a. c' ! nat a)) (axes j) (0, full ! j))"
          using own_r' own' j by blast
        show "fst (0, full ! j) \<le> snd (0, full ! j)" using idx [OF j] by (simp add: within_def)
      qed
      then show "\<forall>a \<in> set (concat (map (axes_of (int (length shape))) tensor_map)). c ! nat a = c' ! nat a"
        unfolding all_axes by blast
    next
      assume same: "\<forall>a \<in> set (concat (map (axes_of (int (length shape))) tensor_map)). c ! nat a = c' ! nat a"
      have "fold (cut_along shape u (\<lambda>a. c' ! nat a)) (axes j) sl = fold (cut_along shape u (\<lambda>a. c ! nat a)) (axes j) sl"
        if "j < length full" for j sl
        using same that unfolding all_axes by (intro fold_cong) (auto simp: cut_along_def)
      then show "owns shape tensor_map full uneven r' index" using own_r own unfolding own_r' by simp
    qed
  qed
qed

text \<open>
  C7: the slices of the ranks cover the tensor and overlap only by replication: for a mesh of
  positive sizes and a tensor map that uses every mesh dimension at most once, every element of the
  tensor lies in the slice of some rank of the mesh, and if it lies in the slice of rank \<open>r\<close>, it lies
  in the slice of \<open>r'\<close> exactly when the two ranks agree on every mesh axis the tensor map uses. This
  holds with balanced and with ceil chunks, in any mix.
\<close>

theorem slice_area_partition:
  assumes "well_mapped shape tensor_map" and "length tensor_map = length full"
    and "list_all2 (\<lambda>n i. 0 \<le> i \<and> i < n) full index"
  shows "(\<exists>r. 0 \<le> r \<and> r < prod_list shape \<and> owns shape tensor_map full uneven r index) \<and>
    (\<forall>r r' c c'. calculate_mesh_coordinate_for_rank shape r = Inr c \<and>
       calculate_mesh_coordinate_for_rank shape r' = Inr c' \<and> owns shape tensor_map full uneven r index \<longrightarrow>
       (owns shape tensor_map full uneven r' index \<longleftrightarrow>
          (\<forall>a \<in> set (concat (map (axes_of (int (length shape))) tensor_map)). c ! nat a = c' ! nat a)))"
  by (rule slices_partition [OF assms])

theorem slice_area_partition_witness:
  "\<exists>r. 0 \<le> r \<and> r < 8 \<and> owns [2, 2, 2] [Many [2, 0], One (-1)] [5, 3] (Some [0]) r [4, 2]"
  using conjunct1 [OF slice_area_partition [of "[2, 2, 2]" "[Many [2, 0], One (-1)]" "[5, 3]" "[4, 2]" "Some [0]"]]
  by (simp add: well_mapped_def axes_of_def)

text \<open>
  the mesh coordinate of a rank is its row-major coordinate: for positive mesh sizes the loop
  returns a coordinate within the mesh, the rank can be read back from it, and every coordinate of
  the mesh is the coordinate of its row-major rank.
\<close>

theorem mesh_coordinate_roundtrip:
  assumes "\<forall>n \<in> set shape. 0 < n"
  shows "(\<exists>c. calculate_mesh_coordinate_for_rank shape r = Inr c \<and> valid_coordinate shape c \<and>
      (0 \<le> r \<and> r < prod_list shape \<longrightarrow> row_major shape c = r)) \<and>
    (valid_coordinate shape coordinate \<longrightarrow>
      calculate_mesh_coordinate_for_rank shape (row_major shape coordinate) = Inr coordinate \<and>
      0 \<le> row_major shape coordinate \<and> row_major shape coordinate < prod_list shape)"
  using coordinate_of_rank [OF assms] rank_of_coordinate [OF assms] by blast

theorem mesh_coordinate_roundtrip_witness:
  "calculate_mesh_coordinate_for_rank [2, 3, 4] (row_major [2, 3, 4] [1, 0, 3]) = Inr [1, 0, 3]"
  using mesh_coordinate_roundtrip [of "[2, 3, 4]" 0 "[1, 0, 3]"] by (simp add: valid_coordinate_def)

text \<open>
  the sizes of the chunks. Balanced chunks of one tensor differ by at most one element and do not
  grow with the rank; ceil chunks have the rounded-up size until the tensor is used up: the first
  chunk that is shorter ends at the tensor size, and all later ones are empty. Both add up to the
  tensor size.
\<close>

definition chunk_size :: "int \<times> int \<Rightarrow> int" where
  "chunk_size r = snd r - fst r"

theorem chunk_sizes:
  assumes "0 \<le> n" and "0 < c" and "0 \<le> r" and "r \<le> r'" and "r' < c"
  shows "chunk_size (balanced_range n c r') \<le> chunk_size (balanced_range n c r) \<and>
    chunk_size (balanced_range n c r) \<le> chunk_size (balanced_range n c r') + 1 \<and>
    chunk_size (ceil_range n c r) \<le> (n + c - 1) div c \<and>
    (r < r' \<and> chunk_size (ceil_range n c r) < (n + c - 1) div c \<longrightarrow>
       snd (ceil_range n c r) = n \<and> chunk_size (ceil_range n c r') = 0) \<and>
    (\<Sum>k\<leftarrow>py_range 0 c. chunk_size (balanced_range n c k)) = n \<and>
    (\<Sum>k\<leftarrow>py_range 0 c. chunk_size (ceil_range n c k)) = n"
proof -
  let ?s = "(n + c - 1) div c"
  have s: "0 \<le> ?s" using assms(1,2) by (simp add: pos_imp_zdiv_nonneg_iff)
  have mono: "r * ?s + ?s \<le> r' * ?s" if "r < r'"
  proof -
    have "(r + 1) * ?s \<le> r' * ?s" using that s by (intro mult_right_mono) auto
    then show ?thesis by (simp add: algebra_simps)
  qed
  have "snd (ceil_range n c r) = n \<and> chunk_size (ceil_range n c r') = 0"
    if "r < r'" "chunk_size (ceil_range n c r) < ?s"
    using that mono s by (auto simp: chunk_size_def ceil_range_def Let_def min_def split: if_splits)
  moreover have "chunk_size (ceil_range n c r) \<le> ?s"
    using s by (simp add: chunk_size_def ceil_range_def Let_def)
  ultimately show ?thesis
    using balanced.sizes_sum [OF assms(1,2)] ceil.sizes_sum [OF assms(1,2)] assms(4)
    by (auto simp: chunk_size_def balanced_range_def Let_def)
qed

theorem chunk_sizes_witness:
  "chunk_size (ceil_range 5 4 3) = 0 \<and> chunk_size (balanced_range 5 4 0) \<le> chunk_size (balanced_range 5 4 3) + 1"
  using chunk_sizes [of 5 4 2 3] chunk_sizes [of 5 4 0 3] by (simp add: chunk_size_def ceil_range_def)

end
