(* ===== verification/Mesh_Layout.thy ===== *)
theory Mesh_Layout
  imports Hyper_Prelude "HOL-Library.Product_Lexorder"
begin

text \<open>
  core/dtensor/_mesh_layout.py: nested shape and stride tuples, the canonical flat layout of one mesh
  axis, and the layout operations DeviceMesh slicing is built from.

  An \<open>IntTuple\<close> is a tree; the booleans the code keeps out of its integers have no value here.
  \<open>_numel\<close> multiplies in 64-bit integers and wraps around. A layout is built by the constructor
  only, which refuses a shape and a stride of different structure; the branches that would need such
  a pair raise TypeError, as the code does.
\<close>

section \<open>Nested tuples\<close>

datatype int_tuple = Leaf int | Tup "int_tuple list"

fun is_leaf :: "int_tuple \<Rightarrow> bool" where
  "is_leaf (Leaf n) = True"
| "is_leaf (Tup ts) = False"

fun as_tuple :: "int_tuple \<Rightarrow> int_tuple list" where
  "as_tuple (Leaf n) = [Leaf n]"
| "as_tuple (Tup ts) = ts"

fun flatten_inttuple :: "int_tuple \<Rightarrow> int list" where
  "flatten_inttuple (Leaf n) = [n]"
| "flatten_inttuple (Tup ts) = concat (map flatten_inttuple ts)"

lemma zip_size [termination_simp]:
  "(s, d) \<in> set (zip ss ds) \<Longrightarrow> size s < Suc (size_list size ss)"
  by (auto dest!: set_zip_leftD intro: size_list_estimation' simp: less_Suc_eq_le)

fun match_structure :: "int_tuple \<Rightarrow> int_tuple \<Rightarrow> bool" where
  "match_structure (Leaf n) stride = is_leaf stride"
| "match_structure (Tup ss) (Leaf d) = False"
| "match_structure (Tup ss) (Tup ds) =
     (length ss = length ds \<and> (\<forall>(s, d) \<in> set (zip ss ds). match_structure s d))"

definition fits_int64 :: "int \<Rightarrow> bool" where
  "fits_int64 n \<longleftrightarrow> - (2 ^ 63) \<le> n \<and> n < 2 ^ 63"

definition numel :: "int_tuple \<Rightarrow> int result" where
  "numel value =
     (let flat = flatten_inttuple value in
      if \<exists>n \<in> set flat. \<not> fits_int64 n then Inl OverflowError
      else Inr ((prod_list flat + 2 ^ 63) mod 2 ^ 64 - 2 ^ 63))"

fun contiguous_strides :: "int list \<Rightarrow> int list" where
  "contiguous_strides [] = []"
| "contiguous_strides [n] = [1]"
| "contiguous_strides (n # m # ns) = (let strides = contiguous_strides (m # ns) in hd strides * m # strides)"

fun scale_inttuple :: "int_tuple \<Rightarrow> int \<Rightarrow> int_tuple" where
  "scale_inttuple (Leaf n) factor = Leaf (n * factor)"
| "scale_inttuple (Tup ts) factor = Tup (map (\<lambda>t. scale_inttuple t factor) ts)"

text \<open>All sums of an element of the first list and one of the second, the second running faster.\<close>

definition cross :: "int list \<Rightarrow> int list \<Rightarrow> int list" where
  "cross offsets dim_offsets = concat (map (\<lambda>base. map (\<lambda>d. base + d) dim_offsets) offsets)"

fun enumerate_offsets :: "int_tuple \<Rightarrow> int_tuple \<Rightarrow> int list result" where
  "enumerate_offsets (Leaf n) (Leaf d) = Inr (map (\<lambda>i. i * d) (py_range 0 n))"
| "enumerate_offsets (Leaf n) (Tup ds) = (if 0 < n then Inl TypeError else Inr [])"
| "enumerate_offsets (Tup ss) stride =
     for_res (\<lambda>(s, d) offsets.
         bind_res (enumerate_offsets s d) (\<lambda>dim_offsets. Inr (cross offsets dim_offsets)))
       (zip ss (as_tuple stride)) [0]"

section \<open>Flat layouts\<close>

definition nested_from_flat :: "int list \<Rightarrow> int_tuple" where
  "nested_from_flat value = (case value of [n] \<Rightarrow> Leaf n | _ \<Rightarrow> Tup (map Leaf value))"

definition coalesce_step :: "int \<times> int \<Rightarrow> (int \<times> int) list \<Rightarrow> (int \<times> int) list" where
  "coalesce_step axis acc =
     (let (n, step) = axis in
      if acc \<noteq> [] \<and> snd (last acc) = step * n then butlast acc @ [(fst (last acc) * n, step)]
      else acc @ [(n, step)])"

definition canonicalize_axis :: "int_tuple \<Rightarrow> int_tuple option \<Rightarrow> (int \<times> int) list result" where
  "canonicalize_axis shape stride =
     (let flat_shape = flatten_inttuple shape;
          flat_stride = (case stride of None \<Rightarrow> contiguous_strides flat_shape | Some d \<Rightarrow> flatten_inttuple d)
      in if length flat_shape \<noteq> length flat_stride then Inl ValueError
         else bind_res
           (for_res (\<lambda>(n, step) normalized.
               if n < 0 then Inl ValueError
               else if n = 1 then Inr normalized
               else Inr (normalized @ [(n, step)]))
             (zip flat_shape flat_stride) [])
           (\<lambda>normalized. Inr (fold coalesce_step normalized [])))"

record flat_layout =
  flat_shape :: "int list"
  flat_stride :: "int list"

definition make_flat_layout :: "int_tuple \<Rightarrow> int_tuple option \<Rightarrow> flat_layout result" where
  "make_flat_layout shape stride =
     bind_res (canonicalize_axis shape stride) (\<lambda>axes.
       Inr \<lparr>flat_shape = map fst axes, flat_stride = map snd axes\<rparr>)"

definition flat_numel :: "flat_layout \<Rightarrow> int" where
  "flat_numel l = prod_list (flat_shape l)"

text \<open>\<open>np.ndindex\<close> counts the last coordinate fastest.\<close>

fun ndindex :: "int list \<Rightarrow> int list list" where
  "ndindex [] = [[]]"
| "ndindex (n # ns) = concat (map (\<lambda>i. map (\<lambda>rest. i # rest) (ndindex ns)) (py_range 0 n))"

definition flat_ranks :: "flat_layout \<Rightarrow> int list" where
  "flat_ranks l =
     (if flat_shape l = [] then [0]
      else map (\<lambda>coord. sum_list (map2 (*) coord (flat_stride l))) (ndindex (flat_shape l)))"

definition cosize :: "flat_layout \<Rightarrow> int" where
  "cosize l = (let ranks = flat_ranks l in if ranks = [] then 1 else Max (set ranks) + 1)"

definition check_sorted :: "flat_layout \<Rightarrow> bool" where
  "check_sorted l \<longleftrightarrow> rev (sort (flat_stride l)) = flat_stride l"

text \<open>\<open>all()\<close> stops at the first false condition; a zero divisor before it raises.\<close>

fun divides_chain :: "(int \<times> int) list \<Rightarrow> bool result" where
  "divides_chain ((d, n) # (d', n') # rest) =
     (if d' * n' = 0 then Inl ZeroDivisionError
      else if d mod (d' * n') = 0 then divides_chain ((d', n') # rest)
      else Inr False)"
| "divides_chain _ = Inr True"

definition check_orthogonal :: "flat_layout \<Rightarrow> bool result" where
  "check_orthogonal l =
     (if length (flat_shape l) < 2 then Inr True
      else divides_chain (rev (sort (zip (flat_stride l) (flat_shape l)))))"

section \<open>Mesh layouts\<close>

record mesh_layout =
  shape :: int_tuple
  stride :: int_tuple

definition make_layout :: "int_tuple \<Rightarrow> int_tuple \<Rightarrow> mesh_layout result" where
  "make_layout s d = (if match_structure s d then Inr \<lparr>shape = s, stride = d\<rparr> else Inl ValueError)"

definition layout_of_axes :: "flat_layout list \<Rightarrow> mesh_layout result" where
  "layout_of_axes axes =
     make_layout (Tup (map (\<lambda>a. nested_from_flat (flat_shape a)) axes))
       (Tup (map (\<lambda>a. nested_from_flat (flat_stride a)) axes))"

definition from_sizes_strides :: "int list \<Rightarrow> int list option \<Rightarrow> mesh_layout result" where
  "from_sizes_strides sizes strides =
     make_layout (Tup (map Leaf sizes))
       (Tup (map Leaf (case strides of None \<Rightarrow> contiguous_strides sizes | Some ds \<Rightarrow> ds)))"

definition layout_len :: "mesh_layout \<Rightarrow> nat" where
  "layout_len l = (case shape l of Leaf n \<Rightarrow> 1 | Tup ss \<Rightarrow> length ss)"

definition layout_getitem :: "mesh_layout \<Rightarrow> int \<Rightarrow> mesh_layout result" where
  "layout_getitem l idx =
     (case shape l of
        Tup ss \<Rightarrow>
          if idx < - int (length ss) \<or> int (length ss) \<le> idx then Inl IndexError
          else bind_res (py_nth ss idx) (\<lambda>s. bind_res (py_nth (as_tuple (stride l)) idx) (\<lambda>d. make_layout s d))
      | Leaf n \<Rightarrow>
          if idx \<noteq> 0 \<and> idx \<noteq> -1 then Inl IndexError else make_layout (shape l) (stride l))"

definition layout_iter :: "mesh_layout \<Rightarrow> mesh_layout list result" where
  "layout_iter l = map_res (layout_getitem l) (py_range 0 (int (layout_len l)))"

definition collapse :: "mesh_layout \<Rightarrow> flat_layout result" where
  "collapse l = make_flat_layout (shape l) (Some (stride l))"

definition layout_axes :: "mesh_layout \<Rightarrow> flat_layout list result" where
  "layout_axes l = bind_res (layout_iter l) (map_res collapse)"

definition top_level_sizes :: "mesh_layout \<Rightarrow> int list result" where
  "top_level_sizes l = bind_res (layout_iter l) (map_res (\<lambda>axis. numel (shape axis)))"

definition all_ranks_from_zero :: "mesh_layout \<Rightarrow> int list result" where
  "all_ranks_from_zero l = enumerate_offsets (shape l) (stride l)"

definition check_non_overlap :: "mesh_layout \<Rightarrow> bool result" where
  "check_non_overlap l = bind_res (all_ranks_from_zero l) (\<lambda>ranks. Inr (distinct ranks))"

definition merge_axes :: "int_tuple \<times> int_tuple \<Rightarrow> (int_tuple \<times> int_tuple) list \<Rightarrow> (int_tuple \<times> int_tuple) list" where
  "merge_axes axis merged =
     (case axis of
        (Leaf n, Leaf d) \<Rightarrow>
          (if merged = [] then [axis]
           else case last merged of
             (Leaf m, Leaf e) \<Rightarrow>
               if e = d * n then butlast merged @ [(Leaf (m * n), Leaf d)] else merged @ [axis]
           | _ \<Rightarrow> merged @ [axis])
      | _ \<Rightarrow> merged @ [axis])"

fun coalesce :: "int_tuple \<Rightarrow> int_tuple \<Rightarrow> (int_tuple \<times> int_tuple) result" where
  "coalesce (Leaf n) d = Inr (Leaf n, d)"
| "coalesce (Tup ss) (Leaf d) = Inl TypeError"
| "coalesce (Tup ss) (Tup ds) =
     bind_res (map_res (\<lambda>(s, d). coalesce s d) (zip ss ds)) (\<lambda>children.
       let merged = fold merge_axes children [] in
       Inr (case merged of [axis] \<Rightarrow> axis | _ \<Rightarrow> (Tup (map fst merged), Tup (map snd merged))))"

definition layout_coalesce :: "mesh_layout \<Rightarrow> mesh_layout result" where
  "layout_coalesce l = bind_res (coalesce (shape l) (stride l)) (\<lambda>(s, d). make_layout s d)"

definition composition :: "mesh_layout \<Rightarrow> mesh_layout \<Rightarrow> mesh_layout result" where
  "composition l layout =
     (case stride l of
        Leaf d \<Rightarrow> make_layout (shape layout) (scale_inttuple (stride layout) d)
      | Tup ds \<Rightarrow> Inl NotImplementedError)"

definition nest :: "mesh_layout \<Rightarrow> mesh_layout result" where
  "nest l = (if layout_len l = 1 then Inr l else make_layout (Tup [shape l]) (Tup [stride l]))"

definition splice :: "mesh_layout \<Rightarrow> int \<Rightarrow> int \<Rightarrow> mesh_layout \<Rightarrow> mesh_layout result" where
  "splice l start end_index layout =
     (let sizes = slice_assign (as_tuple (shape l)) start end_index (as_tuple (shape layout));
          strides = slice_assign (as_tuple (stride l)) start end_index (as_tuple (stride layout))
      in if length sizes = 1 then make_layout (hd sizes) (hd strides)
         else make_layout (Tup sizes) (Tup strides))"

section \<open>Remapping to ranks\<close>

text \<open>One anchor of the greedy grouping.\<close>

definition remap_step :: "int \<Rightarrow> int list \<Rightarrow> int \<Rightarrow> int list list \<times> int set \<Rightarrow> int list list \<times> int set" where
  "remap_step world base_offsets anchor st =
     (let (groups, used) = st; grp = map (\<lambda>offset. anchor + offset) base_offsets in
      if anchor \<in> used then st
      else if \<exists>index \<in> set grp. world \<le> index then st
      else if \<exists>index \<in> set grp. index \<in> used then st
      else (groups @ [grp], used \<union> set grp))"

text \<open>
  The array of the groups is indexed into the rank map (a negative index counts from its end) and
  reshaped; the result is kept as its rows with the shape the code asks for.
\<close>

definition remap_to_numpy :: "mesh_layout \<Rightarrow> 'a list \<Rightarrow> ('a list list \<times> int list) result" where
  "remap_to_numpy l rank_map =
     bind_res (all_ranks_from_zero l) (\<lambda>base_offsets.
       if base_offsets = [] then Inl ValueError
       else
         let world = int (length rank_map);
             (groups, used) = fold (remap_step world base_offsets) (py_range 0 world) ([], {})
         in if int (card used) \<noteq> world then Inl ValueError
            else bind_res (map_res (map_res (py_nth rank_map)) groups) (\<lambda>remapped.
                 bind_res (top_level_sizes l) (\<lambda>sizes.
                 if sum_list (map length remapped) = length remapped * nat (prod_list sizes)
                 then Inr (remapped, int (length remapped) # sizes) else Inl ValueError)))"

end
