(* ===== verification/Mesh_Axes.thy ===== *)
theory Mesh_Axes
  imports Chunk_Geometry Mesh_Layout_Ranks
begin

text \<open>
  Named mesh axes and the groups of ranks along them: the axis lookups and the rank lists of
  \<open>DeviceMesh\<close> (core/dtensor/device_mesh.py), its global tensor shape, and \<open>DevMat\<close>
  (core/dtensor/redistribute_infer.py), which computes the same groups from a flat rank list.

  The two functions of \<open>DeviceMesh\<close> repeat the loops of the mesh coordinate and of the contiguous
  strides, so they share those definitions. The caches of the mesh hold what the functions return and
  are left out; the current rank is a field of the mesh.
\<close>

section \<open>The mesh\<close>

record device_mesh =
  mesh_shape :: "int list"
  mesh_dim_names :: "string list option"
  rank_list :: "int list"
  own_rank :: int

definition set_mesh_dim_names :: "string list option \<Rightarrow> device_mesh \<Rightarrow> device_mesh result" where
  "set_mesh_dim_names names mesh =
     (case names of
        None \<Rightarrow> Inr (mesh\<lparr>mesh_dim_names := None\<rparr>)
      | Some ns \<Rightarrow>
          if ns = [] then Inr (mesh\<lparr>mesh_dim_names := None\<rparr>)
          else if length (mesh_shape mesh) \<noteq> length ns then Inl ValueError
          else if \<not> distinct ns then Inl ValueError
          else if ''interleaved_parallel'' \<in> set ns \<and> last ns \<noteq> ''interleaved_parallel'' then Inl ValueError
          else Inr (mesh\<lparr>mesh_dim_names := Some ns\<rparr>))"

definition assert_axis :: "device_mesh \<Rightarrow> string \<Rightarrow> string list result" where
  "assert_axis mesh axis =
     (case mesh_dim_names mesh of
        None \<Rightarrow> Inl RuntimeError
      | Some ns \<Rightarrow> if ns = [] then Inl RuntimeError else if axis \<notin> set ns then Inl ValueError else Inr ns)"

definition axis_index :: "device_mesh \<Rightarrow> string \<Rightarrow> int result" where
  "axis_index mesh axis = bind_res (assert_axis mesh axis) (\<lambda>ns. py_index ns axis)"

definition axis_id :: "device_mesh \<Rightarrow> string \<Rightarrow> int result" where
  "axis_id mesh axis =
     (if axis = ''None'' then Inr (-1)
      else bind_res (axis_index mesh axis) (\<lambda>i. Inr (int (length (mesh_shape mesh)) - i - 1)))"

definition get_device_num_along_axis :: "device_mesh \<Rightarrow> string \<Rightarrow> int result" where
  "get_device_num_along_axis mesh axis =
     bind_res (axis_index mesh axis) (\<lambda>i. py_nth (mesh_shape mesh) i)"

section \<open>Ranks along an axis\<close>

text \<open>The ranks that differ from the rank at position \<open>idx\<close> in coordinate \<open>dim\<close> only.\<close>

definition ranks_along :: "int list \<Rightarrow> int list \<Rightarrow> int \<Rightarrow> int \<Rightarrow> int list result" where
  "ranks_along dims ranks idx dim =
     bind_res (coordinate_loop (rev dims) idx []) (\<lambda>coord.
     bind_res (py_nth dims dim) (\<lambda>n.
       let strides = contiguous_strides dims in
       map_res (\<lambda>v.
         bind_res (py_set coord dim v) (\<lambda>new_coord.
           py_nth ranks (sum_list (map2 (*) new_coord strides))))
         (py_range 0 n)))"

definition get_rank_list_along_axis :: "device_mesh \<Rightarrow> string \<Rightarrow> int list result" where
  "get_rank_list_along_axis mesh mesh_dim =
     bind_res (assert_axis mesh mesh_dim) (\<lambda>ns.
       if own_rank mesh \<notin> set (rank_list mesh) then Inl ValueError
       else bind_res (py_index (rank_list mesh) (own_rank mesh)) (\<lambda>idx.
            bind_res (py_index ns mesh_dim) (\<lambda>dim_index.
              ranks_along (mesh_shape mesh) (rank_list mesh) idx dim_index)))"

datatype mesh_dim_ref = DimName string | DimIndex int

definition get_devices_for_axis :: "device_mesh \<Rightarrow> mesh_dim_ref \<Rightarrow> int \<Rightarrow> int list result" where
  "get_devices_for_axis mesh mesh_dim rank =
     bind_res
       (case mesh_dim of
          DimIndex d \<Rightarrow> Inr d
        | DimName name \<Rightarrow>
            (case mesh_dim_names mesh of
               None \<Rightarrow> Inl ValueError
             | Some ns \<Rightarrow>
                 if ns = [] then Inl ValueError
                 else if name \<notin> set ns then Inl ValueError
                 else py_index ns name))
       (\<lambda>dim.
         if dim < 0 \<or> int (length (mesh_shape mesh)) \<le> dim then Inl ValueError
         else if rank \<notin> set (rank_list mesh) then Inl ValueError
         else bind_res (py_index (rank_list mesh) rank) (\<lambda>idx.
                ranks_along (mesh_shape mesh) (rank_list mesh) idx dim))"

text \<open>\<open>size\<close> and \<open>get_local_rank\<close>, whose loop is the one of the mesh coordinate.\<close>

definition mesh_size :: "device_mesh \<Rightarrow> int option \<Rightarrow> int result" where
  "mesh_size mesh mesh_dim =
     (case mesh_dim of None \<Rightarrow> Inr (prod_list (mesh_shape mesh)) | Some d \<Rightarrow> py_nth (mesh_shape mesh) d)"

definition get_local_rank :: "device_mesh \<Rightarrow> mesh_dim_ref option \<Rightarrow> int result" where
  "get_local_rank mesh mesh_dim =
     (let ndim = int (length (mesh_shape mesh)) in
      if 1 < ndim \<and> mesh_dim = None then Inl RuntimeError
      else bind_res
        (case mesh_dim of
           Some (DimName name) \<Rightarrow>
             (case mesh_dim_names mesh of
                None \<Rightarrow> Inl TypeError
              | Some ns \<Rightarrow> if name \<notin> set ns then Inl ValueError else py_index ns name)
         | Some (DimIndex d) \<Rightarrow> if d < 0 \<or> ndim \<le> d then Inl ValueError else Inr d
         | None \<Rightarrow> if ndim \<le> 0 then Inl ValueError else Inr 0)
        (\<lambda>dim_index.
          if own_rank mesh \<notin> set (rank_list mesh) then Inl ValueError
          else bind_res (py_index (rank_list mesh) (own_rank mesh)) (\<lambda>idx.
               bind_res (coordinate_loop (rev (mesh_shape mesh)) idx []) (\<lambda>coord. py_nth coord dim_index))))"

section \<open>Groups from the device matrix\<close>

definition devices_along_dim :: "int list \<Rightarrow> int \<Rightarrow> int list \<Rightarrow> int \<Rightarrow> int list result" where
  "devices_along_dim dims rank ranks dim =
     (if dim < 0 \<or> int (length dims) \<le> dim then Inl ValueError
      else if dims ! nat dim = 1 then Inr [rank]
      else if int (length ranks) \<noteq> prod_list dims then Inl ValueError
      else
        let stride = prod_list (drop (nat dim + 1) dims) in
        bind_res (py_index ranks rank) (\<lambda>local_index.
          if stride = 0 \<or> dims ! nat dim = 0 then Inl ZeroDivisionError
          else
            let index_in_dim = (local_index div stride) mod dims ! nat dim;
                base = local_index - index_in_dim * stride
            in map_res (\<lambda>k. py_nth ranks (base + k * stride)) (py_range 0 (dims ! nat dim))))"

text \<open>
  The work list of \<open>get_devices_along_dim\<close>: every rank of the current layer is taken from the front
  and its group along the next dimension goes to the end.
\<close>

definition expand_layer :: "(int \<Rightarrow> int list result) \<Rightarrow> int list \<Rightarrow> int list result" where
  "expand_layer devices layer =
     (if layer = [] then Inl IndexError
      else for_res (\<lambda>_ work.
          case work of
            [] \<Rightarrow> Inl IndexError
          | sub_rank # rest \<Rightarrow> bind_res (devices sub_rank) (\<lambda>grp. Inr (rest @ grp)))
        layer layer)"

datatype dims_ref = SingleDim int | DimList "int list"

definition get_devices_along_dim :: "int list \<Rightarrow> int \<Rightarrow> int list \<Rightarrow> dims_ref \<Rightarrow> int list result" where
  "get_devices_along_dim dims rank ranks dim =
     (case dim of
        SingleDim d \<Rightarrow> devices_along_dim dims rank ranks d
      | DimList [] \<Rightarrow> Inl IndexError
      | DimList (d # ds) \<Rightarrow>
          bind_res (devices_along_dim dims rank ranks d)
            (for_res (\<lambda>next_dim. expand_layer (\<lambda>sub_rank. devices_along_dim dims sub_rank ranks next_dim)) ds))"

section \<open>The global shape\<close>

text \<open>
  \<open>get_global_shape\<close>: for every mesh dimension the first tensor dimension mapped to it grows by the
  mesh size. (The results are cached by key in the code.)
\<close>

fun multiply_first :: "(dim_map \<Rightarrow> bool) \<Rightarrow> int \<Rightarrow> dim_map list \<Rightarrow> int list \<Rightarrow> int list" where
  "multiply_first hit n (mapping # mappings) (factor # factors) =
     (if hit mapping then (factor * n) # factors else factor # multiply_first hit n mappings factors)"
| "multiply_first hit n mappings factors = factors"

definition get_global_shape :: "device_mesh \<Rightarrow> int list \<Rightarrow> dim_map list option \<Rightarrow> int list result" where
  "get_global_shape mesh slice_shape tensor_map =
     (case tensor_map of
        None \<Rightarrow> Inl ValueError
      | Some tm \<Rightarrow>
          if length slice_shape \<noteq> length tm then Inl ValueError
          else
            let n_dims = int (length (mesh_shape mesh));
                factors = fold (\<lambda>(dev_idx, n) factors.
                    let reverse_idx = n_dims - 1 - dev_idx in
                    multiply_first (\<lambda>mapping. case mapping of
                        One m \<Rightarrow> m \<noteq> -1 \<and> m = reverse_idx
                      | Many ms \<Rightarrow> reverse_idx \<in> set ms) n tm factors)
                  (zip (py_range 0 n_dims) (mesh_shape mesh)) (map (\<lambda>_. 1) slice_shape)
            in Inr (map2 (*) slice_shape factors))"

section \<open>Coordinates and groups\<close>

lemma row_major_strides:
  "length cs = length ns \<Longrightarrow> sum_list (map2 (*) cs (contiguous_strides ns)) = row_major ns cs"
  by (induction cs ns rule: list_induct2) (simp_all add: contiguous_Cons)

lemma row_major_update:
  "length cs = length ns \<Longrightarrow> d < length ns \<Longrightarrow>
     row_major ns (cs[d := v]) = row_major ns cs + (v - cs ! d) * prod_list (drop (d + 1) ns)"
proof (induction cs ns arbitrary: d rule: list_induct2)
  case (Cons c cs n ns)
  then show ?case by (cases d) (auto simp: algebra_simps)
qed simp

lemma valid_pos: "valid_coordinate ns cs \<Longrightarrow> \<forall>n \<in> set ns. 0 < n"
  unfolding valid_coordinate_def by (induction ns cs rule: list_all2_induct) auto

lemma prod_list_pos: "\<forall>n \<in> set ns. 0 < n \<Longrightarrow> 0 < prod_list (ns :: int list)"
  by (induction ns) auto

lemma row_major_bound:
  "valid_coordinate ns cs \<Longrightarrow> 0 \<le> row_major ns cs \<and> row_major ns cs < prod_list ns"
  using rank_of_coordinate(2) [OF valid_pos] by blast

lemma row_major_digit:
  assumes "valid_coordinate ns cs" and "d < length ns"
  shows "(row_major ns cs div prod_list (drop (d + 1) ns)) mod (ns ! d) = cs ! d"
  using assms
proof (induction ns arbitrary: cs d)
  case (Cons n ns)
  obtain c cs' where cs: "cs = c # cs'" using Cons.prems(1) by (cases cs) (auto simp: valid_coordinate_def)
  have c: "0 \<le> c" "c < n" and valid: "valid_coordinate ns cs'"
    using Cons.prems(1) by (auto simp: cs valid_coordinate_def)
  note bound = row_major_bound [OF valid]
  show ?case
  proof (cases d)
    case 0
    have "(c * prod_list ns + row_major ns cs') div prod_list ns = c"
      using bound by (simp add: div_add1_eq)
    then show ?thesis using c by (simp add: 0 cs)
  next
    case (Suc e)
    let ?P = "prod_list (drop (e + 1) ns)"
    have e: "e < length ns" using Cons.prems(2) Suc by simp
    have split: "ns = take e ns @ ns ! e # drop (e + 1) ns" using e by (simp add: id_take_nth_drop)
    then have prod: "prod_list ns = prod_list (take e ns) * (ns ! e * ?P)"
      by (metis prod_list.Cons prod_list.append)
    have pos: "0 < ?P" using valid_pos [OF valid] by (intro prod_list_pos) (auto dest: in_set_dropD)
    have "(c * prod_list ns + row_major ns cs') div ?P =
        c * prod_list (take e ns) * ns ! e + row_major ns cs' div ?P"
    proof -
      have "c * prod_list ns + row_major ns cs' = row_major ns cs' + (c * prod_list (take e ns) * ns ! e) * ?P"
        by (simp add: prod)
      then show ?thesis using pos by (simp only: div_mult_self1)
    qed
    then have "(c * prod_list ns + row_major ns cs') div ?P mod (ns ! e) = (row_major ns cs' div ?P) mod (ns ! e)"
      by (simp add: mod_add_eq [symmetric])
    with Cons.IH [OF valid e] show ?thesis by (simp add: Suc cs)
  qed
qed simp

lemma valid_update:
  "valid_coordinate ns cs \<Longrightarrow> d < length ns \<Longrightarrow> 0 \<le> v \<Longrightarrow> v < ns ! d \<Longrightarrow> valid_coordinate ns (cs[d := v])"
  by (auto simp: valid_coordinate_def list_all2_conv_all_nth nth_list_update)

text \<open>The group of a coordinate along one dimension.\<close>

definition group_of :: "int list \<Rightarrow> int list \<Rightarrow> int list \<Rightarrow> nat \<Rightarrow> int list" where
  "group_of ns ranks c d = map (\<lambda>v. ranks ! nat (row_major ns (c[d := v]))) (py_range 0 (ns ! d))"

lemma ranks_along_eq:
  assumes "\<forall>n \<in> set ns. 0 < n" and "int (length ranks) = prod_list ns"
    and "calculate_mesh_coordinate_for_rank ns idx = Inr c" and "valid_coordinate ns c" and "d < length ns"
  shows "ranks_along ns ranks idx (int d) = Inr (group_of ns ranks c d)"
proof -
  have len: "length c = length ns" using valid_length [OF assms(4)] .
  have "map_res (\<lambda>v. bind_res (py_set c (int d) v) (\<lambda>new_coord.
      py_nth ranks (sum_list (map2 (*) new_coord (contiguous_strides ns))))) (py_range 0 (ns ! d)) =
      Inr (group_of ns ranks c d)"
    unfolding group_of_def
  proof (rule map_res_total)
    fix v assume "v \<in> set (py_range 0 (ns ! d))"
    then have valid: "valid_coordinate ns (c[d := v])" using assms(4,5) by (intro valid_update) simp_all
    have "sum_list (map2 (*) (c[d := v]) (contiguous_strides ns)) = row_major ns (c[d := v])"
      by (rule row_major_strides) (simp add: len)
    then show "bind_res (py_set c (int d) v) (\<lambda>new_coord.
        py_nth ranks (sum_list (map2 (*) new_coord (contiguous_strides ns)))) =
      Inr (ranks ! nat (row_major ns (c[d := v])))"
      using row_major_bound [OF valid] assms(2,5) by (simp add: len)
  qed
  then show ?thesis
    using assms(3,5) by (simp add: ranks_along_def calculate_mesh_coordinate_for_rank_def Let_def)
qed

lemma devices_along_dim_eq:
  assumes "\<forall>n \<in> set ns. 0 < n" and "int (length ranks) = prod_list ns" and "py_index ranks rank = Inr idx"
    and "valid_coordinate ns c" and "row_major ns c = idx" and "ranks ! nat idx = rank" and "d < length ns"
  shows "devices_along_dim ns rank ranks (int d) = Inr (group_of ns ranks c d)"
proof -
  let ?P = "prod_list (drop (d + 1) ns)"
  have len: "length c = length ns" using valid_length [OF assms(4)] .
  have nd: "0 < ns ! d" using assms(1,7) by simp
  have cd: "0 \<le> c ! d \<and> c ! d < ns ! d" using assms(4,7) by (simp add: valid_coordinate_def list_all2_conv_all_nth)
  show ?thesis
  proof (cases "ns ! d = 1")
    case True
    with cd have "c ! d = 0" by simp
    then have "c[d := 0] = c" by (metis list_update_id)
    with True assms(5-7) show ?thesis by (simp add: devices_along_dim_def group_of_def py_range_Cons)
  next
    case False
    have pos: "0 < ?P" using assms(1) by (intro prod_list_pos) (auto dest: in_set_dropD)
    have digit: "idx div ?P mod (ns ! d) = c ! d" using row_major_digit [OF assms(4,7)] assms(5) by simp
    have "map_res (\<lambda>k. py_nth ranks (idx - c ! d * ?P + k * ?P)) (py_range 0 (ns ! d)) = Inr (group_of ns ranks c d)"
      unfolding group_of_def
    proof (rule map_res_total)
      fix k assume "k \<in> set (py_range 0 (ns ! d))"
      then have "valid_coordinate ns (c[d := k])" using assms(4,7) by (intro valid_update) simp_all
      moreover have "row_major ns (c[d := k]) = idx - c ! d * ?P + k * ?P"
        using row_major_update [of c ns d k] len assms(5,7) by (simp add: algebra_simps)
      ultimately show "py_nth ranks (idx - c ! d * ?P + k * ?P) = Inr (ranks ! nat (row_major ns (c[d := k])))"
        using row_major_bound assms(2) by fastforce
    qed
    with False pos nd digit assms(2,3,7) show ?thesis
      by (simp add: devices_along_dim_def Let_def nat_add_distrib)
  qed
qed

text \<open>
  the three computations of a rank group agree and are right: on a mesh of positive sizes over
  distinct ranks, \<open>get_devices_for_axis\<close>, \<open>get_rank_list_along_axis\<close> (for the current rank and the
  name of the axis) and \<open>DevMat\<close> return the same list, and a rank is in it exactly when its mesh
  coordinate agrees with the given rank's on every other axis.
\<close>

theorem rank_groups:
  assumes "\<forall>n \<in> set (mesh_shape mesh). 0 < n" and "int (length (rank_list mesh)) = prod_list (mesh_shape mesh)"
    and "distinct (rank_list mesh)" and "rank \<in> set (rank_list mesh)"
    and "0 \<le> d" and "d < int (length (mesh_shape mesh))"
  shows "\<exists>grp coord. get_devices_for_axis mesh (DimIndex d) rank = Inr grp \<and>
    devices_along_dim (mesh_shape mesh) rank (rank_list mesh) d = Inr grp \<and>
    (\<forall>ns. mesh_dim_names mesh = Some ns \<and> distinct ns \<and> length ns = length (mesh_shape mesh) \<and>
       own_rank mesh = rank \<longrightarrow> get_rank_list_along_axis mesh (ns ! nat d) = Inr grp) \<and>
    (\<forall>j < length (rank_list mesh). calculate_mesh_coordinate_for_rank (mesh_shape mesh) (int j) = Inr (coord j)) \<and>
    (\<forall>i < length (rank_list mesh). rank_list mesh ! i = rank \<longrightarrow>
       (\<forall>j < length (rank_list mesh). rank_list mesh ! j \<in> set grp \<longleftrightarrow>
          (\<forall>a < length (mesh_shape mesh). a \<noteq> nat d \<longrightarrow> coord j ! a = coord i ! a)))"
proof -
  let ?ns = "mesh_shape mesh" and ?ranks = "rank_list mesh"
  define coord where "coord = (\<lambda>j :: nat. rev (digits (rev ?ns) (int j)))"
  obtain k where k: "d = int k" "k < length ?ns" using assms(5,6) by (metis nat_0_le of_nat_less_iff)
  note of_rank = coordinate_of_rank [OF assms(1)]
  have calc: "calculate_mesh_coordinate_for_rank ?ns (int j) = Inr (coord j)" and
    valid: "valid_coordinate ?ns (coord j)" for j
    using of_rank(1,2) [of "int j"] by (simp_all add: coord_def)
  have rank_back: "row_major ?ns (coord j) = int j" if "j < length ?ranks" for j
    using of_rank(3) [of "int j"] that assms(2) by (simp add: coord_def)
  obtain idx where idx: "py_index ?ranks rank = Inr idx" "0 \<le> idx" "idx < int (length ?ranks)" "?ranks ! nat idx = rank"
    using py_index_mem [OF assms(4)] by blast
  define i where "i = nat idx"
  have i: "i < length ?ranks" "idx = int i" "?ranks ! i = rank" using idx by (auto simp: i_def)
  let ?grp = "group_of ?ns ?ranks (coord i) k"
  have along: "ranks_along ?ns ?ranks idx d = Inr ?grp"
    unfolding i(2) k(1) by (rule ranks_along_eq [OF assms(1,2) calc valid k(2)])
  have for_axis: "get_devices_for_axis mesh (DimIndex d) rank = Inr ?grp"
    using along idx(1) assms(4-6) by (simp add: get_devices_for_axis_def)
  have dev_mat: "devices_along_dim ?ns rank ?ranks d = Inr ?grp"
    unfolding k(1) by (rule devices_along_dim_eq [OF assms(1,2) idx(1) valid _ idx(4) k(2)]) (simp add: rank_back i)
  have named: "get_rank_list_along_axis mesh (ns ! nat d) = Inr ?grp"
    if "mesh_dim_names mesh = Some ns \<and> distinct ns \<and> length ns = length ?ns \<and> own_rank mesh = rank" for ns
  proof -
    have mem: "ns ! nat d \<in> set ns" "ns \<noteq> []" using that k by auto
    obtain e where e: "py_index ns (ns ! nat d) = Inr e" "0 \<le> e" "e < int (length ns)" "ns ! nat e = ns ! nat d"
      using py_index_mem [OF mem(1)] by blast
    have "nat e = nat d" using e that k by (simp add: nth_eq_iff_index_eq)
    then have "e = d" using e(2) assms(5) by simp
    then show ?thesis
      using that e(1) mem along idx(1) assms(4) by (simp add: get_rank_list_along_axis_def assert_axis_def)
  qed
  have member: "?ranks ! j \<in> set ?grp \<longleftrightarrow> (\<forall>a < length ?ns. a \<noteq> nat d \<longrightarrow> coord j ! a = coord i ! a)"
    if j: "j < length ?ranks" for j
  proof
    assume "?ranks ! j \<in> set ?grp"
    then obtain v where v: "0 \<le> v" "v < ?ns ! k" "?ranks ! j = ?ranks ! nat (row_major ?ns ((coord i)[k := v]))"
      by (auto simp: group_of_def)
    have val: "valid_coordinate ?ns ((coord i)[k := v])" by (rule valid_update [OF valid k(2) v(1,2)])
    have "j = nat (row_major ?ns ((coord i)[k := v]))"
      using v(3) j row_major_bound [OF val] assms(2,3) by (subst (asm) nth_eq_iff_index_eq) auto
    then have "int j = row_major ?ns ((coord i)[k := v])" using row_major_bound [OF val] by simp
    then have "coord j = (coord i)[k := v]"
      using calc [of j] rank_of_coordinate(1) [OF assms(1) val] by simp
    then show "\<forall>a < length ?ns. a \<noteq> nat d \<longrightarrow> coord j ! a = coord i ! a" using k by simp
  next
    assume same: "\<forall>a < length ?ns. a \<noteq> nat d \<longrightarrow> coord j ! a = coord i ! a"
    have "coord j = (coord i)[k := coord j ! k]"
      using same valid_length [OF valid] k by (intro nth_equalityI) (auto simp: nth_list_update)
    moreover have "0 \<le> coord j ! k \<and> coord j ! k < ?ns ! k"
      using valid [of j] k(2) by (simp add: valid_coordinate_def list_all2_conv_all_nth)
    ultimately have "row_major ?ns ((coord i)[k := coord j ! k]) = int j" "coord j ! k \<in> {0..<?ns ! k}"
      using rank_back [OF j] by simp_all
    then show "?ranks ! j \<in> set ?grp" unfolding group_of_def set_map set_py_range by (metis image_eqI nat_int)
  qed
  have "i' = i" if "i' < length ?ranks" "?ranks ! i' = rank" for i'
    using nth_eq_iff_index_eq [OF assms(3) that(1) i(1)] that(2) i(3) by simp
  with member have "\<forall>i < length ?ranks. ?ranks ! i = rank \<longrightarrow>
      (\<forall>j < length ?ranks. ?ranks ! j \<in> set ?grp \<longleftrightarrow>
        (\<forall>a < length ?ns. a \<noteq> nat d \<longrightarrow> coord j ! a = coord i ! a))" by blast
  with for_axis dev_mat named calc show ?thesis by (intro exI [of _ ?grp] exI [of _ coord]) blast
qed

theorem rank_groups_witness:
  "\<exists>grp. get_devices_for_axis \<lparr>mesh_shape = [2, 3], mesh_dim_names = None, rank_list = [8, 9, 10, 11, 12, 13], own_rank = 9\<rparr>
      (DimIndex 0) 10 = Inr grp \<and> devices_along_dim [2, 3] 10 [8, 9, 10, 11, 12, 13] 0 = Inr grp"
  using rank_groups [of "\<lparr>mesh_shape = [2, 3], mesh_dim_names = None, rank_list = [8, 9, 10, 11, 12, 13], own_rank = 9\<rparr>" 10 0]
  by auto

section \<open>Slice shapes and global shapes\<close>

lemma chunk_even:
  assumes "0 \<le> n" and "c dvd n" and "0 \<le> r" and "r < c"
  shows "chunk_size (chunk_of uneven a n c r) = n div c"
proof -
  obtain q where n: "n = c * q" using assms(2) by (elim dvdE)
  have c: "0 < c" using assms(3,4) by simp
  then have q: "0 \<le> q" using assms(1) n by (simp add: zero_le_mult_iff)
  have "(c * q + c - 1) div c = q"
  proof -
    have "(c * q + (c - 1)) div c = q + (c - 1) div c" using c by (simp add: div_plus_div_distrib_dvd_left)
    then show ?thesis using c by (simp add: algebra_simps)
  qed
  moreover have "(r + 1) * q \<le> c * q" using assms(4) q by (intro mult_right_mono) auto
  ultimately show ?thesis
    using c q assms(3) by (simp add: chunk_of_def chunk_size_def ceil_range_def balanced_range_def Let_def n algebra_simps)
qed

lemma cuts_even:
  assumes "\<forall>a \<in> set as. 0 \<le> f a \<and> f a < ns ! nat a"
    and "fst sl \<le> snd sl" and "(\<Prod>a\<leftarrow>as. ns ! nat a) dvd chunk_size sl"
  shows "chunk_size (fold (cut_along ns uneven f) as sl) * (\<Prod>a\<leftarrow>as. ns ! nat a) = chunk_size sl"
  using assms
proof (induction as arbitrary: sl)
  case (Cons a as)
  let ?n = "ns ! nat a" and ?P = "\<Prod>a\<leftarrow>as. ns ! nat a"
  have a: "0 \<le> f a" "f a < ?n" using Cons.prems(1) by auto
  have size: "0 \<le> chunk_size sl" using Cons.prems(2) by (simp add: chunk_size_def)
  have dvd: "?n * ?P dvd chunk_size sl" using Cons.prems(3) by simp
  then have "?n dvd chunk_size sl" by (rule dvd_mult_left)
  then have cut: "chunk_size (cut_along ns uneven f a sl) = chunk_size sl div ?n"
    using chunk_even [OF size _ a, of uneven a] by (simp add: cut_along_def chunk_size_def case_prod_beta)
  have "0 \<le> chunk_size sl div ?n" using size a by (simp add: pos_imp_zdiv_nonneg_iff)
  then have le: "fst (cut_along ns uneven f a sl) \<le> snd (cut_along ns uneven f a sl)"
    using cut by (simp add: chunk_size_def)
  have "?P dvd chunk_size (cut_along ns uneven f a sl)"
    unfolding cut using dvd a by (metis dvd_div_iff_mult \<open>?n dvd chunk_size sl\<close> less_irrefl mult.commute order_le_less_trans)
  with Cons.IH [of "cut_along ns uneven f a sl"] le Cons.prems(1)
  have "chunk_size (fold (cut_along ns uneven f) (a # as) sl) * ?P = chunk_size sl div ?n" by (simp add: cut)
  then show ?case using \<open>?n dvd chunk_size sl\<close> by (simp add: ac_simps)
qed simp

lemma length_multiply_first [simp]: "length (multiply_first hit n tm fs) = length fs"
  by (induction hit n tm fs rule: multiply_first.induct) auto

lemma nth_multiply_first:
  "length tm = length fs \<Longrightarrow> j < length fs \<Longrightarrow> (\<And>i. i < j \<Longrightarrow> hit (tm ! j) \<Longrightarrow> \<not> hit (tm ! i)) \<Longrightarrow>
     multiply_first hit n tm fs ! j = (if hit (tm ! j) then fs ! j * n else fs ! j)"
proof (induction hit n tm fs arbitrary: j rule: multiply_first.induct)
  case (1 hit n mapping mappings factor factors)
  show ?case
  proof (cases j)
    case (Suc k)
    show ?thesis
    proof (cases "hit mapping")
      case True
      with 1(4) [of 0] Suc show ?thesis by auto
    next
      case False
      have "\<not> hit (mappings ! i)" if "i < k" "hit (mappings ! k)" for i
        using 1(4) [of "Suc i"] that Suc by simp
      with 1(1) [OF False, of k] 1(2,3) False Suc show ?thesis by simp
    qed
  qed simp
qed auto

text \<open>
  the global shape is recovered from a slice: on a mesh of positive sizes with a tensor map that
  uses every mesh dimension at most once, if every tensor size divides by the mesh sizes its mapping
  names, \<open>get_global_shape\<close> of the shape of any rank's slice is the shape the slice was taken from.
\<close>

theorem global_shape_roundtrip:
  assumes "well_mapped (mesh_shape mesh) tm" and "length tm = length full" and "\<forall>n \<in> set full. 0 \<le> n"
    and "\<forall>j < length full. (\<Prod>a\<leftarrow>axes_of (int (length (mesh_shape mesh))) (tm ! j). mesh_shape mesh ! nat a) dvd full ! j"
    and "infer_slice_area_by_rank (mesh_shape mesh) tm r full uneven = Inr area"
  shows "get_global_shape mesh (map chunk_size area) (Some tm) = Inr full"
proof -
  let ?ns = "mesh_shape mesh"
  let ?L = "int (length ?ns)"
  define u where "u = set (case uneven of None \<Rightarrow> [] | Some ds \<Rightarrow> ds)"
  define hit where "hit rev_idx mapping = (case mapping of One m \<Rightarrow> m \<noteq> -1 \<and> m = rev_idx | Many ms \<Rightarrow> rev_idx \<in> set ms)"
    for rev_idx mapping
  have pos: "\<forall>n \<in> set ?ns. 0 < n" using assms(1) by (simp add: well_mapped_def)
  define c where "c = rev (digits (rev ?ns) r)"
  have calc: "calculate_mesh_coordinate_for_rank ?ns r = Inr c" and valid: "valid_coordinate ?ns c"
    using coordinate_of_rank(1,2) [OF pos, of r] by (simp_all add: c_def)
  obtain area' where area': "infer_slice_area_by_rank ?ns tm r full uneven = Inr area'" "length area' = length full"
    "\<forall>j < length full. area' ! j = fold (cut_along ?ns u (\<lambda>a. c ! nat a)) (axes_of ?L (tm ! j)) (0, full ! j)"
    using slice_area_eq [OF assms(1,2) calc valid_length [OF valid] u_def] by blast
  then have area: "length area = length full"
    "\<forall>j < length full. area ! j = fold (cut_along ?ns u (\<lambda>a. c ! nat a)) (axes_of ?L (tm ! j)) (0, full ! j)"
    using assms(5) by simp_all
  note wm = well_mapped_axes [OF assms(1), unfolded assms(2)]
  have hit_axes: "hit (?L - 1 - a) (tm ! j) \<longleftrightarrow> a \<in> set (axes_of ?L (tm ! j))"
    if "j < length full" "0 \<le> a" "a < ?L" for j a
    using that by (cases "tm ! j") (auto simp: hit_def axes_of_def image_iff)
  define step where "step = (\<lambda>(dev_idx, n) factors. multiply_first (hit (?L - 1 - dev_idx)) n tm factors)"
  have fold: "length (fold step zs fs) = length full \<and>
      (\<forall>j < length full. fold step zs fs ! j =
        fs ! j * (\<Prod>(a, n)\<leftarrow>zs. if a \<in> set (axes_of ?L (tm ! j)) then n else 1))"
    if "length fs = length full" "\<forall>(a, n) \<in> set zs. 0 \<le> a \<and> a < ?L" for zs fs
    using that
  proof (induction zs arbitrary: fs)
    case (Cons z zs)
    obtain a n where z: "z = (a, n)" by (cases z)
    have a: "0 \<le> a" "a < ?L" using Cons.prems(2) by (auto simp: z)
    have "multiply_first (hit (?L - 1 - a)) n tm fs ! j =
        (if a \<in> set (axes_of ?L (tm ! j)) then fs ! j * n else fs ! j)" if j: "j < length full" for j
    proof -
      have "\<not> hit (?L - 1 - a) (tm ! i)" if "i < j" "hit (?L - 1 - a) (tm ! j)" for i
        using that wm(3) [OF j, of i a] hit_axes [OF j a] hit_axes [of i a] a j by auto
      then show ?thesis
        using nth_multiply_first [of tm fs j "hit (?L - 1 - a)" n] Cons.prems(1) assms(2) j hit_axes [OF j a] by simp
    qed
    with Cons.IH [of "step z fs"] Cons.prems show ?case by (simp add: z step_def)
  qed simp
  define zs where "zs = zip (py_range 0 ?L) ?ns"
  have zs_range: "\<forall>(a, n) \<in> set zs. 0 \<le> a \<and> a < ?L" by (auto simp: zs_def dest: set_zip_leftD)
  have prods: "(\<Prod>(a, n)\<leftarrow>zs. if a \<in> set (axes_of ?L (tm ! j)) then n else 1) = (\<Prod>a\<leftarrow>axes_of ?L (tm ! j). ?ns ! nat a)"
    if j: "j < length full" for j
  proof -
    let ?A = "set (axes_of ?L (tm ! j))"
    have "map (\<lambda>(a, n). if a \<in> ?A then n else 1) zs = map (\<lambda>a. if a \<in> ?A then ?ns ! nat a else 1) (py_range 0 ?L)"
      by (rule nth_equalityI) (simp_all add: zs_def)
    then have "(\<Prod>(a, n)\<leftarrow>zs. if a \<in> ?A then n else 1) = (\<Prod>a\<leftarrow>py_range 0 ?L. if a \<in> ?A then ?ns ! nat a else 1)" by simp
    also have "\<dots> = (\<Prod>a \<in> {0..<?L}. if a \<in> ?A then ?ns ! nat a else 1)"
      by (simp add: prod.distinct_set_conv_list [symmetric])
    also have "\<dots> = (\<Prod>a \<in> {0..<?L} \<inter> ?A. ?ns ! nat a)" by (simp add: prod.inter_restrict)
    also have "{0..<?L} \<inter> ?A = ?A" using wm(2) [OF j] by auto
    also have "(\<Prod>a \<in> ?A. ?ns ! nat a) = (\<Prod>a\<leftarrow>axes_of ?L (tm ! j). ?ns ! nat a)"
      using wm(1) [OF j] by (simp add: prod.distinct_set_conv_list)
    finally show ?thesis .
  qed
  define factors where "factors = fold step zs (map (\<lambda>_. 1) (map chunk_size area))"
  have factors: "length factors = length full"
    "\<And>j. j < length full \<Longrightarrow> factors ! j = (\<Prod>a\<leftarrow>axes_of ?L (tm ! j). ?ns ! nat a)"
    using fold [of "map (\<lambda>_. 1) (map chunk_size area)" zs] zs_range area(1) prods by (simp_all add: factors_def)
  have "map2 (*) (map chunk_size area) factors = full"
  proof (rule nth_equalityI)
    fix j assume "j < length (map2 (*) (map chunk_size area) factors)"
    then have j: "j < length full" using area(1) factors(1) by simp
    have "chunk_size (area ! j) * (\<Prod>a\<leftarrow>axes_of ?L (tm ! j). ?ns ! nat a) = chunk_size (0, full ! j)"
      unfolding area(2) [rule_format, OF j]
    proof (rule cuts_even)
      show "\<forall>a \<in> set (axes_of ?L (tm ! j)). 0 \<le> c ! nat a \<and> c ! nat a < ?ns ! nat a"
        using wm(2) [OF j] valid_on_axes [OF valid] by (auto simp: on_axes_def)
    qed (use assms(3,4) j in \<open>auto simp: chunk_size_def\<close>)
    then show "map2 (*) (map chunk_size area) factors ! j = full ! j"
      using j area(1) factors by (simp add: chunk_size_def)
  qed (use area(1) factors(1) in simp)
  moreover have "get_global_shape mesh (map chunk_size area) (Some tm) = Inr (map2 (*) (map chunk_size area) factors)"
    unfolding get_global_shape_def factors_def step_def zs_def hit_def using area(1) assms(2) by (simp add: Let_def)
  ultimately show ?thesis by simp
qed

theorem global_shape_roundtrip_witness:
  "get_global_shape \<lparr>mesh_shape = [2, 2], mesh_dim_names = None, rank_list = [0, 1, 2, 3], own_rank = 0\<rparr>
     (map chunk_size [(6, 9), (0, 5)]) (Some [Many [1, 0], One (-1)]) = Inr [12, 5]"
proof -
  have "infer_slice_area_by_rank [2, 2] [Many [1, 0], One (-1)] 2 [12, 5] None = Inr [(6, 9), (0, 5)]" by code_simp
  then show ?thesis
    by (intro global_shape_roundtrip [where r = 2 and uneven = None])
      (auto simp: well_mapped_def axes_of_def less_Suc_eq nth_Cons')
qed

end
