(* ===== verification/Tensor_Layout.thy ===== *)
theory Tensor_Layout
  imports Mesh_Axes
begin

text \<open>
  Placements and the \<open>Layout\<close> object (core/dtensor/placement_types.py, core/dtensor/layout.py): one
  placement per mesh dimension on one side, one tensor map entry per tensor dimension on the other,
  and the conversions between the two.

  The layout is a record of the fields the conversions read and write; the cached compact string and
  the tensor metadata are left out. A failing operation has no successor state, so what the code may
  have written before it raised is not modelled.
\<close>

section \<open>Placements\<close>

datatype placement =
    Shard int bool
  | StridedShard int int bool
  | RaggedShard "int list" "int list"
  | StridedRaggedShard "int list" "int list" int
  | Replicate
  | Partial string

fun is_shard :: "placement \<Rightarrow> int option \<Rightarrow> bool" where
  "is_shard (Shard d u) dim = (dim = None \<or> dim = Some d)"
| "is_shard (StridedShard d f u) dim = (dim = None \<or> dim = Some d)"
| "is_shard _ dim = False"

fun is_replicate :: "placement \<Rightarrow> bool" where
  "is_replicate Replicate = True"
| "is_replicate _ = False"

fun is_partial :: "placement \<Rightarrow> string option \<Rightarrow> bool" where
  "is_partial (Partial op) reduce_op = (reduce_op = None \<or> reduce_op = Some op)"
| "is_partial _ reduce_op = False"

fun is_ragged_shard :: "placement \<Rightarrow> bool" where
  "is_ragged_shard (RaggedShard dims units) = True"
| "is_ragged_shard _ = False"

definition make_strided_shard :: "int \<Rightarrow> int \<Rightarrow> bool \<Rightarrow> placement result" where
  "make_strided_shard dim split_factor uneven =
     (if split_factor < 1 then Inl ValueError else Inr (StridedShard dim split_factor uneven))"

definition make_ragged_shard :: "int list \<Rightarrow> int list \<Rightarrow> placement result" where
  "make_ragged_shard dims local_units =
     (if dims = [] then Inl ValueError
      else if dims \<noteq> py_range 0 (int (length dims)) then Inl ValueError
      else if local_units = [] then Inl ValueError
      else if \<exists>u \<in> set local_units. u < 0 then Inl ValueError
      else if sum_list local_units \<le> 0 then Inl ValueError
      else Inr (RaggedShard dims local_units))"

section \<open>The layout\<close>

datatype alias_entry = AxisName string | AxisNames "string list"

record layout =
  mesh :: device_mesh
  tensor_map :: "dim_map list option"
  partial :: "string option list"
  alias_tensor_map :: "alias_entry list option"
  placements :: "placement list option"
  ragged_shard :: "(int \<times> placement) option"

definition layout_from_mesh :: "device_mesh \<Rightarrow> layout" where
  "layout_from_mesh dm =
     \<lparr>mesh = dm, tensor_map = None, partial = replicate (length (mesh_shape dm)) None,
      alias_tensor_map = None, placements = None, ragged_shard = None\<rparr>"

definition mesh_sizes :: "layout \<Rightarrow> int list" where
  "mesh_sizes l = mesh_shape (mesh l)"

definition mesh_ndim :: "layout \<Rightarrow> int" where
  "mesh_ndim l = int (length (mesh_shape (mesh l)))"

definition enum :: "'a list \<Rightarrow> (int \<times> 'a) list" where
  "enum xs = zip (py_range 0 (int (length xs))) xs"

definition extract_ragged_shard :: "placement list \<Rightarrow> (int \<times> placement) option result" where
  "extract_ragged_shard ps =
     for_res (\<lambda>(mesh_dim, p) ragged.
         if \<not> is_ragged_shard p then Inr ragged
         else if ragged \<noteq> None then Inl ValueError
         else Inr (Some (mesh_dim, p)))
       (enum ps) None"

definition replace_ragged_with_replicate :: "placement list \<Rightarrow> placement list" where
  "replace_ragged_with_replicate ps = map (\<lambda>p. if is_ragged_shard p then Replicate else p) ps"

definition set_placements :: "placement list option \<Rightarrow> layout \<Rightarrow> layout result" where
  "set_placements ps l =
     bind_res (case ps of None \<Rightarrow> Inr None | Some p \<Rightarrow> extract_ragged_shard p) (\<lambda>ragged.
       Inr (l\<lparr>placements := ps, ragged_shard := ragged\<rparr>))"

definition normal_placements :: "layout \<Rightarrow> placement list option" where
  "normal_placements l = map_option replace_ragged_with_replicate (placements l)"

definition uneven_shard_mesh_dims :: "layout \<Rightarrow> int list" where
  "uneven_shard_mesh_dims l =
     map fst (filter (\<lambda>(d, p). case p of Shard k u \<Rightarrow> u | StridedShard k f u \<Rightarrow> u | _ \<Rightarrow> False)
       (enum (case placements l of None \<Rightarrow> [] | Some ps \<Rightarrow> ps)))"

section \<open>From placements to the tensor map\<close>

fun shard_dim_of :: "placement \<Rightarrow> int option" where
  "shard_dim_of (Shard d u) = Some d"
| "shard_dim_of (StridedShard d f u) = Some d"
| "shard_dim_of _ = None"

fun placement_split_factor :: "placement \<Rightarrow> int" where
  "placement_split_factor (StridedShard d f u) = f"
| "placement_split_factor _ = 1"

definition lower_char :: "char \<Rightarrow> char" where
  "lower_char c = (if 65 \<le> (of_char c :: nat) \<and> (of_char c :: nat) \<le> 90 then char_of ((of_char c :: nat) + 32) else c)"

definition extract_reduce_op :: "string \<Rightarrow> string" where
  "extract_reduce_op op = map lower_char op"

definition build_order_positions :: "int list \<Rightarrow> (int, int) dict" where
  "build_order_positions shard_order = fold (\<lambda>(i, mesh_idx) d. dict_set d mesh_idx i) (enum shard_order) []"

definition expected_split_factor :: "int list \<Rightarrow> (int, int) dict \<Rightarrow> int list \<Rightarrow> int \<Rightarrow> int result" where
  "expected_split_factor sizes positions shard_axes mesh_idx =
     for_res (\<lambda>right split_factor.
         if right \<le> mesh_idx then Inr split_factor
         else bind_res (dict_get positions right) (\<lambda>right_pos.
              bind_res (dict_get positions mesh_idx) (\<lambda>pos.
                if right_pos < pos then bind_res (py_nth sizes right) (\<lambda>n. Inr (split_factor * n))
                else Inr split_factor)))
       shard_axes 1"

definition compute_expected_split_factors :: "int list \<Rightarrow> int list \<Rightarrow> int list \<Rightarrow> (int, int) dict result" where
  "compute_expected_split_factors sizes shard_axes shard_order =
     (let positions = build_order_positions shard_order in
      for_res (\<lambda>mesh_idx out.
          bind_res (expected_split_factor sizes positions shard_axes mesh_idx) (\<lambda>f. Inr (dict_set out mesh_idx f)))
        shard_axes [])"

definition effective_shard_axes :: "placement list \<Rightarrow> int list \<Rightarrow> int list result" where
  "effective_shard_axes ps shard_axes =
     bind_res (map_res (\<lambda>i. bind_res (py_nth ps i) (\<lambda>p. Inr (placement_split_factor p))) shard_axes) (\<lambda>keys.
       Inr (map snd (sort_key fst (zip keys shard_axes))))"

text \<open>A tensor dimension without a shard is None here, -1 in the code.\<close>

definition add_shard ::
    "int \<Rightarrow> int \<times> placement \<Rightarrow> int list option list \<times> string option list \<Rightarrow>
     (int list option list \<times> string option list) result" where
  "add_shard dim entry st =
     (let (mesh_idx, p) = entry; (dim_map, partials) = st in
      case shard_dim_of p of
        Some d \<Rightarrow>
          if d < - dim \<or> dim \<le> d then Inl ValueError
          else
            let d = (if d < 0 then d + dim else d) in
            bind_res (py_nth dim_map d) (\<lambda>axes.
            bind_res (py_set dim_map d (Some ((case axes of None \<Rightarrow> [] | Some as \<Rightarrow> as) @ [mesh_idx]))) (\<lambda>dim_map.
              Inr (dim_map, partials)))
      | None \<Rightarrow>
          (case p of
             Partial op \<Rightarrow>
               bind_res (py_set partials mesh_idx (Some (extract_reduce_op op))) (\<lambda>partials. Inr (dim_map, partials))
           | _ \<Rightarrow> Inr (dim_map, partials)))"

definition validate_split_factors :: "int list \<Rightarrow> placement list \<Rightarrow> int list option list \<Rightarrow> unit result" where
  "validate_split_factors sizes ps dim_map =
     for_res (\<lambda>shard_axes _.
         case shard_axes of
           None \<Rightarrow> Inr ()
         | Some axes \<Rightarrow>
             bind_res (effective_shard_axes ps axes) (\<lambda>shard_order.
             bind_res (compute_expected_split_factors sizes axes shard_order) (\<lambda>expected.
               for_res (\<lambda>mesh_idx _.
                   bind_res (py_nth ps mesh_idx) (\<lambda>p.
                   bind_res (dict_get expected mesh_idx) (\<lambda>f.
                     if placement_split_factor p \<noteq> f then Inl ValueError else Inr ())))
                 axes ())))
       dim_map ()"

definition reorder_dim_map :: "placement list \<Rightarrow> int list option list \<Rightarrow> int list option list result" where
  "reorder_dim_map ps dim_map =
     map_res (\<lambda>shard_axes.
         case shard_axes of
           None \<Rightarrow> Inr None
         | Some axes \<Rightarrow>
             if length axes \<le> 1 then Inr (Some axes)
             else bind_res (effective_shard_axes ps axes) (\<lambda>as. Inr (Some as)))
       dim_map"

definition build_dim_map :: "int \<Rightarrow> layout \<Rightarrow> (int list option list \<times> string option list) result" where
  "build_dim_map dim l =
     (case (placements l, normal_placements l) of
        (Some ps, Some normal) \<Rightarrow>
          bind_res (for_res (add_shard dim) (enum normal) (replicate (nat dim) None, partial l)) (\<lambda>(dim_map, partials).
          bind_res (validate_split_factors (mesh_sizes l) ps dim_map) (\<lambda>_.
          bind_res (reorder_dim_map ps dim_map) (\<lambda>dim_map. Inr (dim_map, partials))))
      | _ \<Rightarrow> Inl TypeError)"

definition convert_dim_map :: "int \<Rightarrow> int list option list \<Rightarrow> dim_map list" where
  "convert_dim_map ndim dim_map =
     map (\<lambda>axes. case axes of
         None \<Rightarrow> One (-1)
       | Some as \<Rightarrow>
           let mapped = map (\<lambda>axis. ndim - 1 - axis) as
           in (case mapped of [m] \<Rightarrow> One m | _ \<Rightarrow> Many mapped)) dim_map"

definition readable_dim :: "string list option \<Rightarrow> int \<Rightarrow> string result" where
  "readable_dim names dim =
     (if dim = -1 then Inr ''None''
      else case names of
        None \<Rightarrow> Inr (''dim_'' @ string_of_int dim)
      | Some ns \<Rightarrow> py_nth ns (int (length ns) - 1 - dim))"

definition build_readable_tensor_map :: "string list option \<Rightarrow> dim_map list \<Rightarrow> alias_entry list result" where
  "build_readable_tensor_map names tm =
     map_res (\<lambda>item. case item of
         One d \<Rightarrow> bind_res (readable_dim names d) (\<lambda>s. Inr (AxisName s))
       | Many ds \<Rightarrow> bind_res (map_res (readable_dim names) ds) (\<lambda>ss. Inr (AxisNames ss))) tm"

definition handle_zero_dim :: "layout \<Rightarrow> (dim_map list \<times> layout) result" where
  "handle_zero_dim l =
     (case normal_placements l of
        None \<Rightarrow> Inl TypeError
      | Some ps \<Rightarrow>
          bind_res (for_res (\<lambda>(mesh_idx, p) partials.
              case p of Partial op \<Rightarrow> py_set partials mesh_idx (Some (extract_reduce_op op)) | _ \<Rightarrow> Inr partials)
            (enum ps) (partial l)) (\<lambda>partials.
          Inr ([], l\<lparr>tensor_map := Some [], alias_tensor_map := Some [], partial := partials\<rparr>)))"

definition placement_to_tensor_map :: "int \<Rightarrow> layout \<Rightarrow> (dim_map list \<times> layout) result" where
  "placement_to_tensor_map dim l =
     (if dim < 0 then Inl ValueError
      else if dim = 0 then handle_zero_dim l
      else bind_res (build_dim_map dim l) (\<lambda>(dim_map, partials).
           let tm = convert_dim_map (mesh_ndim l) dim_map in
           bind_res (build_readable_tensor_map (mesh_dim_names (mesh l)) tm) (\<lambda>readable.
             Inr (tm, l\<lparr>tensor_map := Some tm, partial := partials, alias_tensor_map := Some readable\<rparr>))))"

section \<open>From the tensor map to placements\<close>

definition uneven_shard_dims :: "layout \<Rightarrow> (int, int) dict" where
  "uneven_shard_dims l =
     List.map_filter (\<lambda>(d, p). case p of
         Shard k u \<Rightarrow> if u then Some (d, k) else None
       | StridedShard k f u \<Rightarrow> if u then Some (d, k) else None
       | _ \<Rightarrow> None)
       (enum (case placements l of None \<Rightarrow> [] | Some ps \<Rightarrow> ps))"

definition place_shards ::
    "int list \<Rightarrow> (int, int) dict \<Rightarrow> int \<times> dim_map \<Rightarrow> placement list \<Rightarrow> placement list result" where
  "place_shards sizes uneven entry ps =
     (let (tensor_dim, mapping) = entry;
          mesh_indices = map (\<lambda>m. int (length sizes) - 1 - m) (filter (\<lambda>m. m \<noteq> -1) (mapped_dims mapping));
          shard_axes = sort mesh_indices
      in bind_res (compute_expected_split_factors sizes shard_axes mesh_indices) (\<lambda>expected.
         for_res (\<lambda>mesh_idx ps.
             bind_res (dict_get expected mesh_idx) (\<lambda>split_factor.
               let uneven_shard = (map_of uneven mesh_idx = Some tensor_dim) in
               bind_res (if 1 < split_factor then make_strided_shard tensor_dim split_factor uneven_shard
                         else Inr (Shard tensor_dim uneven_shard)) (\<lambda>p.
               py_set ps mesh_idx p)))
           shard_axes ps))"

definition tensor_map_to_placement :: "layout \<Rightarrow> (placement list \<times> layout) result" where
  "tensor_map_to_placement l =
     (case tensor_map l of
        None \<Rightarrow> Inl ValueError
      | Some tm \<Rightarrow>
          bind_res (for_res (place_shards (mesh_sizes l) (uneven_shard_dims l)) (enum tm)
              (replicate (length (mesh_sizes l)) Replicate)) (\<lambda>ps.
          bind_res (for_res (\<lambda>(mesh_idx, op) ps.
              case op of None \<Rightarrow> Inr ps | Some s \<Rightarrow> py_set ps mesh_idx (Partial s)) (enum (partial l)) ps) (\<lambda>ps.
          bind_res (case ragged_shard l of None \<Rightarrow> Inr ps | Some (d, p) \<Rightarrow> py_set ps d p) (\<lambda>ps.
          bind_res (set_placements (Some ps) l) (\<lambda>l.
          bind_res (build_readable_tensor_map (mesh_dim_names (mesh l)) tm) (\<lambda>readable.
            Inr (ps, l\<lparr>alias_tensor_map := Some readable\<rparr>)))))))"

section \<open>From alias names\<close>

definition alias_axis :: "string list \<Rightarrow> string \<Rightarrow> string list \<Rightarrow> (int \<times> string list) result" where
  "alias_axis names item written =
     (if item = ''None'' then Inr (-1, written)
      else if item \<notin> set names then Inl ValueError
      else if item \<in> set written then Inl ValueError
      else bind_res (py_index names item) (\<lambda>i. Inr (int (length names) - 1 - i, written @ [item])))"

definition process_alias_layout :: "alias_entry list \<Rightarrow> layout \<Rightarrow> layout result" where
  "process_alias_layout alias_map l =
     bind_res (for_res (\<lambda>ele (tm, written).
         case (ele, mesh_dim_names (mesh l)) of
           (AxisName item, names) \<Rightarrow>
             if item \<noteq> ''None'' \<and> names = None then Inl TypeError
             else bind_res (alias_axis (case names of None \<Rightarrow> [] | Some ns \<Rightarrow> ns) item written) (\<lambda>(m, written).
               Inr (tm @ [One m], written))
         | (AxisNames items, names) \<Rightarrow>
             if (\<exists>item \<in> set items. item \<noteq> ''None'') \<and> names = None then Inl TypeError
             else bind_res (for_res (\<lambda>item (ms, written).
                 bind_res (alias_axis (case names of None \<Rightarrow> [] | Some ns \<Rightarrow> ns) item written) (\<lambda>(m, written).
                   Inr (ms @ [m], written))) items ([], written)) (\<lambda>(ms, written).
               Inr (tm @ [Many ms], written)))
       alias_map ([], [])) (\<lambda>(tm, written).
     bind_res (tensor_map_to_placement (l\<lparr>alias_tensor_map := Some alias_map, tensor_map := Some tm\<rparr>)) (\<lambda>(ps, l).
       Inr l))"

text \<open>\<open>layout(...)\<close>: the partial state is not inherited.\<close>

definition reset_state :: "layout \<Rightarrow> layout" where
  "reset_state l = l\<lparr>partial := replicate (length (mesh_sizes l)) None\<rparr>"

definition call_with_placements :: "placement list \<Rightarrow> layout \<Rightarrow> layout result" where
  "call_with_placements ps l = set_placements (Some ps) (reset_state l)"

definition call_with_aliases :: "alias_entry list \<Rightarrow> layout \<Rightarrow> layout result" where
  "call_with_aliases alias_map l = process_alias_layout alias_map (reset_state l)"

section \<open>Partial state and queries\<close>

definition support_partial_op :: "string list" where
  "support_partial_op = [''sum'', ''max'', ''min'', ''avg'', ''prod'', ''all'']"

definition is_dev_axis_apply_shard :: "layout \<Rightarrow> string \<Rightarrow> bool result" where
  "is_dev_axis_apply_shard l axis =
     bind_res (axis_id (mesh l) axis) (\<lambda>i.
       case tensor_map l of
         None \<Rightarrow> Inl TypeError
       | Some tm \<Rightarrow> Inr (i \<in> set (concat (map mapped_dims tm))))"

definition set_partial_by_dev_axis :: "string \<Rightarrow> string option \<Rightarrow> layout \<Rightarrow> layout result" where
  "set_partial_by_dev_axis axis op l =
     (if op \<noteq> None \<and> the op \<notin> set support_partial_op then Inl ValueError
      else bind_res (is_dev_axis_apply_shard l axis) (\<lambda>shard.
        if shard then Inl ValueError
        else bind_res (axis_index (mesh l) axis) (\<lambda>i.
             bind_res (py_set (partial l) i op) (\<lambda>partials.
             bind_res (tensor_map_to_placement (l\<lparr>partial := partials\<rparr>)) (\<lambda>(ps, l). Inr l)))))"

definition get_partial_by_dev_id :: "layout \<Rightarrow> string \<Rightarrow> string option result" where
  "get_partial_by_dev_id l axis = bind_res (axis_index (mesh l) axis) (py_nth (partial l))"

definition get_dev_axis_apply_shard_axis :: "layout \<Rightarrow> string \<Rightarrow> int option result" where
  "get_dev_axis_apply_shard_axis l axis =
     (case alias_tensor_map l of
        None \<Rightarrow> Inl TypeError
      | Some am \<Rightarrow> Inr (map_option fst (List.find (\<lambda>(dim, a). case a of
            AxisName s \<Rightarrow> axis = s | AxisNames ss \<Rightarrow> axis \<in> set ss) (enum am))))"

definition reset_partial :: "layout \<Rightarrow> layout result" where
  "reset_partial l = bind_res (tensor_map_to_placement (reset_state l)) (\<lambda>(ps, l). Inr l)"

definition layout_is_partial :: "layout \<Rightarrow> bool" where
  "layout_is_partial l \<longleftrightarrow> (\<exists>op \<in> set (partial l). op \<noteq> None \<and> op \<noteq> Some '''')"

definition get_dim_split_num :: "layout \<Rightarrow> int \<Rightarrow> int result" where
  "get_dim_split_num l tensor_dim =
     (case alias_tensor_map l of
        None \<Rightarrow> Inr 1
      | Some am \<Rightarrow>
          if int (length am) \<le> tensor_dim then Inr 1
          else bind_res (py_nth am tensor_dim) (\<lambda>entry.
            case entry of
              AxisName s \<Rightarrow> if s = ''None'' then Inr 1 else get_device_num_along_axis (mesh l) s
            | AxisNames ss \<Rightarrow>
                for_res (\<lambda>axis acc. if axis = ''None'' then Inr acc
                    else bind_res (get_device_num_along_axis (mesh l) axis) (\<lambda>n. Inr (acc * n))) ss 1))"

text \<open>The position of the current rank (\<open>dist.get_rank\<close>) on one axis, 0 when it is not in the list.\<close>

definition position_on_axis :: "device_mesh \<Rightarrow> int \<Rightarrow> string \<Rightarrow> int result" where
  "position_on_axis dm rank axis =
     bind_res (get_rank_list_along_axis dm axis) (\<lambda>ranks.
       if rank \<in> set ranks then py_index ranks rank else Inr 0)"

definition get_split_id :: "layout \<Rightarrow> int \<Rightarrow> int \<Rightarrow> int result" where
  "get_split_id l rank tensor_dim =
     (case alias_tensor_map l of
        None \<Rightarrow> Inr 0
      | Some am \<Rightarrow>
          if int (length am) \<le> tensor_dim then Inr 0
          else bind_res (py_nth am tensor_dim) (\<lambda>entry.
            case entry of
              AxisName s \<Rightarrow> if s = ''None'' then Inr 0 else position_on_axis (mesh l) rank s
            | AxisNames ss \<Rightarrow>
                for_res (\<lambda>axis global_id.
                    bind_res (position_on_axis (mesh l) rank axis) (\<lambda>local_id.
                    bind_res (get_device_num_along_axis (mesh l) axis) (\<lambda>n. Inr (global_id * n + local_id))))
                  (filter (\<lambda>axis. axis \<noteq> ''None'') ss) 0))"

definition repeat_num :: "layout \<Rightarrow> int result" where
  "repeat_num l =
     (case tensor_map l of
        None \<Rightarrow> Inl ValueError
      | Some tm \<Rightarrow>
          if mesh_sizes l = [] then Inl TypeError
          else bind_res (for_res (\<lambda>item used.
              if 0 \<le> item then bind_res (py_nth (mesh_sizes l) (mesh_ndim l - item - 1)) (\<lambda>n. Inr (used * n))
              else Inr used) (concat (map mapped_dims tm)) 1) (\<lambda>used.
            if used = 0 then Inl ZeroDivisionError else Inr (prod_list (mesh_sizes l) div used)))"

definition infer_slice_area_by_layout :: "layout \<Rightarrow> int \<Rightarrow> int list \<Rightarrow> (int \<times> int) list result" where
  "infer_slice_area_by_layout l rank_id full_shape =
     (case tensor_map l of
        None \<Rightarrow> (if full_shape = [] then infer_slice_area_by_rank (mesh_sizes l) [] rank_id [] (Some (uneven_shard_mesh_dims l))
                 else Inl TypeError)
      | Some tm \<Rightarrow> infer_slice_area_by_rank (mesh_sizes l) tm rank_id full_shape (Some (uneven_shard_mesh_dims l)))"

definition infer_slice_shape_by_layout :: "int list \<Rightarrow> layout \<Rightarrow> int list result" where
  "infer_slice_shape_by_layout global_shape l =
     bind_res (py_index (rank_list (mesh l)) (own_rank (mesh l))) (\<lambda>inner_rank_id.
     bind_res (infer_slice_area_by_layout l inner_rank_id global_shape) (\<lambda>area.
       Inr (map (\<lambda>(s, e). e - s) area)))"

end
