(* ===== verification/Tensor_Layout_Roundtrip.thy ===== *)
theory Tensor_Layout_Roundtrip
  imports Tensor_Layout
begin

text \<open>
  The two conversions of a layout against each other: placements that convert to a tensor map come
  back unchanged, the tensor map they give names every mesh dimension at most once, and the slices of
  the ranks follow the placements. The converse direction fails for some orders of three mesh axes.
\<close>

section \<open>Positions\<close>

lemma length_enum [simp]: "length (enum xs) = length xs"
  by (simp add: enum_def)

lemma nth_enum [simp]: "i < length xs \<Longrightarrow> enum xs ! i = (int i, xs ! i)"
  by (simp add: enum_def)

lemma set_enum: "(k, x) \<in> set (enum xs) \<longleftrightarrow> 0 \<le> k \<and> k < int (length xs) \<and> xs ! nat k = x"
proof
  assume "(k, x) \<in> set (enum xs)"
  then obtain i where "i < length xs" "(k, x) = (int i, xs ! i)" by (auto simp: in_set_conv_nth)
  then show "0 \<le> k \<and> k < int (length xs) \<and> xs ! nat k = x" by simp
next
  assume k: "0 \<le> k \<and> k < int (length xs) \<and> xs ! nat k = x"
  then have "nat k < length xs" by linarith
  from nth_enum [OF this] k have "enum xs ! nat k = (k, x)" by simp
  with k show "(k, x) \<in> set (enum xs)" by (metis length_enum nat_less_iff nth_mem)
qed

lemma for_res_unit:
  "for_res body xs u = Inr v \<Longrightarrow> x \<in> set xs \<Longrightarrow> \<exists>w :: unit. body x () = Inr w"
  by (induction xs arbitrary: u) (auto simp: bind_res_Inr_iff)

lemma map_res_nth_Inr:
  "map_res f xs = Inr ys \<Longrightarrow> length ys = length xs \<and> (\<forall>i < length xs. f (xs ! i) = Inr (ys ! i))"
  using map_res_Inr_length map_res_Inr_nth by blast

section \<open>The dimension map\<close>

definition axes_at :: "int \<Rightarrow> placement list \<Rightarrow> int \<Rightarrow> int list" where
  "axes_at a ps d = map fst (filter (\<lambda>(k, p). shard_dim_of p = Some d) (zip (py_range a (a + int (length ps))) ps))"

lemma axes_at_Cons:
  "axes_at a (p # ps) d = (if shard_dim_of p = Some d then [a] else []) @ axes_at (a + 1) ps d"
  by (simp add: axes_at_def py_range_Cons algebra_simps)

definition joined :: "int list option \<Rightarrow> int list \<Rightarrow> int list option" where
  "joined axes new = (if new = [] then axes else Some ((case axes of None \<Rightarrow> [] | Some as \<Rightarrow> as) @ new))"

lemma add_shards:
  assumes "\<forall>p \<in> set ps. \<forall>d. shard_dim_of p = Some d \<longrightarrow> 0 \<le> d"
    and "for_res (add_shard dim) (zip (py_range a (a + int (length ps))) ps) (dm, pa) = Inr (dm', pa')"
    and "length dm = nat dim" and "0 \<le> a" and "a + int (length ps) \<le> int (length pa)"
  shows "length dm' = nat dim \<and> length pa' = length pa \<and>
    (\<forall>p \<in> set ps. \<forall>d. shard_dim_of p = Some d \<longrightarrow> d < dim) \<and>
    (\<forall>d < nat dim. dm' ! d = joined (dm ! d) (axes_at a ps (int d))) \<and>
    (\<forall>k < length pa. pa' ! k =
       (if a \<le> int k \<and> int k < a + int (length ps) then
          (case ps ! (k - nat a) of Partial op \<Rightarrow> Some (extract_reduce_op op) | _ \<Rightarrow> pa ! k)
        else pa ! k))"
  using assms
proof (induction ps arbitrary: a dm pa)
  case Nil
  then show ?case by (auto simp: axes_at_def joined_def)
next
  case (Cons p ps)
  have range_Cons: "py_range a (a + int (length (p # ps))) = a # py_range (a + 1) (a + 1 + int (length ps))"
    by (simp add: py_range_Cons algebra_simps)
  from Cons.prems(2) obtain dm1 pa1 where step: "add_shard dim (a, p) (dm, pa) = Inr (dm1, pa1)"
    and rest: "for_res (add_shard dim) (zip (py_range (a + 1) (a + 1 + int (length ps))) ps) (dm1, pa1) = Inr (dm', pa')"
    unfolding range_Cons by (auto simp: bind_res_Inr_iff)
  have a: "0 \<le> a" "nat a < length pa" "a < int (length pa)" using Cons.prems(4,5) by auto
  have one: "length dm1 = nat dim \<and> length pa1 = length pa \<and>
      (\<forall>d. shard_dim_of p = Some d \<longrightarrow> d < dim) \<and>
      (\<forall>d < nat dim. dm1 ! d = (if shard_dim_of p = Some (int d) then joined (dm ! d) [a] else dm ! d)) \<and>
      pa1 = (case p of Partial op \<Rightarrow> pa[nat a := Some (extract_reduce_op op)] | _ \<Rightarrow> pa)"
  proof (cases "shard_dim_of p")
    case (Some d)
    with Cons.prems(1) have d: "0 \<le> d" by simp
    from step Some d have lt: "d < dim" by (auto simp: add_shard_def Let_def split: if_splits)
    with step Some d Cons.prems(3) have "dm1 = dm[nat d := joined (dm ! nat d) [a]]" "pa1 = pa"
      by (auto simp: add_shard_def Let_def joined_def)
    with Some d lt Cons.prems(3) show ?thesis by (cases p) (auto simp: nth_list_update)
  next
    case None
    with step a show ?thesis using Cons.prems(3) by (cases p) (auto simp: add_shard_def)
  qed
  have len1: "length dm1 = nat dim" "length pa1 = length pa" using one by blast+
  have "\<forall>p \<in> set ps. \<forall>d. shard_dim_of p = Some d \<longrightarrow> 0 \<le> d" using Cons.prems(1) by simp
  note IH = Cons.IH [OF this rest len1(1)]
  have ih: "length dm' = nat dim" "length pa' = length pa"
    "\<forall>p \<in> set ps. \<forall>d. shard_dim_of p = Some d \<longrightarrow> d < dim"
    "\<forall>d < nat dim. dm' ! d = joined (dm1 ! d) (axes_at (a + 1) ps (int d))"
    "\<forall>k < length pa. pa' ! k =
       (if a + 1 \<le> int k \<and> int k < a + 1 + int (length ps) then
          (case ps ! (k - nat (a + 1)) of Partial op \<Rightarrow> Some (extract_reduce_op op) | _ \<Rightarrow> pa1 ! k)
        else pa1 ! k)"
    using IH a Cons.prems(5) len1(2) by auto
  have "dm' ! d = joined (dm ! d) (axes_at a (p # ps) (int d))" if "d < nat dim" for d
    using that ih(4) one by (auto simp: axes_at_Cons joined_def split: option.splits)
  moreover have "pa' ! k =
       (if a \<le> int k \<and> int k < a + int (length (p # ps)) then
          (case (p # ps) ! (k - nat a) of Partial op \<Rightarrow> Some (extract_reduce_op op) | _ \<Rightarrow> pa ! k)
        else pa ! k)" if k: "k < length pa" for k
  proof (cases "int k = a")
    case True
    then have "k = nat a" by simp
    with True ih(5) k a one show ?thesis by (cases p) simp_all
  next
    case False
    have pa1: "pa1 ! k = pa ! k" using False a one by (cases p) auto
    show ?thesis
    proof (cases "a < int k")
      case True
      then have "k - nat a = Suc (k - nat (a + 1))" using a by (simp add: nat_add_distrib)
      with True ih(5) k pa1 show ?thesis by (auto split: placement.splits)
    next
      case f: False
      with False ih(5) k pa1 show ?thesis by auto
    qed
  qed
  ultimately show ?case using ih(1-3) one by auto
qed

lemma sorted_axes_at: "sorted (axes_at a ps d) \<and> distinct (axes_at a ps d)"
proof -
  have "sorted (map fst (filter P (zip xs ys))) \<and> distinct (map fst (filter P (zip xs ys)))"
    if "sorted xs" "distinct xs" for P and xs :: "int list" and ys :: "placement list"
    using that
  proof (induction xs arbitrary: ys)
    case (Cons x xs)
    show ?case
    proof (cases ys)
      case ys: (Cons y ys')
      have "set (map fst (filter P (zip xs ys'))) \<subseteq> set xs" by (auto dest: set_zip_leftD)
      with Cons.IH [of ys'] Cons.prems ys show ?thesis by auto
    qed simp
  qed simp
  then show ?thesis by (simp add: axes_at_def)
qed

lemma set_axes_at:
  "k \<in> set (axes_at 0 ps d) \<longleftrightarrow> 0 \<le> k \<and> k < int (length ps) \<and> shard_dim_of (ps ! nat k) = Some d"
proof -
  have "set (axes_at 0 ps d) = {k. \<exists>p. (k, p) \<in> set (enum ps) \<and> shard_dim_of p = Some d}"
    by (force simp: axes_at_def enum_def)
  then show ?thesis by (simp add: set_enum)
qed

section \<open>The order of the axes\<close>

lemma effective_permutes:
  assumes "effective_shard_axes ps axes = Inr order" and "sorted axes"
  shows "sort order = axes" and "set order = set axes" and "length order = length axes"
proof -
  obtain keys where keys': "map_res (\<lambda>i. bind_res (py_nth ps i) (\<lambda>p. Inr (placement_split_factor p))) axes = Inr keys"
    and order: "order = map snd (sort_key fst (zip keys axes))"
    using assms(1) by (auto simp: effective_shard_axes_def bind_res_Inr_iff)
  have keys: "length keys = length axes" using map_res_Inr_length [OF keys'] .
  have "mset order = mset (map snd (zip keys axes))" by (simp add: order)
  also have "map snd (zip keys axes) = axes" using keys by simp
  finally have m: "mset order = mset axes" .
  then have "sort order = sort axes" by (intro properties_for_sort) simp_all
  then show "sort order = axes" using assms(2) by (simp add: sort_key_id_if_sorted)
  show "set order = set axes" using m by (metis set_mset_mset)
  show "length order = length axes" using m by (metis size_mset)
qed

lemma effective_single: "effective_shard_axes ps [k] = Inr order \<Longrightarrow> order = [k]"
  by (auto simp: effective_shard_axes_def bind_res_Inr_iff)

text \<open>What validation and reordering give for one tensor dimension.\<close>

definition ordered_axes :: "int list \<Rightarrow> placement list \<Rightarrow> int list \<Rightarrow> int list \<Rightarrow> bool" where
  "ordered_axes sizes ps axes order \<longleftrightarrow>
     sort order = axes \<and> set order = set axes \<and> length order = length axes \<and>
     (\<exists>expected. compute_expected_split_factors sizes axes order = Inr expected \<and>
        (\<forall>k \<in> set axes. map_of expected k = Some (placement_split_factor (ps ! nat k))))"

lemma dim_map_ordered:
  assumes "validate_split_factors sizes ps dm = Inr u" and "reorder_dim_map ps dm = Inr dm2" and "d < length dm"
    and "\<And>axes. dm ! d = Some axes \<Longrightarrow> sorted axes \<and> axes \<noteq> [] \<and> (\<forall>k \<in> set axes. 0 \<le> k \<and> k < int (length ps))"
  shows "length dm2 = length dm" and "dm ! d = None \<Longrightarrow> dm2 ! d = None"
    and "dm ! d = Some axes \<Longrightarrow> \<exists>order. dm2 ! d = Some order \<and> ordered_axes sizes ps axes order"
proof -
  note re = map_res_nth_Inr [OF assms(2) [unfolded reorder_dim_map_def]]
  show "length dm2 = length dm" using re by blast
  show "dm2 ! d = None" if "dm ! d = None" using re assms(3) that by auto
  show "\<exists>order. dm2 ! d = Some order \<and> ordered_axes sizes ps axes order" if dmd: "dm ! d = Some axes"
  proof -
    have axes: "sorted axes" "axes \<noteq> []" "\<forall>k \<in> set axes. 0 \<le> k \<and> k < int (length ps)" using assms(4) [OF dmd] by auto
    have mem: "Some axes \<in> set dm" using assms(3) dmd by (metis nth_mem)
    from for_res_unit [OF assms(1) [unfolded validate_split_factors_def] mem]
    obtain order expected w where order: "effective_shard_axes ps axes = Inr order"
      and expected: "compute_expected_split_factors sizes axes order = Inr expected"
      and checks: "for_res (\<lambda>mesh_idx _. bind_res (py_nth ps mesh_idx) (\<lambda>p. bind_res (dict_get expected mesh_idx) (\<lambda>f.
          if placement_split_factor p \<noteq> f then Inl ValueError else Inr ()))) axes () = Inr w"
      by (auto simp: bind_res_Inr_iff)
    have "map_of expected k = Some (placement_split_factor (ps ! nat k))" if k: "k \<in> set axes" for k
      using for_res_unit [OF checks k] axes(3) k
      by (auto simp: bind_res_Inr_iff dict_get_Inr_iff split: if_splits)
    with expected effective_permutes [OF order axes(1)] have ok: "ordered_axes sizes ps axes order"
      by (auto simp: ordered_axes_def)
    have step: "(case dm ! d of None \<Rightarrow> Inr None | Some axes \<Rightarrow>
        if length axes \<le> 1 then Inr (Some axes)
        else bind_res (effective_shard_axes ps axes) (\<lambda>as. Inr (Some as))) = Inr (dm2 ! d)" using re assms(3) by blast
    show ?thesis
    proof (cases "length axes \<le> 1")
      case True
      then obtain k where "axes = [k]" using axes(2) by (cases axes) auto
      with order have "order = axes" using effective_single by blast
      moreover have "dm2 ! d = Some axes" using step dmd True by simp
      ultimately show ?thesis using ok by simp
    next
      case False
      then have "dm2 ! d = Some order" using step dmd order by simp
      with ok show ?thesis by blast
    qed
  qed
qed

section \<open>Placing the shards again\<close>

lemma map_of_uneven:
  assumes "placements l = Some ps"
  shows "map_of (uneven_shard_dims l) k = Some d \<longleftrightarrow>
    0 \<le> k \<and> k < int (length ps) \<and> (ps ! nat k = Shard d True \<or> (\<exists>f. ps ! nat k = StridedShard d f True))"
proof -
  let ?g = "\<lambda>(d, p). case p of Shard k u \<Rightarrow> if u then Some (d, k) else None
       | StridedShard k f u \<Rightarrow> if u then Some (d, k) else None | _ \<Rightarrow> None"
  have gen: "map_of (List.map_filter ?g xs) k = Some d \<longleftrightarrow>
      (\<exists>p. (k, p) \<in> set xs \<and> (p = Shard d True \<or> (\<exists>f. p = StridedShard d f True)))"
    if "distinct (map fst xs)" for xs :: "(int \<times> placement) list"
    using that
  proof (induction xs)
    case (Cons x xs)
    obtain i p where x: "x = (i, p)" by (cases x)
    have new: "(i, q) \<notin> set xs" for q using Cons.prems by (force simp: x)
    show ?case
    proof (cases "i = k")
      case True
      then have rest: "map_of (List.map_filter ?g xs) k \<noteq> Some d" using Cons new by auto
      have none: "map_of (List.map_filter ?g xs) k = None"
      proof (rule ccontr)
        assume "map_of (List.map_filter ?g xs) k \<noteq> None"
        then obtain e where "(k, e) \<in> set (List.map_filter ?g xs)" by (auto dest: map_of_SomeD)
        then obtain q where "(k, q) \<in> set xs"
          by (auto simp: List.map_filter_def split: placement.splits if_splits)
        with new True show False by simp
      qed
      with new True show ?thesis by (cases p) (auto simp: map_filter_simps x)
    next
      case False
      with Cons show ?thesis by (cases p) (auto simp: map_filter_simps x)
    qed
  qed (simp add: map_filter_simps)
  have "distinct (map fst (enum ps))" by (simp add: enum_def)
  from gen [OF this] show ?thesis by (auto simp: uneven_shard_dims_def assms set_enum)
qed

text \<open>A placement that survives the round trip: no negative dimension, no marker and no factor 1.\<close>

fun canonical :: "placement \<Rightarrow> bool" where
  "canonical (Shard d u) = (0 \<le> d)"
| "canonical (StridedShard d f u) = (0 \<le> d \<and> 1 < f)"
| "canonical (StridedRaggedShard dims units f) = False"
| "canonical (Partial op) = (extract_reduce_op op = op)"
| "canonical _ = True"

lemma place_one:
  assumes "ordered_axes sizes ps axes order"
    and "filter (\<lambda>m. m \<noteq> -1) (mapped_dims mapping) = map (\<lambda>k. int (length sizes) - 1 - k) order"
    and "\<forall>k \<in> set axes. 0 \<le> k \<and> k < int (length ps) \<and> shard_dim_of (ps ! nat k) = Some d \<and> canonical (ps ! nat k)"
    and "\<And>k. map_of uneven k = Some d \<longleftrightarrow> 0 \<le> k \<and> k < int (length ps) \<and>
      (ps ! nat k = Shard d True \<or> (\<exists>f. ps ! nat k = StridedShard d f True))"
    and "length qs = length ps"
  shows "\<exists>qs'. place_shards sizes uneven (d, mapping) qs = Inr qs' \<and> length qs' = length ps \<and>
    (\<forall>k < length ps. qs' ! k = (if int k \<in> set axes then ps ! k else qs ! k))"
proof -
  from assms(1) obtain expected where ord: "sort order = axes" "set order = set axes"
    and expected: "compute_expected_split_factors sizes axes order = Inr expected"
    and factors: "\<forall>k \<in> set axes. map_of expected k = Some (placement_split_factor (ps ! nat k))"
    by (auto simp: ordered_axes_def)
  have idx: "map (\<lambda>m. int (length sizes) - 1 - m) (filter (\<lambda>m. m \<noteq> -1) (mapped_dims mapping)) = order"
    unfolding assms(2) by (simp add: o_def)
  let ?body = "\<lambda>mesh_idx ps. bind_res (dict_get expected mesh_idx) (\<lambda>split_factor.
      bind_res (if 1 < split_factor then make_strided_shard d split_factor (map_of uneven mesh_idx = Some d)
                else Inr (Shard d (map_of uneven mesh_idx = Some d))) (\<lambda>p. py_set ps mesh_idx p))"
  have step: "?body k qs = Inr (qs[nat k := ps ! nat k])" if k: "k \<in> set axes" and "length qs = length ps" for k qs
  proof -
    have kk: "0 \<le> k" "k < int (length ps)" "shard_dim_of (ps ! nat k) = Some d" "canonical (ps ! nat k)"
      using assms(3) k by auto
    have f: "dict_get expected k = Inr (placement_split_factor (ps ! nat k))"
      using factors k by (simp add: dict_get_Inr_iff)
    from kk(3) consider u where "ps ! nat k = Shard d u" | f u where "ps ! nat k = StridedShard d f u"
      by (cases "ps ! nat k") auto
    then show ?thesis
      using f kk(1,2,4) that(2) assms(4) [of k] by cases (auto simp: make_strided_shard_def)
  qed
  have loop: "\<exists>qs'. for_res ?body as qs = Inr qs' \<and> length qs' = length ps \<and>
      (\<forall>k < length ps. qs' ! k = (if int k \<in> set as then ps ! k else qs ! k))"
    if "set as \<subseteq> set axes" "length qs = length ps" for as qs
    using that
  proof (induction as arbitrary: qs)
    case (Cons a as)
    have a: "0 \<le> a" using assms(3) Cons.prems(1) by auto
    have st: "?body a qs = Inr (qs[nat a := ps ! nat a])" by (rule step) (use Cons.prems in auto)
    from Cons.IH [of "qs[nat a := ps ! nat a]"] Cons.prems obtain qs' where
      qs': "for_res ?body as (qs[nat a := ps ! nat a]) = Inr qs'" "length qs' = length ps"
      "\<forall>k < length ps. qs' ! k = (if int k \<in> set as then ps ! k else qs[nat a := ps ! nat a] ! k)" by auto
    have "qs' ! k = (if int k \<in> set (a # as) then ps ! k else qs ! k)" if "k < length ps" for k
      using qs'(3) that a Cons.prems(2) by (auto simp: nth_list_update)
    with qs'(1,2) st show ?case by (intro exI [of _ qs']) simp
  qed simp
  from loop [of axes qs] assms(5) show ?thesis
    by (simp add: place_shards_def Let_def idx ord(1) expected)
qed

lemma nth_convert:
  assumes "d < length dm"
  shows "dm ! d = None \<Longrightarrow> filter (\<lambda>m. m \<noteq> -1) (mapped_dims (convert_dim_map L dm ! d)) = []"
    and "dm ! d = Some order \<Longrightarrow> \<forall>k \<in> set order. k < L \<Longrightarrow>
      mapped_dims (convert_dim_map L dm ! d) = map (\<lambda>k. L - 1 - k) order"
  using assms by (auto simp: convert_dim_map_def Let_def split: list.splits)

text \<open>The three loops of \<open>tensor_map_to_placement\<close> rebuild the placements.\<close>

lemma rebuild:
  assumes "length ps = length sizes" and "\<forall>p \<in> set ps. canonical p"
    and "\<And>d. d < length tm \<Longrightarrow> axes_at 0 ps (int d) \<noteq> [] \<Longrightarrow>
      \<exists>order. ordered_axes sizes ps (axes_at 0 ps (int d)) order \<and>
        filter (\<lambda>m. m \<noteq> -1) (mapped_dims (tm ! d)) = map (\<lambda>k. int (length sizes) - 1 - k) order"
    and "\<And>d. d < length tm \<Longrightarrow> axes_at 0 ps (int d) = [] \<Longrightarrow> filter (\<lambda>m. m \<noteq> -1) (mapped_dims (tm ! d)) = []"
    and "\<forall>p \<in> set ps. \<forall>d. shard_dim_of p = Some d \<longrightarrow> 0 \<le> d \<and> d < int (length tm)"
    and uneven: "\<And>k d. map_of uneven k = Some d \<longleftrightarrow> 0 \<le> k \<and> k < int (length ps) \<and>
      (ps ! nat k = Shard d True \<or> (\<exists>f. ps ! nat k = StridedShard d f True))"
    and "length pa = length ps" and "\<And>k op. k < length ps \<Longrightarrow> pa ! k = Some op \<longleftrightarrow> ps ! k = Partial op"
  shows "\<exists>qs. for_res (place_shards sizes uneven) (enum tm) (replicate (length sizes) Replicate) = Inr qs \<and>
    (\<exists>qs'. for_res (\<lambda>(mesh_idx, op) ps. case op of None \<Rightarrow> Inr ps | Some s \<Rightarrow> py_set ps mesh_idx (Partial s))
        (enum pa) qs = Inr qs' \<and> length qs' = length ps \<and>
      (\<forall>k < length ps. qs' ! k = (if is_ragged_shard (ps ! k) then Replicate else ps ! k)))"
proof -
  define shards where "shards j qs \<longleftrightarrow> length qs = length ps \<and>
    (\<forall>k < length ps. qs ! k = (if \<exists>d < int j. shard_dim_of (ps ! k) = Some d then ps ! k else Replicate))" for j qs
  have "\<exists>qs. for_res (place_shards sizes uneven) (enum tm) (replicate (length sizes) Replicate) = Inr qs \<and>
      shards (length (enum tm)) qs"
  proof (rule for_res_positions)
    show "shards 0 (replicate (length sizes) Replicate)"
      using assms(1,5) by (force simp: shards_def)
  next
    fix j qs assume j: "j < length (enum tm)" and inv: "shards j qs"
    have jt: "j < length tm" using j by simp
    have in_axes: "int k \<in> set (axes_at 0 ps (int j)) \<longleftrightarrow> shard_dim_of (ps ! k) = Some (int j)" if "k < length ps" for k
      using that by (simp add: set_axes_at)
    have "\<exists>v. place_shards sizes uneven (int j, tm ! j) qs = Inr v \<and> length v = length ps \<and>
        (\<forall>k < length ps. v ! k = (if int k \<in> set (axes_at 0 ps (int j)) then ps ! k else qs ! k))"
    proof (cases "axes_at 0 ps (int j) = []")
      case True
      from assms(4) [OF jt True] show ?thesis using inv True
        by (simp add: place_shards_def Let_def compute_expected_split_factors_def shards_def)
    next
      case False
      from assms(3) [OF jt False] obtain order where order: "ordered_axes sizes ps (axes_at 0 ps (int j)) order"
        "filter (\<lambda>m. m \<noteq> -1) (mapped_dims (tm ! j)) = map (\<lambda>k. int (length sizes) - 1 - k) order" by blast
      have "\<forall>k \<in> set (axes_at 0 ps (int j)). 0 \<le> k \<and> k < int (length ps) \<and>
          shard_dim_of (ps ! nat k) = Some (int j) \<and> canonical (ps ! nat k)"
      proof
        fix k assume "k \<in> set (axes_at 0 ps (int j))"
        then have k: "0 \<le> k" "k < int (length ps)" "shard_dim_of (ps ! nat k) = Some (int j)" by (simp_all add: set_axes_at)
        then have "nat k < length ps" by linarith
        with k assms(2) show "0 \<le> k \<and> k < int (length ps) \<and> shard_dim_of (ps ! nat k) = Some (int j) \<and>
            canonical (ps ! nat k)" by simp
      qed
      from place_one [OF order this uneven] inv show ?thesis by (simp add: shards_def)
    qed
    then obtain v where v: "place_shards sizes uneven (int j, tm ! j) qs = Inr v" "length v = length ps"
      "\<forall>k < length ps. v ! k = (if int k \<in> set (axes_at 0 ps (int j)) then ps ! k else qs ! k)" by blast
    have "v ! k = (if \<exists>d < int (Suc j). shard_dim_of (ps ! k) = Some d then ps ! k else Replicate)"
      if k: "k < length ps" for k
    proof (cases "shard_dim_of (ps ! k) = Some (int j)")
      case True
      with v(3) in_axes [OF k] k show ?thesis by auto
    next
      case False
      then have "(\<exists>d < int (Suc j). shard_dim_of (ps ! k) = Some d) \<longleftrightarrow> (\<exists>d < int j. shard_dim_of (ps ! k) = Some d)"
        by (auto simp: less_le)
      with v(3) in_axes [OF k] k False inv show ?thesis by (simp add: shards_def)
    qed
    with v(1,2) jt show "\<exists>v. place_shards sizes uneven (enum tm ! j) qs = Inr v \<and> shards (Suc j) v"
      by (intro exI [of _ v]) (simp add: shards_def)
  qed
  then obtain qs where qs: "for_res (place_shards sizes uneven) (enum tm) (replicate (length sizes) Replicate) = Inr qs"
    "shards (length tm) qs" by auto
  have qs_nth: "qs ! k = (if shard_dim_of (ps ! k) \<noteq> None then ps ! k else Replicate)" if k: "k < length ps" for k
  proof -
    have "(\<exists>d < int (length tm). shard_dim_of (ps ! k) = Some d) \<longleftrightarrow> shard_dim_of (ps ! k) \<noteq> None"
      using assms(5) k by (auto dest: nth_mem)
    with qs(2) k show ?thesis unfolding shards_def by simp
  qed
  define parts where "parts j qs' \<longleftrightarrow> length qs' = length ps \<and>
    (\<forall>k < length ps. qs' ! k = (if k < j \<and> pa ! k \<noteq> None then Partial (the (pa ! k)) else qs ! k))" for j qs'
  have "\<exists>qs'. for_res (\<lambda>(mesh_idx, op) ps. case op of None \<Rightarrow> Inr ps | Some s \<Rightarrow> py_set ps mesh_idx (Partial s))
      (enum pa) qs = Inr qs' \<and> parts (length (enum pa)) qs'"
  proof (rule for_res_positions)
    show "parts 0 qs" using qs(2) by (simp add: parts_def shards_def)
  next
    fix j us assume j: "j < length (enum pa)" and inv: "parts j us"
    with assms(7) have "j < length ps" "j < length pa" "j < length us" by (simp_all add: parts_def)
    with inv show "\<exists>v. (case enum pa ! j of (mesh_idx, op) \<Rightarrow> \<lambda>ps. case op of None \<Rightarrow> Inr ps
        | Some s \<Rightarrow> py_set ps mesh_idx (Partial s)) us = Inr v \<and> parts (Suc j) v"
      by (cases "pa ! j") (auto simp: parts_def nth_list_update less_Suc_eq)
  qed
  then obtain qs' where qs': "for_res (\<lambda>(mesh_idx, op) ps. case op of None \<Rightarrow> Inr ps
      | Some s \<Rightarrow> py_set ps mesh_idx (Partial s)) (enum pa) qs = Inr qs'" "parts (length ps) qs'"
    using assms(7) by auto
  have "qs' ! k = (if is_ragged_shard (ps ! k) then Replicate else ps ! k)" if k: "k < length ps" for k
  proof -
    have "canonical (ps ! k)" using assms(2) k by simp
    with qs'(2) k qs_nth [OF k] assms(8) [OF k] show ?thesis
      by (cases "ps ! k"; cases "pa ! k") (auto simp: parts_def)
  qed
  with qs(1) qs' show ?thesis by (auto simp: parts_def)
qed

section \<open>A layout that converts\<close>

lemma ragged_no_shard: "is_ragged_shard p \<Longrightarrow> shard_dim_of p = None"
  by (cases p) auto

lemma axes_at_normal: "axes_at a (replace_ragged_with_replicate ps) d = axes_at a ps d"
proof (induction ps arbitrary: a)
  case Nil
  show ?case by (simp add: replace_ragged_with_replicate_def)
next
  case (Cons p ps)
  have cons: "replace_ragged_with_replicate (p # ps) =
      (if is_ragged_shard p then Replicate else p) # replace_ragged_with_replicate ps"
    by (simp add: replace_ragged_with_replicate_def)
  show ?case unfolding cons axes_at_Cons Cons.IH using ragged_no_shard [of p] by auto
qed

text \<open>What a successful conversion says about the placements and the tensor map.\<close>

lemma converted:
  assumes "placement_to_tensor_map dim l = Inr (tm, l')" and "0 < dim" and "placements l = Some ps"
    and "length ps = length (mesh_sizes l)" and "partial l = replicate (length ps) None"
    and "\<forall>p \<in> set ps. \<forall>d. shard_dim_of p = Some d \<longrightarrow> 0 \<le> d"
  shows "length tm = nat dim" and "\<forall>p \<in> set ps. \<forall>d. shard_dim_of p = Some d \<longrightarrow> 0 \<le> d \<and> d < dim"
    and "\<And>d. d < nat dim \<Longrightarrow> axes_at 0 ps (int d) = [] \<Longrightarrow> filter (\<lambda>m. m \<noteq> -1) (mapped_dims (tm ! d)) = []"
    and "\<And>d. d < nat dim \<Longrightarrow> axes_at 0 ps (int d) \<noteq> [] \<Longrightarrow> \<exists>order.
      ordered_axes (mesh_sizes l) ps (axes_at 0 ps (int d)) order \<and>
      mapped_dims (tm ! d) = map (\<lambda>k. mesh_ndim l - 1 - k) order"
    and "length (partial l') = length ps"
    and "\<And>k op. k < length ps \<Longrightarrow> partial l' ! k = Some op \<longleftrightarrow> (\<exists>s. ps ! k = Partial s \<and> extract_reduce_op s = op)"
    and "\<exists>readable. build_readable_tensor_map (mesh_dim_names (mesh l)) tm = Inr readable \<and>
      l' = l\<lparr>tensor_map := Some tm, partial := partial l', alias_tensor_map := Some readable\<rparr>"
proof -
  define normal where "normal = replace_ragged_with_replicate ps"
  have norm: "normal_placements l = Some normal" using assms(3) by (simp add: normal_placements_def normal_def)
  have normal_len: "length normal = length ps" by (simp add: normal_def replace_ragged_with_replicate_def)
  obtain dm pa dm2 u readable where
    loop: "for_res (add_shard dim) (enum normal) (replicate (nat dim) None, partial l) = Inr (dm, pa)" and
    val: "validate_split_factors (mesh_sizes l) ps dm = Inr u" and re: "reorder_dim_map ps dm = Inr dm2" and
    tm: "tm = convert_dim_map (mesh_ndim l) dm2" and
    readable: "build_readable_tensor_map (mesh_dim_names (mesh l)) tm = Inr readable" and
    l': "l' = l\<lparr>tensor_map := Some tm, partial := pa, alias_tensor_map := Some readable\<rparr>"
    using assms(1,2) unfolding placement_to_tensor_map_def build_dim_map_def assms(3) norm
    by (auto simp: bind_res_Inr_iff Let_def split: if_splits)
  have nn: "\<forall>p \<in> set normal. \<forall>d. shard_dim_of p = Some d \<longrightarrow> 0 \<le> d"
    using assms(6) by (auto simp: normal_def replace_ragged_with_replicate_def split: if_splits)
  have "for_res (add_shard dim) (zip (py_range 0 (0 + int (length normal))) normal) (replicate (nat dim) None, partial l) = Inr (dm, pa)"
    using loop by (simp add: enum_def)
  from add_shards [OF nn this] assms(5) normal_len
  have add: "length dm = nat dim" "length pa = length ps"
    "\<forall>p \<in> set normal. \<forall>d. shard_dim_of p = Some d \<longrightarrow> d < dim"
    "\<And>d. d < nat dim \<Longrightarrow> dm ! d = joined None (axes_at 0 normal (int d))"
    "\<And>k. k < length ps \<Longrightarrow> pa ! k = (case normal ! k of Partial op \<Rightarrow> Some (extract_reduce_op op) | _ \<Rightarrow> None)"
    by (auto split: placement.splits)
  have axes: "axes_at 0 normal d = axes_at 0 ps d" for d by (simp add: normal_def axes_at_normal)
  have dm_some: "sorted as \<and> as \<noteq> [] \<and> (\<forall>k \<in> set as. 0 \<le> k \<and> k < int (length ps))"
    if "d < length dm" "dm ! d = Some as" for d as
  proof -
    have "as = axes_at 0 ps (int d) \<and> as \<noteq> []" using that add(1,4) axes by (auto simp: joined_def split: if_splits)
    then have "as = axes_at 0 ps (int d)" "as \<noteq> []" by blast+
    then show ?thesis using sorted_axes_at [of 0 ps "int d"] by (simp add: set_axes_at)
  qed
  note ordered = dim_map_ordered [OF val re]
  have len2: "length dm2 = nat dim" using map_res_nth_Inr [OF re [unfolded reorder_dim_map_def]] add(1) by simp
  show "length tm = nat dim" using len2 by (simp add: tm convert_dim_map_def)
  show "\<forall>p \<in> set ps. \<forall>d. shard_dim_of p = Some d \<longrightarrow> 0 \<le> d \<and> d < dim"
  proof (intro ballI allI impI)
    fix p d assume p: "p \<in> set ps" "shard_dim_of p = Some d"
    then have "\<not> is_ragged_shard p" using ragged_no_shard by force
    with p have "p \<in> set normal" by (force simp: normal_def replace_ragged_with_replicate_def)
    with add(3) p assms(6) show "0 \<le> d \<and> d < dim" by blast
  qed
  show "filter (\<lambda>m. m \<noteq> -1) (mapped_dims (tm ! d)) = []" if d: "d < nat dim" "axes_at 0 ps (int d) = []" for d
  proof -
    have "dm ! d = None" using add(4) [OF d(1)] d(2) axes by (simp add: joined_def)
    moreover have "d < length dm" using d(1) add(1) by simp
    ultimately have "dm2 ! d = None" using ordered(2) [of d, OF _ dm_some [of d]] by blast
    with nth_convert(1) [of d dm2] d(1) len2 show ?thesis by (simp add: tm)
  qed
  show "\<exists>order. ordered_axes (mesh_sizes l) ps (axes_at 0 ps (int d)) order \<and>
      mapped_dims (tm ! d) = map (\<lambda>k. mesh_ndim l - 1 - k) order"
    if d: "d < nat dim" "axes_at 0 ps (int d) \<noteq> []" for d
  proof -
    have at: "dm ! d = Some (axes_at 0 ps (int d))" using add(4) [OF d(1)] d(2) axes by (simp add: joined_def)
    have "d < length dm" using d(1) add(1) by simp
    from ordered(3) [OF this dm_some [OF this] at] obtain order where order: "dm2 ! d = Some order"
      "ordered_axes (mesh_sizes l) ps (axes_at 0 ps (int d)) order" by auto
    have "\<forall>k \<in> set order. k < mesh_ndim l"
      using order(2) assms(4) by (auto simp: ordered_axes_def set_axes_at mesh_ndim_def mesh_sizes_def)
    from nth_convert(2) [OF _ order(1) this] d(1) len2 order(2) show ?thesis by (auto simp: tm)
  qed
  show "length (partial l') = length ps" using add(2) by (simp add: l')
  show "partial l' ! k = Some op \<longleftrightarrow> (\<exists>s. ps ! k = Partial s \<and> extract_reduce_op s = op)"
    if "k < length ps" for k op
    using add(5) [OF that] that
    by (cases "ps ! k") (auto simp: l' normal_def replace_ragged_with_replicate_def)
  show "\<exists>readable. build_readable_tensor_map (mesh_dim_names (mesh l)) tm = Inr readable \<and>
      l' = l\<lparr>tensor_map := Some tm, partial := partial l', alias_tensor_map := Some readable\<rparr>"
    using readable by (intro exI [of _ readable]) (simp add: l')
qed

text \<open>The loop of \<open>extract_ragged_shard\<close>.\<close>

definition ragged_loop :: "(int \<times> placement) list \<Rightarrow> (int \<times> placement) option \<Rightarrow> (int \<times> placement) option result" where
  "ragged_loop xs r = for_res (\<lambda>(mesh_dim, p) ragged. if \<not> is_ragged_shard p then Inr ragged
     else if ragged \<noteq> None then Inl ValueError else Inr (Some (mesh_dim, p))) xs r"

lemma ragged_loop_simps [simp]:
  "ragged_loop [] r = Inr r"
  "ragged_loop ((i, q) # xs) r =
     (if \<not> is_ragged_shard q then ragged_loop xs r
      else if r \<noteq> None then Inl ValueError else ragged_loop xs (Some (i, q)))"
  by (simp_all add: ragged_loop_def)

lemma extract_ragged_loop: "extract_ragged_shard ps = ragged_loop (enum ps) None"
  by (simp add: extract_ragged_shard_def ragged_loop_def)

lemma ragged_loop_keep: "ragged_loop xs (Some r) = Inr s \<Longrightarrow> s = Some r"
  by (induction xs) (auto split: if_splits)

lemma ragged_loop_hit:
  "ragged_loop xs r = Inr s \<Longrightarrow> (k, p) \<in> set xs \<Longrightarrow> is_ragged_shard p \<Longrightarrow> s = Some (k, p)"
proof (induction xs arbitrary: r)
  case (Cons x xs)
  obtain i q where x: "x = (i, q)" by (cases x)
  show ?case
  proof (cases "is_ragged_shard q")
    case True
    with Cons.prems(1) have rest: "ragged_loop xs (Some (i, q)) = Inr s" by (simp add: x split: if_splits)
    from ragged_loop_keep [OF this] Cons.IH [OF rest _ Cons.prems(3)] Cons.prems(2) show ?thesis by (auto simp: x)
  next
    case False
    with Cons show ?thesis by (auto simp: x)
  qed
qed simp

lemma ragged_loop_source:
  "ragged_loop xs r = Inr (Some (d, p)) \<Longrightarrow> r = Some (d, p) \<or> (d, p) \<in> set xs \<and> is_ragged_shard p"
proof (induction xs arbitrary: r)
  case (Cons x xs)
  obtain i q where x: "x = (i, q)" by (cases x)
  show ?case
  proof (cases "is_ragged_shard q")
    case True
    with Cons.prems have "ragged_loop xs (Some (i, q)) = Inr (Some (d, p))" by (simp add: x split: if_splits)
    from Cons.IH [OF this] True show ?thesis by (auto simp: x)
  next
    case False
    with Cons.prems have "ragged_loop xs r = Inr (Some (d, p))" by (simp add: x)
    from Cons.IH [OF this] show ?thesis by auto
  qed
qed simp

lemma extract_ragged:
  assumes "extract_ragged_shard ps = Inr ragged" and "k < length ps" and "is_ragged_shard (ps ! k)"
  shows "ragged = Some (int k, ps ! k)"
  using ragged_loop_hit [OF assms(1) [unfolded extract_ragged_loop] _ assms(3), of "int k"] assms(2)
  by (simp add: set_enum)

lemma extract_none:
  assumes "extract_ragged_shard ps = Inr (Some (d, p))"
  shows "0 \<le> d \<and> d < int (length ps) \<and> ps ! nat d = p \<and> is_ragged_shard p"
  using ragged_loop_source [OF assms [unfolded extract_ragged_loop]] by (simp add: set_enum)

section \<open>Slices of a converted layout\<close>

lemma distinct_concat_nth:
  assumes "\<And>i. i < length xss \<Longrightarrow> distinct (xss ! i)"
    and "\<And>i j. i < length xss \<Longrightarrow> j < length xss \<Longrightarrow> i \<noteq> j \<Longrightarrow> set (xss ! i) \<inter> set (xss ! j) = {}"
  shows "distinct (concat xss)"
  using assms
proof (induction xss)
  case (Cons xs xss)
  have "distinct (concat xss)"
  proof (rule Cons.IH)
    show "distinct (xss ! i)" if "i < length xss" for i using Cons.prems(1) [of "Suc i"] that by simp
    show "set (xss ! i) \<inter> set (xss ! j) = {}" if "i < length xss" "j < length xss" "i \<noteq> j" for i j
      using Cons.prems(2) [of "Suc i" "Suc j"] that by simp
  qed
  moreover have "set xs \<inter> set (xss ! i) = {}" if "i < length xss" for i
    using Cons.prems(2) [of 0 "Suc i"] that by simp
  then have "set xs \<inter> set ys = {}" if "ys \<in> set xss" for ys using that by (auto simp: in_set_conv_nth)
  then have "set xs \<inter> set (concat xss) = {}" by auto
  ultimately show ?case using Cons.prems(1) [of 0] by simp
qed simp

lemma converted_axes:
  assumes "placement_to_tensor_map dim l = Inr (tm, l')" and "0 < dim" and "placements l = Some ps"
    and "length ps = length (mesh_sizes l)" and "partial l = replicate (length ps) None"
    and "\<forall>p \<in> set ps. \<forall>d. shard_dim_of p = Some d \<longrightarrow> 0 \<le> d" and "\<forall>n \<in> set (mesh_sizes l). 0 < n"
  shows "well_mapped (mesh_sizes l) tm" and "length tm = nat dim"
    and "set (concat (map (axes_of (int (length (mesh_sizes l)))) tm)) =
      {k. 0 \<le> k \<and> k < int (length ps) \<and> shard_dim_of (ps ! nat k) \<noteq> None}"
proof -
  let ?L = "int (length (mesh_sizes l))"
  note conv = converted [OF assms(1-6)]
  show len: "length tm = nat dim" by (rule conv(1))
  have entry: "set (axes_of ?L (tm ! d)) = set (axes_at 0 ps (int d)) \<and> distinct (axes_of ?L (tm ! d)) \<and>
      (\<forall>m \<in> set (mapped_dims (tm ! d)). m = -1 \<or> 0 \<le> m \<and> m < ?L)" if d: "d < length tm" for d
  proof (cases "axes_at 0 ps (int d) = []")
    case True
    from conv(3) [OF _ True] d len have none: "filter (\<lambda>m. m \<noteq> -1) (mapped_dims (tm ! d)) = []" by simp
    then show ?thesis using True by (auto simp: axes_of_def filter_empty_conv)
  next
    case False
    from conv(4) [OF _ False] d len obtain order where order:
      "ordered_axes (mesh_sizes l) ps (axes_at 0 ps (int d)) order"
      "mapped_dims (tm ! d) = map (\<lambda>k. mesh_ndim l - 1 - k) order" by auto
    have ord: "set order = set (axes_at 0 ps (int d))" "length order = length (axes_at 0 ps (int d))"
      using order(1) by (auto simp: ordered_axes_def)
    have range: "\<forall>k \<in> set order. 0 \<le> k \<and> k < ?L" using ord(1) assms(4) by (simp add: set_axes_at)
    have nd: "mesh_ndim l = ?L" by (simp add: mesh_ndim_def mesh_sizes_def)
    have "filter (\<lambda>m. m \<noteq> -1) (mapped_dims (tm ! d)) = mapped_dims (tm ! d)"
      unfolding order(2) nd using range by (force simp: filter_id_conv)
    then have "axes_of ?L (tm ! d) = order" unfolding axes_of_def order(2) nd by (simp add: o_def)
    moreover have "distinct order"
      using ord sorted_axes_at [of 0 ps "int d"] by (metis card_distinct distinct_card)
    ultimately show ?thesis using ord(1) range unfolding order(2) nd by auto
  qed
  have distinct: "distinct (concat (map (axes_of ?L) tm))"
  proof (rule distinct_concat_nth)
    show "distinct (map (axes_of ?L) tm ! i)" if "i < length (map (axes_of ?L) tm)" for i
      using entry [of i] that by simp
    show "set (map (axes_of ?L) tm ! i) \<inter> set (map (axes_of ?L) tm ! j) = {}"
      if "i < length (map (axes_of ?L) tm)" "j < length (map (axes_of ?L) tm)" "i \<noteq> j" for i j
      using entry [of i] entry [of j] that by (auto simp: set_axes_at)
  qed
  have "m = -1 \<or> 0 \<le> m \<and> m < ?L" if mem: "mapping \<in> set tm" "m \<in> set (mapped_dims mapping)" for mapping m
  proof -
    obtain i where "i < length tm" "mapping = tm ! i" using mem(1) by (auto simp: in_set_conv_nth)
    with entry [of i] mem(2) show ?thesis by blast
  qed
  with distinct assms(7) show "well_mapped (mesh_sizes l) tm" unfolding well_mapped_def by blast
  have "set (concat (map (axes_of ?L) tm)) = (\<Union>d \<in> {..<length tm}. set (axes_of ?L (tm ! d)))"
    unfolding set_concat set_map image_image set_conv_nth [of tm] by blast
  also have "\<dots> = (\<Union>d \<in> {..<length tm}. set (axes_at 0 ps (int d)))" using entry by auto
  also have "\<dots> = {k. 0 \<le> k \<and> k < int (length ps) \<and> shard_dim_of (ps ! nat k) \<noteq> None}"
  proof (rule set_eqI, rule iffI)
    fix k assume "k \<in> {k. 0 \<le> k \<and> k < int (length ps) \<and> shard_dim_of (ps ! nat k) \<noteq> None}"
    then obtain d where k: "0 \<le> k" "k < int (length ps)" "shard_dim_of (ps ! nat k) = Some d" by auto
    then have "ps ! nat k \<in> set ps" by simp
    with conv(2) k(3) have "0 \<le> d" "d < dim" by blast+
    with k len show "k \<in> (\<Union>d \<in> {..<length tm}. set (axes_at 0 ps (int d)))"
      by (auto simp: set_axes_at intro!: bexI [of _ "nat d"])
  qed (auto simp: set_axes_at)
  finally show "set (concat (map (axes_of ?L) tm)) =
      {k. 0 \<le> k \<and> k < int (length ps) \<and> shard_dim_of (ps ! nat k) \<noteq> None}" .
qed

text \<open>A rank holds an element when the element lies in the slice of the layout.\<close>

definition holds :: "layout \<Rightarrow> int list \<Rightarrow> int \<Rightarrow> int list \<Rightarrow> bool" where
  "holds l full rank index =
     (case infer_slice_area_by_layout l rank full of
        Inl e \<Rightarrow> False
      | Inr area \<Rightarrow> list_all2 within index area)"

lemma holds_owns:
  "tensor_map l = Some tm \<Longrightarrow>
     holds l full rank index = owns (mesh_sizes l) tm full (Some (uneven_shard_mesh_dims l)) rank index"
  by (simp add: holds_def owns_def infer_slice_area_by_layout_def)

section \<open>Properties\<close>



text \<open>
  C25: ranks hold what their placements say: if a layout with one placement per mesh dimension converts
  to a tensor map, every element of a tensor of that many dimensions lies in the slice of some rank,
  and two ranks share it exactly when their coordinates agree on every mesh dimension whose placement
  is a shard; replicated and partial dimensions do not matter.
\<close>

theorem placements_partition:
  assumes "set_placements (Some ps) l0 = Inr l" and "length ps = length (mesh_sizes l0)"
    and "partial l0 = replicate (length ps) None"
    and "\<forall>p \<in> set ps. \<forall>d. shard_dim_of p = Some d \<longrightarrow> 0 \<le> d" and "\<forall>n \<in> set (mesh_sizes l0). 0 < n"
    and "full \<noteq> []" and "placement_to_tensor_map (int (length full)) l = Inr (tm, l')"
    and "list_all2 (\<lambda>n i. 0 \<le> i \<and> i < n) full index"
  shows "(\<exists>r. 0 \<le> r \<and> r < prod_list (mesh_sizes l0) \<and> holds l' full r index) \<and>
    (\<forall>r r' c c'. calculate_mesh_coordinate_for_rank (mesh_sizes l0) r = Inr c \<and>
       calculate_mesh_coordinate_for_rank (mesh_sizes l0) r' = Inr c' \<and> holds l' full r index \<longrightarrow>
       (holds l' full r' index \<longleftrightarrow> (\<forall>k < length ps. shard_dim_of (ps ! k) \<noteq> None \<longrightarrow> c ! k = c' ! k)))"
proof -
  obtain ragged where l: "l = l0\<lparr>placements := Some ps, ragged_shard := ragged\<rparr>"
    using assms(1) by (auto simp: set_placements_def bind_res_Inr_iff)
  have sizes: "mesh_sizes l = mesh_sizes l0" by (simp add: l mesh_sizes_def)
  have pl: "placements l = Some ps" "length ps = length (mesh_sizes l)" "partial l = replicate (length ps) None"
    using assms(2,3) sizes by (simp_all add: l)
  have dim: "0 < int (length full)" using assms(6) by simp
  note axes = converted_axes [OF assms(7) dim pl assms(4), unfolded sizes, OF assms(5)]
  obtain readable where
    l': "l' = l\<lparr>tensor_map := Some tm, partial := partial l', alias_tensor_map := Some readable\<rparr>"
    using converted(7) [OF assms(7) dim pl assms(4)] by blast
  have "tensor_map l' = Some tm" by (subst l') simp
  moreover have "mesh_sizes l' = mesh_sizes l0" by (subst l') (simp add: l mesh_sizes_def)
  ultimately have own: "holds l' full r index =
      owns (mesh_sizes l0) tm full (Some (uneven_shard_mesh_dims l')) r index" for r
    using holds_owns [of l' tm] by simp
  have agree: "(\<forall>a \<in> set (concat (map (axes_of (int (length (mesh_sizes l0)))) tm)). c ! nat a = c' ! nat a) \<longleftrightarrow>
      (\<forall>k < length ps. shard_dim_of (ps ! k) \<noteq> None \<longrightarrow> c ! k = c' ! k)" for c c' :: "int list"
  proof (intro iffI allI impI ballI)
    fix k assume all: "\<forall>a \<in> set (concat (map (axes_of (int (length (mesh_sizes l0)))) tm)). c ! nat a = c' ! nat a"
      and k: "k < length ps" "shard_dim_of (ps ! k) \<noteq> None"
    have "int k \<in> set (concat (map (axes_of (int (length (mesh_sizes l0)))) tm))" unfolding axes(3) using k by simp
    with all show "c ! k = c' ! k" by (metis nat_int)
  next
    fix a assume all: "\<forall>k < length ps. shard_dim_of (ps ! k) \<noteq> None \<longrightarrow> c ! k = c' ! k"
      and a: "a \<in> set (concat (map (axes_of (int (length (mesh_sizes l0)))) tm))"
    from a have "nat a < length ps" "shard_dim_of (ps ! nat a) \<noteq> None" unfolding axes(3) by auto
    with all show "c ! nat a = c' ! nat a" by blast
  qed
  have "length tm = length full" using axes(2) by simp
  from slices_partition [OF axes(1) this assms(8), of "Some (uneven_shard_mesh_dims l')"]
  show ?thesis unfolding own agree .
qed

theorem placements_partition_witness:
  "\<exists>r. 0 \<le> r \<and> r < 12 \<and> holds
      \<lparr>mesh = \<lparr>mesh_shape = [2, 3, 2], mesh_dim_names = None, rank_list = [], own_rank = 0\<rparr>,
       tensor_map = Some [Many [1, 2], One (-1)], partial = [None, None, Some ''sum''],
       alias_tensor_map = Some [AxisNames [''dim_1'', ''dim_2''], AxisName ''None''],
       placements = Some [StridedShard 0 3 False, Shard 0 True, Partial ''sum''], ragged_shard = None\<rparr> [7, 2] r [6, 1]"
proof -
  let ?m = "\<lparr>mesh_shape = [2, 3, 2], mesh_dim_names = None, rank_list = [], own_rank = 0\<rparr>"
  let ?ps = "[StridedShard 0 3 False, Shard 0 True, Partial ''sum'']"
  have s: "set_placements (Some ?ps) (layout_from_mesh ?m) =
      Inr (layout_from_mesh ?m\<lparr>placements := Some ?ps, ragged_shard := None\<rparr>)" by code_simp
  have t: "placement_to_tensor_map (int (length [7, 2 :: int])) (layout_from_mesh ?m\<lparr>placements := Some ?ps, ragged_shard := None\<rparr>) =
      Inr ([Many [1, 2], One (-1)],
        \<lparr>mesh = ?m, tensor_map = Some [Many [1, 2], One (-1)], partial = [None, None, Some ''sum''],
         alias_tensor_map = Some [AxisNames [''dim_1'', ''dim_2''], AxisName ''None''],
         placements = Some ?ps, ragged_shard = None\<rparr>)" by code_simp
  have c: "length ?ps = length (mesh_sizes (layout_from_mesh ?m))"
    "partial (layout_from_mesh ?m) = replicate (length ?ps) None"
    "\<forall>p \<in> set ?ps. \<forall>d. shard_dim_of p = Some d \<longrightarrow> 0 \<le> d" "\<forall>n \<in> set (mesh_sizes (layout_from_mesh ?m)). 0 < n"
    by (simp_all add: layout_from_mesh_def mesh_sizes_def numeral_3_eq_3)
  have f: "[7, 2 :: int] \<noteq> []" "list_all2 (\<lambda>n i. 0 \<le> i \<and> i < n) [7, 2] [6, 1 :: int]" by simp_all
  from conjunct1 [OF placements_partition [OF s c f(1) t f(2)]] show ?thesis
    by (simp add: layout_from_mesh_def mesh_sizes_def)
qed

text \<open>
  some alias layouts cannot be converted back: on a 2 x 2 x 2 mesh (a, b, c), sharding one tensor
  dimension over (b, a, c) in this order gives the tensor map (1, 2, 0) and the placements
  StridedShard(0, 2), Shard(0), Shard(0); deriving the tensor map from these placements sorts the axes
  by split factor, expects the factor 4 on a, and raises ValueError.
\<close>

theorem alias_order_rejected:
  "\<exists>l. call_with_aliases [AxisNames [''b'', ''a'', ''c'']]
      (layout_from_mesh \<lparr>mesh_shape = [2, 2, 2], mesh_dim_names = Some [''a'', ''b'', ''c''],
         rank_list = [0, 1, 2, 3, 4, 5, 6, 7], own_rank = 0\<rparr>) = Inr l \<and>
    tensor_map l = Some [Many [1, 2, 0]] \<and>
    placements l = Some [StridedShard 0 2 False, Shard 0 False, Shard 0 False] \<and>
    placement_to_tensor_map 1 l = Inl ValueError"
proof -
  let ?m = "\<lparr>mesh_shape = [2, 2, 2], mesh_dim_names = Some [''a'', ''b'', ''c''],
         rank_list = [0, 1, 2, 3, 4, 5, 6, 7], own_rank = 0\<rparr>"
  let ?l = "\<lparr>mesh = ?m, tensor_map = Some [Many [1, 2, 0]], partial = [None, None, None],
     alias_tensor_map = Some [AxisNames [''b'', ''a'', ''c'']],
     placements = Some [StridedShard 0 2 False, Shard 0 False, Shard 0 False], ragged_shard = None\<rparr>"
  have "call_with_aliases [AxisNames [''b'', ''a'', ''c'']] (layout_from_mesh ?m) = Inr ?l" by code_simp
  moreover have "placement_to_tensor_map 1 ?l = Inl ValueError" by code_simp
  ultimately show ?thesis by (intro exI [of _ ?l]) simp
qed

end
