(* ===== verification/Redistribute.thy ===== *)
theory Redistribute
  imports Mesh_Axes
begin

text \<open>
  The inference of redistribution operators, \<open>RedistributionOperatorInfer\<close> of
  core/dtensor/redistribute_infer.py: which splits, all-to-alls and concatenations bring a tensor from
  one tensor map to another on the same device matrix.

  An entry of a tensor map is a reverse mesh dimension, a tuple of them, or \<open>NONE\<close>. The object is the
  record \<open>redist\<close>; \<open>pending\<close> is its dict \<open>map_\<close>. A handler returns the new object when it applies and
  \<open>None\<close> when it does not. \<open>insert_operator\<close> always reports success, so the branches that test for a
  failed insertion are dead and the loops return no status. The loops of
  \<open>infer_redistribution_operator\<close> need not end, so they are partial functions: \<open>None\<close> is a run that
  never returns.
\<close>

section \<open>Tensor maps\<close>

definition NONE :: dim_map where
  "NONE = One (-1)"

definition get_dim_by_idx :: "dim_map list \<Rightarrow> int \<Rightarrow> dim_map result" where
  "get_dim_by_idx dims index = (if index < int (length dims) then py_nth dims index else Inr NONE)"

fun index_from :: "int \<Rightarrow> dim_map list \<Rightarrow> dim_map \<Rightarrow> int" where
  "index_from i [] value = -1"
| "index_from i (dim # dims) value = (if dim = value then i else index_from (i + 1) dims value)"

definition get_index_by_value :: "dim_map list \<Rightarrow> dim_map \<Rightarrow> int" where
  "get_index_by_value dims value = index_from 0 dims value"

text \<open>\<open>isinstance(dim, tuple)\<close> and the end of \<open>dim\<close> is \<open>value\<close>\<close>

fun ends_with :: "dim_map \<Rightarrow> dim_map \<Rightarrow> bool result" where
  "ends_with value (One d) = Inr False"
| "ends_with (Many vs) (Many ds) =
     Inr (drop (slice_bound (length ds) (int (length ds) - int (length vs))) ds = vs)"
| "ends_with (One v) (Many ds) = bind_res (py_nth ds (-1)) (\<lambda>d. Inr (d = v))"

fun index_containing :: "int \<Rightarrow> dim_map list \<Rightarrow> dim_map \<Rightarrow> int result" where
  "index_containing i [] value = Inr (-1)"
| "index_containing i (dim # dims) value =
     bind_res (ends_with value dim) (\<lambda>hit. if hit then Inr i else index_containing (i + 1) dims value)"

definition get_index_contain_value :: "dim_map list \<Rightarrow> dim_map \<Rightarrow> int result" where
  "get_index_contain_value dims value = index_containing 0 dims value"

text \<open>\<open>any(...)\<close> over a test that may raise\<close>

fun any_res :: "('a \<Rightarrow> bool result) \<Rightarrow> 'a list \<Rightarrow> bool result" where
  "any_res p [] = Inr False"
| "any_res p (x # xs) = bind_res (p x) (\<lambda>hit. if hit then Inr True else any_res p xs)"

section \<open>The device matrix\<close>

definition get_combined_size :: "int list \<Rightarrow> int list \<Rightarrow> int result" where
  "get_combined_size sizes dims =
     for_res (\<lambda>d size. bind_res (py_nth sizes (int (length sizes) - 1 - d)) (\<lambda>n. Inr (size * n))) dims 1"

fun get_dim_by_reverse_idx :: "int list \<Rightarrow> dim_map \<Rightarrow> int result" where
  "get_dim_by_reverse_idx sizes (Many dims) = get_combined_size sizes dims"
| "get_dim_by_reverse_idx sizes (One idx) = py_nth sizes (int (length sizes) - 1 - idx)"

section \<open>The object\<close>

datatype redist_op =
    SplitByAxis int dim_map int
  | ConcatByAxis int dim_map int
  | PermuteByAxis int int int dim_map int

record redist =
  dev_mat :: "int list"
  in_tensor_map :: "dim_map list"
  out_tensor_map :: "dim_map list"
  use_permute :: bool
  operator_list :: "redist_op list"
  pending :: "(int, dim_map) dict"

definition init_redist :: "int list \<Rightarrow> dim_map list \<Rightarrow> dim_map list \<Rightarrow> bool \<Rightarrow> redist" where
  "init_redist sizes in_map out_map permute =
     \<lparr>dev_mat = sizes, in_tensor_map = in_map, out_tensor_map = out_map, use_permute = permute,
      operator_list = [], pending = zip (py_range 0 (int (length in_map))) in_map\<rparr>"

definition insert_operator :: "redist_op \<Rightarrow> redist \<Rightarrow> redist" where
  "insert_operator op s = s\<lparr>operator_list := operator_list s @ [op]\<rparr>"

definition del_pending :: "int \<Rightarrow> redist \<Rightarrow> redist" where
  "del_pending index s = s\<lparr>pending := dict_del (pending s) index\<rparr>"

definition set_pending :: "int \<Rightarrow> dim_map \<Rightarrow> redist \<Rightarrow> redist" where
  "set_pending index dim s = s\<lparr>pending := dict_set (pending s) index dim\<rparr>"

definition values_conflict :: "redist \<Rightarrow> dim_map \<Rightarrow> bool" where
  "values_conflict s dim \<longleftrightarrow> dim \<in> set (map snd (pending s))"

definition values_end_with :: "redist \<Rightarrow> dim_map \<Rightarrow> bool result" where
  "values_end_with s dim = any_res (ends_with dim) (map snd (pending s))"

text \<open>The entry is a prefix of the tuple, and what the tuple has beyond it.\<close>

fun is_prefix_of :: "dim_map \<Rightarrow> int list \<Rightarrow> bool result" where
  "is_prefix_of (One d) ds = bind_res (py_nth ds 0) (\<lambda>x. Inr (d = x))"
| "is_prefix_of (Many es) ds = Inr (es = take (length es) ds)"

fun rest_after :: "dim_map \<Rightarrow> int list \<Rightarrow> dim_map" where
  "rest_after (One d) ds = (if length (drop 1 ds) = 1 then One (last ds) else Many (drop 1 ds))"
| "rest_after (Many es) ds =
     (if length (drop (length es) ds) = 1 then One (last ds) else Many (drop (length es) ds))"

section \<open>Splits\<close>

definition handle_simple_split_case :: "int \<Rightarrow> dim_map \<Rightarrow> dim_map \<Rightarrow> redist \<Rightarrow> redist option result" where
  "handle_simple_split_case index in_dim out_dim s =
     (if in_dim \<noteq> NONE then Inr None
      else bind_res (values_end_with s out_dim) (\<lambda>conflict_tuple.
        if \<not> values_conflict s out_dim \<and> \<not> conflict_tuple
        then bind_res (get_dim_by_reverse_idx (dev_mat s) out_dim) (\<lambda>dev_dim.
               Inr (Some (insert_operator (SplitByAxis index out_dim dev_dim) s)))
        else Inr None))"

definition handle_tuple_split_case :: "int \<Rightarrow> dim_map \<Rightarrow> dim_map \<Rightarrow> redist \<Rightarrow> redist option result" where
  "handle_tuple_split_case index in_dim out_dim s =
     (case out_dim of
        One _ \<Rightarrow> Inr None
      | Many out_dims \<Rightarrow>
          bind_res (is_prefix_of in_dim out_dims) (\<lambda>matches.
            if \<not> matches then Inr None
            else
              let out_dim_rest = rest_after in_dim out_dims
              in if values_conflict s out_dim_rest then Inr None
                 else bind_res (get_dim_by_reverse_idx (dev_mat s) out_dim_rest) (\<lambda>dev_dim.
                        Inr (Some (insert_operator (SplitByAxis index out_dim_rest dev_dim) s)))))"

definition split_step :: "int \<Rightarrow> redist \<Rightarrow> redist result" where
  "split_step index s =
     (case map_of (pending s) index of
        None \<Rightarrow> Inr s
      | Some in_dim \<Rightarrow>
          bind_res (get_dim_by_idx (out_tensor_map s) index) (\<lambda>out_dim.
            if in_dim = out_dim then Inr (del_pending index s)
            else bind_res (handle_simple_split_case index in_dim out_dim s) (\<lambda>simple.
              case simple of
                Some s' \<Rightarrow> Inr (del_pending index s')
              | None \<Rightarrow>
                  bind_res (handle_tuple_split_case index in_dim out_dim s) (\<lambda>tuple.
                    case tuple of
                      Some s' \<Rightarrow> Inr (del_pending index s')
                    | None \<Rightarrow> Inr s))))"

definition infer_split_by_axis :: "redist \<Rightarrow> redist result" where
  "infer_split_by_axis s = for_res split_step (map fst (pending s)) s"

section \<open>All-to-alls\<close>

definition insert_exchange :: "int \<Rightarrow> int \<Rightarrow> dim_map \<Rightarrow> int \<Rightarrow> redist \<Rightarrow> redist" where
  "insert_exchange index concat_axis out_dim split_dev_num s =
     insert_operator (SplitByAxis index out_dim split_dev_num)
       (insert_operator (ConcatByAxis concat_axis out_dim split_dev_num) s)"

definition handle_none_dim_permute_case :: "int \<Rightarrow> dim_map \<Rightarrow> dim_map \<Rightarrow> redist \<Rightarrow> redist option result" where
  "handle_none_dim_permute_case index in_dim out_dim s =
     (if in_dim \<noteq> NONE then Inr None
      else if \<not> values_conflict s out_dim then Inr None
      else
        let concat_axis = get_index_by_value (in_tensor_map s) out_dim
        in bind_res (get_dim_by_reverse_idx (dev_mat s) out_dim) (\<lambda>split_dev_num.
           bind_res
             (if use_permute s
              then bind_res (get_dim_by_idx (in_tensor_map s) concat_axis) (\<lambda>concat_map.
                   bind_res (get_dim_by_reverse_idx (dev_mat s) concat_map) (\<lambda>concat_dev_num.
                     Inr (insert_operator
                            (PermuteByAxis concat_dev_num index concat_axis concat_map split_dev_num) s)))
              else Inr (insert_exchange index concat_axis out_dim split_dev_num s))
             (\<lambda>s'. Inr (Some (set_pending concat_axis NONE (del_pending index s'))))))"

definition handle_none_dim_tuple_permute_case ::
  "int \<Rightarrow> dim_map \<Rightarrow> dim_map \<Rightarrow> redist \<Rightarrow> redist option result" where
  "handle_none_dim_tuple_permute_case index in_dim out_dim s =
     (if in_dim \<noteq> NONE then Inr None
      else bind_res (values_end_with s out_dim) (\<lambda>conflict_tuple.
        if \<not> conflict_tuple then Inr None
        else
          bind_res (get_index_contain_value (in_tensor_map s) out_dim) (\<lambda>concat_axis.
          bind_res (get_dim_by_reverse_idx (dev_mat s) out_dim) (\<lambda>split_dev_num.
          let s' = del_pending index
                (if use_permute s
                 then insert_operator (PermuteByAxis split_dev_num index concat_axis out_dim split_dev_num) s
                 else insert_exchange index concat_axis out_dim split_dev_num s)
          in bind_res (dict_get (pending s') concat_axis) (\<lambda>item.
             case item of
               One _ \<Rightarrow> Inl TypeError
             | Many ds \<Rightarrow>
                 let out_dim_len = (case out_dim of One _ \<Rightarrow> 1 | Many ds \<Rightarrow> int (length ds));
                     rest_size = int (length ds) - out_dim_len
                 in bind_res (if 1 < rest_size then Inr (Many (take (nat rest_size) ds))
                              else bind_res (py_nth ds 0) (\<lambda>d. Inr (One d))) (\<lambda>new_map_item.
                    Inr (Some (set_pending concat_axis new_map_item s'))))))))"

definition handle_tuple_dim_permute_case :: "int \<Rightarrow> dim_map \<Rightarrow> dim_map \<Rightarrow> redist \<Rightarrow> redist option result" where
  "handle_tuple_dim_permute_case index in_dim out_dim s =
     (case out_dim of
        One _ \<Rightarrow> Inr None
      | Many out_dims \<Rightarrow>
          bind_res (is_prefix_of in_dim out_dims) (\<lambda>matches.
            if \<not> matches then Inr None
            else
              let out_dim_rest = rest_after in_dim out_dims
              in if \<not> values_conflict s out_dim_rest then Inr None
                 else
                   let concat_axis = get_index_by_value (in_tensor_map s) out_dim_rest
                   in bind_res (get_dim_by_reverse_idx (dev_mat s) out_dim_rest) (\<lambda>split_dev_num.
                      let s' = (if use_permute s
                            then insert_operator
                              (PermuteByAxis split_dev_num index concat_axis out_dim_rest split_dev_num) s
                            else insert_exchange index concat_axis out_dim_rest split_dev_num s)
                      in Inr (Some (set_pending concat_axis NONE (del_pending index s'))))))"

definition permute_step :: "int \<Rightarrow> redist \<Rightarrow> redist result" where
  "permute_step index s =
     (case map_of (pending s) index of
        None \<Rightarrow> Inr s
      | Some in_dim \<Rightarrow>
          bind_res (get_dim_by_idx (out_tensor_map s) index) (\<lambda>out_dim.
            if in_dim = out_dim then Inr (del_pending index s)
            else bind_res (handle_none_dim_permute_case index in_dim out_dim s) (\<lambda>plain.
              case plain of
                Some s' \<Rightarrow> Inr s'
              | None \<Rightarrow>
                  bind_res (handle_none_dim_tuple_permute_case index in_dim out_dim s) (\<lambda>part.
                    case part of
                      Some s' \<Rightarrow> Inr s'
                    | None \<Rightarrow>
                        bind_res (handle_tuple_dim_permute_case index in_dim out_dim s) (\<lambda>tuple.
                          case tuple of Some s' \<Rightarrow> Inr s' | None \<Rightarrow> Inr s)))))"

definition infer_permute_by_axis :: "redist \<Rightarrow> redist result" where
  "infer_permute_by_axis s = for_res permute_step (map fst (pending s)) s"

section \<open>Concatenations\<close>

fun descending :: "int list \<Rightarrow> bool" where
  "descending (a # b # ds) \<longleftrightarrow> b < a \<and> descending (b # ds)"
| "descending ds \<longleftrightarrow> True"

definition handle_tuple_concat_case :: "int \<Rightarrow> dim_map \<Rightarrow> dim_map \<Rightarrow> redist \<Rightarrow> redist option result" where
  "handle_tuple_concat_case index in_dim out_dim s =
     (case in_dim of
        One _ \<Rightarrow> Inr None
      | Many in_dims \<Rightarrow>
          if out_dim = NONE then
            if length in_dims \<le> 1 then Inr None
            else if descending in_dims then Inr None
            else
              let in_dim_rest = One (last in_dims)
              in bind_res (get_dim_by_reverse_idx (dev_mat s) in_dim_rest) (\<lambda>concat_dev_num.
                   Inr (Some (set_pending index
                     (if 2 < length in_dims then Many (butlast in_dims) else One (hd in_dims))
                     (insert_operator (ConcatByAxis index in_dim_rest concat_dev_num) s))))
          else
            bind_res (is_prefix_of out_dim in_dims) (\<lambda>matches.
              if \<not> matches then Inr None
              else
                let in_dim_rest = rest_after out_dim in_dims
                in bind_res (get_dim_by_reverse_idx (dev_mat s) in_dim_rest) (\<lambda>concat_dev_num.
                     Inr (Some (del_pending index
                       (insert_operator (ConcatByAxis index in_dim_rest concat_dev_num) s))))))"

definition handle_simple_concat_case :: "int \<Rightarrow> dim_map \<Rightarrow> dim_map \<Rightarrow> redist \<Rightarrow> redist option result" where
  "handle_simple_concat_case index in_dim out_dim s =
     (if in_dim = NONE then Inr None
      else if get_index_by_value (out_tensor_map s) in_dim \<noteq> -1 then Inr None
      else bind_res (get_dim_by_reverse_idx (dev_mat s) in_dim) (\<lambda>concat_dev_num.
        let s' = insert_operator (ConcatByAxis index in_dim concat_dev_num) s
        in Inr (Some (if out_dim = NONE then del_pending index s' else set_pending index NONE s'))))"

definition concat_step :: "int \<Rightarrow> redist \<Rightarrow> redist result" where
  "concat_step index s =
     (case map_of (pending s) index of
        None \<Rightarrow> Inr s
      | Some in_dim \<Rightarrow>
          bind_res (get_dim_by_idx (out_tensor_map s) index) (\<lambda>out_dim.
            bind_res (handle_tuple_concat_case index in_dim out_dim s) (\<lambda>tuple.
              case tuple of
                Some s' \<Rightarrow> Inr s'
              | None \<Rightarrow>
                  bind_res (handle_simple_concat_case index in_dim out_dim s) (\<lambda>simple.
                    case simple of Some s' \<Rightarrow> Inr s' | None \<Rightarrow> Inr s))))"

definition infer_concat_by_axis :: "redist \<Rightarrow> redist result" where
  "infer_concat_by_axis s = for_res concat_step (map fst (pending s)) s"

section \<open>The driver\<close>

partial_function (option) permute_loop :: "redist \<Rightarrow> redist result option" where
  "permute_loop s =
     (if pending s = [] then Some (Inr s)
      else case infer_permute_by_axis s of
        Inl e \<Rightarrow> Some (Inl e)
      | Inr s' \<Rightarrow>
          if length (operator_list s) = length (operator_list s') then Some (Inr s') else permute_loop s')"

partial_function (option) split_loop :: "redist \<Rightarrow> redist result option" where
  "split_loop s =
     (if pending s = [] then Some (Inr s)
      else case infer_split_by_axis s of
        Inl e \<Rightarrow> Some (Inl e)
      | Inr s' \<Rightarrow>
          Option.bind (permute_loop s') (\<lambda>r. case r of
            Inl e \<Rightarrow> Some (Inl e)
          | Inr s'' \<Rightarrow>
              if length (operator_list s) = length (operator_list s'') then Some (Inr s'') else split_loop s''))"

text \<open>The concatenation of the first pending entry when a whole round inserts nothing.\<close>

definition force_concat :: "redist \<Rightarrow> redist result" where
  "force_concat s =
     (case pending s of
        [] \<Rightarrow> Inr s
      | (index, in_dim) # _ \<Rightarrow>
          let s' = set_pending index NONE s
          in bind_res (get_dim_by_reverse_idx (dev_mat s') in_dim) (\<lambda>dev_dim.
               Inr (insert_operator (ConcatByAxis index in_dim dev_dim) s')))"

partial_function (option) infer_redistribution_operator :: "redist \<Rightarrow> redist result option" where
  "infer_redistribution_operator s =
     (if pending s = [] then Some (Inr s)
      else Option.bind (split_loop s) (\<lambda>r. case r of
        Inl e \<Rightarrow> Some (Inl e)
      | Inr s1 \<Rightarrow>
          (case infer_concat_by_axis s1 of
             Inl e \<Rightarrow> Some (Inl e)
           | Inr s2 \<Rightarrow>
               if length (operator_list s) = length (operator_list s2) \<and> pending s2 \<noteq> [] then
                 (case force_concat s2 of
                    Inl e \<Rightarrow> Some (Inl e)
                  | Inr s3 \<Rightarrow> infer_redistribution_operator s3)
               else infer_redistribution_operator s2)))"

declare permute_loop.simps [code] split_loop.simps [code] infer_redistribution_operator.simps [code]

section \<open>Communication operations\<close>

datatype collective_op =
    AllConcat int int "int list"
  | AllSplit int int "int list"
  | AllToAll int int int "int list"

fun mesh_dims_of :: "int \<Rightarrow> dim_map \<Rightarrow> dims_ref" where
  "mesh_dims_of dev_ranks (Many ds) = DimList (map (\<lambda>d. dev_ranks - 1 - d) ds)"
| "mesh_dims_of dev_ranks (One d) = SingleDim (dev_ranks - 1 - d)"

fun comm_of_op :: "int list \<Rightarrow> int \<Rightarrow> int list \<Rightarrow> redist_op \<Rightarrow> collective_op list result" where
  "comm_of_op sizes rank ranks (ConcatByAxis concat_dim dim concat_size) =
     bind_res (get_devices_along_dim sizes rank ranks (mesh_dims_of (int (length sizes)) dim)) (\<lambda>grp.
       Inr (if concat_size = 1 then [] else [AllConcat concat_dim concat_size grp]))"
| "comm_of_op sizes rank ranks (SplitByAxis split_dim dim split_size) =
     bind_res (get_devices_along_dim sizes rank ranks (mesh_dims_of (int (length sizes)) dim)) (\<lambda>grp.
       Inr (if split_size = 1 then [] else [AllSplit split_dim split_size grp]))"
| "comm_of_op sizes rank ranks (PermuteByAxis permute_size split_dim concat_dim dim split_dev_num) =
     bind_res (get_devices_along_dim sizes rank ranks (mesh_dims_of (int (length sizes)) dim)) (\<lambda>grp.
       Inr (if permute_size = 1 then [] else [AllToAll split_dim concat_dim permute_size grp]))"

definition infer_ops_list :: "redist \<Rightarrow> int \<Rightarrow> int list \<Rightarrow> collective_op list result option" where
  "infer_ops_list s rank ranks =
     Option.bind (infer_redistribution_operator s) (\<lambda>r. Some (
       bind_res r (\<lambda>s'.
         bind_res (map_res (comm_of_op (dev_mat s') rank ranks) (operator_list s')) (\<lambda>ops. Inr (concat ops)))))"

end
