(* ===== verification/Redistribute_Sound.thy ===== *)
theory Redistribute_Sound
  imports Redistribute
begin

text \<open>
  Soundness and termination of the operator inference. The meaning of an operator is its effect on
  the tensor map: a split puts a free mesh dimension on the unmapped tensor dimension where the target
  map wants it, a concatenation takes one away, and an all-to-all moves one. The inferred list is an
  instruction list over tensor maps, and on maps without tuples it takes the source map to the target.
\<close>

section \<open>Operators as instructions on tensor maps\<close>

definition put_axis :: "int list \<Rightarrow> dim_map list \<Rightarrow> int \<Rightarrow> dim_map \<Rightarrow> int \<Rightarrow> dim_map list \<Rightarrow> dim_map list option" where
  "put_axis sizes target i d n tm =
     (if 0 \<le> i \<and> i < int (length tm) \<and> tm ! nat i = NONE \<and> d = target ! nat i \<and> d \<noteq> NONE \<and> d \<notin> set tm \<and>
         get_dim_by_reverse_idx sizes d = Inr n
      then Some (tm[nat i := d]) else None)"

definition take_axis :: "int list \<Rightarrow> int \<Rightarrow> dim_map \<Rightarrow> int \<Rightarrow> dim_map list \<Rightarrow> dim_map list option" where
  "take_axis sizes i d n tm =
     (if 0 \<le> i \<and> i < int (length tm) \<and> tm ! nat i = d \<and> d \<noteq> NONE \<and> get_dim_by_reverse_idx sizes d = Inr n
      then Some (tm[nat i := NONE]) else None)"

fun apply_op :: "int list \<Rightarrow> dim_map list \<Rightarrow> redist_op \<Rightarrow> dim_map list \<Rightarrow> dim_map list option" where
  "apply_op sizes target (SplitByAxis i d n) tm = put_axis sizes target i d n tm"
| "apply_op sizes target (ConcatByAxis i d n) tm = take_axis sizes i d n tm"
| "apply_op sizes target (PermuteByAxis m i j d n) tm =
     (if i = j \<or> m \<noteq> n then None
      else Option.bind (take_axis sizes j d m tm) (put_axis sizes target i d n))"

fun apply_ops :: "int list \<Rightarrow> dim_map list \<Rightarrow> redist_op list \<Rightarrow> dim_map list \<Rightarrow> dim_map list option" where
  "apply_ops sizes target [] tm = Some tm"
| "apply_ops sizes target (op # ops) tm = Option.bind (apply_op sizes target op tm) (apply_ops sizes target ops)"

lemma apply_ops_append:
  "apply_ops sizes target (ops @ ops') tm = Option.bind (apply_ops sizes target ops tm) (apply_ops sizes target ops')"
  by (induction ops arbitrary: tm) (auto split: Option.bind_splits)

text \<open>A tensor map without tuples that uses every mesh dimension at most once.\<close>

definition scalar_map :: "int list \<Rightarrow> dim_map list \<Rightarrow> bool" where
  "scalar_map sizes tm \<longleftrightarrow>
     (\<forall>i < length tm. tm ! i = NONE \<or> (\<exists>k \<in> {0..<int (length sizes)}. tm ! i = One k)) \<and>
     (\<forall>i < length tm. \<forall>j < length tm. tm ! i = tm ! j \<and> tm ! i \<noteq> NONE \<longrightarrow> i = j)"

lemma scalar_entry:
  assumes "scalar_map sizes tm" and "i < length tm"
  obtains (none) "tm ! i = NONE" | (axis) k where "tm ! i = One k" "0 \<le> k" "k < int (length sizes)"
proof -
  have "tm ! i = NONE \<or> (\<exists>k \<in> {0..<int (length sizes)}. tm ! i = One k)"
    using assms by (simp add: scalar_map_def)
  then show ?thesis using none axis by (elim disjE bexE) auto
qed

lemma scalar_mapI:
  assumes "\<And>i. i < length tm \<Longrightarrow> tm ! i \<noteq> NONE \<Longrightarrow> \<exists>k. tm ! i = One k \<and> 0 \<le> k \<and> k < int (length sizes)"
    and "\<And>i j. i < length tm \<Longrightarrow> j < length tm \<Longrightarrow> tm ! i = tm ! j \<Longrightarrow> tm ! i \<noteq> NONE \<Longrightarrow> i = j"
  shows "scalar_map sizes tm"
proof -
  have "tm ! i = NONE \<or> (\<exists>k \<in> {0..<int (length sizes)}. tm ! i = One k)" if "i < length tm" for i
    using assms(1) [OF that] by (cases "tm ! i = NONE") auto
  moreover have "i = j" if "i < length tm" "j < length tm" "tm ! i = tm ! j" "tm ! i \<noteq> NONE" for i j
    using assms(2) [OF that] .
  ultimately show ?thesis unfolding scalar_map_def by blast
qed

lemma scalar_once: "scalar_map sizes tm \<Longrightarrow> i < length tm \<Longrightarrow> j < length tm \<Longrightarrow> tm ! i = tm ! j \<Longrightarrow> tm ! i \<noteq> NONE \<Longrightarrow> i = j"
  unfolding scalar_map_def by blast

lemma scalar_axis:
  assumes "scalar_map sizes tm" and "i < length tm" and "tm ! i \<noteq> NONE"
  shows "\<exists>k. tm ! i = One k \<and> 0 \<le> k \<and> k < int (length sizes)"
  using assms(1,2) by (rule scalar_entry) (use assms(3) in auto)

lemma scalar_size:
  assumes "scalar_map sizes tm" and "i < length tm" and "tm ! i \<noteq> NONE"
  shows "\<exists>n. get_dim_by_reverse_idx sizes (tm ! i) = Inr n"
  using scalar_axis [OF assms] by auto

lemma scalar_clear:
  assumes "scalar_map sizes tm"
  shows "scalar_map sizes (tm[i := NONE])"
proof (rule scalar_mapI)
  fix j assume "j < length (tm[i := NONE])" "tm[i := NONE] ! j \<noteq> NONE"
  then have "j < length tm" "tm ! j \<noteq> NONE" "tm[i := NONE] ! j = tm ! j"
    by (cases "i = j"; simp)+
  then show "\<exists>k. tm[i := NONE] ! j = One k \<and> 0 \<le> k \<and> k < int (length sizes)"
    using scalar_axis [OF assms] by simp
next
  fix j k assume "j < length (tm[i := NONE])" "k < length (tm[i := NONE])"
    "tm[i := NONE] ! j = tm[i := NONE] ! k" "tm[i := NONE] ! j \<noteq> NONE"
  then have "j < length tm" "k < length tm" "tm ! j = tm ! k" "tm ! j \<noteq> NONE"
    by (cases "i = j"; cases "i = k"; simp)+
  then show "j = k" by (rule scalar_once [OF assms])
qed

lemma scalar_put:
  assumes "scalar_map sizes tm" and "scalar_map sizes out" and "j < length out" and "out ! j \<notin> set tm"
  shows "scalar_map sizes (tm[i := out ! j])"
proof -
  have fresh: "tm ! k \<noteq> out ! j" if "k < length tm" for k using assms(4) that by (metis nth_mem)
  show ?thesis
  proof (rule scalar_mapI)
    fix k assume k: "k < length (tm[i := out ! j])" "tm[i := out ! j] ! k \<noteq> NONE"
    show "\<exists>a. tm[i := out ! j] ! k = One a \<and> 0 \<le> a \<and> a < int (length sizes)"
    proof (cases "k = i")
      case True
      with k show ?thesis using scalar_axis [OF assms(2,3)] by simp
    next
      case False
      with k show ?thesis using scalar_axis [OF assms(1)] by simp
    qed
  next
    fix k l assume "k < length (tm[i := out ! j])" "l < length (tm[i := out ! j])"
      "tm[i := out ! j] ! k = tm[i := out ! j] ! l" "tm[i := out ! j] ! k \<noteq> NONE"
    then show "k = l"
      using fresh [of k] fresh [of l] scalar_once [OF assms(1), of k l]
      by (cases "k = i"; cases "l = i") auto
  qed
qed

section \<open>The invariant of the object\<close>

text \<open>
  The operators so far take the source map to a map \<open>tm\<close> that agrees with the target outside the
  pending entries; a pending entry is its entry of \<open>tm\<close>, the source's or cleared. Every insertion is
  paid for by the weight of the pending entries.
\<close>

fun entry_weight :: "dim_map option \<Rightarrow> nat" where
  "entry_weight None = 0"
| "entry_weight (Some d) = (if d = NONE then 1 else 2)"

definition weight :: "nat \<Rightarrow> redist \<Rightarrow> nat" where
  "weight n s = (\<Sum>i < n. entry_weight (map_of (pending s) (int i)))"

definition same_task :: "redist \<Rightarrow> redist \<Rightarrow> bool" where
  "same_task s s' \<longleftrightarrow> dev_mat s' = dev_mat s \<and> in_tensor_map s' = in_tensor_map s \<and>
     out_tensor_map s' = out_tensor_map s \<and> use_permute s' = use_permute s"

definition entry_ok :: "dim_map option \<Rightarrow> dim_map \<Rightarrow> dim_map \<Rightarrow> dim_map \<Rightarrow> bool" where
  "entry_ok entry source target d \<longleftrightarrow>
     (case entry of None \<Rightarrow> d = target | Some e \<Rightarrow> e = d \<and> (e = source \<or> e = NONE))"

lemma entry_ok_simps [simp]:
  "entry_ok None source target d \<longleftrightarrow> d = target"
  "entry_ok (Some e) source target d \<longleftrightarrow> e = d \<and> (e = source \<or> e = NONE)"
  by (simp_all add: entry_ok_def)

definition redist_inv :: "redist \<Rightarrow> dim_map list \<Rightarrow> bool" where
  "redist_inv s tm \<longleftrightarrow>
     scalar_map (dev_mat s) (in_tensor_map s) \<and> scalar_map (dev_mat s) (out_tensor_map s) \<and>
     length (out_tensor_map s) = length (in_tensor_map s) \<and>
     apply_ops (dev_mat s) (out_tensor_map s) (operator_list s) (in_tensor_map s) = Some tm \<and>
     length tm = length (in_tensor_map s) \<and> scalar_map (dev_mat s) tm \<and>
     distinct (map fst (pending s)) \<and>
     (\<forall>k \<in> set (map fst (pending s)). 0 \<le> k \<and> k < int (length tm)) \<and>
     (\<forall>i < length tm. entry_ok (map_of (pending s) (int i)) (in_tensor_map s ! i) (out_tensor_map s ! i) (tm ! i)) \<and>
     length (operator_list s) + weight (length tm) s \<le> 2 * length tm"

lemma update_sims [simp]:
  "dev_mat (insert_operator op s) = dev_mat s" "in_tensor_map (insert_operator op s) = in_tensor_map s"
  "out_tensor_map (insert_operator op s) = out_tensor_map s" "use_permute (insert_operator op s) = use_permute s"
  "pending (insert_operator op s) = pending s" "operator_list (insert_operator op s) = operator_list s @ [op]"
  "dev_mat (del_pending i s) = dev_mat s" "in_tensor_map (del_pending i s) = in_tensor_map s"
  "out_tensor_map (del_pending i s) = out_tensor_map s" "use_permute (del_pending i s) = use_permute s"
  "pending (del_pending i s) = dict_del (pending s) i" "operator_list (del_pending i s) = operator_list s"
  "dev_mat (set_pending i d s) = dev_mat s" "in_tensor_map (set_pending i d s) = in_tensor_map s"
  "out_tensor_map (set_pending i d s) = out_tensor_map s" "use_permute (set_pending i d s) = use_permute s"
  "pending (set_pending i d s) = dict_set (pending s) i d" "operator_list (set_pending i d s) = operator_list s"
  by (simp_all add: insert_operator_def del_pending_def set_pending_def)

lemma keys_dict_del: "set (map fst (dict_del p i)) = set (map fst p) - {i}"
  by (simp add: dict_del_def delete_keys)

lemma distinct_dict_del [simp]: "distinct (map fst p) \<Longrightarrow> distinct (map fst (dict_del p i))"
  unfolding dict_del_def by (rule distinct_delete)

lemma inv_entry:
  "redist_inv s tm \<Longrightarrow> i < length tm \<Longrightarrow>
     entry_ok (map_of (pending s) (int i)) (in_tensor_map s ! i) (out_tensor_map s ! i) (tm ! i)"
  by (simp add: redist_inv_def)

lemma inv_paid: "redist_inv s tm \<Longrightarrow> length (operator_list s) + weight (length tm) s \<le> 2 * length tm"
  unfolding redist_inv_def by blast

lemma inv_pending:
  assumes "redist_inv s tm" and "map_of (pending s) index = Some d"
  obtains i where "index = int i" "i < length tm" "d = tm ! i" "d = in_tensor_map s ! i \<or> d = NONE"
proof -
  have "index \<in> set (map fst (pending s))" using map_of_SomeD [OF assms(2)] by force
  with assms(1) have "0 \<le> index" "index < int (length tm)" by (auto simp: redist_inv_def)
  then obtain i where i: "index = int i" "i < length tm" by (metis nat_0_le nat_less_iff zero_le_imp_eq_int)
  with assms have "d = tm ! i \<and> (d = in_tensor_map s ! i \<or> d = NONE)"
    using inv_entry [OF assms(1) i(2)] by auto
  with i that show ?thesis by blast
qed

lemma inv_finished: "redist_inv s tm \<Longrightarrow> i < length tm \<Longrightarrow> map_of (pending s) (int i) = None \<Longrightarrow> tm ! i = out_tensor_map s ! i"
  using inv_entry [of s tm i] by simp

lemma inv_values:
  assumes "redist_inv s tm" and "values_conflict s d"
  obtains j where "map_of (pending s) (int j) = Some d" "j < length tm" "d = tm ! j" "d = in_tensor_map s ! j \<or> d = NONE"
proof -
  obtain k where "(k, d) \<in> set (pending s)" using assms(2) by (auto simp: values_conflict_def)
  moreover have "distinct (map fst (pending s))" using assms(1) by (simp add: redist_inv_def)
  ultimately have k: "map_of (pending s) k = Some d" by simp
  from inv_pending [OF assms(1) k] k that show ?thesis by metis
qed

lemma no_conflict_free:
  assumes "redist_inv s tm" and "map_of (pending s) (int i) = Some NONE" and "i < length tm"
    and "\<not> values_conflict s (out_tensor_map s ! i)" and "out_tensor_map s ! i \<noteq> NONE"
  shows "out_tensor_map s ! i \<notin> set tm"
proof
  assume "out_tensor_map s ! i \<in> set tm"
  then obtain j where j: "j < length tm" "tm ! j = out_tensor_map s ! i" by (auto simp: in_set_conv_nth)
  show False
  proof (cases "map_of (pending s) (int j)")
    case None
    then have "out_tensor_map s ! j = out_tensor_map s ! i" using inv_finished [OF assms(1) j(1)] j(2) by simp
    then have "i = j" using assms(1,3,5) j(1) by (auto simp: redist_inv_def dest: scalar_once)
    with None assms(2) show False by simp
  next
    case (Some d)
    then have "d = tm ! j" using inv_entry [OF assms(1) j(1)] by simp
    with Some j(2) have "(int j, out_tensor_map s ! i) \<in> set (pending s)" using map_of_SomeD by simp
    then have "out_tensor_map s ! i \<in> snd ` set (pending s)" by force
    with assms(4) show False by (simp add: values_conflict_def)
  qed
qed

lemma no_tuple_conflict:
  assumes "redist_inv s tm"
  shows "values_end_with s d = Inr False"
proof -
  have scalar: "\<exists>k. v = One k" if "v \<in> set (map snd (pending s))" for v
  proof -
    have "values_conflict s v" using that by (simp add: values_conflict_def)
    with assms obtain j where "j < length tm" "v = tm ! j" by (rule inv_values)
    then show ?thesis using assms by (auto simp: redist_inv_def NONE_def elim: scalar_entry)
  qed
  have "any_res (ends_with d) vs = Inr False" if "\<forall>v \<in> set vs. \<exists>k. v = One k" for vs
    using that by (induction vs) auto
  with scalar show ?thesis by (simp add: values_end_with_def)
qed

lemma weight_update:
  assumes "i < n"
    and "\<And>k. k \<noteq> i \<Longrightarrow> k < n \<Longrightarrow> map_of (pending s') (int k) = map_of (pending s) (int k)"
  shows "weight n s' + entry_weight (map_of (pending s) (int i)) =
    weight n s + entry_weight (map_of (pending s') (int i))"
proof -
  have "(\<Sum>k \<in> {..<n} - {i}. entry_weight (map_of (pending s') (int k))) =
        (\<Sum>k \<in> {..<n} - {i}. entry_weight (map_of (pending s) (int k)))"
    by (rule sum.cong) (use assms(2) in auto)
  then show ?thesis using assms(1) by (simp add: weight_def sum.remove [of "{..<n}" i])
qed

section \<open>The three moves\<close>

lemma inv_settle:
  assumes "redist_inv s tm" and "map_of (pending s) (int i) = Some (out_tensor_map s ! i)"
  shows "redist_inv (del_pending (int i) s) tm"
proof -
  obtain i' where i: "int i = int i'" "i' < length tm" "out_tensor_map s ! i = tm ! i'"
    using inv_pending [OF assms] by metis
  have w: "weight (length tm) (del_pending (int i) s) \<le> weight (length tm) s"
    using weight_update [of i "length tm" "del_pending (int i) s" s] i by simp
  show ?thesis using assms(1) i w
    unfolding redist_inv_def update_sims keys_dict_del
    by (auto simp: keys_dict_del [simplified])
qed

lemma inv_put:
  assumes inv: "redist_inv s tm" and pend: "map_of (pending s) (int i) = Some NONE" and i: "i < length tm"
    and out: "out_tensor_map s ! i \<noteq> NONE" "out_tensor_map s ! i \<notin> set tm"
    and n: "get_dim_by_reverse_idx (dev_mat s) (out_tensor_map s ! i) = Inr n"
  shows "redist_inv (del_pending (int i) (insert_operator (SplitByAxis (int i) (out_tensor_map s ! i) n) s))
    (tm[i := out_tensor_map s ! i])" (is "redist_inv ?s ?tm")
proof -
  have tmi: "tm ! i = NONE" using inv_entry [OF inv i] pend by simp
  have w: "weight (length tm) ?s + 1 = weight (length tm) s"
    using weight_update [of i "length tm" ?s s] i pend by simp
  have "scalar_map (dev_mat s) ?tm"
    by (rule scalar_put) (use inv i out in \<open>auto simp: redist_inv_def\<close>)
  moreover have "apply_ops (dev_mat s) (out_tensor_map s) (operator_list ?s) (in_tensor_map s) = Some ?tm"
    using inv tmi i out n by (simp add: redist_inv_def apply_ops_append put_axis_def take_axis_def)
  moreover have "entry_ok (map_of (pending ?s) (int k)) (in_tensor_map s ! k) (out_tensor_map s ! k) (?tm ! k)"
    if "k < length tm" for k
    using inv_entry [OF inv that] i by (cases "k = i") simp_all
  moreover have "\<forall>k \<in> set (map fst (pending ?s)). 0 \<le> k \<and> k < int (length tm)"
    using inv unfolding redist_inv_def update_sims keys_dict_del by blast
  moreover have "length (operator_list ?s) + weight (length tm) ?s \<le> 2 * length tm"
    using inv_paid [OF inv] w by simp
  ultimately show ?thesis using inv unfolding redist_inv_def update_sims length_list_update by simp
qed

lemma inv_concat:
  assumes inv: "redist_inv s tm" and pend: "map_of (pending s) (int i) = Some d" and i: "i < length tm"
    and d: "d \<noteq> NONE" and n: "get_dim_by_reverse_idx (dev_mat s) d = Inr n"
  shows "redist_inv (set_pending (int i) NONE (insert_operator (ConcatByAxis (int i) d n) s)) (tm[i := NONE])"
    (is "redist_inv ?s ?tm")
proof -
  have tmi: "tm ! i = d" using inv_entry [OF inv i] pend by simp
  have w: "weight (length tm) ?s + 1 = weight (length tm) s"
    using weight_update [of i "length tm" ?s s] i pend d by simp
  have "apply_ops (dev_mat s) (out_tensor_map s) (operator_list ?s) (in_tensor_map s) = Some ?tm"
    using inv tmi i d n by (simp add: redist_inv_def apply_ops_append put_axis_def take_axis_def)
  moreover have "entry_ok (map_of (pending ?s) (int k)) (in_tensor_map s ! k) (out_tensor_map s ! k) (?tm ! k)"
    if "k < length tm" for k
    using inv_entry [OF inv that] i by (cases "k = i") simp_all
  moreover have "\<forall>k \<in> set (map fst (pending ?s)). 0 \<le> k \<and> k < int (length tm)"
    using inv i by (auto simp: redist_inv_def keys_dict_set)
  moreover have "scalar_map (dev_mat s) ?tm" by (rule scalar_clear) (use inv in \<open>simp add: redist_inv_def\<close>)
  moreover have "length (operator_list ?s) + weight (length tm) ?s \<le> 2 * length tm"
    using inv_paid [OF inv] w by simp
  ultimately show ?thesis using inv unfolding redist_inv_def update_sims length_list_update by simp
qed

text \<open>The pending order after an exchange does not depend on the order of its two updates.\<close>

lemma dict_del_set: "i \<noteq> j \<Longrightarrow> dict_del (dict_set p j d) i = dict_set (dict_del p i) j d"
  by (induction p) (auto simp: dict_del_def dict_set_def)

lemma inv_exchange:
  assumes inv: "redist_inv s tm" and pend: "map_of (pending s) (int i) = Some NONE" and i: "i < length tm"
    and out: "out_tensor_map s ! i \<noteq> NONE" and j: "map_of (pending s) (int j) = Some (out_tensor_map s ! i)" "j < length tm"
    and n: "get_dim_by_reverse_idx (dev_mat s) (out_tensor_map s ! i) = Inr n"
    and ops: "ops = [PermuteByAxis n (int i) (int j) (out_tensor_map s ! i) n] \<or>
      ops = [ConcatByAxis (int j) (out_tensor_map s ! i) n, SplitByAxis (int i) (out_tensor_map s ! i) n]"
  shows "redist_inv (set_pending (int j) NONE (del_pending (int i) (s\<lparr>operator_list := operator_list s @ ops\<rparr>)))
    (tm[j := NONE, i := out_tensor_map s ! i])" (is "redist_inv ?s ?tm")
proof -
  let ?v = "out_tensor_map s ! i"
  define s1 where "s1 = set_pending (int j) NONE (insert_operator (ConcatByAxis (int j) ?v n) s)"
  define s2 where "s2 = del_pending (int i) (insert_operator (SplitByAxis (int i) ?v n) s1)"
  have ij: "i \<noteq> j" using pend j(1) out by auto
  have tm: "tm ! j = ?v" "tm ! i = NONE" using inv_entry [OF inv j(2)] inv_entry [OF inv i] j(1) pend by simp_all
  have s1: "redist_inv s1 (tm[j := NONE])" unfolding s1_def by (rule inv_concat [OF inv j out n])
  have same: "out_tensor_map s1 = out_tensor_map s" "dev_mat s1 = dev_mat s" by (simp_all add: s1_def)
  have fresh: "?v \<notin> set (tm[j := NONE])"
  proof
    assume "?v \<in> set (tm[j := NONE])"
    then obtain k where k: "k < length tm" "tm[j := NONE] ! k = ?v" by (auto simp: in_set_conv_nth)
    then have "k \<noteq> j" using out by (metis nth_list_update_eq)
    with k have "tm ! k = tm ! j" using tm by simp
    then have "k = j" using inv k(1) j(2) out tm(1) unfolding redist_inv_def by (metis scalar_once)
    with \<open>k \<noteq> j\<close> show False by simp
  qed
  have "redist_inv s2 ?tm"
    using inv_put [OF s1, of i n] fresh out n i pend ij unfolding same s2_def by (simp add: s1_def)
  moreover have "?s = s2\<lparr>operator_list := operator_list s @ ops\<rparr>"
    using ij by (simp add: s1_def s2_def insert_operator_def set_pending_def del_pending_def dict_del_set)
  moreover have "apply_ops (dev_mat s) (out_tensor_map s) (operator_list s @ ops) (in_tensor_map s) = Some ?tm"
    using inv ops ij i j(2) n out fresh tm
    by (auto simp: redist_inv_def apply_ops_append put_axis_def take_axis_def)
  moreover have "length ops \<le> 2" using ops by auto
  ultimately show ?thesis
    by (auto simp: redist_inv_def s1_def s2_def insert_operator_def set_pending_def del_pending_def weight_def)
qed

section \<open>One pass\<close>

definition ops_count :: "redist \<Rightarrow> nat" where
  "ops_count s = length (operator_list s)"

definition on_task :: "redist \<Rightarrow> redist \<Rightarrow> bool" where
  "on_task s0 s \<longleftrightarrow> same_task s0 s \<and> (\<exists>tm. redist_inv s tm)"

definition settled :: "redist \<Rightarrow> nat \<Rightarrow> bool" where
  "settled s i \<longleftrightarrow>
     (\<forall>d. map_of (pending s) (int i) = Some d \<longrightarrow>
        d \<noteq> out_tensor_map s ! i \<and> (d = NONE \<longrightarrow> values_conflict s (out_tensor_map s ! i)))"

lemma out_entry:
  "redist_inv s tm \<Longrightarrow> i < length tm \<Longrightarrow> get_dim_by_idx (out_tensor_map s) (int i) = Inr (out_tensor_map s ! i)"
  by (auto simp: redist_inv_def get_dim_by_idx_def)

lemma pending_conflict: "map_of (pending s) k = Some d \<Longrightarrow> values_conflict s d"
  by (auto simp: values_conflict_def dest!: map_of_SomeD intro!: image_eqI)

lemma settled_del:
  assumes inv: "redist_inv s tm" and pend: "map_of (pending s) (int i) = Some d"
    and d: "d = NONE \<or> d = out_tensor_map s ! i" and "settled s k"
    and s': "pending s' = dict_del (pending s) (int i)" "out_tensor_map s' = out_tensor_map s"
  shows "settled s' k"
  unfolding settled_def
proof (intro allI impI)
  fix e assume "map_of (pending s') (int k) = Some e"
  then have k: "k \<noteq> i" "map_of (pending s) (int k) = Some e" by (auto simp: s' split: if_splits)
  with assms(4) have e: "e \<noteq> out_tensor_map s ! k" "e = NONE \<longrightarrow> values_conflict s (out_tensor_map s ! k)"
    by (auto simp: settled_def)
  have "values_conflict s' (out_tensor_map s ! k)" if none: "e = NONE"
  proof -
    obtain j where j: "map_of (pending s) (int j) = Some (out_tensor_map s ! k)" using inv e none inv_values by blast
    have "j \<noteq> i"
    proof
      assume "j = i"
      with j pend d e none have "out_tensor_map s ! k = out_tensor_map s ! i" "out_tensor_map s ! k \<noteq> NONE" by auto
      moreover obtain "k < length tm" "i < length tm" using inv_pending [OF inv] k(2) pend by (metis of_nat_eq_iff)
      ultimately have "k = i" using inv unfolding redist_inv_def by (metis scalar_once)
      with k(1) show False by simp
    qed
    with j have "map_of (pending s') (int j) = Some (out_tensor_map s ! k)" by (simp add: s')
    then show ?thesis by (rule pending_conflict)
  qed
  with e show "e \<noteq> out_tensor_map s' ! k \<and> (e = NONE \<longrightarrow> values_conflict s' (out_tensor_map s' ! k))"
    by (simp add: s')
qed

lemma settled_irrelevant:
  "pending s' = pending s \<Longrightarrow> out_tensor_map s' = out_tensor_map s \<Longrightarrow> settled s' = settled s"
  by (simp add: fun_eq_iff settled_def values_conflict_def)

lemma settle_deleted:
  assumes "redist_inv s tm" and "map_of (pending s) (int i) = Some d" and "d = NONE \<or> d = out_tensor_map s ! i"
    and "pending s' = dict_del (pending s) (int i)" and "out_tensor_map s' = out_tensor_map s"
  shows "set (map fst (pending s')) \<subseteq> set (map fst (pending s)) \<and>
    (\<forall>k. int k = int i \<longrightarrow> settled s' k) \<and> (\<forall>k. settled s k \<longrightarrow> settled s' k)"
proof (intro conjI allI impI)
  show "set (map fst (pending s')) \<subseteq> set (map fst (pending s))" unfolding assms(4) keys_dict_del by blast
  show "settled s' k" if "int k = int i" for k using that assms(4) by (simp add: settled_def)
  show "settled s' k" if "settled s k" for k by (rule settled_del [OF assms(1-3) that assms(4,5)])
qed

lemma split_step_ok:
  assumes "on_task s0 s"
  shows "\<exists>s'. split_step index s = Inr s' \<and> on_task s0 s' \<and> ops_count s \<le> ops_count s' \<and>
    set (map fst (pending s')) \<subseteq> set (map fst (pending s)) \<and>
    (\<forall>i. int i = index \<longrightarrow> settled s' i) \<and> (\<forall>i. settled s i \<longrightarrow> settled s' i)"
proof (cases "map_of (pending s) index")
  case None
  then show ?thesis using assms by (auto simp: split_step_def settled_def)
next
  case (Some d)
  obtain tm where inv: "redist_inv s tm" and same: "same_task s0 s" using assms by (auto simp: on_task_def)
  obtain i where i: "index = int i" "i < length tm" using inv_pending [OF inv Some] by metis
  let ?v = "out_tensor_map s ! i"
  note pend = Some [unfolded i(1)]
  note get = out_entry [OF inv i(2)]
  consider "d = ?v" | "d \<noteq> ?v" "d = NONE" "\<not> values_conflict s ?v" | "d \<noteq> ?v" "d \<noteq> NONE \<or> values_conflict s ?v"
    by blast
  then show ?thesis
  proof cases
    case 1
    have "split_step index s = Inr (del_pending index s)" using pend get 1 i(1) by (simp add: split_step_def)
    moreover have "redist_inv (del_pending index s) tm" using inv_settle [OF inv] pend 1 i(1) by simp
    moreover have "same_task s0 (del_pending index s)" "ops_count (del_pending index s) = ops_count s"
      using same by (simp_all add: same_task_def ops_count_def)
    ultimately show ?thesis
      using settle_deleted [OF inv pend, of "del_pending index s"] 1 i(1) unfolding on_task_def by auto
  next
    case 2
    obtain n where n: "get_dim_by_reverse_idx (dev_mat s) ?v = Inr n"
      using scalar_size [of "dev_mat s" "out_tensor_map s" i] inv i(2) 2 by (auto simp: redist_inv_def)
    let ?s' = "del_pending index (insert_operator (SplitByAxis index ?v n) s)"
    have "split_step index s = Inr ?s'"
      using pend get 2 n no_tuple_conflict [OF inv] i(1) by (simp add: split_step_def handle_simple_split_case_def)
    moreover have "redist_inv ?s' (tm[i := ?v])"
      unfolding i(1) using pend 2 by (intro inv_put [OF inv _ i(2) _ _ n] no_conflict_free [OF inv _ i(2)]) simp_all
    moreover have "same_task s0 ?s'" "ops_count s \<le> ops_count ?s'"
      using same by (simp_all add: same_task_def ops_count_def)
    ultimately show ?thesis
      using settle_deleted [OF inv pend, of ?s'] 2 i(1) unfolding on_task_def by auto
  next
    case 3
    obtain k where "?v = One k" using inv i(2)
      by (auto simp: redist_inv_def NONE_def elim: scalar_entry [of "dev_mat s" "out_tensor_map s" i])
    then have "split_step index s = Inr s"
      using pend get 3 no_tuple_conflict [OF inv] i(1)
      by (auto simp: split_step_def handle_simple_split_case_def handle_tuple_split_case_def)
    then show ?thesis using assms pend 3 i(1) by (auto simp: settled_def)
  qed
qed

lemma infer_split_ok:
  assumes "on_task s0 s"
  shows "\<exists>s'. infer_split_by_axis s = Inr s' \<and> on_task s0 s' \<and> ops_count s \<le> ops_count s' \<and> (\<forall>i. settled s' i)"
proof -
  let ?keys = "map fst (pending s)"
  define I where "I j u \<longleftrightarrow> on_task s0 u \<and> ops_count s \<le> ops_count u \<and> set (map fst (pending u)) \<subseteq> set ?keys \<and>
    (\<forall>m < j. \<forall>i. int i = ?keys ! m \<longrightarrow> settled u i)" for j u
  have "\<exists>t. for_res split_step ?keys s = Inr t \<and> I (length ?keys) t"
  proof (rule for_res_positions)
    show "I 0 s" using assms by (simp add: I_def)
    fix j u assume j: "j < length ?keys" and u: "I j u"
    then have "on_task s0 u" by (simp add: I_def)
    from split_step_ok [OF this, of "?keys ! j"] obtain v where v: "split_step (?keys ! j) u = Inr v"
      "on_task s0 v" "ops_count u \<le> ops_count v" "set (map fst (pending v)) \<subseteq> set (map fst (pending u))"
      "\<And>i. int i = ?keys ! j \<Longrightarrow> settled v i" "\<And>i. settled u i \<Longrightarrow> settled v i" by blast
    have "I (Suc j) v" unfolding I_def
    proof (intro conjI allI impI)
      fix m i assume "m < Suc j" "int i = ?keys ! m"
      then show "settled v i"
      proof (cases "m = j")
        case False
        with \<open>m < Suc j\<close> have "m < j" by simp
        with u \<open>int i = ?keys ! m\<close> have "settled u i" unfolding I_def by blast
        then show ?thesis by (rule v(6))
      qed (use v(5) in simp)
    qed (use u v(2-4) in \<open>auto simp: I_def simp del: set_map\<close>)
    with v(1) show "\<exists>v. split_step (?keys ! j) u = Inr v \<and> I (Suc j) v" by blast
  qed
  then obtain t where t: "for_res split_step ?keys s = Inr t" "I (length ?keys) t" by blast
  have "settled t i" for i
  proof (cases "int i \<in> set ?keys")
    case True
    with t(2) show ?thesis unfolding I_def by (metis in_set_conv_nth)
  next
    case False
    with t(2) have "map_of (pending t) (int i) = None" by (auto simp: I_def map_of_eq_None_iff)
    then show ?thesis by (simp add: settled_def)
  qed
  with t show ?thesis unfolding infer_split_by_axis_def I_def by blast
qed

text \<open>A pass that inserts nothing.\<close>

lemma for_res_quiet:
  assumes "\<And>x s. P s \<Longrightarrow> \<exists>s'. body x s = Inr s' \<and> P s' \<and> (f s :: nat) \<le> f s' \<and> (Q s \<and> f s' = f s \<longrightarrow> s' = s \<and> R x s)"
    and "P s"
  shows "\<exists>s'. for_res body xs s = Inr s' \<and> P s' \<and> f s \<le> f s' \<and> (Q s \<and> f s' = f s \<longrightarrow> s' = s \<and> (\<forall>x \<in> set xs. R x s))"
  using assms(2)
proof (induction xs arbitrary: s)
  case (Cons x xs)
  from assms(1) [OF Cons.prems, of x] obtain u where u: "body x s = Inr u" "P u" "f s \<le> f u"
    "Q s \<and> f u = f s \<longrightarrow> u = s \<and> R x s" by blast
  from Cons.IH [OF u(2)] obtain t where t: "for_res body xs u = Inr t" "P t" "f u \<le> f t"
    "Q u \<and> f t = f u \<longrightarrow> t = u \<and> (\<forall>x \<in> set xs. R x u)" by blast
  have "t = s \<and> (\<forall>y \<in> set (x # xs). R y s)" if "Q s \<and> f t = f s"
  proof -
    have "f u = f s" using that u(3) t(3) by simp
    with that u(4) have us: "u = s" "R x s" by simp_all
    with that t(4) show ?thesis by simp
  qed
  with u t show ?case by (intro exI [of _ t]) auto
qed simp

lemma index_from_first:
  "i < length dims \<Longrightarrow> dims ! i = v \<Longrightarrow> (\<And>j. j < i \<Longrightarrow> dims ! j \<noteq> v) \<Longrightarrow> index_from b dims v = b + int i"
proof (induction dims arbitrary: i b)
  case (Cons d dims)
  show ?case
  proof (cases i)
    case (Suc k)
    have "d \<noteq> v" using Cons.prems(3) [of 0] Suc by simp
    moreover have "dims ! j \<noteq> v" if "j < k" for j using Cons.prems(3) [of "Suc j"] that Suc by simp
    ultimately show ?thesis using Cons.IH [of k "b + 1"] Cons.prems(1,2) Suc by simp
  qed (use Cons.prems in simp)
qed simp

lemma permute_step_ok:
  assumes "on_task s0 s"
  shows "\<exists>s'. permute_step index s = Inr s' \<and> on_task s0 s' \<and> ops_count s \<le> ops_count s' \<and>
    ((\<forall>i. settled s i) \<and> ops_count s' = ops_count s \<longrightarrow> s' = s \<and> map_of (pending s) index \<noteq> Some NONE)"
proof (cases "map_of (pending s) index")
  case None
  then show ?thesis using assms by (auto simp: permute_step_def)
next
  case (Some d)
  obtain tm where inv: "redist_inv s tm" and same: "same_task s0 s" using assms by (auto simp: on_task_def)
  obtain i where i: "index = int i" "i < length tm" using inv_pending [OF inv Some] by metis
  let ?v = "out_tensor_map s ! i"
  note pend = Some [unfolded i(1)]
  note get = out_entry [OF inv i(2)]
  have v: "\<exists>k. ?v = One k" using inv i(2)
    by (auto simp: redist_inv_def NONE_def elim: scalar_entry [of "dev_mat s" "out_tensor_map s" i])
  consider "d = ?v" | "d \<noteq> ?v" "d = NONE" "values_conflict s ?v" | "d \<noteq> ?v" "d \<noteq> NONE" |
    "d \<noteq> ?v" "d = NONE" "\<not> values_conflict s ?v" by blast
  then show ?thesis
  proof cases
    case 1
    have "permute_step index s = Inr (del_pending index s)" using pend get 1 i(1) by (simp add: permute_step_def)
    moreover have "redist_inv (del_pending index s) tm" using inv_settle [OF inv] pend 1 i(1) by simp
    moreover have "\<not> settled s i" using pend 1 by (simp add: settled_def)
    ultimately show ?thesis using same by (auto simp: on_task_def same_task_def ops_count_def)
  next
    case 2
    obtain n where n: "get_dim_by_reverse_idx (dev_mat s) ?v = Inr n"
      using scalar_size [of "dev_mat s" "out_tensor_map s" i] inv i(2) 2 by (auto simp: redist_inv_def)
    obtain j where j: "map_of (pending s) (int j) = Some ?v" "j < length tm" "?v = in_tensor_map s ! j"
      using inv_values [OF inv 2(3)] 2 by metis
    have source: "scalar_map (dev_mat s) (in_tensor_map s)" "j < length (in_tensor_map s)"
      using inv j(2) by (simp_all add: redist_inv_def)
    have axis: "get_index_by_value (in_tensor_map s) ?v = int j"
    proof -
      have "in_tensor_map s ! k \<noteq> ?v" if "k < j" for k
        using scalar_once [OF source(1), of k j] source(2) that j(3) 2 by auto
      then show ?thesis unfolding get_index_by_value_def using index_from_first [OF source(2), of ?v 0] j(3) by simp
    qed
    have entry: "get_dim_by_idx (in_tensor_map s) (int j) = Inr ?v"
      using source(2) j(3) by (simp add: get_dim_by_idx_def)
    define ops where "ops = (if use_permute s then [PermuteByAxis n (int i) (int j) ?v n]
      else [ConcatByAxis (int j) ?v n, SplitByAxis (int i) ?v n])"
    let ?s' = "set_pending (int j) NONE (del_pending (int i) (s\<lparr>operator_list := operator_list s @ ops\<rparr>))"
    have "permute_step index s = Inr ?s'"
      using pend get 2 n axis entry i(1)
      by (simp add: permute_step_def handle_none_dim_permute_case_def ops_def insert_exchange_def insert_operator_def
          set_pending_def del_pending_def Let_def)
    moreover have "redist_inv ?s' (tm[j := NONE, i := ?v])"
      by (rule inv_exchange [OF inv _ i(2) _ j(1,2) n]) (use pend 2 in \<open>auto simp: ops_def\<close>)
    moreover have "ops_count s < ops_count ?s'" by (simp add: ops_count_def ops_def)
    moreover have "same_task s0 ?s'" using same by (simp add: same_task_def)
    ultimately show ?thesis by (auto simp: on_task_def)
  next
    case 3
    then have "permute_step index s = Inr s"
      using pend get v i(1)
      by (auto simp: permute_step_def handle_none_dim_permute_case_def handle_none_dim_tuple_permute_case_def
          handle_tuple_dim_permute_case_def)
    then show ?thesis using assms pend 3 i(1) by auto
  next
    case 4
    then have "permute_step index s = Inr s"
      using pend get v no_tuple_conflict [OF inv] i(1)
      by (auto simp: permute_step_def handle_none_dim_permute_case_def handle_none_dim_tuple_permute_case_def
          handle_tuple_dim_permute_case_def)
    moreover have "\<not> settled s i" using pend 4 by (simp add: settled_def)
    ultimately show ?thesis using assms by auto
  qed
qed

lemma infer_permute_ok:
  assumes "on_task s0 s"
  shows "\<exists>s'. infer_permute_by_axis s = Inr s' \<and> on_task s0 s' \<and> ops_count s \<le> ops_count s' \<and>
    ((\<forall>i. settled s i) \<and> ops_count s' = ops_count s \<longrightarrow> s' = s \<and> \<not> values_conflict s NONE)"
proof -
  have "\<exists>s'. for_res permute_step (map fst (pending s)) s = Inr s' \<and> on_task s0 s' \<and> ops_count s \<le> ops_count s' \<and>
    ((\<forall>i. settled s i) \<and> ops_count s' = ops_count s \<longrightarrow>
       s' = s \<and> (\<forall>x \<in> set (map fst (pending s)). map_of (pending s) x \<noteq> Some NONE))"
    by (rule for_res_quiet [where P = "on_task s0" and Q = "\<lambda>s. \<forall>i. settled s i"
          and R = "\<lambda>x s. map_of (pending s) x \<noteq> Some NONE"]) (rule permute_step_ok, assumption, rule assms)
  moreover have "\<not> values_conflict s NONE"
    if none: "\<forall>x \<in> set (map fst (pending s)). map_of (pending s) x \<noteq> Some NONE"
  proof
    assume "values_conflict s NONE"
    moreover obtain tm where inv: "redist_inv s tm" using assms by (auto simp: on_task_def)
    ultimately obtain j where j: "map_of (pending s) (int j) = Some NONE" using inv_values by blast
    then have "int j \<in> set (map fst (pending s))" using map_of_SomeD by force
    with none j show False by blast
  qed
  ultimately show ?thesis unfolding infer_permute_by_axis_def by blast
qed

lemma index_from_none: "v \<notin> set dims \<Longrightarrow> index_from b dims v = -1"
  by (induction dims arbitrary: b) auto

lemma index_from_mem: "v \<in> set dims \<Longrightarrow> b \<le> index_from b dims v"
proof (induction dims arbitrary: b)
  case (Cons d dims)
  then show ?case using order_trans [OF _ Cons.IH [of "b + 1"], of b] by (cases "d = v") auto
qed simp

lemma clear_first: "set_pending k NONE (insert_operator op s) = insert_operator op (set_pending k NONE s)"
  by (simp add: set_pending_def insert_operator_def)

lemma del_after_clear:
  "del_pending k (set_pending k d s) = del_pending k s"
  by (simp add: set_pending_def del_pending_def dict_set_def dict_del_def delete_update_same)

lemma concat_step_ok:
  assumes "on_task s0 s"
  shows "\<exists>s'. concat_step index s = Inr s' \<and> on_task s0 s' \<and> ops_count s \<le> ops_count s' \<and>
    (True \<and> ops_count s' = ops_count s \<longrightarrow> s' = s \<and> True)"
proof (cases "map_of (pending s) index")
  case None
  then show ?thesis using assms by (auto simp: concat_step_def)
next
  case (Some d)
  obtain tm where inv: "redist_inv s tm" and same: "same_task s0 s" using assms by (auto simp: on_task_def)
  obtain i where i: "index = int i" "i < length tm" "d = tm ! i" using inv_pending [OF inv Some] by metis
  let ?v = "out_tensor_map s ! i"
  note pend = Some [unfolded i(1)]
  note get = out_entry [OF inv i(2)]
  have scalar: "scalar_map (dev_mat s) tm" using inv by (simp add: redist_inv_def)
  then obtain k where k: "d = One k" using i by (auto simp: NONE_def elim: scalar_entry)
  show ?thesis
  proof (cases "d \<noteq> NONE \<and> d \<notin> set (out_tensor_map s)")
    case True
    obtain n where n: "get_dim_by_reverse_idx (dev_mat s) d = Inr n"
      using scalar_size [OF scalar] i True by auto
    let ?s1 = "set_pending index NONE (insert_operator (ConcatByAxis index d n) s)"
    let ?s' = "if ?v = NONE then del_pending index ?s1 else ?s1"
    have "concat_step index s = Inr ?s'"
      using pend get True k n i(1) index_from_none [of d "out_tensor_map s" 0]
      by (simp add: concat_step_def handle_tuple_concat_case_def handle_simple_concat_case_def
          get_index_by_value_def Let_def del_after_clear)
    moreover have s1: "redist_inv ?s1 (tm[i := NONE])"
      unfolding i(1) by (rule inv_concat [OF inv pend i(2) _ n]) (use True in simp)
    moreover have "redist_inv (del_pending index ?s1) (tm[i := NONE])" if "?v = NONE"
      unfolding i(1) by (rule inv_settle [OF s1 [unfolded i(1)]]) (use that in simp)
    moreover have "same_task s0 ?s'" "ops_count s < ops_count ?s'"
      using same by (simp_all add: same_task_def ops_count_def)
    ultimately show ?thesis unfolding on_task_def by (cases "?v = NONE") auto
  next
    case False
    then have "get_index_by_value (out_tensor_map s) d \<noteq> -1 \<or> d = NONE"
      using index_from_mem [of d "out_tensor_map s" 0] by (auto simp: get_index_by_value_def)
    then have "concat_step index s = Inr s"
      using pend get k i(1) by (auto simp: concat_step_def handle_tuple_concat_case_def handle_simple_concat_case_def)
    then show ?thesis using assms by auto
  qed
qed

lemma infer_concat_ok:
  assumes "on_task s0 s"
  shows "\<exists>s'. infer_concat_by_axis s = Inr s' \<and> on_task s0 s' \<and> ops_count s \<le> ops_count s' \<and>
    (ops_count s' = ops_count s \<longrightarrow> s' = s)"
proof -
  have "\<exists>s'. for_res concat_step (map fst (pending s)) s = Inr s' \<and> on_task s0 s' \<and> ops_count s \<le> ops_count s' \<and>
    (True \<and> ops_count s' = ops_count s \<longrightarrow> s' = s \<and> (\<forall>x \<in> set (map fst (pending s)). True))"
    by (rule for_res_quiet [where P = "on_task s0" and Q = "\<lambda>s. True" and R = "\<lambda>x s. True"])
       (rule concat_step_ok, assumption, rule assms)
  then show ?thesis unfolding infer_concat_by_axis_def by blast
qed

section \<open>The loops return\<close>

lemma ops_bound: "on_task s0 s \<Longrightarrow> ops_count s \<le> 2 * length (in_tensor_map s0)"
  using inv_paid by (fastforce simp: on_task_def ops_count_def same_task_def redist_inv_def)

definition ops_left :: "redist \<Rightarrow> redist \<Rightarrow> nat" where
  "ops_left s0 s = 2 * length (in_tensor_map s0) - ops_count s"

lemma ops_left_less: "on_task s0 s' \<Longrightarrow> ops_count s < ops_count s' \<Longrightarrow> ops_left s0 s' < ops_left s0 s"
  using ops_bound [of s0 s'] by (simp add: ops_left_def)

lemma permute_loop_ok:
  assumes "on_task s0 s"
  shows "\<exists>s'. permute_loop s = Some (Inr s') \<and> on_task s0 s' \<and> ops_count s \<le> ops_count s' \<and>
    ((\<forall>i. settled s i) \<and> ops_count s' = ops_count s \<longrightarrow> s' = s \<and> \<not> values_conflict s NONE)"
  using assms
proof (induction "ops_left s0 s" arbitrary: s rule: less_induct)
  case less
  show ?case
  proof (cases "pending s = []")
    case True
    then show ?thesis using less.prems by (subst permute_loop.simps) (simp add: values_conflict_def)
  next
    case False
    obtain u where u: "infer_permute_by_axis s = Inr u" "on_task s0 u" "ops_count s \<le> ops_count u"
      "(\<forall>i. settled s i) \<and> ops_count u = ops_count s \<longrightarrow> u = s \<and> \<not> values_conflict s NONE"
      using infer_permute_ok [OF less.prems] by blast
    show ?thesis
    proof (cases "ops_count u = ops_count s")
      case True
      then have "permute_loop s = Some (Inr u)"
        using False u(1) by (subst permute_loop.simps) (simp add: ops_count_def)
      with u True show ?thesis by auto
    next
      case more: False
      then have "permute_loop s = permute_loop u"
        using False u(1) by (subst permute_loop.simps) (simp add: ops_count_def)
      moreover have "ops_left s0 u < ops_left s0 s" using more u(2,3) by (intro ops_left_less) simp_all
      note less.hyps [OF this u(2)]
      ultimately obtain t where "permute_loop s = Some (Inr t)" "on_task s0 t" "ops_count u \<le> ops_count t" by auto
      with more u(3) show ?thesis by auto
    qed
  qed
qed

lemma split_loop_ok:
  assumes "on_task s0 s"
  shows "\<exists>s'. split_loop s = Some (Inr s') \<and> on_task s0 s' \<and> ops_count s \<le> ops_count s' \<and>
    (ops_count s' = ops_count s \<longrightarrow> \<not> values_conflict s' NONE)"
  using assms
proof (induction "ops_left s0 s" arbitrary: s rule: less_induct)
  case less
  show ?case
  proof (cases "pending s = []")
    case True
    then show ?thesis using less.prems by (subst split_loop.simps) (simp add: values_conflict_def)
  next
    case False
    obtain u where u: "infer_split_by_axis s = Inr u" "on_task s0 u" "ops_count s \<le> ops_count u" "\<forall>i. settled u i"
      using infer_split_ok [OF less.prems] by blast
    obtain v where v: "permute_loop u = Some (Inr v)" "on_task s0 v" "ops_count u \<le> ops_count v"
      "ops_count v = ops_count u \<longrightarrow> v = u \<and> \<not> values_conflict u NONE"
      using permute_loop_ok [OF u(2)] u(4) by blast
    show ?thesis
    proof (cases "ops_count v = ops_count s")
      case True
      then have "split_loop s = Some (Inr v)"
        using False u(1) v(1) by (subst split_loop.simps) (simp add: ops_count_def)
      with u v True show ?thesis by auto
    next
      case more: False
      then have "split_loop s = split_loop v"
        using False u(1) v(1) by (subst split_loop.simps) (simp add: ops_count_def)
      moreover have "ops_left s0 v < ops_left s0 s" using more u(3) v(2,3) by (intro ops_left_less) simp_all
      note less.hyps [OF this v(2)]
      ultimately obtain t where "split_loop s = Some (Inr t)" "on_task s0 t" "ops_count v \<le> ops_count t" by auto
      with more u(3) v(3) show ?thesis by auto
    qed
  qed
qed

lemma force_concat_ok:
  assumes "on_task s0 s" and "pending s \<noteq> []" and "\<not> values_conflict s NONE"
  shows "\<exists>s'. force_concat s = Inr s' \<and> on_task s0 s' \<and> ops_count s < ops_count s'"
proof -
  obtain tm where inv: "redist_inv s tm" and same: "same_task s0 s" using assms(1) by (auto simp: on_task_def)
  obtain k d rest where p: "pending s = (k, d) # rest" using assms(2) by (cases "pending s") auto
  then have pend: "map_of (pending s) k = Some d" by simp
  obtain i where i: "k = int i" "i < length tm" "d = tm ! i" using inv_pending [OF inv pend] by metis
  have d: "d \<noteq> NONE" using assms(3) pending_conflict [OF pend] by auto
  have "scalar_map (dev_mat s) tm" using inv by (simp add: redist_inv_def)
  then obtain n where n: "get_dim_by_reverse_idx (dev_mat s) d = Inr n" using scalar_size i d by blast
  let ?s' = "set_pending k NONE (insert_operator (ConcatByAxis k d n) s)"
  have "force_concat s = Inr ?s'" using p n by (simp add: force_concat_def clear_first Let_def)
  moreover have "redist_inv ?s' (tm[i := NONE])"
    unfolding i(1) by (rule inv_concat [OF inv pend [unfolded i(1)] i(2) d n])
  moreover have "same_task s0 ?s'" "ops_count s < ops_count ?s'"
    using same by (simp_all add: same_task_def ops_count_def)
  ultimately show ?thesis unfolding on_task_def by blast
qed

lemma infer_redistribution_ok:
  assumes "on_task s0 s"
  shows "\<exists>s'. infer_redistribution_operator s = Some (Inr s') \<and> on_task s0 s' \<and> pending s' = []"
  using assms
proof (induction "ops_left s0 s" arbitrary: s rule: less_induct)
  case less
  show ?case
  proof (cases "pending s = []")
    case True
    then show ?thesis using less.prems by (subst infer_redistribution_operator.simps) simp
  next
    case False
    obtain u where u: "split_loop s = Some (Inr u)" "on_task s0 u" "ops_count s \<le> ops_count u"
      "ops_count u = ops_count s \<longrightarrow> \<not> values_conflict u NONE"
      using split_loop_ok [OF less.prems] by blast
    obtain v where v: "infer_concat_by_axis u = Inr v" "on_task s0 v" "ops_count u \<le> ops_count v"
      "ops_count v = ops_count u \<longrightarrow> v = u"
      using infer_concat_ok [OF u(2)] by blast
    consider "pending v = []" | "pending v \<noteq> []" "ops_count v = ops_count s" | "pending v \<noteq> []" "ops_count s < ops_count v"
      using u(3) v(3) by linarith
    then show ?thesis
    proof cases
      case 1
      then have "infer_redistribution_operator s = Some (Inr v)"
        using False u(1) v(1)
        by (subst infer_redistribution_operator.simps) (simp add: infer_redistribution_operator.simps)
      with v(2) 1 show ?thesis by auto
    next
      case 2
      with u(3,4) v(3,4) have "\<not> values_conflict v NONE" by auto
      with force_concat_ok [OF v(2) 2(1)] obtain t where
        t: "force_concat v = Inr t" "on_task s0 t" "ops_count v < ops_count t" by blast
      have "infer_redistribution_operator s = infer_redistribution_operator t"
        using False u(1) v(1) 2 t(1) by (subst infer_redistribution_operator.simps) (simp add: ops_count_def)
      moreover have "ops_left s0 t < ops_left s0 s" using t(2,3) 2(2) by (intro ops_left_less) simp_all
      note less.hyps [OF this t(2)]
      ultimately show ?thesis by simp
    next
      case 3
      then have "infer_redistribution_operator s = infer_redistribution_operator v"
        using False u(1) v(1) by (subst infer_redistribution_operator.simps) (simp add: ops_count_def)
      moreover have "ops_left s0 v < ops_left s0 s" using v(2) 3(2) by (intro ops_left_less) simp_all
      note less.hyps [OF this v(2)]
      ultimately show ?thesis by simp
    qed
  qed
qed

lemma init_on_task:
  assumes "scalar_map sizes in_map" and "scalar_map sizes out_map" and "length out_map = length in_map"
  shows "redist_inv (init_redist sizes in_map out_map permute) in_map"
proof -
  let ?s = "init_redist sizes in_map out_map permute" and ?n = "length in_map"
  have pend: "map_of (pending ?s) (int i) = Some (in_map ! i)" if "i < ?n" for i
    using map_of_zip_nth [of "py_range 0 (int ?n)" in_map i] that by (simp add: init_redist_def)
  have "weight ?n ?s \<le> (\<Sum>i < ?n. 2)"
    unfolding weight_def by (rule sum_mono) (simp add: pend)
  moreover have "map fst (pending ?s) = py_range 0 (int ?n)" by (simp add: init_redist_def)
  moreover have "entry_ok (map_of (pending ?s) (int i)) (in_map ! i) (out_map ! i) (in_map ! i)" if "i < ?n" for i
    using pend [OF that] by simp
  ultimately show ?thesis
    using assms unfolding redist_inv_def by (simp add: init_redist_def del: set_map)
qed

lemma inference_sound:
  assumes "scalar_map sizes in_map" and "scalar_map sizes out_map" and "length out_map = length in_map"
  shows "\<exists>s. infer_redistribution_operator (init_redist sizes in_map out_map permute) = Some (Inr s) \<and>
    dev_mat s = sizes \<and> pending s = [] \<and> apply_ops sizes out_map (operator_list s) in_map = Some out_map \<and>
    length (operator_list s) \<le> 2 * length in_map"
proof -
  let ?s0 = "init_redist sizes in_map out_map permute"
  have "on_task ?s0 ?s0" using init_on_task [OF assms] by (auto simp: on_task_def same_task_def)
  from infer_redistribution_ok [OF this] obtain s where
    s: "infer_redistribution_operator ?s0 = Some (Inr s)" "on_task ?s0 s" "pending s = []" by blast
  from s(2) obtain tm where inv: "redist_inv s tm" and same: "same_task ?s0 s" by (auto simp: on_task_def)
  have task: "dev_mat s = sizes" "in_tensor_map s = in_map" "out_tensor_map s = out_map"
    using same by (simp_all add: same_task_def init_redist_def)
  have "tm = out_map"
    using inv_finished [OF inv] inv s(3) assms(3) task by (intro nth_equalityI) (simp_all add: redist_inv_def)
  with inv ops_bound [OF s(2)] s task show ?thesis
    by (auto simp: redist_inv_def ops_count_def init_redist_def)
qed

text \<open>
  C23: the inference is sound and ends on tensor maps without tuples: whatever the order of the
  mesh dimensions and with or without all-to-alls, it returns within two operators per tensor
  dimension, nothing is left pending, and running its operators, each applicable where it comes,
  takes the source map to the target map.
\<close>

theorem redistribution_sound:
  assumes "scalar_map sizes in_map" and "scalar_map sizes out_map" and "length out_map = length in_map"
  shows "\<exists>s. infer_redistribution_operator (init_redist sizes in_map out_map permute) = Some (Inr s) \<and>
    pending s = [] \<and> apply_ops sizes out_map (operator_list s) in_map = Some out_map \<and>
    length (operator_list s) \<le> 2 * length in_map"
  using inference_sound [OF assms] by blast

theorem redistribution_sound_witness:
  "\<exists>s. infer_redistribution_operator (init_redist [2, 4] [One 0, One 1, One (-1)] [One 1, One (-1), One 0] True) =
      Some (Inr s) \<and> apply_ops [2, 4] [One 1, One (-1), One 0] (operator_list s) [One 0, One 1, One (-1)] = Some [One 1, One (-1), One 0]"
proof -
  have "scalar_map [2, 4] [One 0, One 1, One (-1)]" "scalar_map [2, 4] [One 1, One (-1), One 0]"
    by (simp_all add: scalar_map_def NONE_def All_less_Suc numeral_3_eq_3)
  with redistribution_sound [of "[2, 4]" "[One 0, One 1, One (-1)]" "[One 1, One (-1), One 0]" True]
  show ?thesis by auto
qed

end
