(* ===== verification/Redistribute_Data.thy ===== *)
theory Redistribute_Data
  imports Redistribute_Sound
begin

text \<open>
  What the inferred operators do to the data. A rank's local tensor is the grid of global indices it
  holds, a list of indices per tensor dimension; the collectives split it, concatenate the grids of a
  group, or exchange parts, as the tensor library documents for \<open>torch.chunk\<close>, all-gather and
  all-to-all over a group in the order of its rank list. Running the communication operations of
  \<open>infer_ops_list\<close> on every rank turns the slices of the source layout into those of the target layout.
\<close>

section \<open>Collectives on index grids\<close>

type_synonym grid = "int list list"
type_synonym grids = "int \<Rightarrow> grid option"

text \<open>\<open>torch.chunk(x, n)[idx]\<close> along one dimension: chunks of the rounded-up size.\<close>

definition tensor_chunk :: "int \<Rightarrow> int list \<Rightarrow> int \<Rightarrow> int list option" where
  "tensor_chunk n xs idx =
     (let len = int (length xs); size = (len + n - 1) div n
      in if 0 < n \<and> 0 \<le> idx \<and> idx < n \<and> (idx * size < len \<or> len = 0)
         then Some (take (nat size) (drop (nat (idx * size)) xs)) else None)"

definition split_grid :: "int \<Rightarrow> int \<Rightarrow> int \<Rightarrow> grid \<Rightarrow> grid option" where
  "split_grid d n idx x =
     (if 0 \<le> d \<and> d < int (length x)
      then map_option (\<lambda>part. x[nat d := part]) (tensor_chunk n (x ! nat d) idx) else None)"

text \<open>Concatenation gives a grid only when the parts agree in the other dimensions.\<close>

definition join_grids :: "int \<Rightarrow> grid \<Rightarrow> grid list \<Rightarrow> grid option" where
  "join_grids d own parts =
     (if 0 \<le> d \<and> d < int (length own) \<and> (\<forall>x \<in> set parts. x[nat d := []] = own[nat d := []])
      then Some (own[nat d := concat (map (\<lambda>x. x ! nat d) parts)]) else None)"

definition group_index :: "int list \<Rightarrow> int \<Rightarrow> int option" where
  "group_index grp rank = (case py_index grp rank of Inl e \<Rightarrow> None | Inr i \<Rightarrow> Some i)"

fun run_comm :: "collective_op \<Rightarrow> int \<Rightarrow> grids \<Rightarrow> grid option" where
  "run_comm (AllConcat d n grp) rank h =
     Option.bind (h rank) (\<lambda>own. Option.bind (those (map h grp)) (join_grids d own))"
| "run_comm (AllSplit d n grp) rank h =
     Option.bind (group_index grp rank) (\<lambda>idx. Option.bind (h rank) (split_grid d n idx))"
| "run_comm (AllToAll sd cd n grp) rank h =
     Option.bind (group_index grp rank) (\<lambda>idx.
       let part = (\<lambda>m. Option.bind (h m) (split_grid sd n idx))
       in Option.bind (part rank) (\<lambda>own. Option.bind (those (map part grp)) (join_grids cd own)))"

text \<open>The ranks run their operation lists in step: every rank takes the next operation of its list.\<close>

fun run_lockstep :: "nat \<Rightarrow> (int \<Rightarrow> collective_op list) \<Rightarrow> grids \<Rightarrow> grids" where
  "run_lockstep 0 prog h = h"
| "run_lockstep (Suc n) prog h =
     run_lockstep n (\<lambda>r. tl (prog r)) (\<lambda>r. case prog r of [] \<Rightarrow> None | comm # _ \<Rightarrow> run_comm comm r h)"

text \<open>The grid of a slice, and what the ranks hold under a tensor map.\<close>

definition grid_of :: "(int \<times> int) list \<Rightarrow> grid" where
  "grid_of area = map (\<lambda>(a, b). py_range a b) area"

definition held :: "int list \<Rightarrow> int list \<Rightarrow> int list \<Rightarrow> dim_map list \<Rightarrow> grids" where
  "held sizes ranks full tm = (\<lambda>rank.
     case bind_res (py_index ranks rank) (\<lambda>j. infer_slice_area_by_rank sizes tm j full None) of
       Inl e \<Rightarrow> None
     | Inr area \<Rightarrow> Some (grid_of area))"

section \<open>Lists\<close>

lemma those_map: "(\<And>x. x \<in> set xs \<Longrightarrow> f x = Some (g x)) \<Longrightarrow> those (map f xs) = Some (map g xs)"
  by (induction xs) simp_all

lemma take_drop_py_range:
  "0 \<le> a \<Longrightarrow> 0 \<le> q \<Longrightarrow> a + q \<le> n \<Longrightarrow> take (nat q) (drop (nat a) (py_range 0 n)) = py_range a (a + q)"
  by (rule nth_equalityI) auto

lemma concat_blocks:
  "0 \<le> q \<Longrightarrow> concat (map (\<lambda>v. py_range (v * q) (v * q + q)) (py_range 0 (int n))) = py_range 0 (int n * q)"
proof (induction n)
  case (Suc n)
  have "py_range 0 (int (Suc n)) = py_range 0 (int n) @ [int n]" using py_range_snoc [of 0 "int n"] by (simp add: add.commute)
  moreover have "py_range 0 (int n * q) @ py_range (int n * q) (int n * q + q) = py_range 0 (int n * q + q)"
    using Suc.prems by (intro py_range_append) simp_all
  ultimately show ?case using Suc by (simp add: algebra_simps)
qed simp

section \<open>Slices by coordinate\<close>

definition axis_at :: "int list \<Rightarrow> int \<Rightarrow> nat" where
  "axis_at sizes k = nat (int (length sizes) - 1 - k)"

definition segment :: "int list \<Rightarrow> int \<Rightarrow> int list \<Rightarrow> dim_map \<Rightarrow> int list" where
  "segment sizes f c d =
     (case d of
        One k \<Rightarrow> if k = -1 then py_range 0 f
          else let q = f div sizes ! axis_at sizes k; x = c ! axis_at sizes k in py_range (x * q) (x * q + q)
      | Many ks \<Rightarrow> [])"

definition part_of :: "int list \<Rightarrow> int list \<Rightarrow> dim_map list \<Rightarrow> int list \<Rightarrow> grid" where
  "part_of sizes full tm c = map2 (\<lambda>f d. segment sizes f c d) full tm"

text \<open>A map whose every mapped dimension divides evenly.\<close>

definition fits :: "int list \<Rightarrow> int list \<Rightarrow> dim_map list \<Rightarrow> bool" where
  "fits sizes full tm \<longleftrightarrow> length tm = length full \<and> scalar_map sizes tm \<and>
     (\<forall>i < length tm. case tm ! i of
        One k \<Rightarrow> k \<noteq> -1 \<longrightarrow> sizes ! axis_at sizes k dvd full ! i
      | Many ks \<Rightarrow> True)"

definition mesh_ok :: "int list \<Rightarrow> int list \<Rightarrow> int list \<Rightarrow> bool" where
  "mesh_ok sizes ranks full \<longleftrightarrow> (\<forall>n \<in> set sizes. 0 < n) \<and> int (length ranks) = prod_list sizes \<and>
     distinct ranks \<and> (\<forall>f \<in> set full. 0 \<le> f)"

definition rank_at :: "int list \<Rightarrow> int list \<Rightarrow> int list \<Rightarrow> int" where
  "rank_at sizes ranks c = ranks ! nat (row_major sizes c)"

lemma length_part [simp]: "length tm = length full \<Longrightarrow> length (part_of sizes full tm c) = length full"
  by (simp add: part_of_def)

lemma nth_part:
  "length tm = length full \<Longrightarrow> i < length full \<Longrightarrow> part_of sizes full tm c ! i = segment sizes (full ! i) c (tm ! i)"
  by (simp add: part_of_def)

lemma part_update:
  "length tm = length full \<Longrightarrow> i < length full \<Longrightarrow>
     part_of sizes full (tm[i := d]) c = (part_of sizes full tm c)[i := segment sizes (full ! i) c d]"
  by (rule nth_equalityI) (simp_all add: nth_part nth_list_update)

lemma segment_NONE [simp]: "segment sizes f c NONE = py_range 0 f"
  by (simp add: segment_def NONE_def)

lemma axis_at_less: "0 \<le> k \<Longrightarrow> k < int (length sizes) \<Longrightarrow> axis_at sizes k < length sizes"
  by (simp add: axis_at_def)

lemma axis_at_eq: "0 \<le> k \<Longrightarrow> k < int (length sizes) \<Longrightarrow> int (axis_at sizes k) = int (length sizes) - 1 - k"
  by (simp add: axis_at_def)

lemma fits_part:
  assumes "fits sizes full tm" and "i < length full" and "tm ! i = One k" and "k \<noteq> -1"
  shows "0 \<le> k" "k < int (length sizes)" "sizes ! axis_at sizes k dvd full ! i"
proof -
  have "scalar_map sizes tm" "i < length tm" using assms(1,2) by (simp_all add: fits_def)
  then show "0 \<le> k" "k < int (length sizes)" using scalar_axis [of sizes tm i] assms(3,4) by (auto simp: NONE_def)
  show "sizes ! axis_at sizes k dvd full ! i" using assms by (fastforce simp: fits_def)
qed

text \<open>Another coordinate on an axis changes only the tensor dimension mapped to it.\<close>

lemma segment_other:
  assumes "fits sizes full tm" and "i < length full" "j < length full" and "i \<noteq> j" and "tm ! j = One k" and "k \<noteq> -1"
  shows "segment sizes f (c[axis_at sizes k := v]) (tm ! i) = segment sizes f c (tm ! i)"
proof -
  have scalar: "scalar_map sizes tm" and len: "length tm = length full" using assms(1) by (simp_all add: fits_def)
  note k = fits_part [OF assms(1,3,5,6)]
  show ?thesis
  proof (cases "tm ! i = NONE")
    case False
    obtain l where l: "tm ! i = One l" "0 \<le> l" "l < int (length sizes)"
      using scalar_axis [OF scalar _ False] assms(2) len by auto
    have "l \<noteq> k" using scalar_once [OF scalar, of i j] assms(2-5) l(1) len False by auto
    then have "axis_at sizes l \<noteq> axis_at sizes k" using l k by (simp add: axis_at_def nat_eq_iff)
    then show ?thesis by (simp add: l segment_def)
  qed simp
qed

lemma part_other:
  assumes "fits sizes full tm" and "j < length full" and "tm ! j = One k" and "k \<noteq> -1"
  shows "(part_of sizes full tm (c[axis_at sizes k := v]))[j := x] = (part_of sizes full tm c)[j := x]"
proof -
  have len: "length tm = length full" using assms(1) by (simp add: fits_def)
  show ?thesis
  proof (rule nth_equalityI)
    fix i assume "i < length ((part_of sizes full tm (c[axis_at sizes k := v]))[j := x])"
    then have i: "i < length full" using len by simp
    show "(part_of sizes full tm (c[axis_at sizes k := v]))[j := x] ! i = (part_of sizes full tm c)[j := x] ! i"
      using segment_other [OF assms(1) i assms(2) _ assms(3,4)] i len by (cases "i = j") (simp_all add: nth_part)
  qed (use len in simp)
qed

lemma segments_join:
  assumes "0 \<le> f" and "0 < sizes ! axis_at sizes k" and "sizes ! axis_at sizes k dvd f" and "k \<noteq> -1"
    and "axis_at sizes k < length c"
  shows "concat (map (\<lambda>v. segment sizes f (c[axis_at sizes k := v]) (One k)) (py_range 0 (sizes ! axis_at sizes k))) =
    py_range 0 f"
proof -
  let ?n = "sizes ! axis_at sizes k"
  define q where "q = f div ?n"
  have f: "f = ?n * q" using assms(3) by (simp add: q_def)
  have q: "0 \<le> q" using assms(1,2) by (simp add: q_def pos_imp_zdiv_nonneg_iff)
  have "(\<lambda>v. segment sizes f (c[axis_at sizes k := v]) (One k)) = (\<lambda>v. py_range (v * q) (v * q + q))"
    using assms(4,5) by (simp add: fun_eq_iff segment_def q_def Let_def)
  then show ?thesis using concat_blocks [OF q, of "nat ?n"] assms(2) f by simp
qed

lemma chunk_segment:
  assumes "0 \<le> f" and "sizes ! axis_at sizes k dvd f" and "k \<noteq> -1"
    and "0 \<le> c ! axis_at sizes k" and "c ! axis_at sizes k < sizes ! axis_at sizes k"
  shows "tensor_chunk (sizes ! axis_at sizes k) (py_range 0 f) (c ! axis_at sizes k) = Some (segment sizes f c (One k))"
proof -
  let ?n = "sizes ! axis_at sizes k" and ?x = "c ! axis_at sizes k"
  define q where "q = f div ?n"
  have n: "0 < ?n" using assms(4,5) by simp
  have f: "f = ?n * q" using assms(2) by (simp add: q_def)
  have q: "0 \<le> q" using assms(1) n by (simp add: q_def pos_imp_zdiv_nonneg_iff)
  have size: "(f + ?n - 1) div ?n = q"
  proof -
    have "(f + ?n - 1) div ?n = (?n * q + (?n - 1)) div ?n" by (simp add: f algebra_simps)
    also have "\<dots> = q + (?n - 1) div ?n" using n by (simp add: div_plus_div_distrib_dvd_left)
    finally show ?thesis using n by simp
  qed
  have "(?x + 1) * q \<le> ?n * q" using assms(5) q by (intro mult_right_mono) auto
  then have le: "?x * q + q \<le> f" by (simp add: f algebra_simps)
  have "?x * q < f \<or> f = 0" using le q f by (cases "q = 0") (simp, linarith)
  then show ?thesis
    using assms(1,3-5) n size take_drop_py_range [of "?x * q" q f] q le
    by (simp add: tensor_chunk_def segment_def q_def [symmetric] Let_def)
qed

lemma segment_unit:
  "sizes ! axis_at sizes k = 1 \<Longrightarrow> c ! axis_at sizes k = 0 \<Longrightarrow> k \<noteq> -1 \<Longrightarrow> segment sizes f c (One k) = py_range 0 f"
  by (simp add: segment_def)

text \<open>The slices the layout computes are these parts.\<close>

lemma held_part:
  assumes "mesh_ok sizes ranks full" and "fits sizes full tm" and "valid_coordinate sizes c"
  shows "held sizes ranks full tm (rank_at sizes ranks c) = Some (part_of sizes full tm c)"
proof -
  have pos: "\<forall>n \<in> set sizes. 0 < n" using assms(1) by (simp add: mesh_ok_def)
  have len: "length tm = length full" using assms(2) by (simp add: fits_def)
  let ?j = "row_major sizes c"
  have j: "0 \<le> ?j" "?j < int (length ranks)" using row_major_bound [OF assms(3)] assms(1) by (simp_all add: mesh_ok_def)
  have index: "py_index ranks (rank_at sizes ranks c) = Inr ?j"
    using py_index_nth [of ranks "nat ?j"] j assms(1) by (auto simp: mesh_ok_def rank_at_def nat_less_iff)
  have range: "\<forall>mapping \<in> set tm. \<forall>m \<in> set (mapped_dims mapping). m = -1 \<or> 0 \<le> m \<and> m < int (length sizes)"
  proof (intro ballI)
    fix mapping m assume "mapping \<in> set tm" and m: "m \<in> set (mapped_dims mapping)"
    then obtain i where i: "i < length tm" "mapping = tm ! i" by (auto simp: in_set_conv_nth)
    have "scalar_map sizes tm" using assms(2) by (simp add: fits_def)
    then show "m = -1 \<or> 0 \<le> m \<and> m < int (length sizes)"
      using i m by (cases rule: scalar_entry) (auto simp: NONE_def)
  qed
  from slice_area_cuts [OF pos range len rank_of_coordinate(1) [OF pos assms(3)] valid_length [OF assms(3)] refl, of None]
  obtain area where area: "infer_slice_area_by_rank sizes tm ?j full None = Inr area" "length area = length full"
    "\<forall>i < length full. area ! i = fold (cut_along sizes {} (\<lambda>a. c ! nat a)) (axes_of (int (length sizes)) (tm ! i)) (0, full ! i)"
    by auto
  have "grid_of area = part_of sizes full tm c"
  proof (rule nth_equalityI)
    fix i assume "i < length (grid_of area)"
    then have i: "i < length full" using area(2) by (simp add: grid_of_def)
    have "scalar_map sizes tm" using assms(2) by (simp add: fits_def)
    moreover have "i < length tm" using i len by simp
    ultimately show "grid_of area ! i = part_of sizes full tm c ! i"
    proof (cases rule: scalar_entry)
      case none
      then show ?thesis using i len area by (simp add: grid_of_def nth_part axes_of_def NONE_def segment_def)
    next
      case (axis k)
      have k: "k \<noteq> -1" using axis(2) by simp
      let ?a = "axis_at sizes k"
      have a: "?a < length sizes" by (rule axis_at_less [OF axis(2,3)])
      have x: "0 \<le> c ! ?a" "c ! ?a < sizes ! ?a"
        using assms(3) a by (simp_all add: valid_coordinate_def list_all2_conv_all_nth)
      have dvd: "sizes ! ?a dvd full ! i" by (rule fits_part(3) [OF assms(2) i axis(1) k])
      have "nat (int (length sizes) - k - 1) = ?a" by (simp add: axis_at_def algebra_simps)
      then have "area ! i = (c ! ?a * (full ! i div sizes ! ?a), c ! ?a * (full ! i div sizes ! ?a) + full ! i div sizes ! ?a)"
        using area(3) i axis(1) k x dvd
        by (simp add: axes_of_def cut_along_def chunk_of_def balanced_range_def Let_def dvd_eq_mod_eq_0)
      then show ?thesis using i len area(2) axis(1) k by (simp add: grid_of_def nth_part segment_def Let_def)
    qed
  qed (use area len in \<open>simp add: grid_of_def\<close>)
  with index area(1) show ?thesis by (simp add: held_def)
qed

section \<open>One operator on every rank\<close>

definition all_hold :: "int list \<Rightarrow> int list \<Rightarrow> int list \<Rightarrow> dim_map list \<Rightarrow> grids \<Rightarrow> bool" where
  "all_hold sizes ranks full tm h \<longleftrightarrow>
     (\<forall>c. valid_coordinate sizes c \<longrightarrow> h (rank_at sizes ranks c) = Some (part_of sizes full tm c))"

definition axis_group :: "int list \<Rightarrow> int list \<Rightarrow> int \<Rightarrow> int list \<Rightarrow> int list" where
  "axis_group sizes ranks k c =
     map (\<lambda>v. rank_at sizes ranks (c[axis_at sizes k := v])) (py_range 0 (sizes ! axis_at sizes k))"

lemma axis_coordinate:
  assumes "valid_coordinate sizes c" and "0 \<le> k" and "k < int (length sizes)"
  shows "axis_at sizes k < length c" "0 \<le> c ! axis_at sizes k" "c ! axis_at sizes k < sizes ! axis_at sizes k"
    and "v \<in> set (py_range 0 (sizes ! axis_at sizes k)) \<Longrightarrow> valid_coordinate sizes (c[axis_at sizes k := v])"
proof -
  note a = axis_at_less [OF assms(2,3)]
  show "axis_at sizes k < length c" "0 \<le> c ! axis_at sizes k" "c ! axis_at sizes k < sizes ! axis_at sizes k"
    using assms(1) a by (simp_all add: valid_coordinate_def list_all2_conv_all_nth)
  show "valid_coordinate sizes (c[axis_at sizes k := v])" if "v \<in> set (py_range 0 (sizes ! axis_at sizes k))"
    using valid_update [OF assms(1) a, of v] that by simp
qed

lemma rank_at_inj:
  assumes "mesh_ok sizes ranks full" and "valid_coordinate sizes c" and "valid_coordinate sizes d"
    and "rank_at sizes ranks c = rank_at sizes ranks d"
  shows "c = d"
proof -
  have pos: "\<forall>n \<in> set sizes. 0 < n" and len: "int (length ranks) = prod_list sizes" and dist: "distinct ranks"
    using assms(1) by (simp_all add: mesh_ok_def)
  have "nat (row_major sizes c) = nat (row_major sizes d)"
    using assms(4) row_major_bound [OF assms(2)] row_major_bound [OF assms(3)] len
    unfolding rank_at_def by (subst (asm) nth_eq_iff_index_eq [OF dist]) (simp_all add: nat_less_iff)
  then have "row_major sizes c = row_major sizes d"
    using row_major_bound [OF assms(2)] row_major_bound [OF assms(3)] by linarith
  then have "Inr c = (Inr d :: int list result)"
    using rank_of_coordinate(1) [OF pos assms(2)] rank_of_coordinate(1) [OF pos assms(3)] by (simp only:)
  then show ?thesis by simp
qed

lemma rank_coordinate:
  assumes "mesh_ok sizes ranks full" and "rank \<in> set ranks"
  shows "\<exists>c. valid_coordinate sizes c \<and> rank = rank_at sizes ranks c"
proof -
  obtain j where j: "j < length ranks" "rank = ranks ! j" using assms(2) by (auto simp: in_set_conv_nth)
  have pos: "\<forall>n \<in> set sizes. 0 < n" and len: "int (length ranks) = prod_list sizes"
    using assms(1) by (simp_all add: mesh_ok_def)
  from coordinate_of_rank(2,3) [OF pos, of "int j"] j len
  have "valid_coordinate sizes (rev (digits (rev sizes) (int j)))"
    "row_major sizes (rev (digits (rev sizes) (int j))) = int j" by simp_all
  with j(2) show ?thesis by (metis nat_int rank_at_def)
qed

lemma group_devices:
  assumes "mesh_ok sizes ranks full" and "valid_coordinate sizes c" and "0 \<le> k" and "k < int (length sizes)"
  shows "get_devices_along_dim sizes (rank_at sizes ranks c) ranks (mesh_dims_of (int (length sizes)) (One k)) =
      Inr (axis_group sizes ranks k c)"
    and "group_index (axis_group sizes ranks k c) (rank_at sizes ranks c) = Some (c ! axis_at sizes k)"
proof -
  let ?j = "row_major sizes c" and ?a = "axis_at sizes k"
  have pos: "\<forall>n \<in> set sizes. 0 < n" and len: "int (length ranks) = prod_list sizes" and dist: "distinct ranks"
    using assms(1) by (simp_all add: mesh_ok_def)
  note x = axis_coordinate [OF assms(2-4)]
  have j: "0 \<le> ?j" "?j < int (length ranks)" using row_major_bound [OF assms(2)] len by simp_all
  have index: "py_index ranks (rank_at sizes ranks c) = Inr ?j"
    using py_index_nth [OF dist, of "nat ?j"] j by (auto simp: rank_at_def nat_less_iff)
  have "devices_along_dim sizes (rank_at sizes ranks c) ranks (int ?a) = Inr (group_of sizes ranks c ?a)"
    by (rule devices_along_dim_eq [OF pos len index assms(2) refl])
       (simp add: rank_at_def, rule axis_at_less [OF assms(3,4)])
  moreover have "group_of sizes ranks c ?a = axis_group sizes ranks k c"
    by (simp add: group_of_def axis_group_def rank_at_def)
  ultimately show "get_devices_along_dim sizes (rank_at sizes ranks c) ranks (mesh_dims_of (int (length sizes)) (One k)) =
      Inr (axis_group sizes ranks k c)"
    using axis_at_eq [OF assms(3,4)] by (simp add: get_devices_along_dim_def)
  have "inj_on (\<lambda>v. rank_at sizes ranks (c[?a := v])) (set (py_range 0 (sizes ! ?a)))"
  proof (rule inj_onI)
    fix v w assume vw: "v \<in> set (py_range 0 (sizes ! ?a))" "w \<in> set (py_range 0 (sizes ! ?a))"
      "rank_at sizes ranks (c[?a := v]) = rank_at sizes ranks (c[?a := w])"
    from rank_at_inj [OF assms(1) x(4) [OF vw(1)] x(4) [OF vw(2)] vw(3)] x(1)
    show "v = w" by (metis nth_list_update_eq)
  qed
  then have "distinct (axis_group sizes ranks k c)" by (simp add: axis_group_def distinct_map)
  moreover have "axis_group sizes ranks k c ! nat (c ! ?a) = rank_at sizes ranks c"
    "nat (c ! ?a) < length (axis_group sizes ranks k c)"
    using x(1-3) by (simp_all add: axis_group_def)
  ultimately show "group_index (axis_group sizes ranks k c) (rank_at sizes ranks c) = Some (c ! ?a)"
    using py_index_nth [of "axis_group sizes ranks k c" "nat (c ! ?a)"] x(2) by (simp add: group_index_def)
qed

lemma axis_size:
  "0 \<le> k \<Longrightarrow> k < int (length sizes) \<Longrightarrow> get_dim_by_reverse_idx sizes (One k) = Inr n \<Longrightarrow> n = sizes ! axis_at sizes k"
  by (simp add: axis_at_def)

lemma members_hold:
  assumes "all_hold sizes ranks full tm h" and "valid_coordinate sizes c" and "0 \<le> k" and "k < int (length sizes)"
    and "\<And>v. v \<in> set (py_range 0 (sizes ! axis_at sizes k)) \<Longrightarrow>
      f (part_of sizes full tm (c[axis_at sizes k := v])) = Some (g v)"
  shows "those (map (\<lambda>m. Option.bind (h m) f) (axis_group sizes ranks k c)) =
    Some (map g (py_range 0 (sizes ! axis_at sizes k)))"
  unfolding axis_group_def map_map comp_def
proof (rule those_map)
  fix v assume v: "v \<in> set (py_range 0 (sizes ! axis_at sizes k))"
  from assms(1) axis_coordinate(4) [OF assms(2-4) v]
  have "h (rank_at sizes ranks (c[axis_at sizes k := v])) = Some (part_of sizes full tm (c[axis_at sizes k := v]))"
    by (simp add: all_hold_def)
  then show "Option.bind (h (rank_at sizes ranks (c[axis_at sizes k := v]))) f = Some (g v)"
    using assms(5) [OF v] by simp
qed

lemma concat_comm:
  assumes "mesh_ok sizes ranks full" and "fits sizes full tm" and "all_hold sizes ranks full tm h"
    and "valid_coordinate sizes c" and "i < length full" and "tm ! i = One k" and "k \<noteq> -1"
  shows "run_comm (AllConcat (int i) n (axis_group sizes ranks k c)) (rank_at sizes ranks c) h =
    Some (part_of sizes full (tm[i := NONE]) c)"
proof -
  note k = fits_part [OF assms(2,5-7)]
  have len: "length tm = length full" using assms(2) by (simp add: fits_def)
  let ?n = "sizes ! axis_at sizes k"
  note x = axis_coordinate [OF assms(4) k(1,2)]
  have f: "0 \<le> full ! i" using assms(1,5) by (simp add: mesh_ok_def)
  have "those (map h (axis_group sizes ranks k c)) =
      Some (map (\<lambda>v. part_of sizes full tm (c[axis_at sizes k := v])) (py_range 0 ?n))"
    using members_hold [OF assms(3,4) k(1,2), of Some] by simp
  moreover have "concat (map (\<lambda>v. part_of sizes full tm (c[axis_at sizes k := v]) ! i) (py_range 0 ?n)) = py_range 0 (full ! i)"
    using segments_join [OF f _ k(3) assms(7) x(1)] x(2,3) assms(5,6) len by (simp add: nth_part)
  ultimately show ?thesis
    using assms(3,4,5) len part_other [OF assms(2,5-7)]
    by (simp add: all_hold_def join_grids_def part_update comp_def)
qed

lemma split_part:
  assumes "mesh_ok sizes ranks full" and "length tm = length full" and "fits sizes full tm'" and "valid_coordinate sizes c"
    and "i < length full" and "tm ! i = NONE" and "tm' ! i = One k" and "k \<noteq> -1"
  shows "split_grid (int i) (sizes ! axis_at sizes k) (c ! axis_at sizes k) (part_of sizes full tm d) =
    Some ((part_of sizes full tm d)[i := segment sizes (full ! i) c (One k)])"
proof -
  note k = fits_part [OF assms(3,5,7,8)]
  note x = axis_coordinate [OF assms(4) k(1,2)]
  have f: "0 \<le> full ! i" using assms(1,5) by (simp add: mesh_ok_def)
  show ?thesis using chunk_segment [OF f k(3) assms(8) x(2,3)] assms(2,5,6) by (simp add: split_grid_def nth_part)
qed

lemma split_comm:
  assumes "mesh_ok sizes ranks full" and "length tm = length full" and "fits sizes full (tm[i := One k])"
    and "all_hold sizes ranks full tm h" and "valid_coordinate sizes c"
    and "i < length full" and "tm ! i = NONE" and "k \<noteq> -1" and "n = sizes ! axis_at sizes k"
  shows "run_comm (AllSplit (int i) n (axis_group sizes ranks k c)) (rank_at sizes ranks c) h =
    Some (part_of sizes full (tm[i := One k]) c)"
proof -
  have at: "tm[i := One k] ! i = One k" using assms(2,6) by simp
  note k = fits_part [OF assms(3,6) at assms(8)]
  note grp = group_devices(2) [OF assms(1,5) k(1,2)]
  note part = split_part [OF assms(1-3,5,6,7) at assms(8), of c]
  show ?thesis using grp part assms(2,4,5,6,9) by (simp add: all_hold_def part_update)
qed

lemma exchange_comm:
  assumes "mesh_ok sizes ranks full" and "fits sizes full tm" and "fits sizes full (tm[j := NONE, i := One k])"
    and "all_hold sizes ranks full tm h" and "valid_coordinate sizes c"
    and "i < length full" and "j < length full" and "i \<noteq> j" and "tm ! i = NONE" and "tm ! j = One k" and "k \<noteq> -1"
    and "n = sizes ! axis_at sizes k"
  shows "run_comm (AllToAll (int i) (int j) n (axis_group sizes ranks k c)) (rank_at sizes ranks c) h =
    Some (part_of sizes full (tm[j := NONE, i := One k]) c)"
proof -
  have len: "length tm = length full" using assms(2) by (simp add: fits_def)
  have at: "tm[j := NONE, i := One k] ! i = One k" using assms(6) len by simp
  note k = fits_part [OF assms(2,7,10,11)]
  note grp = group_devices(2) [OF assms(1,5) k(1,2)]
  note x = axis_coordinate [OF assms(5) k(1,2)]
  have f: "0 \<le> full ! j" using assms(1,7) by (simp add: mesh_ok_def)
  let ?a = "axis_at sizes k" and ?S = "segment sizes (full ! i) c (One k)"
  note part = split_part [OF assms(1) len assms(3,5,6,9) at assms(11)]
  have members: "those (map (\<lambda>m. Option.bind (h m) (split_grid (int i) n (c ! ?a))) (axis_group sizes ranks k c)) =
      Some (map (\<lambda>v. (part_of sizes full tm (c[?a := v]))[i := ?S]) (py_range 0 (sizes ! ?a)))"
    by (rule members_hold [OF assms(4,5) k(1,2)]) (simp add: assms(12) part)
  have own: "Option.bind (h (rank_at sizes ranks c)) (split_grid (int i) n (c ! ?a)) = Some ((part_of sizes full tm c)[i := ?S])"
    using assms(4,5) part [of c] by (simp add: all_hold_def assms(12))
  have agree: "(part_of sizes full tm (c[?a := v]))[i := ?S, j := []] = (part_of sizes full tm c)[i := ?S, j := []]" for v
    using part_other [OF assms(2,7,10,11), of c v "[]"] assms(8) by (simp add: list_update_swap [of i j])
  have "concat (map (\<lambda>v. (part_of sizes full tm (c[?a := v]))[i := ?S] ! j) (py_range 0 (sizes ! ?a))) = py_range 0 (full ! j)"
    using segments_join [OF f _ k(3) assms(11) x(1)] x(2,3) assms(7,8,10) len by (simp add: nth_part)
  moreover have "part_of sizes full (tm[j := NONE, i := One k]) c =
      (part_of sizes full tm c)[i := ?S, j := py_range 0 (full ! j)]"
    using assms(6-8) len by (simp add: part_update list_update_swap [of i j])
  moreover have "run_comm (AllToAll (int i) (int j) n (axis_group sizes ranks k c)) (rank_at sizes ranks c) h =
      join_grids (int j) ((part_of sizes full tm c)[i := ?S])
        (map (\<lambda>v. (part_of sizes full tm (c[?a := v]))[i := ?S]) (py_range 0 (sizes ! ?a)))"
    unfolding run_comm.simps grp Option.bind_lunit Let_def own members ..
  ultimately show ?thesis
    using agree assms(7) len by (simp add: join_grids_def comp_def)
qed

lemma fits_clear:
  assumes "fits sizes full tm"
  shows "fits sizes full (tm[i := NONE])"
proof -
  have "case tm[i := NONE] ! j of One k \<Rightarrow> k \<noteq> -1 \<longrightarrow> sizes ! axis_at sizes k dvd full ! j | Many ks \<Rightarrow> True"
    if "j < length tm" for j
    using assms that by (cases "i = j") (auto simp: fits_def NONE_def)
  with assms show ?thesis by (simp add: fits_def scalar_clear)
qed

lemma fits_put:
  assumes "fits sizes full tm" and "fits sizes full target" and "i < length full" and "target ! i \<notin> set tm"
  shows "fits sizes full (tm[i := target ! i])"
proof -
  have len: "length tm = length full" "length target = length full" using assms(1,2) by (simp_all add: fits_def)
  have "scalar_map sizes (tm[i := target ! i])"
    by (rule scalar_put) (use assms len in \<open>auto simp: fits_def\<close>)
  moreover have "case tm[i := target ! i] ! j of One k \<Rightarrow> k \<noteq> -1 \<longrightarrow> sizes ! axis_at sizes k dvd full ! j | Many ks \<Rightarrow> True"
    if "j < length full" for j
    using assms(1,2) that len by (cases "i = j") (auto simp: fits_def)
  ultimately show ?thesis using len by (simp add: fits_def)
qed

lemma part_unit:
  assumes "fits sizes full tm" and "valid_coordinate sizes c" and "i < length full" and "tm ! i = One k" and "k \<noteq> -1"
    and "sizes ! axis_at sizes k = 1"
  shows "part_of sizes full (tm[i := NONE]) c = part_of sizes full tm c"
proof -
  note k = fits_part [OF assms(1,3-5)]
  have len: "length tm = length full" using assms(1) by (simp add: fits_def)
  have "c ! axis_at sizes k = 0" using axis_coordinate(2,3) [OF assms(2) k(1,2)] assms(6) by simp
  then have "part_of sizes full tm c ! i = py_range 0 (full ! i)"
    using assms(3-6) len by (simp add: nth_part segment_unit)
  then show ?thesis using part_update [OF len assms(3), of sizes NONE c] by (metis list_update_id segment_NONE)
qed

text \<open>One operator: either every rank skips it, or every rank runs one collective.\<close>

lemma run_op_holds:
  assumes ok: "mesh_ok sizes ranks full" and tm: "fits sizes full tm" and target: "fits sizes full target"
    and op: "apply_op sizes target op tm = Some tm'" and h: "all_hold sizes ranks full tm h"
  shows "fits sizes full tm' \<and>
    ((\<forall>c. valid_coordinate sizes c \<longrightarrow> comm_of_op sizes (rank_at sizes ranks c) ranks op = Inr []) \<and>
       all_hold sizes ranks full tm' h \<or>
     (\<exists>comm. (\<forall>c. valid_coordinate sizes c \<longrightarrow>
          comm_of_op sizes (rank_at sizes ranks c) ranks op = Inr [comm (rank_at sizes ranks c)]) \<and>
        all_hold sizes ranks full tm' (\<lambda>r. run_comm (comm r) r h)))"
proof -
  have len: "length tm = length full" "length target = length full" using tm target by (simp_all add: fits_def)
  have scalar: "scalar_map sizes tm" "scalar_map sizes target" using tm target by (simp_all add: fits_def)
  have decide: "?thesis" if fit: "fits sizes full tm'"
    and devices: "\<And>c. valid_coordinate sizes c \<Longrightarrow>
      comm_of_op sizes (rank_at sizes ranks c) ranks op = Inr (if n = 1 then [] else [f (axis_group sizes ranks k c)])"
    and unit: "\<And>c. n = 1 \<Longrightarrow> valid_coordinate sizes c \<Longrightarrow> part_of sizes full tm' c = part_of sizes full tm c"
    and run: "\<And>c. valid_coordinate sizes c \<Longrightarrow>
      run_comm (f (axis_group sizes ranks k c)) (rank_at sizes ranks c) h = Some (part_of sizes full tm' c)"
    for f :: "int list \<Rightarrow> collective_op" and n k
  proof (cases "n = 1")
    case True
    then show ?thesis using fit devices unit h by (simp add: all_hold_def)
  next
    case False
    define comm where "comm r = hd (projr (comm_of_op sizes r ranks op))" for r
    have "comm (rank_at sizes ranks c) = f (axis_group sizes ranks k c)" if "valid_coordinate sizes c" for c
      using devices [OF that] False by (simp add: comm_def)
    then show ?thesis using False fit devices run by (intro conjI disjI2 exI [of _ comm]) (simp_all add: all_hold_def)
  qed
  show ?thesis
  proof (cases op)
    case (SplitByAxis i d n)
    with op obtain i' where i: "i = int i'" "i' < length full" "tm ! i' = NONE" "d = target ! i'" "d \<noteq> NONE" "d \<notin> set tm"
      "get_dim_by_reverse_idx sizes d = Inr n" "tm' = tm[i' := d]"
      by (auto simp: put_axis_def len nat_less_iff split: if_splits elim!: zero_le_imp_eq_int [elim_format])
    obtain k where k: "d = One k" "0 \<le> k" "k < int (length sizes)"
      using scalar_axis [OF scalar(2), of i'] i len by auto
    have fit: "fits sizes full tm'" using fits_put [OF tm target i(2)] i by simp
    have n: "n = sizes ! axis_at sizes k" using axis_size k i(7) by simp
    show ?thesis
    proof (rule decide [where f = "AllSplit i n" and n = n and k = k])
      show "comm_of_op sizes (rank_at sizes ranks c) ranks op = Inr (if n = 1 then [] else [AllSplit i n (axis_group sizes ranks k c)])"
        if "valid_coordinate sizes c" for c
        using group_devices(1) [OF ok that k(2,3)] by (simp add: SplitByAxis k(1))
      show "part_of sizes full tm' c = part_of sizes full tm c" if "n = 1" "valid_coordinate sizes c" for c
      proof -
        have "tm[i' := NONE] = tm" using i(3) by (metis list_update_id)
        then show ?thesis using part_unit [OF fit that(2) i(2), of k] i k n that(1) len by simp
      qed
      show "run_comm (AllSplit i n (axis_group sizes ranks k c)) (rank_at sizes ranks c) h = Some (part_of sizes full tm' c)"
        if "valid_coordinate sizes c" for c
        using split_comm [OF ok len(1) _ h that i(2,3) _ n] fit i k by simp
    qed (rule fit)
  next
    case (ConcatByAxis i d n)
    with op obtain i' where i: "i = int i'" "i' < length full" "tm ! i' = d" "d \<noteq> NONE"
      "get_dim_by_reverse_idx sizes d = Inr n" "tm' = tm[i' := NONE]"
      by (auto simp: take_axis_def len nat_less_iff split: if_splits elim!: zero_le_imp_eq_int [elim_format])
    obtain k where k: "d = One k" "0 \<le> k" "k < int (length sizes)"
      using scalar_axis [OF scalar(1), of i'] i len by auto
    have fit: "fits sizes full tm'" using fits_clear [OF tm] i by simp
    have n: "n = sizes ! axis_at sizes k" using axis_size k i(5) by simp
    show ?thesis
    proof (rule decide [where f = "AllConcat i n" and n = n and k = k])
      show "comm_of_op sizes (rank_at sizes ranks c) ranks op = Inr (if n = 1 then [] else [AllConcat i n (axis_group sizes ranks k c)])"
        if "valid_coordinate sizes c" for c
        using group_devices(1) [OF ok that k(2,3)] by (simp add: ConcatByAxis k(1))
      show "part_of sizes full tm' c = part_of sizes full tm c" if "n = 1" "valid_coordinate sizes c" for c
        using part_unit [OF tm that(2) i(2), of k] i k n that(1) by simp
      show "run_comm (AllConcat i n (axis_group sizes ranks k c)) (rank_at sizes ranks c) h = Some (part_of sizes full tm' c)"
        if "valid_coordinate sizes c" for c
        using concat_comm [OF ok tm h that i(2), of k n] i k by simp
    qed (rule fit)
  next
    case (PermuteByAxis m i j d n)
    with op obtain i' j' where i: "i = int i'" "i' < length full" "j = int j'" "j' < length full" "i' \<noteq> j'"
      "tm ! i' = NONE" "tm ! j' = d" "d = target ! i'" "d \<noteq> NONE" "d \<notin> set (tm[j' := NONE])"
      "get_dim_by_reverse_idx sizes d = Inr n" "m = n" "tm' = tm[j' := NONE, i' := d]"
      by (auto simp: put_axis_def take_axis_def len nat_less_iff split: if_splits elim!: zero_le_imp_eq_int [elim_format])
    obtain k where k: "d = One k" "0 \<le> k" "k < int (length sizes)"
      using scalar_axis [OF scalar(1), of j'] i len by auto
    have fit: "fits sizes full tm'" using fits_put [OF fits_clear [OF tm] target i(2)] i by simp
    have n: "n = sizes ! axis_at sizes k" using axis_size k i(11) by simp
    show ?thesis
    proof (rule decide [where f = "AllToAll i j n" and n = n and k = k])
      show "comm_of_op sizes (rank_at sizes ranks c) ranks op = Inr (if n = 1 then [] else [AllToAll i j n (axis_group sizes ranks k c)])"
        if "valid_coordinate sizes c" for c
        using group_devices(1) [OF ok that k(2,3)] by (simp add: PermuteByAxis k(1) i(12))
      show "part_of sizes full tm' c = part_of sizes full tm c" if "n = 1" "valid_coordinate sizes c" for c
      proof -
        have "part_of sizes full (tm[j' := NONE]) c = part_of sizes full tm c"
          using part_unit [OF tm that(2) i(4), of k] i k n that(1) by simp
        moreover have "part_of sizes full (tm'[i' := NONE]) c = part_of sizes full tm' c"
          using part_unit [OF fit that(2) i(2), of k] i k n that(1) len by simp
        moreover have "tm'[i' := NONE] = tm[j' := NONE]"
          using i by (simp add: list_update_same_conv len)
        ultimately show ?thesis by simp
      qed
      show "run_comm (AllToAll i j n (axis_group sizes ranks k c)) (rank_at sizes ranks c) h = Some (part_of sizes full tm' c)"
        if "valid_coordinate sizes c" for c
      proof -
        have at: "tm ! j' = One k" "tm' = tm[j' := NONE, i' := One k]" "k \<noteq> -1" using i(7,13) k by simp_all
        show ?thesis
          unfolding i(1,3) at(2)
          by (rule exchange_comm [OF ok tm fit [unfolded at(2)] h that i(2,4,5,6) at(1,3) n])
      qed
    qed (rule fit)
  qed
qed

lemma lockstep_holds:
  assumes ok: "mesh_ok sizes ranks full" and target: "fits sizes full target"
    and "apply_ops sizes target ops tm = Some tm'" and "fits sizes full tm" and "all_hold sizes ranks full tm h"
  shows "\<exists>n prog. all_hold sizes ranks full tm' (run_lockstep n prog h) \<and>
    (\<forall>c. valid_coordinate sizes c \<longrightarrow>
       (\<exists>comms. map_res (comm_of_op sizes (rank_at sizes ranks c) ranks) ops = Inr comms \<and>
          concat comms = prog (rank_at sizes ranks c) \<and> length (concat comms) = n))"
  using assms(3-5)
proof (induction ops arbitrary: tm h)
  case Nil
  then show ?case by (intro exI [of _ 0] exI [of _ "\<lambda>_. []"]) simp
next
  case (Cons op ops)
  obtain tm1 where tm1: "apply_op sizes target op tm = Some tm1" "apply_ops sizes target ops tm1 = Some tm'"
    using Cons.prems(1) by (auto simp: Option.bind_eq_Some_conv)
  from run_op_holds [OF ok Cons.prems(2) target tm1(1) Cons.prems(3)] have fit: "fits sizes full tm1" by simp
  from run_op_holds [OF ok Cons.prems(2) target tm1(1) Cons.prems(3)]
  consider (skip) "\<forall>c. valid_coordinate sizes c \<longrightarrow> comm_of_op sizes (rank_at sizes ranks c) ranks op = Inr []"
      "all_hold sizes ranks full tm1 h"
    | (run) comm where "\<forall>c. valid_coordinate sizes c \<longrightarrow>
        comm_of_op sizes (rank_at sizes ranks c) ranks op = Inr [comm (rank_at sizes ranks c)]"
      "all_hold sizes ranks full tm1 (\<lambda>r. run_comm (comm r) r h)" by blast
  then show ?case
  proof cases
    case skip
    from Cons.IH [OF tm1(2) fit skip(2)] obtain n prog where
      ih: "all_hold sizes ranks full tm' (run_lockstep n prog h)"
      "\<forall>c. valid_coordinate sizes c \<longrightarrow>
         (\<exists>comms. map_res (comm_of_op sizes (rank_at sizes ranks c) ranks) ops = Inr comms \<and>
            concat comms = prog (rank_at sizes ranks c) \<and> length (concat comms) = n)" by blast
    show ?thesis
    proof (intro exI [of _ n] exI [of _ prog] conjI allI impI)
      show "all_hold sizes ranks full tm' (run_lockstep n prog h)" by (rule ih(1))
      fix c assume c: "valid_coordinate sizes c"
      with ih(2) obtain comms where "map_res (comm_of_op sizes (rank_at sizes ranks c) ranks) ops = Inr comms"
        "concat comms = prog (rank_at sizes ranks c)" "length (concat comms) = n" by blast
      with skip(1) c show "\<exists>comms. map_res (comm_of_op sizes (rank_at sizes ranks c) ranks) (op # ops) = Inr comms \<and>
          concat comms = prog (rank_at sizes ranks c) \<and> length (concat comms) = n"
        by (intro exI [of _ "[] # comms"]) simp
    qed
  next
    case (run comm)
    from Cons.IH [OF tm1(2) fit run(2)] obtain n prog where
      ih: "all_hold sizes ranks full tm' (run_lockstep n prog (\<lambda>r. run_comm (comm r) r h))"
      "\<forall>c. valid_coordinate sizes c \<longrightarrow>
         (\<exists>comms. map_res (comm_of_op sizes (rank_at sizes ranks c) ranks) ops = Inr comms \<and>
            concat comms = prog (rank_at sizes ranks c) \<and> length (concat comms) = n)" by blast
    show ?thesis
    proof (intro exI [of _ "Suc n"] exI [of _ "\<lambda>r. comm r # prog r"] conjI allI impI)
      show "all_hold sizes ranks full tm' (run_lockstep (Suc n) (\<lambda>r. comm r # prog r) h)" using ih(1) by simp
      fix c assume c: "valid_coordinate sizes c"
      with ih(2) obtain comms where "map_res (comm_of_op sizes (rank_at sizes ranks c) ranks) ops = Inr comms"
        "concat comms = prog (rank_at sizes ranks c)" "length (concat comms) = n" by blast
      with run(1) c show "\<exists>comms. map_res (comm_of_op sizes (rank_at sizes ranks c) ranks) (op # ops) = Inr comms \<and>
          concat comms = comm (rank_at sizes ranks c) # prog (rank_at sizes ranks c) \<and> length (concat comms) = Suc n"
        by (intro exI [of _ "[comm (rank_at sizes ranks c)] # comms"]) simp
    qed
  qed
qed

text \<open>
  C2: redistribution moves every slice to its place: on a mesh of positive sizes over distinct
  ranks, for source and target maps without tuples whose mapped tensor dimensions divide evenly, every
  rank gets an operation list from \<open>infer_ops_list\<close>, the lists have one length, and when the ranks
  run them in step from the slices of the source map, every rank ends with its slice of the target map.
\<close>

theorem redistribution_moves_slices:
  assumes "mesh_ok sizes ranks full" and "fits sizes full in_map" and "fits sizes full out_map"
  shows "\<exists>n prog. \<forall>rank \<in> set ranks.
    infer_ops_list (init_redist sizes in_map out_map permute) rank ranks = Some (Inr (prog rank)) \<and>
    length (prog rank) = n \<and>
    run_lockstep n prog (held sizes ranks full in_map) rank = held sizes ranks full out_map rank \<and>
    held sizes ranks full out_map rank \<noteq> None"
proof -
  let ?s0 = "init_redist sizes in_map out_map permute"
  have maps: "scalar_map sizes in_map" "scalar_map sizes out_map" "length out_map = length in_map"
    using assms(2,3) by (simp_all add: fits_def)
  obtain s where s: "infer_redistribution_operator ?s0 = Some (Inr s)" "dev_mat s = sizes"
    "apply_ops sizes out_map (operator_list s) in_map = Some out_map"
    using inference_sound [OF maps] by blast
  have "all_hold sizes ranks full in_map (held sizes ranks full in_map)"
    unfolding all_hold_def using held_part [OF assms(1,2)] by blast
  from lockstep_holds [OF assms(1,3) s(3) assms(2) this] obtain n prog where
    run: "all_hold sizes ranks full out_map (run_lockstep n prog (held sizes ranks full in_map))"
    "\<forall>c. valid_coordinate sizes c \<longrightarrow>
       (\<exists>comms. map_res (comm_of_op sizes (rank_at sizes ranks c) ranks) (operator_list s) = Inr comms \<and>
          concat comms = prog (rank_at sizes ranks c) \<and> length (concat comms) = n)" by blast
  have "infer_ops_list ?s0 rank ranks = Some (Inr (prog rank)) \<and> length (prog rank) = n \<and>
      run_lockstep n prog (held sizes ranks full in_map) rank = held sizes ranks full out_map rank \<and>
      held sizes ranks full out_map rank \<noteq> None" if rank: "rank \<in> set ranks" for rank
  proof -
    obtain c where c: "valid_coordinate sizes c" "rank = rank_at sizes ranks c"
      using rank_coordinate [OF assms(1) rank] by blast
    with run(2) obtain comms where "map_res (comm_of_op sizes rank ranks) (operator_list s) = Inr comms"
      "concat comms = prog rank" "length (concat comms) = n" by blast
    with s have "infer_ops_list ?s0 rank ranks = Some (Inr (prog rank)) \<and> length (prog rank) = n"
      by (simp add: infer_ops_list_def)
    with c run(1) held_part [OF assms(1,3) c(1)] show ?thesis by (simp add: all_hold_def)
  qed
  then show ?thesis by blast
qed

theorem redistribution_moves_slices_witness:
  "\<exists>n prog. \<forall>rank \<in> set [4, 5, 6, 7].
    infer_ops_list (init_redist [2, 2] [One 1, One 0] [One 0, One 1] True) rank [4, 5, 6, 7] = Some (Inr (prog rank)) \<and>
    length (prog rank) = n \<and>
    run_lockstep n prog (held [2, 2] [4, 5, 6, 7] [2, 4] [One 1, One 0]) rank =
      held [2, 2] [4, 5, 6, 7] [2, 4] [One 0, One 1] rank \<and>
    held [2, 2] [4, 5, 6, 7] [2, 4] [One 0, One 1] rank \<noteq> None"
proof (rule redistribution_moves_slices)
  show "mesh_ok [2, 2] [4, 5, 6, 7] [2, 4]" by (simp add: mesh_ok_def)
  show "fits [2, 2] [2, 4] [One 1, One 0]" "fits [2, 2] [2, 4] [One 0, One 1]"
    by (simp_all add: fits_def scalar_map_def All_less_Suc axis_at_def numeral_2_eq_2 NONE_def)
qed

end
