(* ===== verification/Redistribute_Tuples.thy ===== *)
theory Redistribute_Tuples
  imports Redistribute_Data
begin

text \<open>
  Tensor maps with tuples, where the inference goes wrong: a source map whose rewritten entry is looked
  up in the original map sends the all-to-all phase into an endless loop, and a mesh dimension inside
  a tuple is not seen as taken, so a tensor is split along it twice and gathered into garbage.
\<close>

section \<open>A run that never returns\<close>

text \<open>
  A 3-dimensional tensor on a mesh of four axes of size 2: its first dimension is sharded over the
  three inner axes and its third over the outer axis; the target moves the innermost axis to the second
  dimension and the two others to the third.
\<close>

definition source_map :: "dim_map list" where
  "source_map = [Many [2, 1, 0], One (-1), One 3]"

definition target_map :: "dim_map list" where
  "target_map = [One (-1), One 0, Many [2, 1]]"

definition tuple_task :: "redist_op list \<Rightarrow> (int, dim_map) dict \<Rightarrow> redist" where
  "tuple_task ops entries =
     \<lparr>dev_mat = [2, 2, 2, 2], in_tensor_map = source_map, out_tensor_map = target_map, use_permute = True,
      operator_list = ops, pending = entries\<rparr>"

text \<open>Every pass replaces the entry under the key -1 by itself and inserts an operator.\<close>

lemma stuck_pass:
  "infer_permute_by_axis (tuple_task ops [(0, Many [2, 1]), (-1, NONE)]) =
     Inr (tuple_task (ops @ [PermuteByAxis 2 (-1) (-1) (One 3) 4]) [(0, Many [2, 1]), (-1, NONE)])"
  by (simp add: infer_permute_by_axis_def permute_step_def tuple_task_def source_map_def target_map_def NONE_def
      get_dim_by_idx_def handle_none_dim_permute_case_def handle_none_dim_tuple_permute_case_def
      handle_tuple_dim_permute_case_def values_conflict_def values_end_with_def get_index_by_value_def
      get_combined_size_def py_nth_def insert_operator_def set_pending_def del_pending_def dict_set_def dict_del_def
      slice_bound_def Let_def)

lemma stuck_never_exits:
  assumes "permute_loop s = Some r"
  shows "\<forall>ops. s \<noteq> tuple_task ops [(0, Many [2, 1]), (-1, NONE)]"
proof (rule permute_loop.raw_induct [where P = "\<lambda>s r. \<forall>ops. s \<noteq> tuple_task ops [(0, Many [2, 1]), (-1, NONE)]", OF _ assms],
    intro allI notI)
  fix loop s r ops
  assume ih: "\<And>s r. loop s = Some r \<Longrightarrow> \<forall>ops. s \<noteq> tuple_task ops [(0, Many [2, 1]), (-1, NONE)]"
    and body: "(if pending s = [] then Some (Inr s)
      else case infer_permute_by_axis s of Inl e \<Rightarrow> Some (Inl e)
        | Inr s' \<Rightarrow> if length (operator_list s) = length (operator_list s') then Some (Inr s') else loop s') = Some r"
    and s: "s = tuple_task ops [(0, Many [2, 1]), (-1, NONE)]"
  have "loop (tuple_task (ops @ [PermuteByAxis 2 (-1) (-1) (One 3) 4]) [(0, Many [2, 1]), (-1, NONE)]) = Some r"
    using body stuck_pass [of ops] by (simp add: s tuple_task_def)
  with ih show False by blast
qed

lemma stuck_loop: "permute_loop (tuple_task ops [(0, Many [2, 1]), (-1, NONE)]) = None"
  using stuck_never_exits [of "tuple_task ops [(0, Many [2, 1]), (-1, NONE)]"]
  by (cases "permute_loop (tuple_task ops [(0, Many [2, 1]), (-1, NONE)])") auto

lemmas pass_defs = tuple_task_def source_map_def target_map_def NONE_def init_redist_def py_range_def
  get_dim_by_idx_def get_index_by_value_def get_index_contain_value_def get_combined_size_def
  infer_split_by_axis_def split_step_def handle_simple_split_case_def handle_tuple_split_case_def
  infer_permute_by_axis_def permute_step_def handle_none_dim_permute_case_def
  handle_none_dim_tuple_permute_case_def handle_tuple_dim_permute_case_def
  infer_concat_by_axis_def concat_step_def handle_tuple_concat_case_def handle_simple_concat_case_def
  values_conflict_def values_end_with_def py_nth_def insert_operator_def set_pending_def del_pending_def
  dict_set_def dict_del_def dict_get_def slice_bound_def Let_def

text \<open>The round before the loop: an all-to-all shortens the tuple and a concatenation clears the outer axis.\<close>

lemma first_passes:
  "infer_split_by_axis (tuple_task [] [(0, Many [2, 1, 0]), (1, NONE), (2, One 3)]) =
     Inr (tuple_task [] [(0, Many [2, 1, 0]), (1, NONE), (2, One 3)])"
  "infer_permute_by_axis (tuple_task [] [(0, Many [2, 1, 0]), (1, NONE), (2, One 3)]) =
     Inr (tuple_task [PermuteByAxis 2 1 0 (One 0) 2] [(0, Many [2, 1]), (2, One 3)])"
  by (simp_all add: pass_defs)

lemma quiet_passes:
  "infer_permute_by_axis (tuple_task ops [(0, Many [2, 1]), (2, One 3)]) = Inr (tuple_task ops [(0, Many [2, 1]), (2, One 3)])"
  "infer_split_by_axis (tuple_task ops [(0, Many [2, 1]), (2, One 3)]) = Inr (tuple_task ops [(0, Many [2, 1]), (2, One 3)])"
  "infer_concat_by_axis (tuple_task ops [(0, Many [2, 1]), (2, One 3)]) =
     Inr (tuple_task (ops @ [ConcatByAxis 2 (One 3) 2]) [(0, Many [2, 1]), (2, NONE)])"
  by (simp_all add: pass_defs)

lemma last_passes:
  "infer_split_by_axis (tuple_task ops [(0, Many [2, 1]), (2, NONE)]) = Inr (tuple_task ops [(0, Many [2, 1]), (2, NONE)])"
  "infer_permute_by_axis (tuple_task ops [(0, Many [2, 1]), (2, NONE)]) =
     Inr (tuple_task (ops @ [PermuteByAxis 2 2 (-1) (One 3) 4]) [(0, Many [2, 1]), (-1, NONE)])"
  by (simp_all add: pass_defs)

lemma task_fields [simp]:
  "pending (tuple_task ops entries) = entries" "operator_list (tuple_task ops entries) = ops"
  by (simp_all add: tuple_task_def)

lemma settled_permute_loop:
  "permute_loop (tuple_task ops [(0, Many [2, 1]), (2, One 3)]) = Some (Inr (tuple_task ops [(0, Many [2, 1]), (2, One 3)]))"
  by (subst permute_loop.simps) (simp add: quiet_passes)

lemma first_permute_loop:
  "permute_loop (tuple_task [] [(0, Many [2, 1, 0]), (1, NONE), (2, One 3)]) =
     Some (Inr (tuple_task [PermuteByAxis 2 1 0 (One 0) 2] [(0, Many [2, 1]), (2, One 3)]))"
  by (subst permute_loop.simps) (simp add: first_passes settled_permute_loop)

lemma first_split_loop:
  "split_loop (tuple_task [] [(0, Many [2, 1, 0]), (1, NONE), (2, One 3)]) =
     Some (Inr (tuple_task [PermuteByAxis 2 1 0 (One 0) 2] [(0, Many [2, 1]), (2, One 3)]))"
proof -
  have "split_loop (tuple_task ops [(0, Many [2, 1]), (2, One 3)]) =
      Some (Inr (tuple_task ops [(0, Many [2, 1]), (2, One 3)]))" for ops
    by (subst split_loop.simps) (simp add: quiet_passes settled_permute_loop)
  then show ?thesis by (subst split_loop.simps) (simp add: first_passes first_permute_loop)
qed

lemma last_split_loop: "split_loop (tuple_task ops [(0, Many [2, 1]), (2, NONE)]) = None"
proof -
  have "permute_loop (tuple_task ops [(0, Many [2, 1]), (2, NONE)]) = None"
    by (subst permute_loop.simps) (simp add: last_passes stuck_loop)
  then show ?thesis by (subst split_loop.simps) (simp add: last_passes)
qed

text \<open>
  C36: the inference does not always return: from a first dimension sharded over the three inner
  axes of a mesh of four axes of size 2 and a third dimension over the outer axis, to the innermost axis
  on the second dimension and the two others on the third, \<open>infer_redistribution_operator\<close> runs
  forever, inserting all-to-alls of the dimension -1 with itself.
\<close>

theorem tuple_redistribution_hangs:
  "infer_redistribution_operator
     (init_redist [2, 2, 2, 2] [Many [2, 1, 0], One (-1), One 3] [One (-1), One 0, Many [2, 1]] True) = None"
proof -
  have init: "init_redist [2, 2, 2, 2] [Many [2, 1, 0], One (-1), One 3] [One (-1), One 0, Many [2, 1]] True =
      tuple_task [] [(0, Many [2, 1, 0]), (1, NONE), (2, One 3)]"
    by (simp add: pass_defs upto_rec1)
  have last: "infer_redistribution_operator (tuple_task ops [(0, Many [2, 1]), (2, NONE)]) = None" for ops
    by (subst infer_redistribution_operator.simps) (simp add: last_split_loop)
  show ?thesis
    unfolding init
    by (subst infer_redistribution_operator.simps) (simp add: first_split_loop quiet_passes last)
qed

section \<open>Data from different columns\<close>

text \<open>What the ranks of a 2 x 2 mesh run to bring rows over both axes to columns over the first.\<close>

definition mixed_ops :: "int \<Rightarrow> collective_op list" where
  "mixed_ops rank = [AllSplit 1 2 (if rank \<in> {0, 2} then [0, 2] else [1, 3]), AllConcat 0 4 [0, 1, 2, 3]]"


end
