(* ===== verification/Ragged_Shard.thy ===== *)
theory Ragged_Shard
  imports Tensor_Layout
begin

text \<open>
  The flat storage of a RaggedShard (core/dtensor/_ragged_utils.py): the interval a rank owns of the
  flattened tensor, the sizes all ranks contribute to a gather, and the send and receive sizes of the
  variable all-to-all that changes the units. The copies of the tensors are the tensor library's; what
  the collective does with the sizes is stated on lists.
\<close>

section \<open>Intervals\<close>

type_synonym ragged_slice = "int \<times> int"

definition local_numel :: "ragged_slice \<Rightarrow> int" where
  "local_numel s = snd s - fst s"

definition normalize_global_shape :: "int list \<Rightarrow> int list result" where
  "normalize_global_shape sizes = (if \<exists>n \<in> set sizes. n < 0 then Inl ValueError else Inr sizes)"

fun ragged_spec :: "placement \<Rightarrow> (int list \<times> int list) result" where
  "ragged_spec (RaggedShard dims units) = Inr (dims, units)"
| "ragged_spec (StridedRaggedShard dims units f) = Inr (dims, units)"
| "ragged_spec _ = Inl AttributeError"

definition compute_ragged_slice :: "int list \<Rightarrow> layout \<Rightarrow> int option \<Rightarrow> ragged_slice result" where
  "compute_ragged_slice global_shape l local_rank =
     (case ragged_shard l of
        None \<Rightarrow> Inl ValueError
      | Some (ragged_dim, ragged) \<Rightarrow>
          bind_res
            (case placements l of
               None \<Rightarrow> Inl TypeError
             | Some ps \<Rightarrow>
                 for_res (\<lambda>(mesh_dim, p) u.
                     if mesh_dim = ragged_dim then Inr u
                     else if \<not> is_replicate p then Inl NotImplementedError else Inr u)
                   (enum ps) ())
            (\<lambda>_. bind_res (normalize_global_shape global_shape) (\<lambda>sizes.
             bind_res (ragged_spec ragged) (\<lambda>(dims, local_units).
             let prefix_ndim = length dims in
             if length sizes < prefix_ndim then Inl ValueError
             else bind_res (mesh_size (mesh l) (Some ragged_dim)) (\<lambda>mesh_dim_size.
               if int (length local_units) \<noteq> mesh_dim_size then Inl ValueError
               else
                 let prefix_cells = prod_list (take prefix_ndim sizes);
                     total_units = sum_list local_units
                 in if total_units = 0 then Inl ZeroDivisionError
                    else if prefix_cells mod total_units \<noteq> 0 then Inl ValueError
                    else bind_res
                      (case local_rank of
                         None \<Rightarrow> get_local_rank (mesh l) (Some (DimIndex ragged_dim))
                       | Some r \<Rightarrow> Inr r)
                      (\<lambda>rank.
                        if rank < 0 \<or> mesh_dim_size \<le> rank then Inl ValueError
                        else
                          let cells_per_unit = prefix_cells div total_units;
                              prefix_start = sum_list (take (nat rank) local_units) * cells_per_unit;
                              local_prefix_cells = local_units ! nat rank * cells_per_unit;
                              suffix_numel = prod_list (drop prefix_ndim sizes);
                              flat_start = prefix_start * suffix_numel
                          in Inr (flat_start, flat_start + local_prefix_cells * suffix_numel)))))))"

definition compute_ragged_splits :: "int list \<Rightarrow> layout \<Rightarrow> int list result" where
  "compute_ragged_splits global_shape l =
     (case ragged_shard l of
        None \<Rightarrow> Inl ValueError
      | Some (ragged_dim, ragged) \<Rightarrow>
          bind_res (mesh_size (mesh l) (Some ragged_dim)) (\<lambda>n.
            map_res (\<lambda>rank. bind_res (compute_ragged_slice global_shape l (Some rank)) (\<lambda>s. Inr (local_numel s)))
              (py_range 0 n)))"

definition interval_overlap_size :: "ragged_slice \<Rightarrow> ragged_slice \<Rightarrow> int" where
  "interval_overlap_size first second = max 0 (min (snd first) (snd second) - max (fst first) (fst second))"

definition compute_ragged_all_to_all_splits :: "int list \<Rightarrow> layout \<Rightarrow> layout \<Rightarrow> (int list \<times> int list) result" where
  "compute_ragged_all_to_all_splits global_shape from_layout to_layout =
     (case (ragged_shard from_layout, ragged_shard to_layout) of
        (Some (source_dim, source), Some (target_dim, target)) \<Rightarrow>
          if source_dim \<noteq> target_dim then Inl ValueError
          else bind_res (ragged_spec source) (\<lambda>source_spec. bind_res (ragged_spec target) (\<lambda>target_spec.
            if fst source_spec \<noteq> fst target_spec then Inl ValueError
            else
              bind_res (get_local_rank (mesh from_layout) (Some (DimIndex source_dim))) (\<lambda>source_rank.
              bind_res (get_local_rank (mesh to_layout) (Some (DimIndex source_dim))) (\<lambda>target_rank.
              bind_res (compute_ragged_slice global_shape from_layout (Some source_rank)) (\<lambda>source_interval.
              bind_res (compute_ragged_slice global_shape to_layout (Some target_rank)) (\<lambda>target_interval.
              bind_res (mesh_size (mesh to_layout) (Some source_dim)) (\<lambda>to_size.
              bind_res (map_res (\<lambda>rank. bind_res (compute_ragged_slice global_shape to_layout (Some rank)) (\<lambda>s.
                  Inr (interval_overlap_size source_interval s))) (py_range 0 to_size)) (\<lambda>input_splits.
              bind_res (mesh_size (mesh from_layout) (Some source_dim)) (\<lambda>from_size.
              bind_res (map_res (\<lambda>rank. bind_res (compute_ragged_slice global_shape from_layout (Some rank)) (\<lambda>s.
                  Inr (interval_overlap_size s target_interval))) (py_range 0 from_size)) (\<lambda>output_splits.
                Inr (input_splits, output_splits)))))))))))
      | _ \<Rightarrow> Inl ValueError)"

section \<open>Cutting a flat list\<close>

definition flat_part :: "'a list \<Rightarrow> int \<Rightarrow> int \<Rightarrow> 'a list" where
  "flat_part xs a b = take (nat (b - a)) (drop (nat a) xs)"

text \<open>The consecutive pieces of the given sizes.\<close>

fun split_by :: "int list \<Rightarrow> 'a list \<Rightarrow> 'a list list" where
  "split_by [] xs = []"
| "split_by (n # ns) xs = take (nat n) xs # split_by ns (drop (nat n) xs)"

lemma flat_part_append:
  assumes "0 \<le> a" and "a \<le> b" and "b \<le> c"
  shows "flat_part xs a b @ flat_part xs b c = flat_part xs a c"
proof -
  have "nat (c - a) = nat (b - a) + nat (c - b)" "nat b = nat (b - a) + nat a" using assms by simp_all
  then show ?thesis unfolding flat_part_def by (simp add: take_add drop_drop)
qed

lemma flat_part_empty: "b \<le> a \<Longrightarrow> flat_part xs a b = []"
  by (simp add: flat_part_def)

lemma take_flat_part: "0 \<le> a \<Longrightarrow> a \<le> b \<Longrightarrow> b \<le> c \<Longrightarrow> take (nat (b - a)) (flat_part xs a c) = flat_part xs a b"
  by (simp add: flat_part_def min_def)

lemma drop_flat_part: "0 \<le> a \<Longrightarrow> a \<le> b \<Longrightarrow> b \<le> c \<Longrightarrow> drop (nat (b - a)) (flat_part xs a c) = flat_part xs b c"
  by (simp add: flat_part_def drop_take nat_diff_distrib)

text \<open>Pieces between ascending cuts.\<close>

lemma split_at_cuts:
  "0 \<le> g 0 \<Longrightarrow> (\<And>j. g j \<le> g (Suc j)) \<Longrightarrow>
     split_by (map (\<lambda>j. g (Suc j) - g j) [0..<n]) (flat_part xs (g 0) (g n)) =
       map (\<lambda>j. flat_part xs (g j) (g (Suc j))) [0..<n]"
proof (induction n arbitrary: g)
  case (Suc n)
  let ?h = "\<lambda>j. g (Suc j)"
  have upto: "[0..<Suc n] = 0 # map Suc [0..<n]" by (simp add: map_Suc_upt upt_conv_Cons del: upt_Suc)
  have mono: "g i \<le> g j" if "i \<le> j" for i j using lift_Suc_mono_le [of g, OF Suc.prems(2) that] .
  have "split_by (map (\<lambda>j. ?h (Suc j) - ?h j) [0..<n]) (flat_part xs (?h 0) (?h n)) =
      map (\<lambda>j. flat_part xs (?h j) (?h (Suc j))) [0..<n]"
    using Suc.prems mono [of 0 1] order_trans [of 0 "g 0" "g 1"] by (intro Suc.IH) simp_all
  then show ?case
    unfolding upto using Suc.prems mono [of 0 1] mono [of 1 "Suc n"]
    by (simp add: comp_def take_flat_part drop_flat_part)
qed simp

lemma concat_cuts:
  "0 \<le> g 0 \<Longrightarrow> (\<And>j. g j \<le> g (Suc j)) \<Longrightarrow>
     concat (map (\<lambda>j. flat_part xs (g j) (g (Suc j))) [0..<n]) = flat_part xs (g 0) (g n)"
proof (induction n)
  case (Suc n)
  have "g 0 \<le> g n" using lift_Suc_mono_le [of g, OF Suc.prems(2), of 0 n] by simp
  with Suc show ?case by (simp add: flat_part_append)
qed (simp add: flat_part_empty)

section \<open>The intervals of a layout\<close>

definition on_rank :: "int \<Rightarrow> layout \<Rightarrow> layout" where
  "on_rank r l = l\<lparr>mesh := (mesh l)\<lparr>own_rank := r\<rparr>\<rparr>"

text \<open>A layout with one RaggedShard on mesh dimension \<open>d\<close>, Replicate elsewhere, over a shape it divides.\<close>

definition ragged_on :: "int \<Rightarrow> int list \<Rightarrow> int list \<Rightarrow> int list \<Rightarrow> layout \<Rightarrow> bool" where
  "ragged_on d dims units sizes l \<longleftrightarrow>
     0 \<le> d \<and> d < int (length (mesh_shape (mesh l))) \<and> mesh_shape (mesh l) ! nat d = int (length units) \<and>
     ragged_shard l = Some (d, RaggedShard dims units) \<and>
     placements l = Some ((replicate (length (mesh_shape (mesh l))) Replicate)[nat d := RaggedShard dims units]) \<and>
     length dims \<le> length sizes \<and> (\<forall>n \<in> set sizes. 0 \<le> n) \<and> (\<forall>u \<in> set units. 0 \<le> u) \<and>
     0 < sum_list units \<and> sum_list units dvd prod_list (take (length dims) sizes)"

definition unit_numel :: "int list \<Rightarrow> int list \<Rightarrow> int list \<Rightarrow> int" where
  "unit_numel dims units sizes =
     prod_list (take (length dims) sizes) div sum_list units * prod_list (drop (length dims) sizes)"

definition unit_cut :: "int list \<Rightarrow> int list \<Rightarrow> int list \<Rightarrow> nat \<Rightarrow> int" where
  "unit_cut dims units sizes r = sum_list (take r units) * unit_numel dims units sizes"

lemma prod_list_nonneg: "(\<forall>n \<in> set ns. 0 \<le> n) \<Longrightarrow> 0 \<le> prod_list (ns :: int list)"
  by (induction ns) auto

lemma unit_cuts:
  assumes "ragged_on d dims units sizes l"
  shows "unit_cut dims units sizes 0 = 0" "unit_cut dims units sizes r \<le> unit_cut dims units sizes (Suc r)"
    and "unit_cut dims units sizes (length units) = prod_list sizes"
proof -
  let ?P = "prod_list (take (length dims) sizes)" and ?S = "prod_list (drop (length dims) sizes)"
  have ok: "\<forall>n \<in> set sizes. 0 \<le> n" "\<forall>u \<in> set units. 0 \<le> u" "0 < sum_list units" "sum_list units dvd ?P"
    using assms by (simp_all add: ragged_on_def)
  have "0 \<le> ?P" "0 \<le> ?S" by (rule prod_list_nonneg, use ok(1) in \<open>auto dest: in_set_takeD in_set_dropD\<close>)+
  then have size: "0 \<le> unit_numel dims units sizes"
    using ok(3) by (simp add: unit_numel_def pos_imp_zdiv_nonneg_iff)
  show "unit_cut dims units sizes 0 = 0" by (simp add: unit_cut_def)
  have "sum_list (take r units) \<le> sum_list (take (Suc r) units)"
    using ok(2) by (cases "r < length units") (simp_all add: take_Suc_conv_app_nth)
  with size show "unit_cut dims units sizes r \<le> unit_cut dims units sizes (Suc r)"
    by (simp add: unit_cut_def mult_right_mono)
  have "?P * ?S = prod_list sizes" by (metis append_take_drop_id prod_list.append)
  moreover have "sum_list units * (?P div sum_list units) = ?P" using ok(4) by simp
  ultimately show "unit_cut dims units sizes (length units) = prod_list sizes"
    by (simp add: unit_cut_def unit_numel_def flip: mult.assoc)
qed

lemma slice_eq:
  assumes "ragged_on d dims units sizes l" and "r < length units"
  shows "compute_ragged_slice sizes l (Some (int r)) =
    Inr (unit_cut dims units sizes r, unit_cut dims units sizes (Suc r))"
proof -
  let ?N = "length (mesh_shape (mesh l))"
  have d: "0 \<le> d" "d < int ?N" using assms(1) by (simp_all add: ragged_on_def)
  have "for_res (\<lambda>(mesh_dim, p) u. if mesh_dim = d then Inr u else if \<not> is_replicate p then Inl NotImplementedError else Inr u)
      (enum ((replicate ?N Replicate)[nat d := RaggedShard dims units])) () = Inr ()"
  proof -
    have "\<exists>t. for_res (\<lambda>(mesh_dim, p) u. if mesh_dim = d then Inr u else if \<not> is_replicate p then Inl NotImplementedError else Inr u)
      (enum ((replicate ?N Replicate)[nat d := RaggedShard dims units])) () = Inr t \<and> True"
      by (rule for_res_positions [where I = "\<lambda>_ _. True"])
         (use d in \<open>auto simp: enum_def nth_list_update\<close>)
    then show ?thesis by simp
  qed
  with assms show ?thesis
    by (auto simp: compute_ragged_slice_def ragged_on_def normalize_global_shape_def mesh_size_def Let_def unit_cut_def
        unit_numel_def take_Suc_conv_app_nth algebra_simps dvd_eq_mod_eq_0)
qed

lemma ragged_on_rank [simp]: "ragged_on d dims units sizes (on_rank r l) \<longleftrightarrow> ragged_on d dims units sizes l"
  by (simp add: ragged_on_def on_rank_def)

text \<open>An interval clamped to a cut.\<close>

definition clamp :: "int \<Rightarrow> int \<Rightarrow> int \<Rightarrow> int" where
  "clamp a b x = max a (min b x)"

lemma overlap_clamp:
  "a \<le> b \<Longrightarrow> c \<le> e \<Longrightarrow> interval_overlap_size (a, b) (c, e) = clamp a b e - clamp a b c"
  by (auto simp: interval_overlap_size_def clamp_def)

lemma clamp_swap:
  "a \<le> b \<Longrightarrow> c \<le> e \<Longrightarrow> flat_part xs (clamp a b c) (clamp a b e) = flat_part xs (clamp c e a) (clamp c e b)"
  by (cases "max a c < min b e") (auto simp: clamp_def max_def min_def flat_part_empty)

lemma sum_cuts: "sum_list (map (\<lambda>j. g (Suc j) - g j) [0..<n]) = g n - (g 0 :: int)"
  by (induction n) simp_all

lemma clamp_cuts:
  assumes "ragged_on d dims units sizes l" and "ragged_on d dims units' sizes l'" and "i < length units"
  defines "g \<equiv> \<lambda>j. clamp (unit_cut dims units sizes i) (unit_cut dims units sizes (Suc i)) (unit_cut dims units' sizes j)"
  shows "g j \<le> g (Suc j)" "g 0 = unit_cut dims units sizes i" "g (length units') = unit_cut dims units sizes (Suc i)"
    and "0 \<le> g 0"
proof -
  note cuts = unit_cuts [OF assms(1)] and cuts' = unit_cuts [OF assms(2)]
  have mono: "unit_cut dims units sizes a \<le> unit_cut dims units sizes b" if "a \<le> b" for a b
    using lift_Suc_mono_le [of "unit_cut dims units sizes", OF cuts(2) that] .
  have "0 \<le> unit_cut dims units sizes i" using mono [of 0 i] cuts(1) by simp
  moreover have "unit_cut dims units sizes (Suc i) \<le> prod_list sizes" using mono [of "Suc i" "length units"] assms(3) cuts(3) by simp
  ultimately show "g 0 = unit_cut dims units sizes i" "g (length units') = unit_cut dims units sizes (Suc i)" "0 \<le> g 0"
    using cuts(2) [of i] by (auto simp: g_def clamp_def cuts'(1,3))
  show "g j \<le> g (Suc j)" using cuts'(2) [of j] by (auto simp: g_def clamp_def)
qed

text \<open>The sizes rank \<open>i\<close> sends and receives.\<close>

definition exchange_sizes :: "int list \<Rightarrow> int list \<Rightarrow> int list \<Rightarrow> int list \<Rightarrow> nat \<Rightarrow> int list" where
  "exchange_sizes dims units units' sizes i =
     map (\<lambda>j. clamp (unit_cut dims units sizes i) (unit_cut dims units sizes (Suc i)) (unit_cut dims units' sizes (Suc j)) -
       clamp (unit_cut dims units sizes i) (unit_cut dims units sizes (Suc i)) (unit_cut dims units' sizes j))
       [0..<length units']"

lemma overlaps_eq:
  assumes "ragged_on d dims units sizes l" and "ragged_on d dims units' sizes l'" and "i < length units"
  shows "map_res (\<lambda>rank. bind_res (compute_ragged_slice sizes l' (Some rank)) (\<lambda>s.
      Inr (interval_overlap_size (unit_cut dims units sizes i, unit_cut dims units sizes (Suc i)) s)))
      (py_range 0 (int (length units'))) = Inr (exchange_sizes dims units units' sizes i)"
    and "map_res (\<lambda>rank. bind_res (compute_ragged_slice sizes l' (Some rank)) (\<lambda>s.
      Inr (interval_overlap_size s (unit_cut dims units sizes i, unit_cut dims units sizes (Suc i)))))
      (py_range 0 (int (length units'))) = Inr (exchange_sizes dims units units' sizes i)"
proof -
  define f where "f r = clamp (unit_cut dims units sizes i) (unit_cut dims units sizes (Suc i)) (unit_cut dims units' sizes (Suc (nat r))) -
    clamp (unit_cut dims units sizes i) (unit_cut dims units sizes (Suc i)) (unit_cut dims units' sizes (nat r))" for r :: int
  have swap: "interval_overlap_size s t = interval_overlap_size t s" for s t
    by (simp add: interval_overlap_size_def min.commute max.commute)
  have one: "bind_res (compute_ragged_slice sizes l' (Some r)) (\<lambda>s.
      Inr (interval_overlap_size (unit_cut dims units sizes i, unit_cut dims units sizes (Suc i)) s)) = Inr (f r)"
    if r: "r \<in> set (py_range 0 (int (length units')))" for r
  proof -
    have "nat r < length units'" "r = int (nat r)" using r by auto
    from slice_eq [OF assms(2) this(1)] this(2)
    have "compute_ragged_slice sizes l' (Some r) =
        Inr (unit_cut dims units' sizes (nat r), unit_cut dims units' sizes (Suc (nat r)))" by simp
    then show ?thesis
      using overlap_clamp [OF unit_cuts(2) [OF assms(1)] unit_cuts(2) [OF assms(2)], of i "nat r"] by (simp add: f_def)
  qed
  have "map f (py_range 0 (int (length units'))) = exchange_sizes dims units units' sizes i"
    by (rule nth_equalityI) (simp_all add: exchange_sizes_def f_def)
  with map_res_total [of "py_range 0 (int (length units'))" _ f, OF one] show
    "map_res (\<lambda>rank. bind_res (compute_ragged_slice sizes l' (Some rank)) (\<lambda>s.
      Inr (interval_overlap_size (unit_cut dims units sizes i, unit_cut dims units sizes (Suc i)) s)))
      (py_range 0 (int (length units'))) = Inr (exchange_sizes dims units units' sizes i)" by simp
  then show "map_res (\<lambda>rank. bind_res (compute_ragged_slice sizes l' (Some rank)) (\<lambda>s.
      Inr (interval_overlap_size s (unit_cut dims units sizes i, unit_cut dims units sizes (Suc i)))))
      (py_range 0 (int (length units'))) = Inr (exchange_sizes dims units units' sizes i)"
    by (simp add: swap [of _ "(unit_cut dims units sizes i, unit_cut dims units sizes (Suc i))"])
qed

lemma exchange_symmetric:
  assumes "ragged_on d dims units sizes l" and "ragged_on d dims units' sizes l'" and "i < length units" and "j < length units'"
  shows "exchange_sizes dims units units' sizes i ! j = exchange_sizes dims units' units sizes j ! i"
proof -
  note le = unit_cuts(2) [OF assms(1), of i] and le' = unit_cuts(2) [OF assms(2), of j]
  from overlap_clamp [OF le le'] overlap_clamp [OF le' le] show ?thesis
    using assms(3,4) by (simp add: exchange_sizes_def interval_overlap_size_def min.commute max.commute)
qed



end
