(* ===== verification/Reshape_Rule.thy ===== *)
theory Reshape_Rule
  imports Tensor_Layout
begin

text \<open>
  The layout rule of \<open>reshape\<close> and \<open>view\<close> (core/shard/ops/parallel_reshape.py): dimensions that are not
  sharded merge into the sharded dimension before them, and the target shape is read off the merged
  groups from the end.

  The constructor call \<open>Layout(mesh_shape, alias_name, rank_list)\<close> with the fields of an existing mesh
  stands for a layout on that mesh (\<open>layout_from_mesh\<close>). Indices are Python indices: \<open>-1 - i\<close>
  counts mesh dimensions from the end, and \<open>cur_axis\<close> may become -1.
\<close>

section \<open>Shapes\<close>

text \<open>The entries of a tensor map without the mesh dimensions of size 1.\<close>

definition filter_entry :: "int list \<Rightarrow> dim_map \<Rightarrow> dim_map result" where
  "filter_entry sizes item =
     (case item of
        Many ds \<Rightarrow>
          bind_res (for_res (\<lambda>i filtered. bind_res (py_nth sizes (-1 - i)) (\<lambda>n.
              Inr (if n \<noteq> 1 then filtered @ [i] else filtered))) ds []) (\<lambda>filtered.
            Inr (case filtered of [] \<Rightarrow> One (-1) | [i] \<Rightarrow> One i | _ \<Rightarrow> Many filtered))
      | One i \<Rightarrow> bind_res (py_nth sizes (-1 - i)) (\<lambda>n. Inr (One (if n \<noteq> 1 then i else -1))))"

definition filter_none_split_tensor_map :: "dim_map list \<Rightarrow> int list \<Rightarrow> dim_map list result" where
  "filter_none_split_tensor_map tmap sizes = map_res (filter_entry sizes) tmap"

text \<open>Whether the shape has an unknown size, its axis, and the product of the sizes.\<close>

definition dynamic_shape_info :: "int list \<Rightarrow> bool \<times> int \<times> int" where
  "dynamic_shape_info sizes =
     (let (total, axis) = fold (\<lambda>(i, s) (total, axis). (total * s, if s < 0 then i else axis)) (enum sizes) (1, -1)
      in (total < 0, axis, total))"

definition handle_dynamic_shape :: "int list \<Rightarrow> int list \<Rightarrow> (int list \<times> int list \<times> bool) result" where
  "handle_dynamic_shape input_shape output_shape =
     (let (is_input_dynamic, input_axis, input_total) = dynamic_shape_info input_shape;
          (is_output_dynamic, output_axis, output_total) = dynamic_shape_info output_shape
      in if \<not> is_input_dynamic \<and> \<not> is_output_dynamic then
           (if input_total \<noteq> output_total then Inl ValueError else Inr (input_shape, output_shape, False))
         else if \<not> is_input_dynamic then
           bind_res (py_set output_shape output_axis (- input_total div output_total)) (\<lambda>output_shape.
             Inr (input_shape, output_shape, False))
         else if \<not> is_output_dynamic then
           bind_res (py_set input_shape input_axis (- output_total div input_total)) (\<lambda>input_shape.
             Inr (input_shape, output_shape, False))
         else if input_total \<le> output_total then
           bind_res (py_set output_shape output_axis (- (input_total div output_total))) (\<lambda>output_shape.
             Inr (input_shape, output_shape, True))
         else
           bind_res (py_set input_shape input_axis (- (output_total div input_total))) (\<lambda>input_shape.
             Inr (input_shape, output_shape, False)))"

definition merge_step ::
    "int list \<Rightarrow> dim_map list \<Rightarrow> int \<Rightarrow> int \<times> int list \<times> dim_map list \<Rightarrow> (int \<times> int list \<times> dim_map list) result" where
  "merge_step global_shape tmap axis st =
     (let (merged_size, merged_shape, merged_map) = st in
      bind_res (py_nth global_shape axis) (\<lambda>n.
      bind_res (py_nth tmap axis) (\<lambda>entry.
        Inr (if entry \<noteq> One (-1) then (1, merged_size * n # merged_shape, entry # merged_map)
             else (merged_size * n, merged_shape, merged_map)))))"

definition merge_unshared_axis :: "int list \<Rightarrow> dim_map list \<Rightarrow> (int list \<times> dim_map list) result" where
  "merge_unshared_axis global_shape tmap =
     bind_res (for_res (merge_step global_shape tmap) (rev (py_range 0 (int (length global_shape)))) (1, [], []))
       (\<lambda>(merged_size, merged_shape, merged_map).
         bind_res (py_nth tmap 0) (\<lambda>first.
           Inr (if first = One (-1) then (merged_size # merged_shape, One (-1) # merged_map)
                else (merged_shape, merged_map))))"

text \<open>The number of shards of an entry.\<close>

definition entry_shards :: "int list \<Rightarrow> dim_map \<Rightarrow> int result" where
  "entry_shards sizes entry =
     for_res (\<lambda>axis n. bind_res (py_nth sizes (- axis - 1)) (\<lambda>m. Inr (n * m))) (mapped_dims entry) 1"

definition validate_reshape_shard :: "dim_map \<Rightarrow> int list \<Rightarrow> int \<Rightarrow> bool \<Rightarrow> unit result" where
  "validate_reshape_shard map_val sizes dim dynamic_can_shard =
     bind_res (entry_shards sizes map_val) (\<lambda>shard_size.
       if dim < 0 then (if dynamic_can_shard then Inr () else Inl ValueError)
       else if dim < shard_size then Inl ValueError
       else if shard_size = 0 then Inl ZeroDivisionError
       else if dim mod shard_size \<noteq> 0 then Inl ValueError else Inr ())"

text \<open>The loop over the target shape from its end.\<close>

fun output_map_loop ::
    "int list \<Rightarrow> dim_map list \<Rightarrow> int list \<Rightarrow> bool \<Rightarrow> int list \<Rightarrow> int \<Rightarrow> int \<Rightarrow> dim_map list \<Rightarrow> dim_map list result" where
  "output_map_loop merged_shape merged_map sizes dynamic [] cur_axis cur_size out = Inr out"
| "output_map_loop merged_shape merged_map sizes dynamic (dim # dims) cur_axis cur_size out =
     (if dim = 0 then Inl ZeroDivisionError
      else if cur_size mod dim \<noteq> 0 then Inl ValueError
      else if cur_size div dim = 1 then
        bind_res (py_nth merged_map cur_axis) (\<lambda>map_val.
        bind_res (if map_val \<noteq> One (-1) then validate_reshape_shard map_val sizes dim dynamic else Inr ()) (\<lambda>_.
        bind_res (py_nth merged_shape (cur_axis - 1)) (\<lambda>next_size.
          output_map_loop merged_shape merged_map sizes dynamic dims (cur_axis - 1) next_size (map_val # out))))
      else output_map_loop merged_shape merged_map sizes dynamic dims cur_axis (cur_size div dim) (One (-1) # out))"

definition compute_output_tensor_map ::
    "int list \<Rightarrow> dim_map list \<Rightarrow> int list \<Rightarrow> int list \<Rightarrow> bool \<Rightarrow> dim_map list result" where
  "compute_output_tensor_map merged_shape merged_map dst_shape sizes dynamic =
     (let cur_axis = int (length merged_shape) - 1 in
      bind_res (py_nth merged_shape cur_axis) (\<lambda>cur_size.
        output_map_loop merged_shape merged_map sizes dynamic (rev dst_shape) cur_axis cur_size []))"

section \<open>Layouts\<close>

text \<open>The alias of an output entry and the local size of its dimension.\<close>

definition output_entry :: "string list \<Rightarrow> int list \<Rightarrow> int \<Rightarrow> dim_map \<Rightarrow> (alias_entry \<times> int) result" where
  "output_entry names sizes n map_id =
     (case map_id of
        Many ds \<Rightarrow>
          bind_res (map_res (\<lambda>d. py_nth names (-1 - d)) ds) (\<lambda>map_idx.
          bind_res (for_res (\<lambda>d shards. bind_res (py_nth sizes (-1 - d)) (\<lambda>m. Inr (shards * m))) ds 1) (\<lambda>shards.
            if 0 < n then (if shards = 0 then Inl ZeroDivisionError else Inr (AxisNames map_idx, n div shards))
            else Inr (AxisNames map_idx, -1)))
      | One d \<Rightarrow>
          if d < 0 then Inr (AxisName ''None'', if 0 < n then n else -1)
          else bind_res (py_nth names (-1 - d)) (\<lambda>name.
               if 0 < n then bind_res (py_nth sizes (-1 - d)) (\<lambda>m.
                 if m = 0 then Inl ZeroDivisionError else Inr (AxisName name, n div m))
               else Inr (AxisName name, -1)))"

definition cal_output_layout_and_dst_shape ::
    "dim_map list \<Rightarrow> int list \<Rightarrow> string list \<Rightarrow> int list \<Rightarrow> (alias_entry list \<times> int list) result" where
  "cal_output_layout_and_dst_shape output_tensor_map dst_shape names sizes =
     bind_res (map_res (\<lambda>(idx, map_id). bind_res (py_nth dst_shape idx) (\<lambda>n. output_entry names sizes n map_id))
       (enum output_tensor_map)) (\<lambda>entries. Inr (map fst entries, map snd entries))"

definition apply_partial_status :: "layout \<Rightarrow> layout \<Rightarrow> layout result" where
  "apply_partial_status x_layout out_layout =
     (if \<not> layout_is_partial x_layout then Inr out_layout
      else for_res (\<lambda>(i, op) out.
          case op of
            None \<Rightarrow> Inr out
          | Some p \<Rightarrow>
              (case mesh_dim_names (mesh out) of
                 None \<Rightarrow> Inl TypeError
               | Some names \<Rightarrow>
                   if i < int (length names)
                   then bind_res (py_nth names i) (\<lambda>axis. set_partial_by_dev_axis axis (Some p) out)
                   else Inr out))
        (enum (partial x_layout)) out_layout)"

definition infer_reshape_layout :: "layout \<Rightarrow> int list \<Rightarrow> int list \<Rightarrow> (layout \<times> int list) result" where
  "infer_reshape_layout x_layout dst_shape input_shape =
     (case (tensor_map x_layout, mesh_dim_names (mesh x_layout)) of
        (None, _) \<Rightarrow> Inl ValueError
      | (_, None) \<Rightarrow> Inl TypeError
      | (Some tm, Some names) \<Rightarrow>
          let sizes = mesh_sizes x_layout in
          bind_res (filter_none_split_tensor_map tm sizes) (\<lambda>x_map.
          bind_res (handle_dynamic_shape input_shape dst_shape) (\<lambda>(input_shape, dst_shape, dynamic).
          bind_res (merge_unshared_axis input_shape x_map) (\<lambda>(merged_shape, merged_map).
          bind_res (compute_output_tensor_map merged_shape merged_map dst_shape sizes dynamic) (\<lambda>output_tensor_map.
          bind_res (cal_output_layout_and_dst_shape output_tensor_map dst_shape names sizes) (\<lambda>(output_map, local_dst_shape).
          bind_res (call_with_aliases output_map (layout_from_mesh (mesh x_layout))) (\<lambda>out_layout.
          bind_res (apply_partial_status x_layout out_layout) (\<lambda>out_layout.
            Inr (out_layout, local_dst_shape)))))))))"

text \<open>\<open>infer_layout\<close> on its three cache values.\<close>

definition reshape_infer_layout :: "layout option \<Rightarrow> int list \<Rightarrow> int list \<Rightarrow> (layout list \<times> int list) result" where
  "reshape_infer_layout x_layout dst_shape input_shape =
     (case x_layout of
        None \<Rightarrow> Inl ValueError
      | Some l \<Rightarrow> bind_res (infer_reshape_layout l dst_shape input_shape) (\<lambda>(out, local_dst). Inr ([out], local_dst)))"

end
