(* ===== verification/Layout_Calls.thy ===== *)
theory Layout_Calls
  imports Tensor_Layout_Roundtrip
begin

text \<open>
  Facts about building a layout that the operator rules share: \<open>layout(*aliases)\<close> gives the tensor map
  the names stand for, on the same mesh and without partial state, and \<open>set_partial_by_dev_axis\<close>
  changes one entry of the partial state and nothing of the tensor map.
\<close>

section \<open>Names of tensor map entries\<close>

definition name_of :: "string list \<Rightarrow> int \<Rightarrow> string" where
  "name_of names m = (if m = -1 then ''None'' else names ! nat (int (length names) - 1 - m))"

definition alias_of :: "string list \<Rightarrow> dim_map \<Rightarrow> alias_entry" where
  "alias_of names e =
     (case e of One m \<Rightarrow> AxisName (name_of names m) | Many ms \<Rightarrow> AxisNames (map (name_of names) ms))"

definition names_ok :: "string list \<Rightarrow> bool" where
  "names_ok names \<longleftrightarrow> distinct names \<and> ''None'' \<notin> set names"

definition dims_in :: "string list \<Rightarrow> int list \<Rightarrow> bool" where
  "dims_in names ms \<longleftrightarrow> (\<forall>m \<in> set ms. m = -1 \<or> 0 \<le> m \<and> m < int (length names))"

lemma dims_in_Cons [simp]:
  "dims_in names (m # ms) \<longleftrightarrow> (m = -1 \<or> 0 \<le> m \<and> m < int (length names)) \<and> dims_in names ms"
  by (auto simp: dims_in_def)

lemma dims_in_append [simp]: "dims_in names (ms @ ks) \<longleftrightarrow> dims_in names ms \<and> dims_in names ks"
  by (auto simp: dims_in_def)

lemma name_mem: "0 \<le> m \<Longrightarrow> m < int (length names) \<Longrightarrow> name_of names m \<in> set names"
  by (simp add: name_of_def)

lemma index_of_name:
  assumes "names_ok names" and "0 \<le> m" and "m < int (length names)"
  shows "py_index names (name_of names m) = Inr (int (length names) - 1 - m)"
proof -
  from py_index_mem [OF name_mem [OF assms(2,3)]]
  obtain i where i: "py_index names (name_of names m) = Inr i" "0 \<le> i" "i < int (length names)"
    "names ! nat i = name_of names m" by blast
  then have "nat i = nat (int (length names) - 1 - m)"
    using assms by (intro iffD1 [OF nth_eq_iff_index_eq [of names]]) (auto simp: names_ok_def name_of_def)
  with i assms(2,3) show ?thesis by simp
qed

lemma name_inj:
  assumes "names_ok names" and "m = -1 \<or> 0 \<le> m \<and> m < int (length names)" and "k = -1 \<or> 0 \<le> k \<and> k < int (length names)"
    and "name_of names m = name_of names k"
  shows "m = k"
proof -
  have none: "name_of names j \<noteq> ''None''" if "0 \<le> j" "j < int (length names)" for j
    using name_mem [OF that] assms(1) by (auto simp: names_ok_def)
  consider "m = -1" | "k = -1" | "0 \<le> m" "m < int (length names)" "0 \<le> k" "k < int (length names)"
    using assms(2,3) by blast
  then show ?thesis
  proof cases
    case 1
    then show ?thesis using none [of k] assms(3,4) by (auto simp: name_of_def)
  next
    case 2
    then show ?thesis using none [of m] assms(2,4) by (auto simp: name_of_def)
  next
    case 3
    have "Inr (int (length names) - 1 - m) = (Inr (int (length names) - 1 - k) :: int result)"
      unfolding index_of_name [OF assms(1) 3(1,2), symmetric] index_of_name [OF assms(1) 3(3,4), symmetric] assms(4) ..
    then show ?thesis by simp
  qed
qed

lemma alias_axis_name:
  assumes "names_ok names" and "m = -1 \<or> 0 \<le> m \<and> m < int (length names)"
    and "alias_axis names (name_of names m) w = Inr (m', w')"
  shows "m' = m" and "w' = w @ map (name_of names) (filter (\<lambda>m. m \<noteq> -1) [m])" and "distinct w \<Longrightarrow> distinct w'"
proof -
  have "m' = m \<and> w' = w @ map (name_of names) (filter (\<lambda>m. m \<noteq> -1) [m]) \<and> (distinct w \<longrightarrow> distinct w')"
  proof (cases "m = -1")
    case True
    then show ?thesis using assms(3) by (simp add: alias_axis_def name_of_def)
  next
    case False
    with assms(2) have m: "0 \<le> m" "m < int (length names)" by auto
    from name_mem [OF m] assms(1) have "name_of names m \<noteq> ''None''" by (auto simp: names_ok_def)
    with assms(3) index_of_name [OF assms(1) m] False show ?thesis
      by (auto simp: alias_axis_def split: if_splits)
  qed
  then show "m' = m" and "w' = w @ map (name_of names) (filter (\<lambda>m. m \<noteq> -1) [m])" and "distinct w \<Longrightarrow> distinct w'"
    by blast+
qed

lemma alias_tuple:
  assumes "names_ok names" and "dims_in names ms"
    and "for_res (\<lambda>item (ms, written). bind_res (alias_axis names item written) (\<lambda>(m, written).
        Inr (ms @ [m], written))) (map (name_of names) ms) (acc, w) = Inr (acc', w')"
  shows "acc' = acc @ ms \<and> w' = w @ map (name_of names) (filter (\<lambda>m. m \<noteq> -1) ms) \<and> (distinct w \<longrightarrow> distinct w')"
  using assms(2,3)
proof (induction ms arbitrary: acc w)
  case (Cons m ms)
  then obtain m' v where v: "alias_axis names (name_of names m) w = Inr (m', v)"
    and rest: "for_res (\<lambda>item (ms, written). bind_res (alias_axis names item written) (\<lambda>(m, written).
        Inr (ms @ [m], written))) (map (name_of names) ms) (acc @ [m'], v) = Inr (acc', w')"
    by (auto simp: bind_res_Inr_iff)
  have m: "m = -1 \<or> 0 \<le> m \<and> m < int (length names)" and ms: "dims_in names ms" using Cons.prems(1) by simp_all
  note step = alias_axis_name [OF assms(1) m v]
  note ih = Cons.IH [OF ms rest]
  from ih step(3) have "distinct w \<longrightarrow> distinct w'" by blast
  moreover from ih step(1,2) have "acc' = acc @ m # ms" "w' = w @ map (name_of names) (filter (\<lambda>m. m \<noteq> -1) (m # ms))" by simp_all
  ultimately show ?case by blast
qed simp

definition alias_step :: "string list \<Rightarrow> alias_entry \<Rightarrow> dim_map list \<times> string list \<Rightarrow> (dim_map list \<times> string list) result" where
  "alias_step names ele st =
     (case (ele, st) of
        (AxisName item, tm, written) \<Rightarrow>
          bind_res (alias_axis names item written) (\<lambda>(m, written). Inr (tm @ [One m], written))
      | (AxisNames items, tm, written) \<Rightarrow>
          bind_res (for_res (\<lambda>item (ms, written). bind_res (alias_axis names item written) (\<lambda>(m, written).
              Inr (ms @ [m], written))) items ([], written)) (\<lambda>(ms, written). Inr (tm @ [Many ms], written)))"

lemma alias_step_simps:
  "alias_step names (AxisName item) (tm, w) =
     bind_res (alias_axis names item w) (\<lambda>(m, written). Inr (tm @ [One m], written))"
  "alias_step names (AxisNames items) (tm, w) =
     bind_res (for_res (\<lambda>item (ms, written). bind_res (alias_axis names item written) (\<lambda>(m, written).
        Inr (ms @ [m], written))) items ([], w)) (\<lambda>(ms, written). Inr (tm @ [Many ms], written))"
  by (simp_all add: alias_step_def)

lemma alias_of_simps [simp]:
  "alias_of names (One m) = AxisName (name_of names m)"
  "alias_of names (Many ms) = AxisNames (map (name_of names) ms)"
  by (simp_all add: alias_of_def)

lemma alias_entries:
  assumes "names_ok names" and "dims_in names (concat (map mapped_dims es))"
    and "for_res (alias_step names) (map (alias_of names) es) (tm, w) = Inr (tm', w')"
  shows "tm' = tm @ es \<and> w' = w @ map (name_of names) (filter (\<lambda>m. m \<noteq> -1) (concat (map mapped_dims es))) \<and>
    (distinct w \<longrightarrow> distinct w')"
  using assms(2,3)
proof (induction es arbitrary: tm w)
  case (Cons e es)
  obtain st where head: "alias_step names (alias_of names e) (tm, w) = Inr st"
    and "for_res (alias_step names) (map (alias_of names) es) st = Inr (tm', w')"
    using Cons.prems(2) by (auto simp: bind_res_Inr_iff)
  moreover obtain tm1 v where st: "st = (tm1, v)" by (cases st)
  ultimately have rest: "for_res (alias_step names) (map (alias_of names) es) (tm1, v) = Inr (tm', w')" by simp
  have dims: "dims_in names (mapped_dims e)" "dims_in names (concat (map mapped_dims es))" using Cons.prems(1) by simp_all
  have "tm1 = tm @ [e] \<and> v = w @ map (name_of names) (filter (\<lambda>m. m \<noteq> -1) (mapped_dims e)) \<and> (distinct w \<longrightarrow> distinct v)"
  proof (cases e)
    case (One m)
    with head st obtain m' where v: "alias_axis names (name_of names m) w = Inr (m', v)" and tm1: "tm1 = tm @ [One m']"
      by (auto simp: bind_res_Inr_iff alias_step_simps)
    have m: "m = -1 \<or> 0 \<le> m \<and> m < int (length names)" using dims(1) One by simp
    note step = alias_axis_name [OF assms(1) m v]
    have "tm1 = tm @ [e]" and "v = w @ map (name_of names) (filter (\<lambda>m. m \<noteq> -1) (mapped_dims e))"
      using step(1,2) tm1 One by simp_all
    with step(3) show ?thesis by blast
  next
    case (Many ms)
    with head st obtain ms' where v: "for_res (\<lambda>item (ms, written). bind_res (alias_axis names item written) (\<lambda>(m, written).
        Inr (ms @ [m], written))) (map (name_of names) ms) ([], w) = Inr (ms', v)" and tm1: "tm1 = tm @ [Many ms']"
      by (auto simp: bind_res_Inr_iff alias_step_simps)
    have ms: "dims_in names ms" using dims(1) Many by simp
    note step = alias_tuple [OF assms(1) ms v]
    have "tm1 = tm @ [e]" and "v = w @ map (name_of names) (filter (\<lambda>m. m \<noteq> -1) (mapped_dims e))"
      using step tm1 Many by simp_all
    with step show ?thesis by blast
  qed
  then have e: "tm1 = tm @ [e]" "v = w @ map (name_of names) (filter (\<lambda>m. m \<noteq> -1) (mapped_dims e))" "distinct w \<longrightarrow> distinct v"
    by blast+
  note ih = Cons.IH [OF dims(2) rest]
  have "tm' = tm @ e # es" and "w' = w @ map (name_of names) (filter (\<lambda>m. m \<noteq> -1) (concat (map mapped_dims (e # es))))"
    using ih e(1,2) by simp_all
  with ih e(3) show ?case by blast
qed simp

lemma readable_name:
  "m = -1 \<or> 0 \<le> m \<and> m < int (length names) \<Longrightarrow> readable_dim (Some names) m = Inr (name_of names m)"
  by (auto simp: readable_dim_def name_of_def)

lemma readable_map:
  assumes "dims_in names (concat (map mapped_dims tm))"
  shows "build_readable_tensor_map (Some names) tm = Inr (map (alias_of names) tm)"
  unfolding build_readable_tensor_map_def
proof (rule map_res_total)
  fix e assume "e \<in> set tm"
  with assms have e: "\<forall>m \<in> set (mapped_dims e). m = -1 \<or> 0 \<le> m \<and> m < int (length names)"
    by (auto simp: dims_in_def)
  show "(case e of One d \<Rightarrow> bind_res (readable_dim (Some names) d) (\<lambda>s. Inr (AxisName s))
       | Many ds \<Rightarrow> bind_res (map_res (readable_dim (Some names)) ds) (\<lambda>ss. Inr (AxisNames ss))) = Inr (alias_of names e)"
    using e by (cases e) (auto simp: readable_name map_res_total [where g = "name_of names"])
qed

section \<open>Layouts on a named mesh\<close>

text \<open>
  A layout on a mesh with named axes whose tensor map and alias map agree: what the constructor calls
  produce and the operator rules take.
\<close>

definition layout_ok :: "layout \<Rightarrow> string list \<Rightarrow> dim_map list \<Rightarrow> bool" where
  "layout_ok l names tm \<longleftrightarrow>
     mesh_dim_names (mesh l) = Some names \<and> names_ok names \<and> length names = length (mesh_sizes l) \<and>
     tensor_map l = Some tm \<and> alias_tensor_map l = Some (map (alias_of names) tm) \<and>
     well_mapped (mesh_sizes l) tm \<and> length (partial l) = length names"

lemma layout_ok_dims: "layout_ok l names tm \<Longrightarrow> dims_in names (concat (map mapped_dims tm))"
  by (auto simp: layout_ok_def well_mapped_def dims_in_def)

lemma to_placement_keeps:
  assumes "tensor_map_to_placement l = Inr (ps, l')" and "tensor_map l = Some tm"
    and "mesh_dim_names (mesh l) = Some names" and "dims_in names (concat (map mapped_dims tm))"
  shows "mesh l' = mesh l" and "tensor_map l' = Some tm" and "partial l' = partial l"
    and "alias_tensor_map l' = Some (map (alias_of names) tm)"
proof -
  from assms(1,2) obtain qs l2 readable where "set_placements (Some qs) l = Inr l2"
    and "build_readable_tensor_map (mesh_dim_names (mesh l2)) tm = Inr readable"
    and "l' = l2\<lparr>alias_tensor_map := Some readable\<rparr>"
    by (auto simp: tensor_map_to_placement_def bind_res_Inr_iff)
  then have "mesh l' = mesh l \<and> tensor_map l' = Some tm \<and> partial l' = partial l \<and>
      alias_tensor_map l' = Some (map (alias_of names) tm)"
    using assms(2,3) readable_map [OF assms(4)] by (auto simp: set_placements_def bind_res_Inr_iff)
  then show "mesh l' = mesh l" and "tensor_map l' = Some tm" and "partial l' = partial l"
    and "alias_tensor_map l' = Some (map (alias_of names) tm)" by blast+
qed

lemma called_layout:
  assumes "call_with_aliases (map (alias_of names) tm) (layout_from_mesh dm) = Inr out"
    and "mesh_dim_names dm = Some names" and "names_ok names" and "length names = length (mesh_shape dm)"
    and "\<forall>n \<in> set (mesh_shape dm). 0 < n" and "dims_in names (concat (map mapped_dims tm))"
  shows "layout_ok out names tm" and "mesh out = dm" and "partial out = replicate (length names) None"
proof -
  let ?l = "reset_state (layout_from_mesh dm)"
  have m: "mesh ?l = dm" "partial ?l = replicate (length names) None"
    using assms(4) by (simp_all add: reset_state_def layout_from_mesh_def mesh_sizes_def)
  have step: "(\<lambda>ele (tm, written). case (ele, Some names) of
      (AxisName item, ns) \<Rightarrow>
        if item \<noteq> ''None'' \<and> ns = None then Inl TypeError
        else bind_res (alias_axis (case ns of None \<Rightarrow> [] | Some ns \<Rightarrow> ns) item written) (\<lambda>(m, written).
          Inr (tm @ [One m], written))
    | (AxisNames items, ns) \<Rightarrow>
        if (\<exists>item \<in> set items. item \<noteq> ''None'') \<and> ns = None then Inl TypeError
        else bind_res (for_res (\<lambda>item (ms, written).
            bind_res (alias_axis (case ns of None \<Rightarrow> [] | Some ns \<Rightarrow> ns) item written) (\<lambda>(m, written).
              Inr (ms @ [m], written))) items ([], written)) (\<lambda>(ms, written).
          Inr (tm @ [Many ms], written))) = alias_step names"
    by (intro ext) (auto simp: alias_step_def split: alias_entry.splits)
  from assms(1) obtain tm' w where
    "for_res (alias_step names) (map (alias_of names) tm) ([], []) = Inr (tm', w)" and
    place: "bind_res (tensor_map_to_placement (?l\<lparr>alias_tensor_map := Some (map (alias_of names) tm), tensor_map := Some tm'\<rparr>))
        (\<lambda>(ps, l). Inr l) = Inr out"
    unfolding call_with_aliases_def process_alias_layout_def m(1) assms(2) step by (auto simp: bind_res_Inr_iff)
  from alias_entries [OF assms(3,6) this(1)]
  have tm': "tm' = tm" and dist: "distinct (map (name_of names) (filter (\<lambda>m. m \<noteq> -1) (concat (map mapped_dims tm))))" by auto
  from place [unfolded tm'] obtain ps where
    ps: "tensor_map_to_placement (?l\<lparr>alias_tensor_map := Some (map (alias_of names) tm), tensor_map := Some tm\<rparr>) = Inr (ps, out)"
    by (auto simp: bind_res_Inr_iff)
  note keeps = to_placement_keeps [OF ps _ _ assms(6)]
  show mesh: "mesh out = dm" and parts: "partial out = replicate (length names) None"
    using keeps m assms(2) by simp_all
  let ?n = "int (length (mesh_shape dm))"
  have "concat (map (axes_of ?n) tm) = map (\<lambda>m. ?n - m - 1) (filter (\<lambda>m. m \<noteq> -1) (concat (map mapped_dims tm)))"
    by (induction tm) (simp_all add: axes_of_def)
  moreover have "distinct (filter (\<lambda>m. m \<noteq> -1) (concat (map mapped_dims tm)))" using dist by (simp add: distinct_map)
  ultimately have "distinct (concat (map (axes_of ?n) tm))" by (simp add: distinct_map inj_on_def)
  then have "well_mapped (mesh_shape dm) tm"
    using assms(4,5,6) by (auto simp: well_mapped_def dims_in_def)
  then show "layout_ok out names tm"
    using keeps m assms(2,3,4) mesh parts by (simp add: layout_ok_def mesh_sizes_def)
qed

section \<open>Setting the partial state\<close>

lemma set_partial_keeps:
  assumes "set_partial_by_dev_axis axis op l = Inr l'" and "layout_ok l names tm"
  shows "layout_ok l' names tm" and "mesh l' = mesh l"
    and "\<exists>i < length names. names ! i = axis \<and> partial l' = (partial l)[i := op]"
    and "axis \<notin> name_of names ` (set (concat (map mapped_dims tm)) - {-1})"
proof -
  note ok = assms(2) [unfolded layout_ok_def]
  from assms(1) obtain i partials ps where shard: "is_dev_axis_apply_shard l axis = Inr False"
    and i: "axis_index (mesh l) axis = Inr i" and p: "py_set (partial l) i op = Inr partials"
    and ps: "tensor_map_to_placement (l\<lparr>partial := partials\<rparr>) = Inr (ps, l')"
    by (auto simp: set_partial_by_dev_axis_def bind_res_Inr_iff split: if_splits)
  have "axis \<in> set names" and idx: "py_index names axis = Inr i"
    using i ok by (auto simp: axis_index_def assert_axis_def bind_res_Inr_iff split: if_splits)
  with py_index_mem [of axis names] have i_in: "0 \<le> i" "i < int (length names)" "names ! nat i = axis" by auto
  then have partials: "partials = (partial l)[nat i := op]" using p ok by simp
  note keeps = to_placement_keeps [OF ps, of tm names]
  show mesh: "mesh l' = mesh l" using keeps ok layout_ok_dims [OF assms(2)] by simp
  show "layout_ok l' names tm"
    using keeps ok layout_ok_dims [OF assms(2)] mesh partials by (simp add: layout_ok_def mesh_sizes_def)
  show "\<exists>i < length names. names ! i = axis \<and> partial l' = (partial l)[i := op]"
    using keeps ok layout_ok_dims [OF assms(2)] partials i_in by (intro exI [of _ "nat i"]) auto
  have id: "axis_id (mesh l) axis = Inr (int (length names) - i - 1)"
    using i ok i_in \<open>axis \<in> set names\<close> by (auto simp: axis_id_def names_ok_def mesh_sizes_def)
  have free: "int (length names) - i - 1 \<notin> set (concat (map mapped_dims tm))"
    using shard id ok by (simp add: is_dev_axis_apply_shard_def)
  show "axis \<notin> name_of names ` (set (concat (map mapped_dims tm)) - {-1})"
  proof
    assume "axis \<in> name_of names ` (set (concat (map mapped_dims tm)) - {-1})"
    then obtain m where m: "axis = name_of names m" "m \<in> set (concat (map mapped_dims tm))" "m \<noteq> -1" by blast
    with layout_ok_dims [OF assms(2)] have "0 \<le> m" "m < int (length names)" unfolding dims_in_def by auto
    with index_of_name [of names m] idx m(1) ok have "i = int (length names) - 1 - m" by simp
    with free m(2) show False by (simp add: algebra_simps)
  qed
qed

end
