(* ===== verification/Slice_Areas.thy ===== *)
theory Slice_Areas
  imports Mesh_Axes
begin

text \<open>
  The slice of a coordinate in closed form: one interval per tensor dimension, cut from the full
  dimension along the mesh axes of its entry, and the equality with \<open>infer_slice_area_by_rank\<close>. The
  proofs about the operator rules compute with these intervals.
\<close>

definition held_of :: "int list \<Rightarrow> int set \<Rightarrow> (int \<Rightarrow> int) \<Rightarrow> dim_map \<Rightarrow> int \<Rightarrow> int \<times> int" where
  "held_of sizes u f e n = fold (cut_along sizes u f) (axes_of (int (length sizes)) e) (0, n)"

lemma held_none [simp]: "held_of sizes u f (One (-1)) n = (0, n)"
  by (simp add: held_of_def axes_of_def)

definition areas :: "int list \<Rightarrow> int set \<Rightarrow> (int \<Rightarrow> int) \<Rightarrow> int list \<Rightarrow> dim_map list \<Rightarrow> (int \<times> int) list" where
  "areas sizes u f ns es = map2 (\<lambda>n e. held_of sizes u f e n) ns es"

lemma areas_simps [simp]:
  "areas sizes u f [] es = []"
  "areas sizes u f (n # ns) (e # es) = held_of sizes u f e n # areas sizes u f ns es"
  by (simp_all add: areas_def)

lemma slice_areas:
  assumes "well_mapped sizes tm" and "length tm = length dims"
    and "calculate_mesh_coordinate_for_rank sizes r = Inr coordinate" and "length coordinate = length sizes"
  shows "infer_slice_area_by_rank sizes tm r dims uneven =
    Inr (areas sizes (set (case uneven of None \<Rightarrow> [] | Some ds \<Rightarrow> ds)) (\<lambda>a. coordinate ! nat a) dims tm)"
proof -
  from slice_area_eq [OF assms refl, of uneven] obtain area where
    "infer_slice_area_by_rank sizes tm r dims uneven = Inr area" and len: "length area = length dims" and
    nth: "\<forall>j < length dims. area ! j = fold (cut_along sizes (set (case uneven of None \<Rightarrow> [] | Some ds \<Rightarrow> ds))
      (\<lambda>a. coordinate ! nat a)) (axes_of (int (length sizes)) (tm ! j)) (0, dims ! j)" by blast
  moreover have "area = areas sizes (set (case uneven of None \<Rightarrow> [] | Some ds \<Rightarrow> ds)) (\<lambda>a. coordinate ! nat a) dims tm"
    unfolding areas_def by (rule nth_equalityI) (use assms(2) len nth in \<open>simp_all add: held_of_def\<close>)
  ultimately show ?thesis by simp
qed

section \<open>Slices lie in the tensor\<close>

lemma held_inside:
  assumes "within i (held_of sizes u f e n)" and "0 \<le> n" and "on_axes sizes f"
    and "\<forall>a \<in> set (axes_of (int (length sizes)) e). 0 \<le> a \<and> a < int (length sizes)"
  shows "0 \<le> i \<and> i < n"
proof -
  have "within i sl" if "within i (fold (cut_along sizes u f) as sl)" "fst sl \<le> snd sl"
    "\<forall>a \<in> set as. 0 \<le> f a \<and> f a < sizes ! nat a" for as sl
    using that
  proof (induction as arbitrary: sl)
    case (Cons a as)
    let ?cut = "cut_along sizes u f a sl"
    have "fst ?cut \<le> snd ?cut"
      using chunk_of_rule(2) [of "snd sl - fst sl" "f a" "sizes ! nat a" u a] Cons.prems
      by (simp add: cut_along_def case_prod_beta)
    with Cons have "within i ?cut" by simp
    from cut_within(1) [OF this] Cons.prems show ?case by simp
  qed simp
  from this [of "axes_of (int (length sizes)) e" "(0, n)"] assms show ?thesis
    by (auto simp: held_of_def within_def on_axes_def)
qed

end
