(* ===== verification/Reshape_Sound.thy ===== *)
theory Reshape_Sound
  imports Reshape_Rule Layout_Calls Slice_Areas
begin

text \<open>
  What the layout rule of \<open>reshape\<close> promises: every rank keeps its elements. The elements of a slice
  are its flat indices in row-major order, the order of the local tensor's storage; the slice of the
  output layout has the flat indices of the input slice, in the same order, and the local shape the
  rule returns is the shape of that slice.
\<close>

section \<open>The flat indices of a slice\<close>

fun flat_indices :: "int list \<Rightarrow> (int \<times> int) list \<Rightarrow> int list" where
  "flat_indices (n # ns) ((a, b) # area) =
     concat (map (\<lambda>i. map (\<lambda>x. i * prod_list ns + x) (flat_indices ns area)) (py_range a b))"
| "flat_indices _ _ = [0]"

lemma flat_cong:
  "flat_indices ns area = flat_indices ms area' \<Longrightarrow> prod_list ns = prod_list ms \<Longrightarrow>
   flat_indices (n # ns) (I # area) = flat_indices (n' # ms) (I # area')"
  by (cases I) simp

lemma flat_unit: "flat_indices (1 # ns) ((0, 1) # area) = flat_indices ns area"
proof -
  have "(+) 0 = (id :: int \<Rightarrow> int)" by (rule ext) simp
  then show ?thesis by (simp add: py_range_Cons)
qed

text \<open>A dimension that is held in full merges into the one before it.\<close>

lemma blocks_range:
  "0 \<le> m \<Longrightarrow> concat (map (\<lambda>i. map (\<lambda>k. i * m + k) (py_range 0 m)) (py_range a b)) = py_range (a * m) (b * m)"
proof (induction "nat (b - a)" arbitrary: b)
  case 0
  then have "b * m \<le> a * m" by (intro mult_right_mono) auto
  with 0 show ?case by simp
next
  case (Suc k)
  then have ab: "a \<le> b - 1" and k: "k = nat (b - 1 - a)" by auto
  have block: "map (\<lambda>k. c + k) (py_range 0 m) = py_range c (c + m)" for c
    by (rule nth_equalityI) auto
  have "py_range a b = py_range a (b - 1) @ [b - 1]" using py_range_snoc [OF ab] by simp
  then have "concat (map (\<lambda>i. map (\<lambda>k. i * m + k) (py_range 0 m)) (py_range a b)) =
      py_range (a * m) ((b - 1) * m) @ py_range ((b - 1) * m) ((b - 1) * m + m)"
    using Suc.hyps(1) [OF k Suc.prems] block [of "(b - 1) * m"] by simp
  also have "\<dots> = py_range (a * m) ((b - 1) * m + m)"
    using ab Suc.prems by (intro py_range_append mult_right_mono) auto
  also have "(b - 1) * m + m = b * m" by (simp add: algebra_simps)
  finally show ?case .
qed

lemma flat_merge:
  assumes "0 \<le> m"
  shows "flat_indices (n # m # ns) ((a, b) # (0, m) # area) = flat_indices (n' # ns) ((a * m, b * m) # area)"
proof -
  let ?xs = "flat_indices ns area"
  have split: "map (\<lambda>x. i * prod_list (m # ns) + x) (concat (map (\<lambda>k. map (\<lambda>x. k * prod_list ns + x) ?xs) (py_range 0 m))) =
      concat (map (\<lambda>j. map (\<lambda>x. j * prod_list ns + x) ?xs) (map (\<lambda>k. i * m + k) (py_range 0 m)))" for i
    by (simp add: map_concat comp_def algebra_simps)
  have nest: "concat (map (\<lambda>i. concat (map g (f i))) is) = concat (map g (concat (map f is)))"
    for g :: "int \<Rightarrow> int list" and f :: "int \<Rightarrow> int list" and "is" :: "int list"
    by (induction "is") simp_all
  have "flat_indices (n # m # ns) ((a, b) # (0, m) # area) =
      concat (map (\<lambda>i. concat (map (\<lambda>j. map (\<lambda>x. j * prod_list ns + x) ?xs) (map (\<lambda>k. i * m + k) (py_range 0 m)))) (py_range a b))"
    unfolding flat_indices.simps(1) by (simp only: split)
  also have "\<dots> = concat (map (\<lambda>j. map (\<lambda>x. j * prod_list ns + x) ?xs) (py_range (a * m) (b * m)))"
    unfolding nest blocks_range [OF assms] by simp
  finally show ?thesis by simp
qed

section \<open>Intervals of an entry\<close>

definition shards_of :: "int list \<Rightarrow> dim_map \<Rightarrow> int" where
  "shards_of sizes e = (\<Prod>a\<leftarrow>axes_of (int (length sizes)) e. sizes ! nat a)"

text \<open>An entry of a filtered map: mesh dimensions in range, and -1 only on its own.\<close>

definition plain_entry :: "int list \<Rightarrow> dim_map \<Rightarrow> bool" where
  "plain_entry sizes e \<longleftrightarrow>
     (case e of One m \<Rightarrow> m = -1 \<or> 0 \<le> m \<and> m < int (length sizes)
      | Many ms \<Rightarrow> \<forall>m \<in> set ms. 0 \<le> m \<and> m < int (length sizes))"

lemma plain_range:
  "plain_entry sizes e \<Longrightarrow> m \<in> set (mapped_dims e) \<Longrightarrow> m = -1 \<or> 0 \<le> m \<and> m < int (length sizes)"
  by (cases e) (auto simp: plain_entry_def)

lemma plain_axes:
  "plain_entry sizes e \<Longrightarrow> a \<in> set (axes_of (int (length sizes)) e) \<Longrightarrow> 0 \<le> a \<and> a < int (length sizes)"
  using plain_range by (fastforce simp: axes_of_def)

lemma shards_none [simp]: "shards_of sizes (One (-1)) = 1"
  by (simp add: shards_of_def axes_of_def)

lemma cut_scale:
  assumes "0 \<le> f a" and "f a < sizes ! nat a" and "fst sl \<le> snd sl" and "sizes ! nat a dvd chunk_size sl" and "0 \<le> m"
  shows "cut_along sizes u f a (fst sl * m, snd sl * m) =
    (fst (cut_along sizes u f a sl) * m, snd (cut_along sizes u f a sl) * m)"
proof -
  let ?c = "sizes ! nat a"
  obtain q where q: "snd sl - fst sl = ?c * q" using assms(4) by (auto simp: chunk_size_def elim: dvdE)
  have c: "0 < ?c" using assms(1,2) by simp
  with q assms(3) have q0: "0 \<le> q" by (smt (verit) mult_pos_neg)
  have even: "chunk_of u a (?c * k) ?c (f a) = (f a * k, f a * k + k)" if "0 \<le> k" for k
  proof -
    have "(?c * k + (?c - 1)) div ?c = k + (?c - 1) div ?c" using c by (simp add: div_plus_div_distrib_dvd_left)
    then have up: "(?c * k + ?c - 1) div ?c = k" using c by (simp add: algebra_simps)
    have "f a * k + k \<le> ?c * k" using mult_right_mono [of "f a + 1" ?c k] assms(2) that by (simp add: algebra_simps)
    with up c assms(1) that show ?thesis
      by (simp add: chunk_of_def ceil_range_def balanced_range_def Let_def)
  qed
  have "snd sl * m - fst sl * m = ?c * (q * m)" using q by (simp add: algebra_simps flip: left_diff_distrib)
  then show ?thesis
    using even [OF q0] even [of "q * m"] q0 assms(5) q by (simp add: cut_along_def case_prod_beta algebra_simps)
qed

lemma cuts_scale:
  assumes "\<forall>a \<in> set as. 0 \<le> f a \<and> f a < sizes ! nat a"
    and "fst sl \<le> snd sl" and "(\<Prod>a\<leftarrow>as. sizes ! nat a) dvd chunk_size sl" and "0 \<le> m"
  shows "fold (cut_along sizes u f) as (fst sl * m, snd sl * m) =
    (fst (fold (cut_along sizes u f) as sl) * m, snd (fold (cut_along sizes u f) as sl) * m)"
  using assms
proof (induction as arbitrary: sl)
  case (Cons a as)
  let ?n = "sizes ! nat a" and ?P = "\<Prod>a\<leftarrow>as. sizes ! nat a"
  have a: "0 \<le> f a" "f a < ?n" using Cons.prems(1) by auto
  have dvd: "?n dvd chunk_size sl" using Cons.prems(3) by (simp add: dvd_mult_left)
  have one: "chunk_size (cut_along sizes u f a sl) * ?n = chunk_size sl"
    using cuts_even [of "[a]" f sizes sl u] a dvd Cons.prems(2) by simp
  have "?P * ?n dvd chunk_size (cut_along sizes u f a sl) * ?n"
    unfolding one using Cons.prems(3) by (simp add: mult.commute)
  then have "?P dvd chunk_size (cut_along sizes u f a sl)" using a by simp
  moreover have "fst (cut_along sizes u f a sl) \<le> snd (cut_along sizes u f a sl)"
  proof (rule ccontr)
    assume "\<not> ?thesis"
    then have "chunk_size (cut_along sizes u f a sl) * ?n < 0" using a by (simp add: chunk_size_def mult_neg_pos)
    with one Cons.prems(2) show False by (simp add: chunk_size_def)
  qed
  moreover have "\<forall>a \<in> set as. 0 \<le> f a \<and> f a < sizes ! nat a" using Cons.prems(1) by simp
  ultimately have "fold (cut_along sizes u f) as
      (fst (cut_along sizes u f a sl) * m, snd (cut_along sizes u f a sl) * m) =
      (fst (fold (cut_along sizes u f) as (cut_along sizes u f a sl)) * m,
       snd (fold (cut_along sizes u f) as (cut_along sizes u f a sl)) * m)"
    using Cons.prems(4) by (intro Cons.IH)
  then show ?case
    by (simp only: fold.simps comp_apply cut_scale [where f = f and a = a and u = u, OF a Cons.prems(2) dvd Cons.prems(4)])
qed simp

lemma cut_unit:
  assumes "sizes ! nat a = 1" and "0 \<le> f a" and "f a < sizes ! nat a" and "fst sl \<le> snd sl"
  shows "cut_along sizes u f a sl = sl"
proof -
  have "f a = 0" using assms by simp
  with assms show ?thesis by (cases sl) (simp add: cut_along_def chunk_of_def ceil_range_def balanced_range_def Let_def)
qed

text \<open>Mesh dimensions of size 1 cut nothing.\<close>

lemma cuts_filter:
  assumes "\<forall>a \<in> set as. 0 \<le> f a \<and> f a < sizes ! nat a"
    and "fst sl \<le> snd sl"
  shows "fold (cut_along sizes u f) (filter (\<lambda>a. sizes ! nat a \<noteq> 1) as) sl = fold (cut_along sizes u f) as sl"
  using assms
proof (induction as arbitrary: sl)
  case (Cons a as)
  have "fst (cut_along sizes u f a sl) \<le> snd (cut_along sizes u f a sl)"
    using chunk_of_rule(2) [of "snd sl - fst sl" "f a" "sizes ! nat a" u a] Cons.prems
    by (simp add: cut_along_def case_prod_beta)
  with Cons show ?case by (simp add: cut_unit)
qed simp


definition ok_entry :: "int list \<Rightarrow> int \<Rightarrow> dim_map \<Rightarrow> bool" where
  "ok_entry sizes n e \<longleftrightarrow> plain_entry sizes e \<and> 0 < n \<and> shards_of sizes e dvd n"

lemma ok_none [simp]: "ok_entry sizes n (One (-1)) \<longleftrightarrow> 0 < n"
  by (simp add: ok_entry_def plain_entry_def)

lemma held_scale:
  assumes "on_axes sizes f" and "ok_entry sizes n e" and "0 \<le> m"
  shows "held_of sizes u f e (n * m) = (fst (held_of sizes u f e n) * m, snd (held_of sizes u f e n) * m)"
proof -
  have "\<forall>a \<in> set (axes_of (int (length sizes)) e). 0 \<le> f a \<and> f a < sizes ! nat a"
    using assms(1) plain_axes [of sizes e] assms(2) by (auto simp: on_axes_def ok_entry_def)
  from cuts_scale [OF this, of "(0, n)" m u] assms(2,3) show ?thesis
    by (simp add: held_of_def ok_entry_def shards_of_def chunk_size_def)
qed

lemma factor_dvd: "a \<in> set as \<Longrightarrow> g a dvd (\<Prod>a\<leftarrow>as. g a :: int)"
  by (induction as) auto

lemma held_unit:
  assumes "on_axes sizes f" and "ok_entry sizes 1 e"
  shows "held_of sizes u f e 1 = (0, 1)"
proof -
  have axes: "\<forall>a \<in> set (axes_of (int (length sizes)) e). 0 \<le> f a \<and> f a < sizes ! nat a"
    using assms(1) plain_axes [of sizes e] assms(2) by (auto simp: on_axes_def ok_entry_def)
  have "sizes ! nat a = 1" if "a \<in> set (axes_of (int (length sizes)) e)" for a
  proof -
    have "shards_of sizes e dvd 1" using assms(2) unfolding ok_entry_def by blast
    with factor_dvd [OF that, of "\<lambda>a. sizes ! nat a"] have "sizes ! nat a dvd 1"
      unfolding shards_of_def by (rule dvd_trans)
    moreover have "0 < sizes ! nat a" using axes that by force
    ultimately show ?thesis by simp
  qed
  then have "filter (\<lambda>a. sizes ! nat a \<noteq> 1) (axes_of (int (length sizes)) e) = []" by (simp add: filter_empty_conv)
  with cuts_filter [OF axes, of "(0, 1)" u] show ?thesis by (simp add: held_of_def)
qed

section \<open>Merging the dimensions that are held in full\<close>

definition merge_inv ::
    "int list \<Rightarrow> int set \<Rightarrow> (int \<Rightarrow> int) \<Rightarrow> int list \<Rightarrow> dim_map list \<Rightarrow> nat \<Rightarrow> int \<times> int list \<times> dim_map list \<Rightarrow> bool" where
  "merge_inv sizes u f dims tmap k st \<longleftrightarrow>
     (case st of (ms, Ms, Es) \<Rightarrow>
        0 < ms \<and> list_all2 (ok_entry sizes) Ms Es \<and> ms * prod_list Ms = prod_list (drop k dims) \<and>
        (k < length dims \<and> tmap ! k \<noteq> One (-1) \<longrightarrow> ms = 1) \<and>
        flat_indices (drop k dims) (areas sizes u f (drop k dims) (drop k tmap)) =
          flat_indices (ms # Ms) ((0, ms) # areas sizes u f Ms Es))"

lemma merge_step_inv:
  assumes "on_axes sizes f" and "list_all2 (ok_entry sizes) dims tmap"
    and "k < length dims" and "merge_inv sizes u f dims tmap (Suc k) st"
  shows "\<exists>st'. merge_step dims tmap (int k) st = Inr st' \<and> merge_inv sizes u f dims tmap k st'"
proof -
  obtain ms Ms Es where st: "st = (ms, Ms, Es)" by (cases st)
  let ?n = "dims ! k" and ?e = "tmap ! k"
  note inv = assms(4) [unfolded merge_inv_def st prod.case]
  have len: "length tmap = length dims" using assms(2) by (simp add: list_all2_lengthD)
  have ok: "ok_entry sizes ?n ?e" using assms(2,3) by (simp add: list_all2_nthD)
  have drop: "drop k dims = ?n # drop (Suc k) dims" "drop k tmap = ?e # drop (Suc k) tmap"
    using assms(3) len by (simp_all add: Cons_nth_drop_Suc)
  have prod: "(ms * ?n) * prod_list Ms = prod_list (drop k dims)" using inv drop(1) by (simp add: ac_simps)
  let ?I = "held_of sizes u f ?e ?n"
  have "flat_indices (drop k dims) (areas sizes u f (drop k dims) (drop k tmap)) =
      flat_indices (?n # ms # Ms) (?I # (0, ms) # areas sizes u f Ms Es)"
    unfolding drop areas_simps by (rule flat_cong) (use inv in simp_all)
  also have "\<dots> = flat_indices (ms * ?n # Ms) ((fst ?I * ms, snd ?I * ms) # areas sizes u f Ms Es)"
    using flat_merge [of ms ?n Ms "fst ?I" "snd ?I" "areas sizes u f Ms Es" "ms * ?n"] inv by simp
  also have "(fst ?I * ms, snd ?I * ms) = held_of sizes u f ?e (ms * ?n)"
    using held_scale [OF assms(1) ok, of ms u] inv by (simp add: mult.commute)
  finally have flat: "flat_indices (drop k dims) (areas sizes u f (drop k dims) (drop k tmap)) =
      flat_indices (ms * ?n # Ms) (held_of sizes u f ?e (ms * ?n) # areas sizes u f Ms Es)" .
  have pos: "0 < ms * ?n" using ok inv by (simp add: ok_entry_def)
  have ok': "ok_entry sizes (ms * ?n) ?e" using ok pos by (simp add: ok_entry_def)
  show ?thesis
  proof (cases "?e = One (-1)")
    case True
    have "merge_step dims tmap (int k) st = Inr (ms * ?n, Ms, Es)"
      using assms(3) len True by (simp add: merge_step_def st)
    moreover have "merge_inv sizes u f dims tmap k (ms * ?n, Ms, Es)"
      using inv pos prod flat True by (simp add: merge_inv_def)
    ultimately show ?thesis by blast
  next
    case False
    have "merge_step dims tmap (int k) st = Inr (1, ms * ?n # Ms, ?e # Es)"
      using assms(3) len False by (simp add: merge_step_def st)
    moreover have "merge_inv sizes u f dims tmap k (1, ms * ?n # Ms, ?e # Es)"
      using inv ok' prod flat by (simp add: merge_inv_def flat_unit del: flat_indices.simps)
    ultimately show ?thesis by blast
  qed
qed

lemma merge_loop:
  assumes "on_axes sizes f" and "list_all2 (ok_entry sizes) dims tmap"
  shows "k \<le> length dims \<Longrightarrow> merge_inv sizes u f dims tmap k st \<Longrightarrow>
    \<exists>st'. for_res (merge_step dims tmap) (rev (py_range 0 (int k))) st = Inr st' \<and> merge_inv sizes u f dims tmap 0 st'"
proof (induction k arbitrary: st)
  case (Suc k)
  from merge_step_inv [OF assms _ Suc.prems(2)] Suc.prems(1)
  obtain st' where "merge_step dims tmap (int k) st = Inr st'" "merge_inv sizes u f dims tmap k st'" by auto
  moreover have "rev (py_range 0 (int (Suc k))) = int k # rev (py_range 0 (int k))"
    using py_range_snoc [of 0 "int k"] by (simp add: add.commute)
  ultimately show ?case using Suc.IH [of st'] Suc.prems(1) by simp
qed simp

lemma merged:
  assumes "on_axes sizes f" and "list_all2 (ok_entry sizes) dims tmap"
    and "merge_unshared_axis dims tmap = Inr (Ms, Es)"
  shows "list_all2 (ok_entry sizes) Ms Es" and "prod_list Ms = prod_list dims"
    and "flat_indices Ms (areas sizes u f Ms Es) = flat_indices dims (areas sizes u f dims tmap)"
proof -
  have "merge_inv sizes u f dims tmap (length dims) (1, [], [])"
    by (simp add: merge_inv_def py_range_Cons)
  from merge_loop [OF assms(1,2) le_refl this]
  obtain ms Ms' Es' where loop: "for_res (merge_step dims tmap) (rev (py_range 0 (int (length dims)))) (1, [], []) = Inr (ms, Ms', Es')"
    and inv: "merge_inv sizes u f dims tmap 0 (ms, Ms', Es')" by auto
  have "tmap \<noteq> []" using assms(3) loop by (auto simp: merge_unshared_axis_def py_nth_def)
  then have some: "py_nth tmap 0 = Inr (tmap ! 0)" "0 < length dims"
    using assms(2) by (auto simp: list_all2_lengthD py_nth_def list_all2_Cons2)
  note inv = inv [unfolded merge_inv_def prod.case drop_0]
  have "list_all2 (ok_entry sizes) Ms Es \<and> prod_list Ms = prod_list dims \<and>
    flat_indices Ms (areas sizes u f Ms Es) = flat_indices dims (areas sizes u f dims tmap)"
  proof (cases "tmap ! 0 = One (-1)")
    case True
    with assms(3) loop some have "Ms = ms # Ms'" "Es = One (-1) # Es'" by (simp_all add: merge_unshared_axis_def)
    with inv show ?thesis by simp
  next
    case False
    with assms(3) loop some have "Ms = Ms'" "Es = Es'" by (simp_all add: merge_unshared_axis_def)
    moreover have "ms = 1" using inv some(2) False by blast
    ultimately show ?thesis using inv by (auto simp: flat_unit simp del: flat_indices.simps)
  qed
  then show "list_all2 (ok_entry sizes) Ms Es" and "prod_list Ms = prod_list dims"
    and "flat_indices Ms (areas sizes u f Ms Es) = flat_indices dims (areas sizes u f dims tmap)" by blast+
qed

section \<open>Reading the target shape off the groups\<close>

text \<open>
  Inside a group of size \<open>Ms ! i\<close>: \<open>c\<close> is left to be split, the dimensions \<open>ds\<close> of the target are done.
\<close>

definition group_inv ::
    "int list \<Rightarrow> int set \<Rightarrow> (int \<Rightarrow> int) \<Rightarrow> int list \<Rightarrow> dim_map list \<Rightarrow> nat \<Rightarrow> int \<Rightarrow> int list \<Rightarrow> dim_map list \<Rightarrow> bool" where
  "group_inv sizes u f Ms Es i c ds out \<longleftrightarrow>
     (\<exists>q. 0 < c \<and> 0 < q \<and> c * q = Ms ! i \<and> (c = 1 \<longrightarrow> q = 1) \<and> prod_list ds = q * prod_list (drop (Suc i) Ms) \<and>
        (\<forall>a b. flat_indices (c # ds) ((a, b) # areas sizes u f ds out) =
           flat_indices (drop i Ms) ((a * q, b * q) # areas sizes u f (drop (Suc i) Ms) (drop (Suc i) Es))))"

lemma group_open:
  assumes "group_inv sizes u f Ms Es i c ds out" and "c mod d = 0" and "c div d \<noteq> 1" and "0 < d"
  shows "group_inv sizes u f Ms Es i (c div d) (d # ds) (One (-1) # out)"
proof -
  obtain q where c: "0 < c" and q: "0 < q" "c * q = Ms ! i" "prod_list ds = q * prod_list (drop (Suc i) Ms)"
    and flat: "\<And>a b. flat_indices (c # ds) ((a, b) # areas sizes u f ds out) =
       flat_indices (drop i Ms) ((a * q, b * q) # areas sizes u f (drop (Suc i) Ms) (drop (Suc i) Es))"
    using assms(1) unfolding group_inv_def by blast
  have cd: "c div d * d = c" using assms(2) by auto
  then have pos: "0 < c div d" using c assms(4) by (metis zero_less_mult_pos2)
  have "flat_indices (c div d # d # ds) ((a, b) # areas sizes u f (d # ds) (One (-1) # out)) =
      flat_indices (drop i Ms) ((a * (d * q), b * (d * q)) # areas sizes u f (drop (Suc i) Ms) (drop (Suc i) Es))" for a b
  proof -
    have "flat_indices (c div d # d # ds) ((a, b) # areas sizes u f (d # ds) (One (-1) # out)) =
        flat_indices (c # ds) ((a * d, b * d) # areas sizes u f ds out)"
      using flat_merge [of d "c div d" ds a b "areas sizes u f ds out" c] assms(4) by simp
    then show ?thesis using flat [of "a * d" "b * d"] by (simp only: mult.assoc)
  qed
  moreover have "c div d * (d * q) = Ms ! i" using cd q(2) by (simp flip: mult.assoc)
  moreover have "prod_list (d # ds) = d * q * prod_list (drop (Suc i) Ms)" using q(3) by simp
  ultimately show ?thesis
    unfolding group_inv_def using pos q(1) assms(3,4) by (intro exI [of _ "d * q"]) (simp del: flat_indices.simps)
qed

lemma group_close:
  assumes "group_inv sizes u f Ms Es i c ds out" and "on_axes sizes f" and "ok_entry sizes c (Es ! i)"
    and "i < length Ms" and "length Es = length Ms"
  shows "flat_indices (c # ds) (areas sizes u f (c # ds) (Es ! i # out)) =
      flat_indices (drop i Ms) (areas sizes u f (drop i Ms) (drop i Es))"
    and "prod_list (c # ds) = prod_list (drop i Ms)"
proof -
  obtain q where c: "0 < c" and q: "0 < q" "c * q = Ms ! i" "prod_list ds = q * prod_list (drop (Suc i) Ms)"
    and flat: "\<And>a b. flat_indices (c # ds) ((a, b) # areas sizes u f ds out) =
       flat_indices (drop i Ms) ((a * q, b * q) # areas sizes u f (drop (Suc i) Ms) (drop (Suc i) Es))"
    using assms(1) unfolding group_inv_def by blast
  have drop: "drop i Ms = Ms ! i # drop (Suc i) Ms" "drop i Es = Es ! i # drop (Suc i) Es"
    using assms(4,5) by (simp_all add: Cons_nth_drop_Suc)
  have head: "held_of sizes u f (Es ! i) (Ms ! i) =
      (fst (held_of sizes u f (Es ! i) c) * q, snd (held_of sizes u f (Es ! i) c) * q)"
    using held_scale [OF assms(2,3), of q u] q by simp
  show "flat_indices (c # ds) (areas sizes u f (c # ds) (Es ! i # out)) =
      flat_indices (drop i Ms) (areas sizes u f (drop i Ms) (drop i Es))"
    using flat [of "fst (held_of sizes u f (Es ! i) c)" "snd (held_of sizes u f (Es ! i) c)"]
    unfolding drop(2) by (simp add: drop(1) head del: flat_indices.simps)
  show "prod_list (c # ds) = prod_list (drop i Ms)" using drop(1) q by (simp flip: mult.assoc)
qed

lemma group_next:
  assumes "flat_indices ds (areas sizes u f ds out) = flat_indices (drop (Suc i) Ms) (areas sizes u f (drop (Suc i) Ms) (drop (Suc i) Es))"
    and "prod_list ds = prod_list (drop (Suc i) Ms)" and "i < length Ms" and "0 < Ms ! i"
  shows "group_inv sizes u f Ms Es i (Ms ! i) ds out"
proof -
  have "drop i Ms = Ms ! i # drop (Suc i) Ms" using assms(3) by (simp add: Cons_nth_drop_Suc)
  with flat_cong [OF assms(1,2)] assms(2,4) show ?thesis
    unfolding group_inv_def by (intro exI [of _ 1]) (simp del: flat_indices.simps)
qed

lemma prod_one:
  "\<forall>n \<in> set ns. 0 < (n :: int) \<Longrightarrow> prod_list ns * c = 1 \<Longrightarrow> 0 < c \<Longrightarrow> c = 1 \<and> (\<forall>n \<in> set ns. n = 1)"
proof (induction ns)
  case (Cons n ns)
  from Cons.prems(1) have pos: "0 < n" "0 < prod_list ns" by (simp_all add: prod_list_pos)
  with Cons.prems(2,3) have "n * (prod_list ns * c) = 1" by (simp add: ac_simps)
  then have "n = 1" using pos by (simp add: zmult_eq_1_iff)
  with Cons show ?case by simp
qed simp

lemma flat_ones:
  assumes "on_axes sizes f" and "list_all2 (ok_entry sizes) Ms Es" and "\<forall>n \<in> set (take i Ms). n = 1"
  shows "flat_indices Ms (areas sizes u f Ms Es) = flat_indices (drop i Ms) (areas sizes u f (drop i Ms) (drop i Es))"
  using assms(2,3)
proof (induction Ms Es arbitrary: i rule: list_all2_induct)
  case (Cons n Ms e Es)
  show ?case
  proof (cases i)
    case (Suc j)
    with Cons.prems Cons.hyps(1) have "n = 1" "ok_entry sizes 1 e" "\<forall>n \<in> set (take j Ms). n = 1" by auto
    with Cons.IH [of j] Suc show ?thesis by (simp add: held_unit [OF assms(1)] flat_unit del: flat_indices.simps)
  qed simp
qed simp

lemma group_finish:
  assumes "group_inv sizes u f Ms Es i c ds out" and "on_axes sizes f" and "list_all2 (ok_entry sizes) Ms Es"
    and "i < length Ms" and "prod_list ds = prod_list Ms"
  shows "flat_indices ds (areas sizes u f ds out) = flat_indices Ms (areas sizes u f Ms Es)"
proof -
  obtain q where c: "0 < c" and q: "0 < q" "c * q = Ms ! i" "c = 1 \<longrightarrow> q = 1" "prod_list ds = q * prod_list (drop (Suc i) Ms)"
    and flat: "\<And>a b. flat_indices (c # ds) ((a, b) # areas sizes u f ds out) =
       flat_indices (drop i Ms) ((a * q, b * q) # areas sizes u f (drop (Suc i) Ms) (drop (Suc i) Es))"
    using assms(1) unfolding group_inv_def by blast
  have len: "length Es = length Ms" using assms(3) by (simp add: list_all2_lengthD)
  have pos: "\<forall>n \<in> set Ms. 0 < n" using assms(3) by (auto simp: list_all2_conv_all_nth in_set_conv_nth ok_entry_def)
  have drop: "drop i Ms = Ms ! i # drop (Suc i) Ms" "drop i Es = Es ! i # drop (Suc i) Es"
    using assms(4) len by (simp_all add: Cons_nth_drop_Suc)
  have "q * prod_list (drop (Suc i) Ms) = prod_list Ms" using assms(5) q(4) by simp
  also have "\<dots> = prod_list (take i Ms) * prod_list (drop i Ms)"
    by (metis append_take_drop_id prod_list.append)
  also have "prod_list (drop i Ms) = c * q * prod_list (drop (Suc i) Ms)" using drop(1) q(2) by simp
  also have "prod_list (take i Ms) * (c * q * prod_list (drop (Suc i) Ms)) =
      (prod_list (take i Ms) * c) * (q * prod_list (drop (Suc i) Ms))" by (simp only: ac_simps)
  finally have "q * prod_list (drop (Suc i) Ms) = (prod_list (take i Ms) * c) * (q * prod_list (drop (Suc i) Ms))" .
  moreover have "0 < prod_list (drop (Suc i) Ms)" using pos by (intro prod_list_pos) (auto dest: in_set_dropD)
  ultimately have "prod_list (take i Ms) * c = 1" using q(1) by simp
  with prod_one [of "take i Ms" c] pos c have ones: "c = 1" "\<forall>n \<in> set (take i Ms). n = 1" by (auto dest: in_set_takeD)
  then have one: "q = 1" "Ms ! i = 1" using q by simp_all
  then have "ok_entry sizes 1 (Es ! i)" using list_all2_nthD [OF assms(3,4)] by simp
  then have "flat_indices (drop i Ms) (areas sizes u f (drop i Ms) (drop i Es)) =
      flat_indices (drop i Ms) ((0, 1) # areas sizes u f (drop (Suc i) Ms) (drop (Suc i) Es))"
    unfolding drop(2) using one(2) by (simp add: drop(1) held_unit [OF assms(2)] del: flat_indices.simps)
  also have "\<dots> = flat_indices ds (areas sizes u f ds out)"
    using flat [of 0 1] ones(1) one(1) by (simp add: flat_unit del: flat_indices.simps)
  finally show ?thesis using flat_ones [OF assms(2,3) ones(2), of u] by simp
qed

lemma entry_shards_plain:
  assumes "plain_entry sizes e" and "e \<noteq> One (-1)"
  shows "entry_shards sizes e = Inr (shards_of sizes e)"
proof -
  have loop: "for_res (\<lambda>axis n. bind_res (py_nth sizes (- axis - 1)) (\<lambda>m. Inr (n * m))) ms n =
      Inr (n * (\<Prod>m\<leftarrow>ms. sizes ! nat (int (length sizes) - m - 1)))"
    if "\<forall>m \<in> set ms. 0 \<le> m \<and> m < int (length sizes)" for ms n
    using that by (induction ms arbitrary: n) (simp_all add: py_nth_def mult.assoc algebra_simps)
  have dims: "\<forall>m \<in> set (mapped_dims e). 0 \<le> m \<and> m < int (length sizes)"
    using assms by (cases e) (auto simp: plain_entry_def)
  then have "filter (\<lambda>m. m \<noteq> -1) (mapped_dims e) = mapped_dims e" by (auto simp: filter_id_conv)
  then show ?thesis using loop [OF dims, of 1] by (simp add: entry_shards_def shards_of_def axes_of_def comp_def)
qed

lemma validated_entry:
  assumes "validate_reshape_shard e sizes d dynamic = Inr ()" and "0 < d" and "plain_entry sizes e" and "e \<noteq> One (-1)"
  shows "ok_entry sizes d e"
  using assms entry_shards_plain [OF assms(3,4)]
  by (auto simp: validate_reshape_shard_def ok_entry_def dvd_eq_mod_eq_0 split: if_splits)

lemma py_nth_set: "py_nth xs i = Inr x \<Longrightarrow> x \<in> set xs"
  by (auto simp: py_nth_def split: if_splits)

text \<open>
  The state of the loop: inside a group, or past the first one, where only dimensions of size 1 are left.
\<close>

definition loop_inv ::
    "int list \<Rightarrow> int set \<Rightarrow> (int \<Rightarrow> int) \<Rightarrow> int list \<Rightarrow> dim_map list \<Rightarrow> int \<Rightarrow> int \<Rightarrow> int list \<Rightarrow> dim_map list \<Rightarrow> bool" where
  "loop_inv sizes u f Ms Es cur c ds out \<longleftrightarrow> list_all2 (ok_entry sizes) ds out \<and>
     (if 0 \<le> cur then cur < int (length Ms) \<and> group_inv sizes u f Ms Es (nat cur) c ds out
      else flat_indices ds (areas sizes u f ds out) = flat_indices Ms (areas sizes u f Ms Es) \<and> prod_list ds = prod_list Ms)"

lemma loop_open:
  assumes "loop_inv sizes u f Ms Es cur c ds out" and "c mod d = 0" and "c div d \<noteq> 1" and "0 < d"
    and "cur < 0 \<Longrightarrow> d = 1"
  shows "loop_inv sizes u f Ms Es cur (c div d) (d # ds) (One (-1) # out)"
proof (cases "0 \<le> cur")
  case True
  with assms(1) have "group_inv sizes u f Ms Es (nat cur) c ds out" by (simp add: loop_inv_def)
  from group_open [OF this assms(2,3,4)] assms(1,4) True show ?thesis by (simp add: loop_inv_def)
next
  case False
  with assms show ?thesis by (simp add: loop_inv_def flat_unit del: flat_indices.simps)
qed

lemma loop_close:
  assumes inv: "loop_inv sizes u f Ms Es cur c ds out" and "c mod d = 0" and "c div d = 1" and "0 < d"
    and one: "cur < 0 \<Longrightarrow> d = 1" and e: "py_nth Es cur = Inr e" and ok: "ok_entry sizes d e"
    and axes: "on_axes sizes f" and oks: "list_all2 (ok_entry sizes) Ms Es"
    and nxt: "py_nth Ms (cur - 1) = Inr c'"
  shows "loop_inv sizes u f Ms Es (cur - 1) c' (d # ds) (e # out)"
proof -
  have "c = c div d * d + c mod d" by simp
  then have cd: "c = d" using assms(2,3) by simp
  have len: "length Es = length Ms" using oks by (simp add: list_all2_lengthD)
  have outs: "list_all2 (ok_entry sizes) (d # ds) (e # out)" using inv ok by (simp add: loop_inv_def)
  show ?thesis
  proof (cases "0 \<le> cur")
    case True
    then have cur: "nat cur < length Ms" "Es ! nat cur = e" and grp: "group_inv sizes u f Ms Es (nat cur) d ds out"
      using inv e len cd by (auto simp: loop_inv_def)
    note closed = group_close [OF grp axes _ cur(1) len, unfolded cur(2), OF ok]
    show ?thesis
    proof (cases "cur = 0")
      case True
      with outs closed show ?thesis by (simp add: loop_inv_def del: flat_indices.simps areas_simps)
    next
      case False
      with \<open>0 \<le> cur\<close> cur(1) have prev: "0 \<le> cur - 1" "Suc (nat (cur - 1)) = nat cur" "nat (cur - 1) < length Ms" "cur - 1 < int (length Ms)"
        by auto
      then have c': "c' = Ms ! nat (cur - 1)" using nxt by simp
      have "0 < c'" using list_all2_nthD [OF oks prev(3)] c' by (simp add: ok_entry_def)
      then have "group_inv sizes u f Ms Es (nat (cur - 1)) c' (d # ds) (e # out)"
        unfolding c' using closed prev(3) by (intro group_next) (simp_all only: prev(2))
      with outs prev show ?thesis unfolding loop_inv_def by presburger
    qed
  next
    case False
    with inv one ok show ?thesis
      using outs by (simp add: loop_inv_def held_unit [OF axes] flat_unit del: flat_indices.simps)
  qed
qed

lemma output_loop:
  assumes "output_map_loop Ms Es sizes dynamic dims cur c out = Inr res"
    and "loop_inv sizes u f Ms Es cur c ds out" and "\<forall>n \<in> set dims. 0 < n" and "prod_list dims * prod_list ds = prod_list Ms"
    and axes: "on_axes sizes f" and oks: "list_all2 (ok_entry sizes) Ms Es"
  shows "list_all2 (ok_entry sizes) (rev dims @ ds) res \<and>
    flat_indices (rev dims @ ds) (areas sizes u f (rev dims @ ds) res) = flat_indices Ms (areas sizes u f Ms Es)"
  using assms(1-4)
proof (induction dims arbitrary: cur c out ds)
  case Nil
  then have "res = out" "prod_list ds = prod_list Ms" by simp_all
  with Nil.prems(2) group_finish [OF _ axes oks, of u "nat cur" c ds out] show ?case
    by (cases "0 \<le> cur") (simp_all add: loop_inv_def nat_less_iff)
next
  case (Cons d dims)
  have pos: "0 < d" "\<forall>n \<in> set dims. 0 < n" using Cons.prems(3) by simp_all
  have prod: "prod_list dims * prod_list (d # ds) = prod_list Ms" using Cons.prems(4) by (simp add: ac_simps)
  have posM: "\<forall>n \<in> set Ms. 0 < n" using oks by (auto simp: list_all2_conv_all_nth in_set_conv_nth ok_entry_def)
  have one: "d = 1" if "cur < 0"
  proof -
    have "prod_list ds = prod_list Ms" using Cons.prems(2) that by (simp add: loop_inv_def)
    with Cons.prems(4) prod_list_pos [OF posM] have "prod_list dims * d = 1" by (simp add: ac_simps)
    with prod_one [OF pos(2)] pos(1) show ?thesis by blast
  qed
  have c: "c mod d = 0" using Cons.prems(1) by (auto split: if_splits)
  show ?case
  proof (cases "c div d = 1")
    case False
    have "output_map_loop Ms Es sizes dynamic dims cur (c div d) (One (-1) # out) = Inr res"
      using Cons.prems(1) pos(1) c False by simp
    from Cons.IH [OF this loop_open [OF Cons.prems(2) c False pos(1) one] pos(2) prod] show ?thesis by simp
  next
    case True
    with Cons.prems(1) pos(1) c obtain e c' where e: "py_nth Es cur = Inr e" and c': "py_nth Ms (cur - 1) = Inr c'"
      and v: "(if e \<noteq> One (-1) then validate_reshape_shard e sizes d dynamic else Inr ()) = Inr ()"
      and rest: "output_map_loop Ms Es sizes dynamic dims (cur - 1) c' (e # out) = Inr res"
      by (auto simp: bind_res_Inr_iff)
    have "plain_entry sizes e"
      using py_nth_set [OF e] oks by (auto simp: list_all2_conv_all_nth in_set_conv_nth ok_entry_def)
    then have "ok_entry sizes d e" using v pos(1) validated_entry [of e sizes d dynamic] by (cases "e = One (-1)") auto
    from Cons.IH [OF rest loop_close [OF Cons.prems(2) c True pos(1) one e this axes oks c'] pos(2) prod]
    show ?thesis by simp
  qed
qed

lemma output_map_sound:
  assumes "compute_output_tensor_map Ms Es dst sizes dynamic = Inr res"
    and "\<forall>n \<in> set dst. 0 < n" and "prod_list dst = prod_list Ms"
    and axes: "on_axes sizes f" and oks: "list_all2 (ok_entry sizes) Ms Es"
  shows "list_all2 (ok_entry sizes) dst res"
    and "flat_indices dst (areas sizes u f dst res) = flat_indices Ms (areas sizes u f Ms Es)"
proof -
  let ?i = "int (length Ms) - 1"
  have "Ms \<noteq> []" using assms(1) by (auto simp: compute_output_tensor_map_def Let_def py_nth_def)
  then have i: "0 \<le> ?i" "nat ?i < length Ms" "Suc (nat ?i) = length Ms" by (cases Ms; auto)+
  with assms(1) have loop: "output_map_loop Ms Es sizes dynamic (rev dst) ?i (Ms ! nat ?i) [] = Inr res"
    by (simp add: compute_output_tensor_map_def Let_def)
  have "0 < Ms ! nat ?i" using list_all2_nthD [OF oks i(2)] by (simp add: ok_entry_def)
  then have "group_inv sizes u f Ms Es (nat ?i) (Ms ! nat ?i) [] []"
    using i oks by (intro group_next) (auto simp: list_all2_lengthD)
  then have "loop_inv sizes u f Ms Es ?i (Ms ! nat ?i) [] []" using i by (simp add: loop_inv_def)
  from output_loop [OF loop this _ _ axes oks] assms(2,3)
  show "list_all2 (ok_entry sizes) dst res"
    and "flat_indices dst (areas sizes u f dst res) = flat_indices Ms (areas sizes u f Ms Es)"
    by (simp_all add: prod_list_rev)
qed

section \<open>The layouts\<close>

lemma filtered_entry:
  assumes "filter_entry sizes item = Inr e" and "plain_entry sizes item"
  shows "plain_entry sizes e"
    and "axes_of (int (length sizes)) e = filter (\<lambda>a. sizes ! nat a \<noteq> 1) (axes_of (int (length sizes)) item)"
proof -
  let ?n = "int (length sizes)" and ?big = "\<lambda>i. sizes ! nat (int (length sizes) - i - 1) \<noteq> 1"
  have nth: "py_nth sizes (-1 - i) = Inr (sizes ! nat (?n - i - 1))" if "0 \<le> i" "i < ?n" for i
    using that by (simp add: py_nth_def algebra_simps)
  have "plain_entry sizes e \<and> axes_of ?n e = filter (\<lambda>a. sizes ! nat a \<noteq> 1) (axes_of ?n item)"
  proof (cases item)
    case (One i)
    show ?thesis
    proof (cases "i = -1")
      case True
      with assms(1) One have "e = One (-1)" by (auto simp: filter_entry_def bind_res_Inr_iff split: if_splits)
      with One True show ?thesis by (simp add: plain_entry_def axes_of_def)
    next
      case False
      with assms(2) One have i: "0 \<le> i" "i < ?n" by (auto simp: plain_entry_def)
      with assms(1) One nth [OF i] False show ?thesis by (auto simp: filter_entry_def plain_entry_def axes_of_def)
    qed
  next
    case (Many ds)
    have loop: "for_res (\<lambda>i filtered. bind_res (py_nth sizes (-1 - i)) (\<lambda>n.
        Inr (if n \<noteq> 1 then filtered @ [i] else filtered))) ks acc = Inr (acc @ filter ?big ks)"
      if "\<forall>k \<in> set ks. 0 \<le> k \<and> k < ?n" for ks acc
      using that by (induction ks arbitrary: acc) (simp_all add: nth)
    have ds: "\<forall>k \<in> set ds. 0 \<le> k \<and> k < ?n" using assms(2) Many by (simp add: plain_entry_def)
    have e: "e = (case filter ?big ds of [] \<Rightarrow> One (-1) | [i] \<Rightarrow> One i | _ \<Rightarrow> Many (filter ?big ds))"
      using assms(1) Many loop [OF ds, of "[]"] by (simp add: filter_entry_def)
    define fs where "fs = filter ?big ds"
    have fs: "\<forall>k \<in> set fs. 0 \<le> k \<and> k < ?n" using ds by (simp add: fs_def)
    then have id: "filter (\<lambda>m. m \<noteq> -1) fs = fs" by (auto simp: filter_id_conv)
    have e': "e = (case fs of [] \<Rightarrow> One (-1) | [i] \<Rightarrow> One i | _ \<Rightarrow> Many fs)" unfolding fs_def by (rule e)
    have dims: "filter (\<lambda>m. m \<noteq> -1) (mapped_dims e) = filter ?big ds" "plain_entry sizes e"
      unfolding fs_def [symmetric] using fs id by (auto simp: e' plain_entry_def split: list.split)
    have "filter (\<lambda>m. m \<noteq> -1) ds = ds" using ds by (auto simp: filter_id_conv)
    then have "axes_of ?n e = filter (\<lambda>a. sizes ! nat a \<noteq> 1) (axes_of ?n item)"
      by (simp add: axes_of_def dims(1) Many filter_map comp_def)
    with dims(2) show ?thesis by blast
  qed
  then show "plain_entry sizes e"
    and "axes_of ?n e = filter (\<lambda>a. sizes ! nat a \<noteq> 1) (axes_of ?n item)" by blast+
qed

lemma filtered_same:
  assumes "filter_entry sizes item = Inr e" and "ok_entry sizes n item" and "on_axes sizes f"
  shows "ok_entry sizes n e" and "held_of sizes u f e n = held_of sizes u f item n"
proof -
  let ?as = "axes_of (int (length sizes)) item"
  have plain: "plain_entry sizes item" using assms(2) by (simp add: ok_entry_def)
  note e = filtered_entry [OF assms(1) plain]
  have "(\<Prod>a\<leftarrow>filter (\<lambda>a. sizes ! nat a \<noteq> 1) as. sizes ! nat a) = (\<Prod>a\<leftarrow>as. sizes ! nat a)" for as
    by (induction as) simp_all
  then have "shards_of sizes e = shards_of sizes item" by (simp add: shards_of_def e(2))
  then show "ok_entry sizes n e" using assms(2) e(1) by (simp add: ok_entry_def)
  have "\<forall>a \<in> set ?as. 0 \<le> f a \<and> f a < sizes ! nat a"
    using assms(3) plain_axes [OF plain] by (auto simp: on_axes_def)
  from cuts_filter [OF this, of "(0, n)" u] assms(2)
  show "held_of sizes u f e n = held_of sizes u f item n" by (simp add: held_of_def e(2) ok_entry_def)
qed

lemma filtered_map:
  assumes "filter_none_split_tensor_map tm sizes = Inr es" and "list_all2 (ok_entry sizes) dims tm" and "on_axes sizes f"
  shows "list_all2 (ok_entry sizes) dims es" and "areas sizes u f dims es = areas sizes u f dims tm"
proof -
  have len: "length es = length tm" and entry: "\<And>i. i < length tm \<Longrightarrow> filter_entry sizes (tm ! i) = Inr (es ! i)"
    using map_res_nth_Inr [OF assms(1) [unfolded filter_none_split_tensor_map_def]] by auto
  have dims: "length dims = length tm" using assms(2) by (simp add: list_all2_lengthD)
  have same: "ok_entry sizes (dims ! i) (es ! i)" "held_of sizes u f (es ! i) (dims ! i) = held_of sizes u f (tm ! i) (dims ! i)"
    if "i < length tm" for i
    using filtered_same [OF entry [OF that] _ assms(3)] list_all2_nthD [OF assms(2)] dims that by auto
  show "list_all2 (ok_entry sizes) dims es" using same(1) len dims by (simp add: list_all2_conv_all_nth)
  show "areas sizes u f dims es = areas sizes u f dims tm"
    unfolding areas_def by (rule nth_equalityI) (use same(2) len dims in simp_all)
qed

lemma output_entry_ok:
  assumes "ok_entry sizes n e" and "length names = length sizes" and "\<forall>n \<in> set sizes. 0 < n"
  shows "output_entry names sizes n e = Inr (alias_of names e, n div shards_of sizes e)"
proof -
  let ?n = "int (length sizes)"
  have n: "0 < n" using assms(1) by (simp add: ok_entry_def)
  have nth: "py_nth sizes (-1 - d) = Inr (sizes ! nat (?n - d - 1))" "py_nth names (-1 - d) = Inr (name_of names d)"
    "sizes ! nat (?n - d - 1) \<noteq> 0" if "0 \<le> d" "d < ?n" for d
  proof -
    have "nat (?n - d - 1) < length sizes" using that by auto
    then have "0 < sizes ! nat (?n - d - 1)" using assms(3) nth_mem by blast
    then show "sizes ! nat (?n - d - 1) \<noteq> 0" by simp
  qed (use that assms(2) in \<open>simp_all add: py_nth_def name_of_def algebra_simps\<close>)
  show ?thesis
  proof (cases e)
    case (One d)
    show ?thesis
    proof (cases "d = -1")
      case False
      then have d: "0 \<le> d" "d < ?n" using assms(1) One by (auto simp: ok_entry_def plain_entry_def)
      with nth [OF d] n One False show ?thesis by (simp add: output_entry_def shards_of_def axes_of_def)
    qed (use One n in \<open>simp add: output_entry_def name_of_def\<close>)
  next
    case (Many ds)
    then have ds: "\<forall>d \<in> set ds. 0 \<le> d \<and> d < ?n" using assms(1) by (simp add: ok_entry_def plain_entry_def)
    have idx: "map_res (\<lambda>d. py_nth names (-1 - d)) ds = Inr (map (name_of names) ds)"
      by (rule map_res_total) (use ds nth in blast)
    have "for_res (\<lambda>d shards. bind_res (py_nth sizes (-1 - d)) (\<lambda>m. Inr (shards * m))) ks k =
        Inr (k * (\<Prod>d\<leftarrow>ks. sizes ! nat (?n - d - 1)))" if "\<forall>d \<in> set ks. 0 \<le> d \<and> d < ?n" for ks k
      using that by (induction ks arbitrary: k) (simp_all add: nth mult.assoc)
    moreover have "filter (\<lambda>m. m \<noteq> -1) ds = ds" using ds by (auto simp: filter_id_conv)
    ultimately have loop: "for_res (\<lambda>d shards. bind_res (py_nth sizes (-1 - d)) (\<lambda>m. Inr (shards * m))) ds 1 = Inr (shards_of sizes e)"
      using ds Many by (simp add: shards_of_def axes_of_def comp_def)
    have "shards_of sizes e \<noteq> 0" using assms(1) by (auto simp: ok_entry_def)
    with idx loop n Many show ?thesis by (simp add: output_entry_def)
  qed
qed

lemma output_entries:
  assumes "cal_output_layout_and_dst_shape res dst names sizes = Inr (om, local_dst)"
    and "list_all2 (ok_entry sizes) dst res" and "length names = length sizes" and "\<forall>n \<in> set sizes. 0 < n"
  shows "om = map (alias_of names) res" and "local_dst = map2 (\<lambda>n e. n div shards_of sizes e) dst res"
proof -
  have len: "length dst = length res" using assms(2) by (simp add: list_all2_lengthD)
  from assms(1) obtain entries where map: "map_res (\<lambda>(idx, map_id). bind_res (py_nth dst idx) (\<lambda>n. output_entry names sizes n map_id))
       (enum res) = Inr entries" and out: "om = map fst entries" "local_dst = map snd entries"
    by (auto simp: cal_output_layout_and_dst_shape_def bind_res_Inr_iff)
  from map_res_nth_Inr [OF map] have el: "length entries = length res"
    and nth: "\<And>i. i < length res \<Longrightarrow> output_entry names sizes (dst ! i) (res ! i) = Inr (entries ! i)"
    using len by (auto simp: split_beta)
  have "entries ! i = (alias_of names (res ! i), dst ! i div shards_of sizes (res ! i))" if "i < length res" for i
    using nth [OF that] output_entry_ok [OF _ assms(3,4)] list_all2_nthD [OF assms(2)] that len by simp
  with el len show "om = map (alias_of names) res" and "local_dst = map2 (\<lambda>n e. n div shards_of sizes e) dst res"
    unfolding out by (auto intro!: nth_equalityI)
qed

lemma held_size:
  assumes "on_axes sizes f" and "ok_entry sizes n e"
  shows "chunk_size (held_of sizes u f e n) = n div shards_of sizes e"
proof -
  have n: "0 < n" "shards_of sizes e dvd n" using assms(2) by (simp_all add: ok_entry_def)
  have "\<forall>a \<in> set (axes_of (int (length sizes)) e). 0 \<le> f a \<and> f a < sizes ! nat a"
    using assms(1) plain_axes [of sizes e] assms(2) by (auto simp: on_axes_def ok_entry_def)
  from cuts_even [OF this, of "(0, n)" u] n
  have "chunk_size (held_of sizes u f e n) * shards_of sizes e = n" by (simp add: held_of_def shards_of_def chunk_size_def)
  then show ?thesis using n by (metis dvd_0_left_iff less_irrefl nonzero_mult_div_cancel_right)
qed

lemma partial_status_keeps:
  assumes "apply_partial_status x out = Inr out'" and "layout_ok out names tm"
  shows "layout_ok out' names tm" and "mesh out' = mesh out"
proof -
  have "layout_ok out' names tm \<and> mesh out' = mesh out"
  proof (cases "layout_is_partial x")
    case True
    have "mesh_dim_names (mesh out) = Some names" using assms(2) by (simp add: layout_ok_def)
    with True assms(1) obtain body where
      loop: "for_res body (enum (partial x)) out = Inr out'" and
      body: "body = (\<lambda>(i, op) out. case op of None \<Rightarrow> Inr out
        | Some p \<Rightarrow> (case mesh_dim_names (mesh out) of None \<Rightarrow> Inl TypeError
           | Some names \<Rightarrow> if i < int (length names)
               then bind_res (py_nth names i) (\<lambda>axis. set_partial_by_dev_axis axis (Some p) out) else Inr out))"
      by (auto simp: apply_partial_status_def)
    show ?thesis
      by (rule for_res_invariant [OF loop, of "\<lambda>l. layout_ok l names tm \<and> mesh l = mesh out"])
        (use assms(2) set_partial_keeps in \<open>auto simp: body bind_res_Inr_iff split: option.splits if_splits\<close>)
  qed (use assms in \<open>simp add: apply_partial_status_def\<close>)
  then show "layout_ok out' names tm" and "mesh out' = mesh out" by blast+
qed

section \<open>The property\<close>

text \<open>
  C8: Let \<open>reshape\<close> of a tensor of shape \<open>dims\<close> under a layout that divides it evenly be accepted by the
  rule, with \<open>dst'\<close> the target shape after its unknown size is filled in. Then on every rank the slice
  of the output layout has exactly the elements of the input slice, in the same row-major order, so
  that the local reshape is a no-op on the data, and the local shape the rule returns is the shape of
  that slice. The output layout is on the same mesh and shards each mesh axis at most once.
\<close>

theorem reshape_keeps_local_data:
  assumes "infer_reshape_layout x dst dims = Inr (out, local_dst)" and "layout_ok x names tm"
    and "handle_dynamic_shape dims dst = Inr (dims, dst', dynamic)" and "prod_list dst' = prod_list dims"
    and "list_all2 (ok_entry (mesh_sizes x)) dims tm" and "\<forall>n \<in> set dst'. 0 < n"
    and "infer_slice_area_by_rank (mesh_sizes x) tm r dims uneven = Inr area"
  shows "\<exists>tm' area'. layout_ok out names tm' \<and> mesh out = mesh x \<and>
    infer_slice_area_by_rank (mesh_sizes x) tm' r dst' uneven = Inr area' \<and>
    flat_indices dst' area' = flat_indices dims area \<and> local_dst = map chunk_size area'"
proof -
  let ?sizes = "mesh_sizes x"
  note ok = assms(2) [unfolded layout_ok_def]
  have pos: "\<forall>n \<in> set ?sizes. 0 < n" and wm: "well_mapped ?sizes tm" using ok by (auto simp: well_mapped_def)
  obtain coordinate where c: "calculate_mesh_coordinate_for_rank ?sizes r = Inr coordinate" and "valid_coordinate ?sizes coordinate"
    using coordinate_of_rank(1,2) [OF pos] by blast
  then have len: "length coordinate = length ?sizes" and axes: "on_axes ?sizes (\<lambda>a. coordinate ! nat a)"
    by (simp_all add: valid_length valid_on_axes)
  let ?u = "set (case uneven of None \<Rightarrow> [] | Some ds \<Rightarrow> ds)" and ?f = "\<lambda>a. coordinate ! nat a"
  from assms(1,3) ok obtain es Ms Es res om out' where
    es: "filter_none_split_tensor_map tm ?sizes = Inr es" and Ms: "merge_unshared_axis dims es = Inr (Ms, Es)"
    and res: "compute_output_tensor_map Ms Es dst' ?sizes dynamic = Inr res"
    and om: "cal_output_layout_and_dst_shape res dst' names ?sizes = Inr (om, local_dst)"
    and call: "call_with_aliases om (layout_from_mesh (mesh x)) = Inr out'" and part: "apply_partial_status x out' = Inr out"
    by (auto simp: infer_reshape_layout_def Let_def bind_res_Inr_iff)
  note fm = filtered_map [OF es assms(5) axes]
  note mg = merged [OF axes fm(1) Ms]
  have prod: "prod_list dst' = prod_list Ms" using assms(4) mg(2) by simp
  note os = output_map_sound [OF res assms(6) prod axes mg(1)]
  have names: "length names = length ?sizes" "names_ok names" "mesh_dim_names (mesh x) = Some names" using ok by auto
  note oe = output_entries [OF om os(1) names(1) pos]
  have lenr: "length res = length dst'" using os(1) by (simp add: list_all2_lengthD)
  have "dims_in names (concat (map mapped_dims res))"
    unfolding dims_in_def
  proof
    fix m assume "m \<in> set (concat (map mapped_dims res))"
    then obtain e where "e \<in> set res" "m \<in> set (mapped_dims e)" by auto
    moreover from this(1) os(1) have "plain_entry ?sizes e"
      by (auto simp: list_all2_conv_all_nth in_set_conv_nth ok_entry_def)
    ultimately show "m = -1 \<or> 0 \<le> m \<and> m < int (length names)" using plain_range names(1) by simp
  qed
  from called_layout [OF call [unfolded oe(1)] names(3,2) _ _ this] names(1) pos
  have called: "layout_ok out' names res" "mesh out' = mesh x" by (simp_all add: mesh_sizes_def)
  note kept = partial_status_keeps [OF part called(1)]
  have wr: "well_mapped ?sizes res" using called by (simp add: layout_ok_def mesh_sizes_def)
  have "area = areas ?sizes ?u ?f dims tm"
    using slice_areas [OF wm _ c len, of dims uneven] assms(5,7) by (simp add: list_all2_lengthD)
  then have "flat_indices dst' (areas ?sizes ?u ?f dst' res) = flat_indices dims area" using os(2) mg(3) fm(2) by simp
  moreover have "local_dst = map chunk_size (areas ?sizes ?u ?f dst' res)"
    unfolding oe(2) areas_def using held_size [OF axes] os(1)
    by (intro nth_equalityI) (simp_all add: lenr list_all2_nthD)
  ultimately show ?thesis
    using slice_areas [OF wr lenr c len, of uneven] kept called(2)
    by (intro exI [of _ res] exI [of _ "areas ?sizes ?u ?f dst' res"]) simp
qed

text \<open>A tensor of shape (4, 6) over both axes of a 2 x 2 mesh, viewed as (2, 2, 2, 3).\<close>

definition square_mesh :: device_mesh where
  "square_mesh = \<lparr>mesh_shape = [2, 2], mesh_dim_names = Some [''dp'', ''mp''], rank_list = [0, 1, 2, 3], own_rank = 0\<rparr>"

definition square_layout :: layout where
  "square_layout = \<lparr>mesh = square_mesh, tensor_map = Some [One 1, One 0], partial = [None, None],
     alias_tensor_map = Some [AxisName ''dp'', AxisName ''mp''],
     placements = Some [Shard 0 False, Shard 1 False], ragged_shard = None\<rparr>"

lemma square_ok: "layout_ok square_layout [''dp'', ''mp''] [One 1, One 0]"
  by (simp add: layout_ok_def square_layout_def square_mesh_def mesh_sizes_def names_ok_def well_mapped_def
      axes_of_def name_of_def)

theorem reshape_keeps_local_data_witness:
  "\<exists>out tm' area'. infer_reshape_layout square_layout [2, -1, 2, 3] [4, 6] = Inr (out, [1, 2, 1, 3]) \<and>
    layout_ok out [''dp'', ''mp''] tm' \<and>
    infer_slice_area_by_rank [2, 2] tm' 3 [2, 2, 2, 3] None = Inr area' \<and>
    flat_indices [2, 2, 2, 3] area' = [15, 16, 17, 21, 22, 23] \<and> map chunk_size area' = [1, 2, 1, 3]"
proof -
  let ?out = "projr (infer_reshape_layout square_layout [2, -1, 2, 3] [4, 6])"
  have run: "infer_reshape_layout square_layout [2, -1, 2, 3] [4, 6] = Inr (fst ?out, [1, 2, 1, 3])" by code_simp
  have sizes: "mesh_sizes square_layout = [2, 2]" by code_simp
  have dyn: "handle_dynamic_shape [4, 6] [2, -1, 2, 3] = Inr ([4, 6], [2, 2, 2, 3], False)" by code_simp
  have even: "list_all2 (ok_entry (mesh_sizes square_layout)) [4, 6] [One 1, One 0]"
    by (simp add: sizes ok_entry_def plain_entry_def shards_of_def axes_of_def)
  have area: "infer_slice_area_by_rank (mesh_sizes square_layout) [One 1, One 0] 3 [4, 6] None = Inr [(2, 4), (3, 6)]" by code_simp
  have flat: "flat_indices [4, 6] [(2, 4), (3, 6)] = [15, 16, 17, 21, 22, 23]" by code_simp
  from reshape_keeps_local_data [OF run square_ok dyn _ even _ area]
  obtain tm' area' where "layout_ok (fst ?out) [''dp'', ''mp''] tm'"
    and "infer_slice_area_by_rank (mesh_sizes square_layout) tm' 3 [2, 2, 2, 3] None = Inr area'"
    and "flat_indices [2, 2, 2, 3] area' = flat_indices [4, 6] [(2, 4), (3, 6)]" and "[1, 2, 1, 3] = map chunk_size area'"
    by auto
  with run show ?thesis unfolding sizes flat
    by (intro exI [of _ "fst ?out"] exI [of _ tm'] exI [of _ area']) simp
qed


lemma static_shape_info:
  assumes "\<forall>n \<in> set ns. 0 < n"
  shows "dynamic_shape_info ns = (False, -1, prod_list ns)"
proof -
  have "fold (\<lambda>(i, s) (total, axis). (total * s, if s < 0 then i else axis)) xs (t, a) = (t * prod_list (map snd xs), a)"
    if "\<forall>x \<in> set xs. 0 < snd x" for xs :: "(int \<times> int) list" and t a :: int
    using that by (induction xs arbitrary: t) (auto simp: mult.assoc)
  moreover have "map snd (enum ns) = ns" by (simp add: enum_def)
  moreover from this assms have "\<forall>x \<in> set (enum ns). 0 < snd x" by (metis image_eqI set_map)
  ultimately have "fold (\<lambda>(i, s) (total, axis). (total * s, if s < 0 then i else axis)) (enum ns) (1, -1) = (prod_list ns, -1)"
    by simp
  then show ?thesis using prod_list_pos [OF assms] by (simp add: dynamic_shape_info_def)
qed

text \<open>
  A tensor of one element that no mesh axis shards cannot be reshaped to two or more dimensions of
  size 1: the loop over the target shape goes on after the merged shape is used up, reads before its
  start, and raises IndexError, whatever the mesh and the number of dimensions.
\<close>

theorem reshape_unit_raises:
  assumes "tensor_map x = Some [One (-1)]" and "mesh_dim_names (mesh x) = Some names" and "mesh_sizes x \<noteq> []"
  shows "infer_reshape_layout x (replicate (n + 2) 1) [1] = Inl IndexError"
proof -
  have first: "py_nth (mesh_sizes x) 0 = Inr (mesh_sizes x ! 0)" using assms(3) by (simp add: py_nth_def)
  have "filter_none_split_tensor_map [One (-1)] (mesh_sizes x) = Inr [One (-1)]"
    using first by (simp add: filter_none_split_tensor_map_def filter_entry_def)
  moreover have "handle_dynamic_shape [1] (replicate (n + 2) 1) = Inr ([1], replicate (n + 2) 1, False)"
    using static_shape_info [of "[1]"] static_shape_info [of "replicate (n + 2) 1"]
    by (simp add: handle_dynamic_shape_def)
  moreover have "merge_unshared_axis [1] [One (-1)] = Inr ([1], [One (-1)])" by code_simp
  moreover have "rev (replicate (n + 2) (1 :: int)) = 1 # 1 # replicate n 1" unfolding rev_replicate by simp
  then have "compute_output_tensor_map [1] [One (-1)] (replicate (n + 2) 1) (mesh_sizes x) False = Inl IndexError"
    unfolding compute_output_tensor_map_def by (simp add: py_nth_def)
  ultimately show ?thesis using assms(1,2) by (simp add: infer_reshape_layout_def)
qed

theorem reshape_unit_raises_witness:
  "infer_reshape_layout (layout_from_mesh square_mesh\<lparr>tensor_map := Some [One (-1)]\<rparr>) [1, 1] [1] = Inl IndexError"
  using reshape_unit_raises [of "layout_from_mesh square_mesh\<lparr>tensor_map := Some [One (-1)]\<rparr>" "[''dp'', ''mp'']" 0]
  by (simp add: layout_from_mesh_def square_mesh_def mesh_sizes_def numeral_2_eq_2)

end
