(* ===== verification/Matmul_Rule.thy ===== *)
theory Matmul_Rule
  imports Tensor_Layout
begin

text \<open>
  The layout rules of the matrix products (core/shard/ops/parallel_matmul.py): \<open>MatMulExt\<close>, \<open>MatMul\<close> with
  transposes, the batched products with broadcast batch dimensions, and \<open>Linear\<close> with the scaling of
  its bias. A missing layout is \<open>None\<close>; the list of cache values is unpacked into arguments, and the
  output is the layout itself instead of \<open>((out_layout,), None)\<close>.
\<close>

section \<open>Partial state of the inputs\<close>

definition alias_names :: "layout \<Rightarrow> string list result" where
  "alias_names l = (case mesh_dim_names (mesh l) of None \<Rightarrow> Inl TypeError | Some names \<Rightarrow> Inr names)"

definition propagate_x :: "layout \<Rightarrow> int \<times> string option \<Rightarrow> layout \<Rightarrow> layout result" where
  "propagate_x x_layout entry out =
     (let (dev_idx, op) = entry in
      if op = None then Inr out
      else bind_res (alias_names x_layout) (\<lambda>names.
           bind_res (py_nth names dev_idx) (\<lambda>axis. set_partial_by_dev_axis axis op out)))"

definition propagate_w :: "layout \<Rightarrow> int \<times> string option \<Rightarrow> layout \<Rightarrow> layout result" where
  "propagate_w w_layout entry out =
     (let (dev_idx, op) = entry in
      if op = None then Inr out
      else bind_res (alias_names w_layout) (\<lambda>names.
           bind_res (py_nth names dev_idx) (\<lambda>axis.
           bind_res (get_partial_by_dev_id out axis) (\<lambda>existing.
             if existing \<noteq> None \<and> existing \<noteq> op then Inl ValueError
             else set_partial_by_dev_axis axis op out))))"

definition propagate_partial_from_inputs :: "layout \<Rightarrow> layout \<Rightarrow> layout \<Rightarrow> layout result" where
  "propagate_partial_from_inputs out_layout x_layout w_layout =
     bind_res (for_res (propagate_x x_layout) (enum (partial x_layout)) out_layout) (\<lambda>out.
       for_res (propagate_w w_layout) (enum (partial w_layout)) out)"

text \<open>The output is a partial sum over the mesh axes of the contracted dimension.\<close>

definition set_contraction :: "alias_entry \<Rightarrow> layout \<Rightarrow> layout result" where
  "set_contraction entry out =
     (case entry of
        AxisNames axes \<Rightarrow> for_res (\<lambda>axis. set_partial_by_dev_axis axis (Some ''sum'')) axes out
      | AxisName axis \<Rightarrow> if axis = ''None'' then Inr out else set_partial_by_dev_axis axis (Some ''sum'') out)"

definition alias_map_of :: "layout \<Rightarrow> alias_entry list result" where
  "alias_map_of l = (case alias_tensor_map l of None \<Rightarrow> Inl TypeError | Some am \<Rightarrow> Inr am)"

section \<open>Two-dimensional weights\<close>

definition matmul_ext_layout :: "layout option \<Rightarrow> layout option \<Rightarrow> layout result" where
  "matmul_ext_layout x_layout w_layout =
     (case (x_layout, w_layout) of
        (Some x, Some w) \<Rightarrow>
          if mesh_sizes x \<noteq> mesh_sizes w then Inl ValueError
          else bind_res (alias_map_of x) (\<lambda>x_map.
               bind_res (alias_map_of w) (\<lambda>w_map.
               bind_res (py_nth x_map (int (length x_map) - 1)) (\<lambda>x_contract.
               bind_res (py_nth w_map (int (length w_map) - 2)) (\<lambda>w_contract.
                 if x_contract \<noteq> w_contract then Inl ValueError
                 else bind_res (py_nth w_map (int (length w_map) - 1)) (\<lambda>w_out.
                      bind_res (call_with_aliases (butlast x_map @ [w_out]) (layout_from_mesh (mesh x))) (\<lambda>out.
                      bind_res (propagate_partial_from_inputs out x w) (set_contraction x_contract)))))))
      | _ \<Rightarrow> Inl ValueError)"

definition matmul_layout :: "layout option \<Rightarrow> layout option \<Rightarrow> bool \<Rightarrow> bool \<Rightarrow> layout result" where
  "matmul_layout x_layout w_layout transpose_a transpose_b =
     (case (x_layout, w_layout) of
        (Some x, Some w) \<Rightarrow>
          if mesh_sizes x \<noteq> mesh_sizes w then Inl ValueError
          else bind_res (alias_map_of x) (\<lambda>x_map.
               bind_res (alias_map_of w) (\<lambda>w_map.
                 let nx = int (length x_map); nw = int (length w_map);
                     (x_input_dim, x_contract_dim) = (if transpose_a then (nx - 1, nx - 2) else (nx - 2, nx - 1));
                     (w_output_dim, w_contract_dim) = (if transpose_b then (nw - 2, nw - 1) else (nw - 1, nw - 2))
                 in bind_res (py_nth x_map x_contract_dim) (\<lambda>x_contract.
                    bind_res (py_nth w_map w_contract_dim) (\<lambda>w_contract.
                      if x_contract \<noteq> w_contract then Inl ValueError
                      else bind_res (py_nth x_map x_input_dim) (\<lambda>x_in.
                           bind_res (py_nth w_map w_output_dim) (\<lambda>w_out.
                           bind_res (call_with_aliases (butlast (butlast x_map) @ [x_in] @ [w_out])
                               (layout_from_mesh (mesh x))) (\<lambda>out.
                           bind_res (propagate_partial_from_inputs out x w) (set_contraction x_contract))))))))
      | _ \<Rightarrow> Inl ValueError)"

section \<open>Batched products\<close>

definition is_none_entry :: "alias_entry \<Rightarrow> bool" where
  "is_none_entry entry =
     (case entry of AxisNames items \<Rightarrow> list_all (\<lambda>i. i = ''None'') items | AxisName item \<Rightarrow> item = ''None'')"

definition merge_batch_entry :: "alias_entry \<Rightarrow> alias_entry \<Rightarrow> alias_entry result" where
  "merge_batch_entry x_dims w_dims =
     (if is_none_entry x_dims \<and> is_none_entry w_dims then Inr (AxisName ''None'')
      else if is_none_entry x_dims then Inr w_dims
      else if is_none_entry w_dims then Inr x_dims
      else if x_dims = w_dims then Inr x_dims
      else Inl ValueError)"

definition merge_batches :: "alias_entry list \<Rightarrow> alias_entry list \<Rightarrow> alias_entry list result" where
  "merge_batches x_map w_map =
     (let x_batch = butlast (butlast x_map); w_batch = butlast (butlast w_map);
          max_b = max (length x_batch) (length w_batch);
          x_batch = replicate (max_b - length x_batch) (AxisName ''None'') @ x_batch;
          w_batch = replicate (max_b - length w_batch) (AxisName ''None'') @ w_batch
      in map_res (\<lambda>(xb, wb). merge_batch_entry xb wb) (zip x_batch w_batch))"

definition build_output_layout ::
    "layout \<Rightarrow> layout \<Rightarrow> alias_entry list \<Rightarrow> alias_entry \<Rightarrow> alias_entry \<Rightarrow> alias_entry \<Rightarrow> layout result" where
  "build_output_layout x_layout w_layout merged_batch x_n w_p x_contract =
     bind_res (call_with_aliases (merged_batch @ [x_n, w_p]) (layout_from_mesh (mesh x_layout))) (\<lambda>out.
     bind_res (propagate_partial_from_inputs out x_layout w_layout) (set_contraction x_contract))"

definition batch_matmul_ext_layout :: "layout option \<Rightarrow> layout option \<Rightarrow> layout result" where
  "batch_matmul_ext_layout x_layout w_layout =
     (case (x_layout, w_layout) of
        (Some x, Some w) \<Rightarrow>
          if mesh_sizes x \<noteq> mesh_sizes w then Inl ValueError
          else bind_res (alias_map_of x) (\<lambda>x_map.
               bind_res (alias_map_of w) (\<lambda>w_map.
               bind_res (py_nth x_map (-1)) (\<lambda>x_contract.
               bind_res (py_nth w_map (-2)) (\<lambda>w_contract.
                 if x_contract \<noteq> w_contract then Inl ValueError
                 else bind_res (merge_batches x_map w_map) (\<lambda>merged_batch.
                      bind_res (py_nth x_map (-2)) (\<lambda>x_n.
                      bind_res (py_nth w_map (-1)) (\<lambda>w_p.
                        build_output_layout x w merged_batch x_n w_p x_contract)))))))
      | _ \<Rightarrow> Inl ValueError)"

definition batch_matmul_layout :: "layout option \<Rightarrow> layout option \<Rightarrow> bool \<Rightarrow> bool \<Rightarrow> layout result" where
  "batch_matmul_layout x_layout w_layout transpose_a transpose_b =
     (case (x_layout, w_layout) of
        (Some x, Some w) \<Rightarrow>
          if mesh_sizes x \<noteq> mesh_sizes w then Inl ValueError
          else bind_res (alias_map_of x) (\<lambda>x_map.
               bind_res (alias_map_of w) (\<lambda>w_map.
               bind_res (py_nth x_map (if transpose_a then -1 else -2)) (\<lambda>x_n.
               bind_res (py_nth x_map (if transpose_a then -2 else -1)) (\<lambda>x_contract.
               bind_res (py_nth w_map (if transpose_b then -1 else -2)) (\<lambda>w_contract.
               bind_res (py_nth w_map (if transpose_b then -2 else -1)) (\<lambda>w_p.
                 if x_contract \<noteq> w_contract then Inl ValueError
                 else bind_res (merge_batches x_map w_map) (\<lambda>merged_batch.
                      build_output_layout x w merged_batch x_n w_p x_contract)))))))
      | _ \<Rightarrow> Inl ValueError)"

section \<open>Linear\<close>

definition linear_layout :: "layout option \<Rightarrow> layout option \<Rightarrow> layout option \<Rightarrow> layout result" where
  "linear_layout x_layout w_layout bias_layout =
     (case (x_layout, w_layout) of
        (Some x, Some w) \<Rightarrow>
          if mesh_sizes x \<noteq> mesh_sizes w then Inl ValueError
          else if (case bias_layout of None \<Rightarrow> False | Some b \<Rightarrow> mesh_sizes b \<noteq> mesh_sizes x) then Inl ValueError
          else bind_res (alias_map_of x) (\<lambda>x_map.
               bind_res (alias_map_of w) (\<lambda>w_map.
                 if length w_map \<noteq> 2 then Inl ValueError
                 else bind_res (py_nth x_map (int (length x_map) - 1)) (\<lambda>x_contract.
                      bind_res (py_nth w_map (int (length w_map) - 1)) (\<lambda>w_contract.
                        if x_contract \<noteq> w_contract then Inl ValueError
                        else bind_res (py_nth w_map 0) (\<lambda>w_out.
                             bind_res (case bias_layout of None \<Rightarrow> Inr False
                                 | Some b \<Rightarrow> bind_res (alias_map_of b) (\<lambda>b_map.
                                     bind_res (py_nth b_map 0) (\<lambda>b_out. Inr (b_out \<noteq> w_out)))) (\<lambda>mismatch.
                               if mismatch then Inl ValueError
                               else bind_res (call_with_aliases (butlast x_map @ [w_out]) (layout_from_mesh (mesh x))) (\<lambda>out.
                                    bind_res (propagate_partial_from_inputs out x w) (set_contraction x_contract))))))))
      | _ \<Rightarrow> Inl ValueError)"

text \<open>
  What \<open>get_expand_impl\<close> divides the bias by before the local product; \<open>None\<close> when the operator is called as
  it is.
\<close>

definition linear_bias_scaling :: "layout \<Rightarrow> layout option \<Rightarrow> layout \<Rightarrow> int option result" where
  "linear_bias_scaling x_layout bias_layout output_layout =
     bind_res (alias_map_of x_layout) (\<lambda>x_map.
     bind_res (py_nth x_map (int (length x_map) - 1)) (\<lambda>x_contract.
       if x_contract = AxisName ''None'' \<or> bias_layout = None then Inr None
       else bind_res (for_res (\<lambda>axis factor.
               bind_res (get_device_num_along_axis (mesh output_layout) axis) (\<lambda>n. Inr (factor * n)))
             (case x_contract of AxisNames axes \<Rightarrow> axes | AxisName axis \<Rightarrow> [axis]) 1) (\<lambda>factor. Inr (Some factor))))"

end
