(* ===== verification/Partial_Sums.thy ===== *)
theory Partial_Sums
  imports Slice_Areas
begin

text \<open>
  What a distributed tensor with partial state stands for. Every rank, given by its mesh coordinate,
  has a local value for each global index of its slice; on the axes where the layout is \<open>Partial(sum)\<close>
  the values of the ranks add up to the tensor, on the axes that neither shard it nor are partial the
  ranks hold copies. A product contracted over a dimension that both operands shard in the same way
  gives such a tensor, partial over the axes of that dimension.
\<close>

section \<open>Sums over mesh axes\<close>

fun sum_axes :: "int list \<Rightarrow> nat list \<Rightarrow> (int list \<Rightarrow> 'a :: comm_monoid_add) \<Rightarrow> int list \<Rightarrow> 'a" where
  "sum_axes sizes [] F c = F c"
| "sum_axes sizes (a # as) F c = (\<Sum>v \<in> {0..<sizes ! a}. sum_axes sizes as F (c[a := v]))"

text \<open>The coordinates that differ from \<open>c\<close> on the axes \<open>as\<close> only.\<close>

definition near :: "int list \<Rightarrow> nat list \<Rightarrow> int list \<Rightarrow> int list \<Rightarrow> bool" where
  "near sizes as c c' \<longleftrightarrow> valid_coordinate sizes c' \<and> (\<forall>a < length sizes. a \<notin> set as \<longrightarrow> c' ! a = c ! a)"

lemma near_refl [simp]: "valid_coordinate sizes c \<Longrightarrow> near sizes as c c"
  by (simp add: near_def)

lemma near_valid: "near sizes as c c' \<Longrightarrow> valid_coordinate sizes c'"
  by (simp add: near_def)

lemma near_trans: "near sizes as c c' \<Longrightarrow> near sizes bs c' c'' \<Longrightarrow> near sizes (as @ bs) c c''"
  by (simp add: near_def)

lemma near_mono: "near sizes as c c' \<Longrightarrow> set as \<subseteq> set bs \<Longrightarrow> near sizes bs c c'"
  by (auto simp: near_def)

lemma near_update:
  assumes "valid_coordinate sizes c" and "0 \<le> v" and "v < sizes ! a" and "near sizes as (c[a := v]) c'"
  shows "near sizes (a # as) c c'"
  using assms by (auto simp: near_def nth_list_update)

lemma valid_put:
  "valid_coordinate sizes c \<Longrightarrow> a < length sizes \<Longrightarrow> 0 \<le> v \<Longrightarrow> v < sizes ! a \<Longrightarrow> valid_coordinate sizes (c[a := v])"
  by (auto simp: valid_coordinate_def list_all2_conv_all_nth nth_list_update)

lemma sum_axes_cong:
  assumes "valid_coordinate sizes c" and "\<forall>a \<in> set as. a < length sizes"
    and "\<And>c'. near sizes as c c' \<Longrightarrow> F c' = G c'"
  shows "sum_axes sizes as F c = sum_axes sizes as G c"
  using assms
proof (induction as arbitrary: c)
  case (Cons a as)
  have "sum_axes sizes as F (c[a := v]) = sum_axes sizes as G (c[a := v])" if "v \<in> {0..<sizes ! a}" for v
    using that Cons.prems by (intro Cons.IH) (auto intro: valid_put near_update)
  then show ?case by simp
qed simp

lemma sum_axes_append: "sum_axes sizes (as @ bs) F c = sum_axes sizes as (sum_axes sizes bs F) c"
  by (induction as arbitrary: c) simp_all

lemma sum_axes_swap: "a \<noteq> b \<Longrightarrow> sum_axes sizes (a # b # as) F c = sum_axes sizes (b # a # as) F c"
  by (simp add: list_update_swap) (rule sum.swap)

lemma sum_axes_pull: "a \<notin> set as \<Longrightarrow> sum_axes sizes (as @ a # bs) F c = sum_axes sizes (a # as @ bs) F c"
proof (induction as arbitrary: c)
  case (Cons b as)
  then have "sum_axes sizes ((b # as) @ a # bs) F c = sum_axes sizes (b # a # as @ bs) F c" by simp
  with Cons.prems show ?case using sum_axes_swap [of a b sizes "as @ bs" F c] by simp
qed simp

lemma sum_axes_set:
  "distinct as \<Longrightarrow> distinct bs \<Longrightarrow> set as = set bs \<Longrightarrow> sum_axes sizes as F c = sum_axes sizes bs F c"
proof (induction as arbitrary: bs c)
  case (Cons a as)
  from Cons.prems(3) have "a \<in> set bs" by auto
  then obtain b1 b2 where bs: "bs = b1 @ a # b2" by (auto dest: split_list)
  with Cons.prems have "distinct as" "distinct (b1 @ b2)" "set as = set (b1 @ b2)" "a \<notin> set b1" by auto
  with Cons.IH [of "b1 @ b2"] show ?case unfolding bs sum_axes_pull [OF \<open>a \<notin> set b1\<close>] by simp
qed simp

lemma sum_axes_const:
  fixes F G :: "int list \<Rightarrow> 'a :: comm_ring_1"
  assumes "valid_coordinate sizes c" and "\<forall>a \<in> set as. a < length sizes"
    and "\<And>c'. near sizes as c c' \<Longrightarrow> G c' = g"
  shows "sum_axes sizes as (\<lambda>c'. G c' * F c') c = g * sum_axes sizes as F c"
proof -
  have "sum_axes sizes as (\<lambda>c'. g * F c') c = g * sum_axes sizes as F c" for c
    by (induction as arbitrary: c) (simp_all add: sum_distrib_left)
  with sum_axes_cong [OF assms(1,2), of "\<lambda>c'. G c' * F c'" "\<lambda>c'. g * F c'"] assms(3) show ?thesis by simp
qed

lemma sum_axes_sum: "sum_axes sizes as (\<lambda>c. \<Sum>k \<in> S. F k c) c = (\<Sum>k \<in> S. sum_axes sizes as (F k) c)"
proof (induction as arbitrary: c)
  case (Cons a as)
  then show ?case by (simp add: sum.swap [of _ S])
qed simp

section \<open>Slices of a dimension over its axes\<close>

context chunk_rule
begin

lemma sum_chunks:
  fixes g :: "int \<Rightarrow> 'b :: comm_monoid_add"
  assumes "0 \<le> n" and "0 < c"
  shows "(\<Sum>r \<in> {0..<c}. \<Sum>k \<in> {s + fst (chunk n c r)..<s + snd (chunk n c r)}. g k) = (\<Sum>k \<in> {s..<s + n}. g k)"
proof -
  have step: "(\<Sum>k \<in> {s..<s + m}. g k) + (\<Sum>k \<in> {s + m..<s + l}. g k) = (\<Sum>k \<in> {s..<s + l}. g k)"
    if "0 \<le> m" "m \<le> l" for m l
    using that by (subst sum.union_disjoint [symmetric]) (auto intro!: sum.cong)
  have "(\<Sum>r \<in> {0..<int j}. \<Sum>k \<in> {s + fst (chunk n c r)..<s + snd (chunk n c r)}. g k) =
      (\<Sum>k \<in> {s..<s + (if j = 0 then 0 else snd (chunk n c (int j - 1)))}. g k)" if "int j \<le> c" for j
    using that
  proof (induction j)
    case (Suc j)
    have "{0..<int (Suc j)} = insert (int j) {0..<int j}" by auto
    then have sum: "(\<Sum>r \<in> {0..<int (Suc j)}. \<Sum>k \<in> {s + fst (chunk n c r)..<s + snd (chunk n c r)}. g k) =
        (\<Sum>k \<in> {s..<s + (if j = 0 then 0 else snd (chunk n c (int j - 1)))}. g k) +
        (\<Sum>k \<in> {s + fst (chunk n c (int j))..<s + snd (chunk n c (int j))}. g k)"
      using Suc by (simp add: add.commute)
    have start: "fst (chunk n c (int j)) = (if j = 0 then 0 else snd (chunk n c (int j - 1)))"
      using first_chunk [OF assms] next_chunk [OF assms(1), of "int j - 1" c] Suc.prems by auto
    have "0 \<le> fst (chunk n c (int j))" "fst (chunk n c (int j)) \<le> snd (chunk n c (int j))"
      using inside(1) [OF assms(1), of "int j" c] ordered [OF assms(1), of "int j" c] Suc.prems by auto
    from step [OF this] show ?case unfolding sum using start by simp
  qed simp
  from this [of "nat c"] assms(2) last_chunk [OF assms] show ?thesis by simp
qed

end

definition held_set :: "int list \<Rightarrow> int set \<Rightarrow> int list \<Rightarrow> dim_map \<Rightarrow> int \<Rightarrow> int set" where
  "held_set sizes u c e n = {fst (held_of sizes u (\<lambda>a. c ! nat a) e n)..<snd (held_of sizes u (\<lambda>a. c ! nat a) e n)}"

definition axes_nat :: "int list \<Rightarrow> dim_map \<Rightarrow> nat list" where
  "axes_nat sizes e = map nat (axes_of (int (length sizes)) e)"

lemma cuts_cong:
  "(\<And>a. a \<in> set as \<Longrightarrow> f a = g a) \<Longrightarrow> fold (cut_along sizes u f) as sl = fold (cut_along sizes u g) as sl"
  by (induction as arbitrary: sl) (simp_all add: cut_along_def)

lemma held_near:
  assumes "near sizes bs c c'" and "set bs \<inter> set (axes_nat sizes e) = {}"
    and "\<forall>a \<in> set (axes_of (int (length sizes)) e). 0 \<le> a \<and> a < int (length sizes)"
  shows "held_of sizes u (\<lambda>a. c' ! nat a) e n = held_of sizes u (\<lambda>a. c ! nat a) e n"
  unfolding held_of_def
proof (rule cuts_cong)
  fix a assume a: "a \<in> set (axes_of (int (length sizes)) e)"
  with assms(3) have "nat a < length sizes" by auto
  moreover have "nat a \<notin> set bs" using a assms(2) by (auto simp: axes_nat_def)
  ultimately show "c' ! nat a = c ! nat a" using assms(1) by (simp add: near_def)
qed

lemma sum_over_cuts:
  fixes g :: "int \<Rightarrow> 'a :: comm_monoid_add"
  assumes "distinct as" and "\<forall>a \<in> set as. 0 \<le> a \<and> a < int (length sizes)" and "valid_coordinate sizes c"
    and "fst sl \<le> snd sl"
  shows "sum_axes sizes (map nat as) (\<lambda>c. \<Sum>k \<in> {fst (fold (cut_along sizes u (\<lambda>a. c ! nat a)) as sl)..<
      snd (fold (cut_along sizes u (\<lambda>a. c ! nat a)) as sl)}. g k) c = (\<Sum>k \<in> {fst sl..<snd sl}. g k)"
  using assms
proof (induction as arbitrary: sl c)
  case (Cons a as)
  have a: "0 \<le> a" "nat a < length sizes" using Cons.prems(2) by auto
  have len: "length c = length sizes" using Cons.prems(3) by (rule valid_length)
  define cut where "cut v = cut_along sizes u (\<lambda>_. v) a sl" for v
  have pos: "0 < sizes ! nat a" using Cons.prems(3) a(2) by (auto simp: valid_coordinate_def list_all2_conv_all_nth)
  have size: "0 \<le> snd sl - fst sl" using Cons.prems(4) by simp
  have cut_eq: "cut v = (fst sl + fst (chunk_of u a (snd sl - fst sl) (sizes ! nat a) v),
      fst sl + snd (chunk_of u a (snd sl - fst sl) (sizes ! nat a) v))" for v
    by (simp add: cut_def cut_along_def case_prod_beta)
  have inner: "sum_axes sizes (map nat as) (\<lambda>c. \<Sum>k \<in> {fst (fold (cut_along sizes u (\<lambda>a. c ! nat a)) (a # as) sl)..<
      snd (fold (cut_along sizes u (\<lambda>a. c ! nat a)) (a # as) sl)}. g k) (c[nat a := v]) =
      (\<Sum>k \<in> {fst (cut v)..<snd (cut v)}. g k)" if v: "v \<in> {0..<sizes ! nat a}" for v
  proof -
    let ?c = "c[nat a := v]"
    have valid: "valid_coordinate sizes ?c" using v Cons.prems(3) a by (intro valid_put) auto
    have le: "fst (cut v) \<le> snd (cut v)" using v chosen.ordered [OF size, of v "sizes ! nat a" u a] by (simp add: cut_eq)
    have "sum_axes sizes (map nat as) (\<lambda>c. \<Sum>k \<in> {fst (fold (cut_along sizes u (\<lambda>a. c ! nat a)) (a # as) sl)..<
        snd (fold (cut_along sizes u (\<lambda>a. c ! nat a)) (a # as) sl)}. g k) ?c =
      sum_axes sizes (map nat as) (\<lambda>c. \<Sum>k \<in> {fst (fold (cut_along sizes u (\<lambda>a. c ! nat a)) as (cut v))..<
        snd (fold (cut_along sizes u (\<lambda>a. c ! nat a)) as (cut v))}. g k) ?c"
    proof (rule sum_axes_cong [OF valid])
      show "\<forall>b \<in> set (map nat as). b < length sizes" using Cons.prems(2) by auto
      fix c' assume "near sizes (map nat as) ?c c'"
      moreover have "nat a \<notin> set (map nat as)" using Cons.prems(1,2) by (auto simp: nat_eq_iff2)
      ultimately have "c' ! nat a = v" using a(2) len by (simp add: near_def)
      then have "cut_along sizes u (\<lambda>a. c' ! nat a) a sl = cut v" by (simp add: cut_def cut_along_def)
      then show "(\<Sum>k \<in> {fst (fold (cut_along sizes u (\<lambda>a. c' ! nat a)) (a # as) sl)..<
          snd (fold (cut_along sizes u (\<lambda>a. c' ! nat a)) (a # as) sl)}. g k) =
        (\<Sum>k \<in> {fst (fold (cut_along sizes u (\<lambda>a. c' ! nat a)) as (cut v))..<
          snd (fold (cut_along sizes u (\<lambda>a. c' ! nat a)) as (cut v))}. g k)" by simp
    qed
    also have "\<dots> = (\<Sum>k \<in> {fst (cut v)..<snd (cut v)}. g k)"
      using Cons.prems(1,2) valid le by (intro Cons.IH) auto
    finally show ?thesis .
  qed
  show ?case
    using chosen.sum_chunks [OF size pos, where s = "fst sl" and uneven = u and axis = a and g = g]
    by (simp add: inner cut_eq del: fold.simps)
qed simp

lemma sum_held:
  fixes g :: "int \<Rightarrow> 'a :: comm_monoid_add"
  assumes "distinct (axes_of (int (length sizes)) e)" and "valid_coordinate sizes c" and "0 \<le> n"
    and "\<forall>a \<in> set (axes_of (int (length sizes)) e). 0 \<le> a \<and> a < int (length sizes)"
  shows "sum_axes sizes (axes_nat sizes e) (\<lambda>c. \<Sum>k \<in> held_set sizes u c e n. g k) c = (\<Sum>k \<in> {0..<n}. g k)"
  using sum_over_cuts [where sl = "(0, n)" and u = u and g = g, OF assms(1,4,2)] assms(3)
  unfolding held_set_def held_of_def axes_nat_def by simp

section \<open>Tensors held by the ranks\<close>

definition shard_axes_of :: "int list \<Rightarrow> dim_map list \<Rightarrow> nat set" where
  "shard_axes_of sizes tm = set (concat (map (axes_nat sizes) tm))"

definition spare_axes :: "int list \<Rightarrow> dim_map list \<Rightarrow> nat list \<Rightarrow> nat list" where
  "spare_axes sizes tm as = filter (\<lambda>a. a \<notin> set as \<and> a \<notin> shard_axes_of sizes tm) [0..<length sizes]"

text \<open>
  \<open>L c idx\<close> is what the rank at coordinate \<open>c\<close> holds for the global index \<open>idx\<close> of its slice; \<open>as\<close> are the
  axes on which the layout is partial.
\<close>

definition holds_tensor ::
    "int list \<Rightarrow> dim_map list \<Rightarrow> nat list \<Rightarrow> int list \<Rightarrow> int list option \<Rightarrow>
     (int list \<Rightarrow> int list \<Rightarrow> 'a :: comm_ring_1) \<Rightarrow> (int list \<Rightarrow> 'a) \<Rightarrow> bool" where
  "holds_tensor sizes tm as full uneven L X \<longleftrightarrow>
     (\<forall>c idx. valid_coordinate sizes c \<and> owns sizes tm full uneven (row_major sizes c) idx \<longrightarrow>
        sum_axes sizes as (\<lambda>c. L c idx) c = X idx \<and>
        (\<forall>c'. near sizes (spare_axes sizes tm as) c c' \<longrightarrow> L c' idx = L c idx))"

lemma owns_areas:
  assumes "well_mapped sizes tm" and "length tm = length full" and "valid_coordinate sizes c"
  shows "owns sizes tm full uneven (row_major sizes c) idx \<longleftrightarrow>
    list_all2 within idx (areas sizes (set (case uneven of None \<Rightarrow> [] | Some ds \<Rightarrow> ds)) (\<lambda>a. c ! nat a) full tm)"
proof -
  have "\<forall>n \<in> set sizes. 0 < n" using assms(1) by (simp add: well_mapped_def)
  from slice_areas [OF assms(1,2) rank_of_coordinate(1) [OF this assms(3)] valid_length [OF assms(3)], of uneven]
  show ?thesis by (simp add: owns_def)
qed

lemma well_mapped_entry:
  assumes "well_mapped sizes tm" and "e \<in> set tm"
  shows "\<forall>a \<in> set (axes_of (int (length sizes)) e). 0 \<le> a \<and> a < int (length sizes)"
    and "distinct (axes_of (int (length sizes)) e)"
  using well_mapped_axes(1,2) [OF assms(1)] assms(2) by (metis in_set_conv_nth)+

lemma owns_near:
  assumes "well_mapped sizes tm" and "length tm = length full" and "valid_coordinate sizes c"
    and "near sizes as c c'" and "set as \<inter> shard_axes_of sizes tm = {}"
    and "owns sizes tm full uneven (row_major sizes c) idx"
  shows "owns sizes tm full uneven (row_major sizes c') idx"
proof -
  have "areas sizes u (\<lambda>a. c' ! nat a) full tm = areas sizes u (\<lambda>a. c ! nat a) full tm" for u
    unfolding areas_def
  proof (rule nth_equalityI)
    fix i assume "i < length (map2 (\<lambda>n e. held_of sizes u (\<lambda>a. c' ! nat a) e n) full tm)"
    then have i: "i < length tm" using assms(2) by simp
    then have "set as \<inter> set (axes_nat sizes (tm ! i)) = {}" using assms(5) by (fastforce simp: shard_axes_of_def)
    with held_near [OF assms(4) this] well_mapped_entry(1) [OF assms(1), of "tm ! i"] i assms(2)
    show "map2 (\<lambda>n e. held_of sizes u (\<lambda>a. c' ! nat a) e n) full tm ! i = map2 (\<lambda>n e. held_of sizes u (\<lambda>a. c ! nat a) e n) full tm ! i"
      by simp
  qed simp
  with assms(6) show ?thesis
    using owns_areas [OF assms(1,2,3)] owns_areas [OF assms(1,2) near_valid [OF assms(4)]] by simp
qed

text \<open>
  The contraction of two tensors over a dimension of size \<open>K\<close> that both shard by the entry \<open>e\<close>: \<open>ix\<close> and
  \<open>iw\<close> give the operand indices of an output index and a summation index.
\<close>

definition contract_local ::
    "int list \<Rightarrow> int list option \<Rightarrow> dim_map \<Rightarrow> int \<Rightarrow> (int list \<Rightarrow> int \<Rightarrow> int list) \<Rightarrow> (int list \<Rightarrow> int \<Rightarrow> int list) \<Rightarrow>
     (int list \<Rightarrow> int list \<Rightarrow> 'a) \<Rightarrow> (int list \<Rightarrow> int list \<Rightarrow> 'a) \<Rightarrow> int list \<Rightarrow> int list \<Rightarrow> 'a :: comm_ring_1" where
  "contract_local sizes uneven e K ix iw Lx Lw c idx =
     (\<Sum>k \<in> held_set sizes (set (case uneven of None \<Rightarrow> [] | Some ds \<Rightarrow> ds)) c e K. Lx c (ix idx k) * Lw c (iw idx k))"

definition contract_global ::
    "int \<Rightarrow> (int list \<Rightarrow> int \<Rightarrow> int list) \<Rightarrow> (int list \<Rightarrow> int \<Rightarrow> int list) \<Rightarrow>
     (int list \<Rightarrow> 'a) \<Rightarrow> (int list \<Rightarrow> 'a) \<Rightarrow> int list \<Rightarrow> 'a :: comm_ring_1" where
  "contract_global K ix iw X W idx = (\<Sum>k \<in> {0..<K}. X (ix idx k) * W (iw idx k))"

lemma contraction_holds:
  fixes Lx Lw :: "int list \<Rightarrow> int list \<Rightarrow> 'a :: comm_ring_1"
  assumes hx: "holds_tensor sizes tx px fx uneven Lx X" and hw: "holds_tensor sizes tw pw fw uneven Lw W"
    and wx: "well_mapped sizes tx" "length tx = length fx" and ww: "well_mapped sizes tw" "length tw = length fw"
    and wy: "well_mapped sizes ty" "length ty = length fy"
    and e: "e \<in> set tx" "e \<in> set tw" and K: "0 \<le> K"
    and px: "distinct px" "\<forall>a \<in> set px. a < length sizes" and pw: "distinct pw" "\<forall>a \<in> set pw. a < length sizes"
    and sep: "set px \<inter> set pw = {}" "set px \<inter> shard_axes_of sizes tx = {}" "set pw \<inter> shard_axes_of sizes tw = {}"
    and out: "set px \<inter> shard_axes_of sizes ty = {}" "set pw \<inter> shard_axes_of sizes ty = {}"
      "set (axes_nat sizes e) \<inter> shard_axes_of sizes ty = {}"
    and cover: "shard_axes_of sizes tx \<subseteq> shard_axes_of sizes ty \<union> set (axes_nat sizes e)"
      "shard_axes_of sizes tw \<subseteq> shard_axes_of sizes ty \<union> set (axes_nat sizes e)"
    and as: "distinct as" "set as = set (axes_nat sizes e) \<union> set px \<union> set pw"
    and link: "\<And>c idx k. valid_coordinate sizes c \<Longrightarrow> owns sizes ty fy uneven (row_major sizes c) idx \<Longrightarrow>
      k \<in> held_set sizes (set (case uneven of None \<Rightarrow> [] | Some ds \<Rightarrow> ds)) c e K \<Longrightarrow>
      owns sizes tx fx uneven (row_major sizes c) (ix idx k) \<and> owns sizes tw fw uneven (row_major sizes c) (iw idx k)"
  shows "holds_tensor sizes ty as fy uneven (contract_local sizes uneven e K ix iw Lx Lw) (contract_global K ix iw X W)"
proof -
  let ?u = "set (case uneven of None \<Rightarrow> [] | Some ds \<Rightarrow> ds)" and ?e = "axes_nat sizes e"
  let ?H = "\<lambda>c. held_set sizes ?u c e K" and ?S = "contract_local sizes uneven e K ix iw Lx Lw"
  let ?owns = "\<lambda>c. owns sizes ty fy uneven (row_major sizes c)"
  note axes = well_mapped_entry [OF wx(1) e(1)]
  have et: "set ?e \<subseteq> shard_axes_of sizes tx" "set ?e \<subseteq> shard_axes_of sizes tw"
    using e by (auto simp: shard_axes_of_def)
  have ea: "distinct ?e" "\<forall>a \<in> set ?e. a < length sizes"
    using axes by (auto simp: axes_nat_def distinct_map inj_on_def eq_nat_nat_iff)
  have H: "?H c' = ?H c" if "near sizes bs c c'" "set bs \<inter> set ?e = {}" for bs c c'
    using held_near [OF that axes(1), of ?u K] by (simp add: held_set_def)
  have sums: "sum_axes sizes px (\<lambda>c. Lx c i) c = X i" if "valid_coordinate sizes c" "owns sizes tx fx uneven (row_major sizes c) i" for c i
    using hx that by (simp add: holds_tensor_def)
  have sumw: "sum_axes sizes pw (\<lambda>c. Lw c i) c = W i" if "valid_coordinate sizes c" "owns sizes tw fw uneven (row_major sizes c) i" for c i
    using hw that by (simp add: holds_tensor_def)
  have copy_x: "Lx c' i = Lx c i" if "near sizes bs c c'" "valid_coordinate sizes c" "owns sizes tx fx uneven (row_major sizes c) i"
    "set bs \<inter> (set px \<union> shard_axes_of sizes tx) = {}" "\<forall>a \<in> set bs. a < length sizes" for bs c c' i
  proof -
    have "set bs \<subseteq> set (spare_axes sizes tx px)" using that(4,5) by (auto simp: spare_axes_def)
    with near_mono [OF that(1)] hx that(2,3) show ?thesis unfolding holds_tensor_def by blast
  qed
  have copy_w: "Lw c' i = Lw c i" if "near sizes bs c c'" "valid_coordinate sizes c" "owns sizes tw fw uneven (row_major sizes c) i"
    "set bs \<inter> (set pw \<union> shard_axes_of sizes tw) = {}" "\<forall>a \<in> set bs. a < length sizes" for bs c c' i
  proof -
    have "set bs \<subseteq> set (spare_axes sizes tw pw)" using that(4,5) by (auto simp: spare_axes_def)
    with near_mono [OF that(1)] hw that(2,3) show ?thesis unfolding holds_tensor_def by blast
  qed
  have over_w: "sum_axes sizes pw (\<lambda>c. ?S c idx) c = (\<Sum>k \<in> ?H c. Lx c (ix idx k) * W (iw idx k))"
    if c: "valid_coordinate sizes c" "?owns c idx" for c idx
  proof -
    have "sum_axes sizes pw (\<lambda>c. ?S c idx) c = sum_axes sizes pw (\<lambda>c'. \<Sum>k \<in> ?H c. Lx c' (ix idx k) * Lw c' (iw idx k)) c"
    proof (rule sum_axes_cong [OF c(1) pw(2)])
      fix c' assume "near sizes pw c c'"
      from H [OF this] sep(3) et(2) have "?H c' = ?H c" by blast
      then show "?S c' idx = (\<Sum>k \<in> ?H c. Lx c' (ix idx k) * Lw c' (iw idx k))" by (simp add: contract_local_def)
    qed
    also have "\<dots> = (\<Sum>k \<in> ?H c. sum_axes sizes pw (\<lambda>c'. Lx c' (ix idx k) * Lw c' (iw idx k)) c)"
      by (rule sum_axes_sum)
    also have "\<dots> = (\<Sum>k \<in> ?H c. Lx c (ix idx k) * W (iw idx k))"
    proof (rule sum.cong [OF refl])
      fix k assume "k \<in> ?H c"
      note l = link [OF c this]
      have "set pw \<inter> (set px \<union> shard_axes_of sizes tx) = {}" using sep out cover et by blast
      then have "sum_axes sizes pw (\<lambda>c'. Lx c' (ix idx k) * Lw c' (iw idx k)) c =
          Lx c (ix idx k) * sum_axes sizes pw (\<lambda>c'. Lw c' (iw idx k)) c"
        by (intro sum_axes_const [OF c(1) pw(2)] copy_x [OF _ c(1)]) (use l pw(2) in auto)
      then show "sum_axes sizes pw (\<lambda>c'. Lx c' (ix idx k) * Lw c' (iw idx k)) c = Lx c (ix idx k) * W (iw idx k)"
        using sumw [OF c(1)] l by simp
    qed
    finally show ?thesis .
  qed
  have over_x: "sum_axes sizes (px @ pw) (\<lambda>c. ?S c idx) c = (\<Sum>k \<in> ?H c. X (ix idx k) * W (iw idx k))"
    if c: "valid_coordinate sizes c" "?owns c idx" for c idx
  proof -
    have "sum_axes sizes (px @ pw) (\<lambda>c. ?S c idx) c = sum_axes sizes px (\<lambda>c'. \<Sum>k \<in> ?H c. W (iw idx k) * Lx c' (ix idx k)) c"
      unfolding sum_axes_append
    proof (rule sum_axes_cong [OF c(1) px(2)])
      fix c' assume n: "near sizes px c c'"
      from H [OF n] sep(2) et(1) have "?H c' = ?H c" by blast
      with over_w [OF near_valid [OF n] owns_near [OF wy c(1) n out(1) c(2)]]
      show "sum_axes sizes pw (\<lambda>c. ?S c idx) c' = (\<Sum>k \<in> ?H c. W (iw idx k) * Lx c' (ix idx k))"
        by (simp add: mult.commute)
    qed
    also have "\<dots> = (\<Sum>k \<in> ?H c. sum_axes sizes px (\<lambda>c'. W (iw idx k) * Lx c' (ix idx k)) c)"
      by (rule sum_axes_sum)
    also have "\<dots> = (\<Sum>k \<in> ?H c. X (ix idx k) * W (iw idx k))"
    proof (rule sum.cong [OF refl])
      fix k assume "k \<in> ?H c"
      note l = link [OF c this]
      show "sum_axes sizes px (\<lambda>c'. W (iw idx k) * Lx c' (ix idx k)) c = X (ix idx k) * W (iw idx k)"
        using sum_axes_const [OF c(1) px(2), of "\<lambda>_. W (iw idx k)" "W (iw idx k)" "\<lambda>c. Lx c (ix idx k)"] sums [OF c(1)] l
        by (simp add: mult.commute)
    qed
    finally show ?thesis .
  qed
  show ?thesis
    unfolding holds_tensor_def
  proof (intro allI impI conjI)
    fix c idx c' assume c: "valid_coordinate sizes c \<and> ?owns c idx" and n: "near sizes (spare_axes sizes ty as) c c'"
    have spare: "set (spare_axes sizes ty as) \<inter> set ?e = {}"
      "set (spare_axes sizes ty as) \<inter> (set px \<union> shard_axes_of sizes tx) = {}"
      "set (spare_axes sizes ty as) \<inter> (set pw \<union> shard_axes_of sizes tw) = {}"
      using cover as(2) by (auto simp: spare_axes_def)
    have less: "\<forall>a \<in> set (spare_axes sizes ty as). a < length sizes" by (simp add: spare_axes_def)
    have "Lx c' (ix idx k) * Lw c' (iw idx k) = Lx c (ix idx k) * Lw c (iw idx k)" if "k \<in> ?H c" for k
      using copy_x [OF n _ _ spare(2) less] copy_w [OF n _ _ spare(3) less] link [of c idx k] c that by simp
    with H [OF n spare(1)] show "?S c' idx = ?S c idx" by (simp add: contract_local_def)
  next
    fix c idx assume c: "valid_coordinate sizes c \<and> ?owns c idx"
    have "sum_axes sizes as (\<lambda>c. ?S c idx) c = sum_axes sizes (?e @ px @ pw) (\<lambda>c. ?S c idx) c"
      by (rule sum_axes_set) (use as px(1) pw(1) ea(1) sep et in auto)
    also have "\<dots> = sum_axes sizes ?e (\<lambda>c. \<Sum>k \<in> ?H c. X (ix idx k) * W (iw idx k)) c"
      unfolding sum_axes_append [of _ ?e]
    proof (rule sum_axes_cong [OF _ ea(2)])
      fix c' assume n: "near sizes ?e c c'"
      show "sum_axes sizes (px @ pw) (\<lambda>c. ?S c idx) c' = (\<Sum>k \<in> ?H c'. X (ix idx k) * W (iw idx k))"
        using over_x [OF near_valid [OF n] owns_near [OF wy _ n out(3)]] c by simp
    qed (use c in simp)
    also have "\<dots> = contract_global K ix iw X W idx"
      unfolding contract_global_def using sum_held [OF axes(2) _ K axes(1)] c by blast
    finally show "sum_axes sizes as (\<lambda>c. ?S c idx) c = contract_global K ix iw X W idx" .
  qed
qed

end
