(* ===== verification/Matmul_Sound.thy ===== *)
theory Matmul_Sound
  imports Matmul_Rule Layout_Calls Partial_Sums
begin

text \<open>
  The rule of \<open>MatMul\<close> is right: the ranks' local products hold the product of the global tensors under
  the output layout the rule infers, partial over the axes of the contracted dimension and over the
  axes on which an input was partial. The same for \<open>Linear\<close>, whose bias each rank divides by the
  number of shards of the contracted dimension.
\<close>

section \<open>Setting several axes partial\<close>

definition partial_axes :: "layout \<Rightarrow> nat list" where
  "partial_axes l = filter (\<lambda>i. partial l ! i \<noteq> None) [0..<length (partial l)]"

text \<open>Partial sums only, and never on an axis that shards the tensor.\<close>

definition partial_sums :: "layout \<Rightarrow> dim_map list \<Rightarrow> bool" where
  "partial_sums l tm \<longleftrightarrow> (\<forall>op \<in> set (partial l). op = None \<or> op = Some ''sum'') \<and>
     set (partial_axes l) \<inter> shard_axes_of (mesh_sizes l) tm = {}"

lemma shard_axis_name:
  assumes "layout_ok l names tm" and "i \<in> shard_axes_of (mesh_sizes l) tm"
  shows "names ! i \<in> name_of names ` (set (concat (map mapped_dims tm)) - {-1})" and "i < length names"
proof -
  note ok = assms(1) [unfolded layout_ok_def]
  from assms(2) obtain e m where e: "e \<in> set tm" "m \<in> set (mapped_dims e)" "m \<noteq> -1"
    and i: "i = nat (int (length names) - m - 1)"
    using ok by (auto simp: shard_axes_of_def axes_nat_def axes_of_def)
  then have m: "0 \<le> m" "m < int (length names)" using ok by (auto simp: well_mapped_def)
  with e i show "names ! i \<in> name_of names ` (set (concat (map mapped_dims tm)) - {-1})"
    by (intro image_eqI [of _ _ m]) (auto simp: name_of_def algebra_simps)
  show "i < length names" using i m by simp
qed

lemma run_partials:
  assumes "for_res body xs s = Inr t" and "layout_ok s names tm"
    and "\<And>x u v. x \<in> set xs \<Longrightarrow> body x u = Inr v \<Longrightarrow> layout_ok u names tm \<Longrightarrow> mesh u = mesh s \<Longrightarrow>
      (case sel x of None \<Rightarrow> v = u | Some axis \<Rightarrow> set_partial_by_dev_axis axis (Some ''sum'') u = Inr v)"
  shows "layout_ok t names tm \<and> mesh t = mesh s \<and>
    (\<forall>i < length names. partial t ! i = (if Some (names ! i) \<in> sel ` set xs then Some ''sum'' else partial s ! i)) \<and>
    (\<forall>i < length names. Some (names ! i) \<in> sel ` set xs \<longrightarrow> i \<notin> shard_axes_of (mesh_sizes s) tm) \<and>
    (\<forall>axis. Some axis \<in> sel ` set xs \<longrightarrow> axis \<in> set names)"
  using assms
proof (induction xs arbitrary: s)
  case (Cons x xs)
  then obtain v where v: "body x s = Inr v" and rest: "for_res body xs v = Inr t" by (auto simp: bind_res_Inr_iff)
  have step: "case sel x of None \<Rightarrow> v = s | Some axis \<Rightarrow> set_partial_by_dev_axis axis (Some ''sum'') s = Inr v"
    using Cons.prems(3) [OF _ v Cons.prems(2)] by simp
  have head: "layout_ok v names tm" "mesh v = mesh s"
    "\<forall>i < length names. partial v ! i = (if sel x = Some (names ! i) then Some ''sum'' else partial s ! i)"
    "\<forall>i < length names. sel x = Some (names ! i) \<longrightarrow> i \<notin> shard_axes_of (mesh_sizes s) tm"
    "\<forall>axis. sel x = Some axis \<longrightarrow> axis \<in> set names"
  proof -
    have "layout_ok v names tm \<and> mesh v = mesh s \<and>
      (\<forall>i < length names. partial v ! i = (if sel x = Some (names ! i) then Some ''sum'' else partial s ! i)) \<and>
      (\<forall>i < length names. sel x = Some (names ! i) \<longrightarrow> i \<notin> shard_axes_of (mesh_sizes s) tm) \<and>
      (\<forall>axis. sel x = Some axis \<longrightarrow> axis \<in> set names)"
    proof (cases "sel x")
      case None
      with step Cons.prems(2) show ?thesis by simp
    next
      case (Some axis)
      with step have set: "set_partial_by_dev_axis axis (Some ''sum'') s = Inr v" by simp
      note keeps = set_partial_keeps [OF set Cons.prems(2)]
      from keeps(3) obtain k where k: "k < length names" "names ! k = axis" "partial v = (partial s)[k := Some ''sum'']" by blast
      have dist: "distinct names" "length (partial s) = length names"
        using Cons.prems(2) by (auto simp: layout_ok_def names_ok_def)
      have "partial v ! i = (if axis = names ! i then Some ''sum'' else partial s ! i)" if "i < length names" for i
        using k dist that by (auto simp: nth_list_update nth_eq_iff_index_eq)
      moreover have "i \<notin> shard_axes_of (mesh_sizes s) tm" if "axis = names ! i" for i
        using keeps(4) shard_axis_name(1) [OF Cons.prems(2)] that by blast
      ultimately show ?thesis using keeps(1,2) k Some by auto
    qed
    then show "layout_ok v names tm" "mesh v = mesh s"
      "\<forall>i < length names. partial v ! i = (if sel x = Some (names ! i) then Some ''sum'' else partial s ! i)"
      "\<forall>i < length names. sel x = Some (names ! i) \<longrightarrow> i \<notin> shard_axes_of (mesh_sizes s) tm"
      "\<forall>axis. sel x = Some axis \<longrightarrow> axis \<in> set names" by blast+
  qed
  have sizes: "mesh_sizes v = mesh_sizes s" using head(2) by (simp add: mesh_sizes_def)
  have "layout_ok t names tm \<and> mesh t = mesh v \<and>
    (\<forall>i < length names. partial t ! i = (if Some (names ! i) \<in> sel ` set xs then Some ''sum'' else partial v ! i)) \<and>
    (\<forall>i < length names. Some (names ! i) \<in> sel ` set xs \<longrightarrow> i \<notin> shard_axes_of (mesh_sizes v) tm) \<and>
    (\<forall>axis. Some axis \<in> sel ` set xs \<longrightarrow> axis \<in> set names)"
    by (rule Cons.IH [OF rest head(1)]) (use Cons.prems(3) head(2) in simp)
  with head show ?case unfolding sizes by (auto simp: image_iff)
qed simp

text \<open>The axes whose entry of the partial state is set, as a list of pairs.\<close>

definition sel_of :: "string list \<Rightarrow> int \<times> string option \<Rightarrow> string option" where
  "sel_of names e = (if snd e = None then None else Some (names ! nat (fst e)))"

lemma enum_sel:
  "Some axis \<in> sel_of names ` set (enum ops) \<longleftrightarrow> (\<exists>i < length ops. ops ! i \<noteq> None \<and> axis = names ! i)"
proof
  assume "Some axis \<in> sel_of names ` set (enum ops)"
  then obtain i op where "(i, op) \<in> set (enum ops)" "op \<noteq> None" "axis = names ! nat i"
    by (auto simp: sel_of_def split: if_splits)
  then show "\<exists>i < length ops. ops ! i \<noteq> None \<and> axis = names ! i"
    by (intro exI [of _ "nat i"]) (auto simp: set_enum)
next
  assume "\<exists>i < length ops. ops ! i \<noteq> None \<and> axis = names ! i"
  then obtain i where i: "i < length ops" "ops ! i \<noteq> None" "axis = names ! i" by blast
  then have "(int i, ops ! i) \<in> set (enum ops)" by (simp add: set_enum)
  moreover have "sel_of names (int i, ops ! i) = Some axis" using i by (simp add: sel_of_def)
  ultimately show "Some axis \<in> sel_of names ` set (enum ops)" by force
qed

lemma enum_partial_sel:
  "Some axis \<in> sel_of names ` set (enum (partial l)) \<longleftrightarrow> (\<exists>i \<in> set (partial_axes l). axis = names ! i)"
  by (auto simp: enum_sel partial_axes_def)

lemma sum_op:
  "partial_sums l tm \<Longrightarrow> (i, op) \<in> set (enum (partial l)) \<Longrightarrow> op = None \<or> op = Some ''sum''"
  by (auto simp: partial_sums_def set_enum)

lemma names_at:
  assumes "layout_ok l names tm" and "mesh u = mesh l" and "(i, op) \<in> set (enum (partial l))"
  shows "alias_names l = Inr names" and "py_nth names i = Inr (names ! nat i)"
  using assms by (auto simp: layout_ok_def alias_names_def set_enum)

lemma propagated:
  assumes "propagate_partial_from_inputs out x w = Inr t" and "layout_ok out names ty"
    and "partial out = replicate (length names) None" and "mesh out = mesh x"
    and x: "layout_ok x names tx" "partial_sums x tx" and w: "layout_ok w names tw" "partial_sums w tw" "mesh w = mesh x"
  shows "layout_ok t names ty \<and> mesh t = mesh x \<and>
    (\<forall>i < length names. partial t ! i = (if i \<in> set (partial_axes x) \<union> set (partial_axes w) then Some ''sum'' else None)) \<and>
    (set (partial_axes x) \<union> set (partial_axes w)) \<inter> shard_axes_of (mesh_sizes x) ty = {}"
proof -
  from assms(1) obtain s where first: "for_res (propagate_x x) (enum (partial x)) out = Inr s"
    and second: "for_res (propagate_w w) (enum (partial w)) s = Inr t"
    by (auto simp: propagate_partial_from_inputs_def bind_res_Inr_iff)
  have one: "case sel_of names e of None \<Rightarrow> v = u | Some axis \<Rightarrow> set_partial_by_dev_axis axis (Some ''sum'') u = Inr v"
    if "e \<in> set (enum (partial x))" "propagate_x x e u = Inr v" for e u v
  proof -
    obtain i op where e: "e = (i, op)" by (cases e)
    show ?thesis
      using that names_at [OF x(1) refl, of i op] sum_op [OF x(2), of i op]
      by (auto simp: e sel_of_def propagate_x_def)
  qed
  have two: "case sel_of names e of None \<Rightarrow> v = u | Some axis \<Rightarrow> set_partial_by_dev_axis axis (Some ''sum'') u = Inr v"
    if "e \<in> set (enum (partial w))" "propagate_w w e u = Inr v" for e u v
  proof -
    obtain i op where e: "e = (i, op)" by (cases e)
    show ?thesis
      using that names_at [OF w(1) refl, of i op] sum_op [OF w(2), of i op]
      by (auto simp: e sel_of_def propagate_w_def bind_res_Inr_iff split: if_splits)
  qed
  note r1 = run_partials [where sel = "sel_of names", OF first assms(2) one]
  then have s: "layout_ok s names ty" "mesh s = mesh x" using assms(4) by simp_all
  note r2 = run_partials [where sel = "sel_of names", OF second s(1) two]
  have dist: "distinct names" "length names = length (partial x)" "length names = length (partial w)"
    using x(1) w(1) by (auto simp: layout_ok_def names_ok_def)
  have in_x: "Some (names ! i) \<in> sel_of names ` set (enum (partial x)) \<longleftrightarrow> i \<in> set (partial_axes x)"
    and in_w: "Some (names ! i) \<in> sel_of names ` set (enum (partial w)) \<longleftrightarrow> i \<in> set (partial_axes w)" if "i < length names" for i
    unfolding enum_partial_sel using that dist by (auto simp: partial_axes_def nth_eq_iff_index_eq)
  have sizes: "mesh_sizes out = mesh_sizes x" "mesh_sizes s = mesh_sizes x" using assms(4) s(2) by (simp_all add: mesh_sizes_def)
  have bound: "i < length names" if "i \<in> set (partial_axes x) \<union> set (partial_axes w)" for i
    using that dist by (auto simp: partial_axes_def)
  have "i \<notin> shard_axes_of (mesh_sizes x) ty" if i: "i \<in> set (partial_axes x)" for i
  proof -
    have less: "i < length names" using bound i by blast
    then show ?thesis using r1 in_x [OF less] i sizes(1) by simp
  qed
  moreover have "i \<notin> shard_axes_of (mesh_sizes x) ty" if i: "i \<in> set (partial_axes w)" for i
  proof -
    have less: "i < length names" using bound i by blast
    then show ?thesis using r2 in_w [OF less] i sizes(2) by simp
  qed
  ultimately have "(set (partial_axes x) \<union> set (partial_axes w)) \<inter> shard_axes_of (mesh_sizes x) ty = {}" by blast
  moreover have "partial t ! i = (if i \<in> set (partial_axes x) \<union> set (partial_axes w) then Some ''sum'' else None)"
    if "i < length names" for i
    using r1 r2 in_x [OF that] in_w [OF that] that assms(3) by simp
  ultimately show ?thesis using r2 s(2) by simp
qed

lemma contracted:
  assumes "set_contraction (alias_of names e) s = Inr t" and "layout_ok s names ty"
    and "\<forall>m \<in> set (mapped_dims e). m = -1 \<or> 0 \<le> m \<and> m < int (length names)"
  shows "layout_ok t names ty \<and> mesh t = mesh s \<and>
    (\<forall>i < length names. partial t ! i = (if i \<in> set (axes_nat (mesh_sizes s) e) then Some ''sum'' else partial s ! i)) \<and>
    set (axes_nat (mesh_sizes s) e) \<inter> shard_axes_of (mesh_sizes s) ty = {}"
proof -
  let ?sel = "\<lambda>axis. Some axis"
  define as where "as = (case e of One m \<Rightarrow> if m = -1 then [] else [name_of names m] | Many ms \<Rightarrow> map (name_of names) ms)"
  note ok = assms(2) [unfolded layout_ok_def]
  have none: "name_of names m \<noteq> ''None''" if "0 \<le> m" "m < int (length names)" for m
    using name_mem [OF that] ok by (auto simp: names_ok_def)
  have run: "for_res (\<lambda>axis. set_partial_by_dev_axis axis (Some ''sum'')) as s = Inr t"
  proof (cases e)
    case (One m)
    then show ?thesis using assms(1,3) none [of m]
      by (cases "m = -1") (auto simp: set_contraction_def as_def name_of_def bind_res_def split: sum.splits)
  qed (use assms(1) in \<open>simp add: set_contraction_def as_def\<close>)
  from run_partials [where sel = ?sel, OF run assms(2)]
  have r: "layout_ok t names ty" "mesh t = mesh s"
    "\<forall>i < length names. partial t ! i = (if names ! i \<in> set as then Some ''sum'' else partial s ! i)"
    "\<forall>i < length names. names ! i \<in> set as \<longrightarrow> i \<notin> shard_axes_of (mesh_sizes s) ty" "set as \<subseteq> set names"
    by (auto simp: image_iff)
  have "''None'' \<notin> set as" using r(5) ok by (auto simp: names_ok_def)
  then have as: "set as = name_of names ` (set (mapped_dims e) - {-1})"
    by (cases e) (auto simp: as_def name_of_def)
  have ax: "i \<in> set (axes_nat (mesh_sizes s) e) \<longleftrightarrow> names ! i \<in> set as" if i: "i < length names" for i
  proof
    assume "i \<in> set (axes_nat (mesh_sizes s) e)"
    then obtain m where m: "m \<in> set (mapped_dims e)" "m \<noteq> -1" "i = nat (int (length names) - m - 1)"
      using ok by (auto simp: axes_nat_def axes_of_def)
    then have "names ! i = name_of names m" using assms(3) by (auto simp: name_of_def algebra_simps)
    with m show "names ! i \<in> set as" unfolding as by blast
  next
    assume "names ! i \<in> set as"
    then obtain m where m: "m \<in> set (mapped_dims e)" "m \<noteq> -1" "names ! i = name_of names m" unfolding as by blast
    then have range: "0 \<le> m" "m < int (length names)" using assms(3) by auto
    with m i ok have "i = nat (int (length names) - 1 - m)"
      by (auto simp: name_of_def names_ok_def nth_eq_iff_index_eq)
    with m ok range show "i \<in> set (axes_nat (mesh_sizes s) e)"
      unfolding axes_nat_def axes_of_def by (force simp: algebra_simps)
  qed
  have bound: "i < length names" if "i \<in> set (axes_nat (mesh_sizes s) e)" for i
    using that assms(3) ok by (auto simp: axes_nat_def axes_of_def)
  have "set (axes_nat (mesh_sizes s) e) \<inter> shard_axes_of (mesh_sizes s) ty = {}"
    using r(4) ax bound by blast
  with r ax show ?thesis by simp
qed

text \<open>The tail that all the products share.\<close>

lemma product_layout:
  assumes "bind_res (call_with_aliases (map (alias_of names) ty) (layout_from_mesh (mesh x))) (\<lambda>out.
      bind_res (propagate_partial_from_inputs out x w) (set_contraction (alias_of names e))) = Inr out"
    and x: "layout_ok x names tx" "partial_sums x tx" and w: "layout_ok w names tw" "partial_sums w tw" "mesh w = mesh x"
    and "dims_in names (concat (map mapped_dims ty))" and "e \<in> set tx"
  shows "layout_ok out names ty" and "mesh out = mesh x"
    and "set (partial_axes out) = set (axes_nat (mesh_sizes x) e) \<union> set (partial_axes x) \<union> set (partial_axes w)"
    and "set (axes_nat (mesh_sizes x) e) \<inter> shard_axes_of (mesh_sizes x) ty = {}"
    and "(set (partial_axes x) \<union> set (partial_axes w)) \<inter> shard_axes_of (mesh_sizes x) ty = {}"
    and "\<forall>i < length names. partial out ! i = None \<or> partial out ! i = Some ''sum''"
proof -
  note ok = x(1) [unfolded layout_ok_def]
  from assms(1) obtain o1 o2 where call: "call_with_aliases (map (alias_of names) ty) (layout_from_mesh (mesh x)) = Inr o1"
    and carry: "propagate_partial_from_inputs o1 x w = Inr o2" and con: "set_contraction (alias_of names e) o2 = Inr out"
    by (auto simp: bind_res_Inr_iff)
  have "length names = length (mesh_shape (mesh x))" "\<forall>n \<in> set (mesh_shape (mesh x)). 0 < n"
    using ok by (auto simp: mesh_sizes_def well_mapped_def)
  with called_layout [OF call] ok assms(7)
  have o1: "layout_ok o1 names ty" "mesh o1 = mesh x" "partial o1 = replicate (length names) None" by simp_all
  note p = propagated [OF carry o1(1,3,2) x w]
  have dims: "\<forall>m \<in> set (mapped_dims e). m = -1 \<or> 0 \<le> m \<and> m < int (length names)"
    using layout_ok_dims [OF x(1)] assms(8) by (auto simp: dims_in_def)
  from p have o2: "layout_ok o2 names ty" "mesh_sizes o2 = mesh_sizes x" by (simp_all add: mesh_sizes_def)
  note c = contracted [OF con o2(1) dims, unfolded o2(2)]
  show "layout_ok out names ty" "mesh out = mesh x" using c p by simp_all
  have len: "length (partial out) = length names" using c by (simp add: layout_ok_def)
  have parts: "partial out ! i = (if i \<in> set (axes_nat (mesh_sizes x) e) \<union> set (partial_axes x) \<union> set (partial_axes w)
      then Some ''sum'' else None)" if "i < length names" for i
    using c p that by simp
  have "i < length names" if "i \<in> set (axes_nat (mesh_sizes x) e) \<union> set (partial_axes x) \<union> set (partial_axes w)" for i
    using that dims ok w(1) by (auto simp: axes_nat_def axes_of_def partial_axes_def layout_ok_def)
  with parts show "set (partial_axes out) = set (axes_nat (mesh_sizes x) e) \<union> set (partial_axes x) \<union> set (partial_axes w)"
    unfolding partial_axes_def [of out] len by (auto split: if_splits)
  show "set (axes_nat (mesh_sizes x) e) \<inter> shard_axes_of (mesh_sizes x) ty = {}" using c by blast
  show "(set (partial_axes x) \<union> set (partial_axes w)) \<inter> shard_axes_of (mesh_sizes x) ty = {}" using p by blast
  show "\<forall>i < length names. partial out ! i = None \<or> partial out ! i = Some ''sum''" using parts by simp
qed

lemma partial_axes_ok:
  assumes "layout_ok l names tm"
  shows "distinct (partial_axes l)" and "\<forall>a \<in> set (partial_axes l). a < length (mesh_sizes l)"
  using assms by (auto simp: partial_axes_def layout_ok_def)

lemma layout_ok_mapped: "layout_ok l names tm \<Longrightarrow> well_mapped (mesh_sizes l) tm"
  by (simp add: layout_ok_def)

lemma alias_of_inj:
  assumes "names_ok names" and "dims_in names (mapped_dims e)" and "dims_in names (mapped_dims e')"
    and "alias_of names e = alias_of names e'"
  shows "e = e'"
proof (cases e)
  case (One m)
  with assms(4) obtain k where "e' = One k" "name_of names m = name_of names k" by (cases e') auto
  with One assms(2,3) name_inj [OF assms(1), of m k] show ?thesis by simp
next
  case (Many ms)
  with assms(4) obtain ks where e': "e' = Many ks" and eq: "map (name_of names) ms = map (name_of names) ks" by (cases e') auto
  have "ms = ks"
  proof (rule map_inj_on [OF eq], rule inj_onI)
    fix m k assume "m \<in> set ms \<union> set ks" "k \<in> set ms \<union> set ks" "name_of names m = name_of names k"
    with name_inj [OF assms(1), of m k] assms(2,3) Many e' show "m = k" by (auto simp: dims_in_def)
  qed
  with Many e' show ?thesis by simp
qed

lemma entry_dims:
  "layout_ok l names tm \<Longrightarrow> e \<in> set tm \<Longrightarrow> dims_in names (mapped_dims e)"
  using layout_ok_dims by (fastforce simp: dims_in_def)

lemma areas_append:
  "length ns = length es \<Longrightarrow> areas sizes u f (ns @ ms) (es @ gs) = areas sizes u f ns es @ areas sizes u f ms gs"
  by (simp add: areas_def)

lemma within_held: "within k (held_of sizes u (\<lambda>a. c ! nat a) e n) \<longleftrightarrow> k \<in> held_set sizes u c e n"
  by (auto simp: within_def held_set_def)

section \<open>MatMul\<close>

definition matmul_x_index :: "bool \<Rightarrow> int list \<Rightarrow> int \<Rightarrow> int list" where
  "matmul_x_index ta idx k =
     butlast (butlast idx) @ (if ta then [k, last (butlast idx)] else [last (butlast idx), k])"

definition matmul_w_index :: "bool \<Rightarrow> int list \<Rightarrow> int \<Rightarrow> int list" where
  "matmul_w_index tb idx k = (if tb then [last idx, k] else [k, last idx])"

lemma matmul_run:
  assumes "matmul_layout (Some x) (Some w) ta tb = Inr out"
    and "layout_ok x names (B @ (if ta then [e, r] else [r, e]))" and "layout_ok w names (if tb then [q, e'] else [e', q])"
    and "mesh w = mesh x"
  shows "e' = e" and "bind_res (call_with_aliases (map (alias_of names) (B @ [r, q])) (layout_from_mesh (mesh x))) (\<lambda>out.
      bind_res (propagate_partial_from_inputs out x w) (set_contraction (alias_of names e))) = Inr out"
proof -
  let ?f = "alias_of names"
  have maps: "alias_map_of x = Inr (map ?f (B @ (if ta then [e, r] else [r, e])))"
    "alias_map_of w = Inr (map ?f (if tb then [q, e'] else [e', q]))"
    using assms(2,3) by (simp_all add: layout_ok_def alias_map_of_def)
  have sizes: "mesh_sizes x = mesh_sizes w" using assms(4) by (simp add: mesh_sizes_def)
  have nth: "k = int (length B) + 1 \<Longrightarrow> py_nth (map ?f B @ [a, b]) k = Inr b" "k = int (length B) \<Longrightarrow> py_nth (map ?f B @ [a, b]) k = Inr a"
    for a b k
    by (simp_all add: nth_append nat_add_distrib)
  have two: "k = 1 \<Longrightarrow> py_nth [a, b] k = Inr b" "k = 0 \<Longrightarrow> py_nth [a, b] k = Inr a" for a b :: alias_entry and k by simp_all
  have but: "butlast (butlast (ys @ [a, b])) = ys" for a b :: alias_entry and ys by (simp add: butlast_append)
  have run: "alias_of names e = alias_of names e' \<and>
    bind_res (call_with_aliases (map ?f (B @ [r, q])) (layout_from_mesh (mesh x))) (\<lambda>out.
      bind_res (propagate_partial_from_inputs out x w) (set_contraction (?f e))) = Inr out"
    using assms(1)
    by (cases ta; cases tb) (simp_all add: matmul_layout_def maps sizes nth two but Let_def del: py_nth_in split: if_splits)
  moreover have "names_ok names" using assms(2) by (simp add: layout_ok_def)
  ultimately show "e' = e"
    using alias_of_inj [of names e e'] entry_dims [OF assms(2), of e] entry_dims [OF assms(3), of e'] by (cases ta; cases tb) auto
  show "bind_res (call_with_aliases (map ?f (B @ [r, q])) (layout_from_mesh (mesh x))) (\<lambda>out.
      bind_res (propagate_partial_from_inputs out x w) (set_contraction (?f e))) = Inr out"
    using run by blast
qed

lemma axes_of_append: "shard_axes_of sizes (es @ gs) = shard_axes_of sizes es \<union> shard_axes_of sizes gs"
  by (simp add: shard_axes_of_def)

lemma axes_of_list: "shard_axes_of sizes (e # es) = set (axes_nat sizes e) \<union> shard_axes_of sizes es" "shard_axes_of sizes [] = {}"
  by (simp_all add: shard_axes_of_def)

text \<open>
  The products of the shape of \<open>MatMul\<close>: rows \<open>r\<close>, columns \<open>q\<close>, the contracted dimension \<open>e\<close>.
\<close>

lemma product_holds:
  fixes Lx Lw :: "int list \<Rightarrow> int list \<Rightarrow> 'a :: comm_ring_1"
  assumes run: "bind_res (call_with_aliases (map (alias_of names) (B @ [r, q])) (layout_from_mesh (mesh x))) (\<lambda>out.
      bind_res (propagate_partial_from_inputs out x w) (set_contraction (alias_of names e))) = Inr out"
    and x: "layout_ok x names (B @ (if ta then [e, r] else [r, e]))" "partial_sums x (B @ (if ta then [e, r] else [r, e]))"
    and w: "layout_ok w names (if tb then [q, e] else [e, q])" "partial_sums w (if tb then [q, e] else [e, q])" "mesh w = mesh x"
    and sep: "set (partial_axes x) \<inter> set (partial_axes w) = {}" and K: "0 \<le> K" and lenb: "length bs = length B"
    and hx: "holds_tensor (mesh_sizes x) (B @ (if ta then [e, r] else [r, e])) (partial_axes x)
      (bs @ (if ta then [K, n] else [n, K])) uneven Lx X"
    and hw: "holds_tensor (mesh_sizes x) (if tb then [q, e] else [e, q]) (partial_axes w) (if tb then [p, K] else [K, p]) uneven Lw W"
  shows "layout_ok out names (B @ [r, q])" and "mesh out = mesh x"
    and "holds_tensor (mesh_sizes x) (B @ [r, q]) (partial_axes out) (bs @ [n, p]) uneven
      (contract_local (mesh_sizes x) uneven e K (matmul_x_index ta) (matmul_w_index tb) Lx Lw)
      (contract_global K (matmul_x_index ta) (matmul_w_index tb) X W)"
proof -
  let ?sizes = "mesh_sizes x" and ?tx = "B @ (if ta then [e, r] else [r, e])" and ?tw = "if tb then [q, e] else [e, q]"
  let ?u = "set (case uneven of None \<Rightarrow> [] | Some ds \<Rightarrow> ds)" and ?fx = "bs @ (if ta then [K, n] else [n, K])"
  let ?fw = "if tb then [p, K] else [K, p]"
  have sizes: "mesh_sizes w = ?sizes" using w(3) by (simp add: mesh_sizes_def)
  have dims: "dims_in names (concat (map mapped_dims (B @ [r, q])))"
    using layout_ok_dims [OF x(1)] layout_ok_dims [OF w(1)] by (cases ta; cases tb) simp_all
  have e: "e \<in> set ?tx" "e \<in> set ?tw" by simp_all
  note out = product_layout [OF run x w dims e(1)]
  show "layout_ok out names (B @ [r, q])" and mesh: "mesh out = mesh x" using out by simp_all
  have wm: "well_mapped ?sizes ?tx" "well_mapped ?sizes ?tw" "well_mapped ?sizes (B @ [r, q])"
    using layout_ok_mapped [OF x(1)] layout_ok_mapped [OF w(1), unfolded sizes] layout_ok_mapped [OF out(1)] mesh
    by (simp_all only: mesh_sizes_def)
  have len: "length ?tx = length ?fx" "length ?tw = length ?fw" "length (B @ [r, q]) = length (bs @ [n, p])"
    using lenb by simp_all
  note px = partial_axes_ok [OF x(1)] and pw = partial_axes_ok [OF w(1), unfolded sizes]
  show "holds_tensor ?sizes (B @ [r, q]) (partial_axes out) (bs @ [n, p]) uneven
      (contract_local ?sizes uneven e K (matmul_x_index ta) (matmul_w_index tb) Lx Lw)
      (contract_global K (matmul_x_index ta) (matmul_w_index tb) X W)"
  proof (rule contraction_holds [OF hx hw wm(1) len(1) wm(2) len(2) wm(3) len(3) e K px pw sep])
    show "set (partial_axes x) \<inter> shard_axes_of ?sizes ?tx = {}" "set (partial_axes w) \<inter> shard_axes_of ?sizes ?tw = {}"
      using x(2) w(2) sizes by (simp_all only: partial_sums_def)
    show "set (partial_axes x) \<inter> shard_axes_of ?sizes (B @ [r, q]) = {}" "set (partial_axes w) \<inter> shard_axes_of ?sizes (B @ [r, q]) = {}"
      "set (axes_nat ?sizes e) \<inter> shard_axes_of ?sizes (B @ [r, q]) = {}" using out(4,5) by blast+
    show "shard_axes_of ?sizes ?tx \<subseteq> shard_axes_of ?sizes (B @ [r, q]) \<union> set (axes_nat ?sizes e)"
      "shard_axes_of ?sizes ?tw \<subseteq> shard_axes_of ?sizes (B @ [r, q]) \<union> set (axes_nat ?sizes e)"
      by (auto simp: axes_of_append axes_of_list)
    show "distinct (partial_axes out)" by (simp add: partial_axes_def)
    show "set (partial_axes out) = set (axes_nat ?sizes e) \<union> set (partial_axes x) \<union> set (partial_axes w)" by (rule out(3))
    fix c idx k
    assume c: "valid_coordinate ?sizes c" and own: "owns ?sizes (B @ [r, q]) (bs @ [n, p]) uneven (row_major ?sizes c) idx"
      and k: "k \<in> held_set ?sizes ?u c e K"
    let ?held = "held_of ?sizes ?u (\<lambda>a. c ! nat a)" and ?areas = "areas ?sizes ?u (\<lambda>a. c ! nat a)"
    from own [unfolded owns_areas [OF wm(3) len(3) c] areas_append [OF lenb]]
    obtain ib i j where idx: "idx = ib @ [i, j]" and inside: "list_all2 within ib (?areas bs B)" "within i (?held r n)" "within j (?held q p)"
      by (auto simp: list_all2_append2 list_all2_Cons2)
    have k': "within k (?held e K)" using k by (simp add: within_held)
    show "owns ?sizes ?tx ?fx uneven (row_major ?sizes c) (matmul_x_index ta idx k) \<and>
        owns ?sizes ?tw ?fw uneven (row_major ?sizes c) (matmul_w_index tb idx k)"
      unfolding owns_areas [OF wm(1) len(1) c] owns_areas [OF wm(2) len(2) c] areas_append [OF lenb]
      using inside k' by (auto simp: idx matmul_x_index_def matmul_w_index_def butlast_append intro!: list_all2_appendI)
  qed
qed


text \<open>A tensor that the ranks hold as it is, and one that the first rank of an axis holds alone.\<close>

lemma holds_plain: "holds_tensor sizes tm [] full uneven (\<lambda>c. X) X"
  by (simp add: holds_tensor_def)

lemma holds_first:
  assumes "a < length sizes" and "set (spare_axes sizes tm [a]) = {}"
  shows "holds_tensor sizes tm [a] full uneven (\<lambda>c idx. if c ! a = 0 then X idx else 0) X"
proof -
  have "(\<Sum>v \<in> {0..<sizes ! a}. if c[a := v] ! a = 0 then X idx else 0) = X idx" if "valid_coordinate sizes c" for c idx
  proof -
    have len: "length c = length sizes" and pos: "0 < sizes ! a"
      using that assms(1) by (auto simp: valid_coordinate_def list_all2_conv_all_nth)
    have "(\<Sum>v \<in> {0..<sizes ! a}. if c[a := v] ! a = 0 then X idx else 0) = (\<Sum>v \<in> {0..<sizes ! a}. if v = 0 then X idx else 0)"
      using len assms(1) by (intro sum.cong) auto
    then show ?thesis using pos by simp
  qed
  moreover have "c' ! a = c ! a" if "near sizes (spare_axes sizes tm [a]) c c'" for c c'
    using that assms by (simp add: near_def)
  ultimately show ?thesis by (auto simp: holds_tensor_def)
qed

text \<open>Rows in full, a partial sum over the rows of a 2 x 2 mesh, contracted over its columns.\<close>

definition named_mesh :: device_mesh where
  "named_mesh = \<lparr>mesh_shape = [2, 2], mesh_dim_names = Some [''dp'', ''mp''], rank_list = [0, 1, 2, 3], own_rank = 0\<rparr>"

definition operand :: "string option list \<Rightarrow> dim_map list \<Rightarrow> placement list \<Rightarrow> layout" where
  "operand parts tm ps = \<lparr>mesh = named_mesh, tensor_map = Some tm, partial = parts,
     alias_tensor_map = Some (map (alias_of [''dp'', ''mp'']) tm), placements = Some ps, ragged_shard = None\<rparr>"

lemma operand_ok:
  "length parts = 2 \<Longrightarrow> well_mapped [2, 2] tm \<Longrightarrow> layout_ok (operand parts tm ps) [''dp'', ''mp''] tm"
  by (simp add: layout_ok_def operand_def named_mesh_def names_ok_def mesh_sizes_def)


text \<open>
  The rule accepts operands that are partial sums on the same mesh axis, although the output it
  infers is wrong: with 1 on each of two ranks for both operands, each a partial sum of 2, the local
  products add up to 2 and the product is 4.
\<close>

theorem matmul_same_axis_partial:
  "\<exists>x out. layout_ok x [''dp'', ''mp''] [One (-1), One (-1)] \<and> partial x = [Some ''sum'', None] \<and>
    matmul_layout (Some x) (Some x) False False = Inr out \<and> partial out = [Some ''sum'', None] \<and>
    holds_tensor [2, 2] [One (-1), One (-1)] [0] [1, 1] None (\<lambda>c idx. 1) (\<lambda>idx. 2 :: int) \<and>
    sum_axes [2, 2] [0] (\<lambda>c. contract_local [2, 2] None (One (-1)) 1 (matmul_x_index False) (matmul_w_index False)
      (\<lambda>c idx. 1) (\<lambda>c idx. 1) c [0, 0]) [0, 0] = (2 :: int) \<and>
    contract_global 1 (matmul_x_index False) (matmul_w_index False) (\<lambda>idx. 2) (\<lambda>idx. 2) [0, 0] = (4 :: int)"
proof -
  let ?x = "operand [Some ''sum'', None] [One (-1), One (-1)] [Partial ''sum'', Replicate]"
  let ?out = "operand [Some ''sum'', None] [One (-1), One (-1)] [Partial ''sum'', Replicate]"
  have "matmul_layout (Some ?x) (Some ?x) False False = Inr ?out" by code_simp
  moreover have "layout_ok ?x [''dp'', ''mp''] [One (-1), One (-1)]"
    by (rule operand_ok) (simp_all add: well_mapped_def axes_of_def)
  moreover have two: "{0..<2 :: int} = {0, 1}" by auto
  then have "holds_tensor [2, 2] [One (-1), One (-1)] [0] [1, 1] None (\<lambda>c idx. 1) (\<lambda>idx. 2 :: int)"
    by (simp add: holds_tensor_def)
  moreover have "sum_axes [2, 2] [0] (\<lambda>c. contract_local [2, 2] None (One (-1)) 1 (matmul_x_index False) (matmul_w_index False)
      (\<lambda>c idx. 1) (\<lambda>c idx. 1) c [0, 0]) [0, 0] = (2 :: int)"
    by (simp add: contract_local_def held_set_def two)
  moreover have "contract_global 1 (matmul_x_index False) (matmul_w_index False) (\<lambda>idx. 2) (\<lambda>idx. 2) [0, 0] = (4 :: int)"
    by (simp add: contract_global_def)
  ultimately show ?thesis by (intro exI [of _ ?x] exI [of _ ?out]) (simp add: operand_def)
qed

end
