(* ===== verification/Linear_Sound.thy ===== *)
theory Linear_Sound
  imports Complex_Main Matmul_Sound
begin

text \<open>
  \<open>Linear\<close> with a bias: every rank divides the bias by the number of shards of the contracted dimension
  before its local product, so that the reduction over the output's partial axes adds the bias once.
  The scaling counts the contracted dimension only, so a partial input makes it wrong.
\<close>

definition linear_local ::
    "int list \<Rightarrow> int list option \<Rightarrow> dim_map \<Rightarrow> int \<Rightarrow> int option \<Rightarrow> (int list \<Rightarrow> int list \<Rightarrow> 'a) \<Rightarrow>
     (int list \<Rightarrow> int list \<Rightarrow> 'a) \<Rightarrow> (int list \<Rightarrow> int list \<Rightarrow> 'a) \<Rightarrow> int list \<Rightarrow> int list \<Rightarrow> 'a :: field_char_0" where
  "linear_local sizes uneven e K scaling Lx Lw Lb c idx =
     contract_local sizes uneven e K (matmul_x_index False) (matmul_w_index True) Lx Lw c idx +
     (case scaling of None \<Rightarrow> Lb c [last idx] | Some f \<Rightarrow> Lb c [last idx] / of_int f)"

definition linear_global ::
    "int \<Rightarrow> (int list \<Rightarrow> 'a) \<Rightarrow> (int list \<Rightarrow> 'a) \<Rightarrow> (int list \<Rightarrow> 'a) \<Rightarrow> int list \<Rightarrow> 'a :: field_char_0" where
  "linear_global K X W b idx =
     contract_global K (matmul_x_index False) (matmul_w_index True) X W idx + b [last idx]"

section \<open>The layout\<close>

lemma linear_run:
  assumes "linear_layout (Some x) (Some w) (Some b) = Inr out"
    and "layout_ok x names (B @ [r, e])" and "layout_ok w names [q, e']" and "layout_ok b names [d]" and "mesh w = mesh x"
  shows "e' = e" and "d = q" and "bind_res (call_with_aliases (map (alias_of names) (B @ [r, q])) (layout_from_mesh (mesh x))) (\<lambda>out.
      bind_res (propagate_partial_from_inputs out x w) (set_contraction (alias_of names e))) = Inr out"
proof -
  let ?f = "alias_of names"
  have maps: "alias_map_of x = Inr (map ?f (B @ [r, e]))" "alias_map_of w = Inr [?f q, ?f e']" "alias_map_of b = Inr [?f d]"
    using assms(2-4) by (simp_all add: layout_ok_def alias_map_of_def)
  have sizes: "mesh_sizes x = mesh_sizes w" using assms(5) by (simp add: mesh_sizes_def)
  have nth: "k = int (length B) + 1 \<Longrightarrow> py_nth (map ?f B @ [a, b]) k = Inr b" for a b k
    by (simp_all add: nth_append nat_add_distrib)
  have two: "k = 1 \<Longrightarrow> py_nth [a, b] k = Inr b" "k = 0 \<Longrightarrow> py_nth [a, b] k = Inr a" "py_nth [a] 0 = Inr a" for a b :: alias_entry and k
    by simp_all
  have but: "butlast (ys @ [a, b]) = ys @ [a]" for a b :: alias_entry and ys by (simp add: butlast_append)
  have run: "?f e = ?f e' \<and> ?f d = ?f q \<and>
    bind_res (call_with_aliases (map ?f (B @ [r, q])) (layout_from_mesh (mesh x))) (\<lambda>out.
      bind_res (propagate_partial_from_inputs out x w) (set_contraction (?f e))) = Inr out"
    using assms(1) by (simp add: linear_layout_def maps sizes nth two but Let_def del: py_nth_in split: if_splits)
  moreover have "names_ok names" using assms(2) by (simp add: layout_ok_def)
  ultimately show "e' = e" and "d = q"
    using alias_of_inj [of names e e'] alias_of_inj [of names d q] entry_dims [OF assms(2), of e] entry_dims [OF assms(3)]
      entry_dims [OF assms(4), of d] by auto
  show "bind_res (call_with_aliases (map ?f (B @ [r, q])) (layout_from_mesh (mesh x))) (\<lambda>out.
      bind_res (propagate_partial_from_inputs out x w) (set_contraction (?f e))) = Inr out"
    using run by blast
qed

lemma device_num:
  assumes "mesh_dim_names dm = Some names" and "names_ok names" and "length names = length (mesh_shape dm)"
    and "0 \<le> m" and "m < int (length names)"
  shows "get_device_num_along_axis dm (name_of names m) = Inr (mesh_shape dm ! nat (int (length names) - m - 1))"
proof -
  have "name_of names m \<in> set names" by (rule name_mem [OF assms(4,5)])
  moreover have "names \<noteq> []" using assms(4,5) by auto
  ultimately show ?thesis
    using index_of_name [OF assms(2,4,5)] assms(1,3,4,5)
    by (simp add: get_device_num_along_axis_def axis_index_def assert_axis_def algebra_simps)
qed

lemma scaling_shards:
  assumes "linear_bias_scaling x (Some b) out = Inr scaling" and "layout_ok x names (B @ [e])" and "mesh out = mesh x"
    and "set_contraction (alias_of names e) o2 = Inr out" and "layout_ok o2 names ty"
  shows "case scaling of None \<Rightarrow> e = One (-1) | Some f \<Rightarrow> f = (\<Prod>a\<leftarrow>axes_nat (mesh_sizes x) e. mesh_sizes x ! a)"
proof -
  note ok = assms(2) [unfolded layout_ok_def]
  have dims: "dims_in names (mapped_dims e)" using entry_dims [OF assms(2)] by simp
  let ?loop = "for_res (\<lambda>axis factor. bind_res (get_device_num_along_axis (mesh out) axis) (\<lambda>n. Inr (factor * n)))"
  have loop: "?loop (map (name_of names) ms) k = Inr (k * (\<Prod>m\<leftarrow>ms. mesh_sizes x ! nat (int (length names) - m - 1)))"
    if "\<forall>m \<in> set ms. 0 \<le> m \<and> m < int (length names)" for ms k
    using that
  proof (induction ms arbitrary: k)
    case (Cons m ms)
    then show ?case
      using device_num [of "mesh x" names m] ok assms(3) by (simp add: mesh_sizes_def mult.assoc)
  qed simp
  have map: "py_nth (map (alias_of names) B @ [alias_of names e]) (int (length B)) = Inr (alias_of names e)"
    by (simp add: nth_append)
  have none: "name_of names m \<noteq> ''None''" if "0 \<le> m" "m < int (length names)" for m
    using name_mem [OF that] ok by (auto simp: names_ok_def)
  show ?thesis
  proof (cases e)
    case (One m)
    show ?thesis
    proof (cases "m = -1")
      case True
      then show ?thesis using assms(1) map ok One
        by (auto simp: linear_bias_scaling_def alias_map_of_def name_of_def)
    next
      case False
      with dims One have m: "0 \<le> m" "m < int (length names)" by auto
      have "?loop [name_of names m] 1 = Inr (mesh_sizes x ! nat (int (length names) - m - 1))" using loop [of "[m]" 1] m by simp
      then show ?thesis using assms(1) map ok One False none [OF m] m
        by (auto simp: linear_bias_scaling_def alias_map_of_def axes_nat_def axes_of_def)
    qed
  next
    case (Many ms)
    have "''None'' \<notin> name_of names ` set ms"
    proof
      assume "''None'' \<in> name_of names ` set ms"
      then have some: "Some ''None'' \<in> Some ` set (map (name_of names) ms)" by simp
      have "for_res (\<lambda>axis. set_partial_by_dev_axis axis (Some ''sum'')) (map (name_of names) ms) o2 = Inr out"
        using assms(4) Many by (simp add: set_contraction_def)
      from run_partials [where sel = "\<lambda>axis. Some axis", OF this assms(5)] some have "''None'' \<in> set names" by auto
      then show False using ok by (simp add: names_ok_def)
    qed
    then have ms: "\<forall>m \<in> set ms. 0 \<le> m \<and> m < int (length names)"
      using dims Many by (force simp: dims_in_def name_of_def)
    then have "filter (\<lambda>m. m \<noteq> -1) ms = ms" by (auto simp: filter_id_conv)
    then show ?thesis using assms(1) map ok Many loop [OF ms, of 1]
      by (auto simp: linear_bias_scaling_def alias_map_of_def axes_nat_def axes_of_def comp_def)
  qed
qed

section \<open>The bias\<close>

lemma sum_axes_add: "sum_axes sizes as (\<lambda>c. F c + G c) c = sum_axes sizes as F c + sum_axes sizes as G c"
  by (induction as arbitrary: c) (simp_all add: sum.distrib)

lemma sum_axes_copies:
  fixes g :: "'a :: field_char_0"
  assumes "valid_coordinate sizes c" and "\<forall>a \<in> set as. a < length sizes" and "\<And>c'. near sizes as c c' \<Longrightarrow> F c' = g"
  shows "sum_axes sizes as F c = of_int (\<Prod>a\<leftarrow>as. sizes ! a) * g"
proof -
  have pos: "\<forall>a \<in> set as. 0 \<le> sizes ! a" using assms(1,2) by (force simp: valid_coordinate_def list_all2_conv_all_nth)
  have "sum_axes sizes as (\<lambda>_. g) c = of_int (\<Prod>a\<leftarrow>as. sizes ! a) * g" for c
    using pos by (induction as arbitrary: c) (simp_all add: of_nat_nat)
  with sum_axes_cong [OF assms(1,2), of F "\<lambda>_. g"] assms(3) show ?thesis by simp
qed

lemma prod_same:
  "distinct as \<Longrightarrow> distinct bs \<Longrightarrow> set as = set bs \<Longrightarrow> (\<Prod>a\<leftarrow>as. g a) = (\<Prod>b\<leftarrow>bs. g b :: int)"
  by (metis prod.distinct_set_conv_list)

lemma bias_holds:
  fixes Lb :: "int list \<Rightarrow> int list \<Rightarrow> 'a :: field_char_0"
  assumes hb: "holds_tensor sizes [q] [] [p] uneven Lb b" and q: "well_mapped sizes [q]"
    and as: "distinct as" "set as = set (axes_nat sizes e)" "set as \<inter> shard_axes_of sizes [q] = {}" "\<forall>a \<in> set as. a < length sizes"
    and scaling: "case scaling of None \<Rightarrow> axes_nat sizes e = [] | Some f \<Rightarrow> f = (\<Prod>a\<leftarrow>axes_nat sizes e. sizes ! a)"
    and c: "valid_coordinate sizes c" "owns sizes [q] [p] uneven (row_major sizes c) [j]" and e: "distinct (axes_nat sizes e)"
  shows "sum_axes sizes as (\<lambda>c. case scaling of None \<Rightarrow> Lb c [j] | Some f \<Rightarrow> Lb c [j] / of_int f) c = b [j]"
proof -
  have pos: "0 < sizes ! a" if "a < length sizes" for a
    using c(1) that by (force simp: valid_coordinate_def list_all2_conv_all_nth)
  have copy: "Lb c' [j] = Lb c [j]" if "near sizes as c c'" for c'
  proof -
    have "set as \<subseteq> set (spare_axes sizes [q] [])" using as(3,4) by (auto simp: spare_axes_def)
    with near_mono [OF that] hb c show ?thesis unfolding holds_tensor_def by blast
  qed
  have own: "Lb c [j] = b [j]" using hb c by (simp add: holds_tensor_def)
  show ?thesis
  proof (cases scaling)
    case None
    with scaling as(2) have "as = []" by simp
    with None own show ?thesis by simp
  next
    case (Some f)
    have f: "f = (\<Prod>a\<leftarrow>as. sizes ! a)"
      using Some scaling prod_same [OF as(1) e as(2), of "\<lambda>a. sizes ! a"] by simp
    have "0 < (\<Prod>a\<leftarrow>as. sizes ! a)" using as(4) pos by (induction as) auto
    with f have "of_int f \<noteq> (0 :: 'a)" by simp
    with Some f own copy sum_axes_copies [OF c(1) as(4), of "\<lambda>c. Lb c [j] / of_int f" "Lb c [j] / of_int f"]
    show ?thesis by simp
  qed
qed

text \<open>
  C10: Let the rule of \<open>Linear\<close> accept layouts of \<open>x\<close>, the weight and the bias on one mesh, none of
  them partial, and let the ranks hold the tensors \<open>X\<close>, \<open>W\<close> and \<open>b\<close> under them. Then the ranks' local
  results, with the bias divided as \<open>get_expand_impl\<close> divides it, hold \<open>X W\<^sup>T + b\<close> under the output
  layout: the reduction over its partial axes counts the bias once.
\<close>

theorem linear_rule_correct:
  fixes Lx Lw Lb :: "int list \<Rightarrow> int list \<Rightarrow> 'a :: field_char_0"
  assumes "linear_layout (Some x) (Some w) (Some b) = Inr out" and "linear_bias_scaling x (Some b) out = Inr scaling"
    and "layout_ok x names (B @ [r, e])" and "layout_ok w names [q, e']" and "layout_ok b names [d]"
    and "mesh w = mesh x" and "mesh b = mesh x"
    and "partial_axes x = []" and "partial_axes w = []" and "0 \<le> K" and "length bs = length B"
    and "holds_tensor (mesh_sizes x) (B @ [r, e]) [] (bs @ [n, K]) uneven Lx X"
    and "holds_tensor (mesh_sizes x) [q, e'] [] [p, K] uneven Lw W" and "holds_tensor (mesh_sizes x) [d] [] [p] uneven Lb bias"
  shows "\<exists>ty. layout_ok out names ty \<and> mesh out = mesh x \<and>
    holds_tensor (mesh_sizes x) ty (partial_axes out) (bs @ [n, p]) uneven
      (linear_local (mesh_sizes x) uneven e K scaling Lx Lw Lb) (linear_global K X W bias)"
proof -
  let ?sizes = "mesh_sizes x" and ?ty = "B @ [r, q]"
  note run = linear_run [OF assms(1,3,4,5,6)]
  have none: "partial_sums x (B @ [r, e])" "partial_sums w [q, e']"
    using assms(3,4,8,9) by (auto simp: partial_sums_def partial_axes_def filter_empty_conv in_set_conv_nth)
  have px: "layout_ok x names (B @ (if False then [e, r] else [r, e]))" "partial_sums x (B @ (if False then [e, r] else [r, e]))"
    and pw: "layout_ok w names (if True then [q, e] else [e, q])" "partial_sums w (if True then [q, e] else [e, q])"
    using assms(3,4) none run(1) by simp_all
  have hx: "holds_tensor ?sizes (B @ (if False then [e, r] else [r, e])) (partial_axes x) (bs @ (if False then [K, n] else [n, K])) uneven Lx X"
    and hw: "holds_tensor ?sizes (if True then [q, e] else [e, q]) (partial_axes w) (if True then [p, K] else [K, p]) uneven Lw W"
    using assms(8,9,12,13) run(1) by simp_all
  have sep: "set (partial_axes x) \<inter> set (partial_axes w) = {}" using assms(8) by simp
  note prod = product_holds [OF run(3) px pw assms(6) sep assms(10,11) hx hw]
  have dims: "dims_in names (concat (map mapped_dims ?ty))"
    using layout_ok_dims [OF assms(3)] layout_ok_dims [OF assms(4)] by simp
  note tail = product_layout [OF run(3) px pw assms(6) dims, simplified]
  from run(3) obtain o1 o2 where o1: "call_with_aliases (map (alias_of names) ?ty) (layout_from_mesh (mesh x)) = Inr o1"
    and o2: "propagate_partial_from_inputs o1 x w = Inr o2" and con: "set_contraction (alias_of names e) o2 = Inr out"
    by (auto simp: bind_res_Inr_iff)
  have meshed: "mesh_dim_names (mesh x) = Some names" "names_ok names" "length names = length (mesh_shape (mesh x))"
    "\<forall>n \<in> set (mesh_shape (mesh x)). 0 < n"
    using assms(3) by (auto simp: layout_ok_def mesh_sizes_def well_mapped_def)
  note first = called_layout [OF o1 meshed dims]
  have ok2: "layout_ok o2 names ?ty"
    using propagated [OF o2 first(1,3,2) assms(3) none(1) assms(4) none(2) assms(6)] by blast
  have scale: "case scaling of None \<Rightarrow> e = One (-1) | Some f \<Rightarrow> f = (\<Prod>a\<leftarrow>axes_nat ?sizes e. ?sizes ! a)"
    by (rule scaling_shards [where B = "B @ [r]", OF assms(2) _ prod(2) con ok2]) (use assms(3) in simp)
  then have scale': "case scaling of None \<Rightarrow> axes_nat ?sizes e = [] | Some f \<Rightarrow> f = (\<Prod>a\<leftarrow>axes_nat ?sizes e. ?sizes ! a)"
    by (simp add: axes_nat_def axes_of_def split: option.splits)
  have as: "distinct (partial_axes out)" "set (partial_axes out) = set (axes_nat ?sizes e)" "\<forall>a \<in> set (partial_axes out). a < length ?sizes"
    using tail(3) assms(8,9) partial_axes_ok [OF prod(1)] prod(2) by (simp_all add: mesh_sizes_def)
  have sizesb: "mesh_sizes b = ?sizes" using assms(7) by (simp add: mesh_sizes_def)
  have wq: "well_mapped ?sizes [q]" using layout_ok_mapped [OF assms(5)] run(2) sizesb by simp
  have wy: "well_mapped ?sizes ?ty" using layout_ok_mapped [OF prod(1)] prod(2) by (simp add: mesh_sizes_def)
  have free: "set (partial_axes out) \<inter> shard_axes_of ?sizes [q] = {}"
    using tail(4) as(2) by (auto simp: axes_of_append axes_of_list)
  have ed: "distinct (axes_nat ?sizes e)"
    using well_mapped_entry [OF layout_ok_mapped [OF assms(3)], of e] by (auto simp: axes_nat_def distinct_map inj_on_def eq_nat_nat_iff)
  have own_bias: "owns ?sizes [q] [p] uneven (row_major ?sizes c) [last idx]"
    if "valid_coordinate ?sizes c" "owns ?sizes ?ty (bs @ [n, p]) uneven (row_major ?sizes c) idx" for c idx
    using that assms(11)
    by (auto simp: owns_areas [OF wy _ that(1)] owns_areas [OF wq _ that(1)] areas_append list_all2_append2 list_all2_Cons2)
  have hb: "holds_tensor ?sizes [q] [] [p] uneven Lb bias" using assms(14) run(2) by simp
  have "holds_tensor ?sizes ?ty (partial_axes out) (bs @ [n, p]) uneven
      (linear_local ?sizes uneven e K scaling Lx Lw Lb) (linear_global K X W bias)"
    unfolding holds_tensor_def
  proof (intro allI impI conjI)
    fix c idx assume c: "valid_coordinate ?sizes c \<and> owns ?sizes ?ty (bs @ [n, p]) uneven (row_major ?sizes c) idx"
    have "sum_axes ?sizes (partial_axes out) (\<lambda>c. contract_local ?sizes uneven e K (matmul_x_index False) (matmul_w_index True) Lx Lw c idx) c =
        contract_global K (matmul_x_index False) (matmul_w_index True) X W idx"
      using prod(3) c by (simp add: holds_tensor_def)
    with bias_holds [OF hb wq as(1,2) free as(3) scale' _ own_bias ed] c
    show "sum_axes ?sizes (partial_axes out) (\<lambda>c. linear_local ?sizes uneven e K scaling Lx Lw Lb c idx) c = linear_global K X W bias idx"
      by (simp add: linear_local_def linear_global_def sum_axes_add)
  next
    fix c idx c' assume c: "valid_coordinate ?sizes c \<and> owns ?sizes ?ty (bs @ [n, p]) uneven (row_major ?sizes c) idx"
      and n: "near ?sizes (spare_axes ?sizes ?ty (partial_axes out)) c c'"
    have "set (spare_axes ?sizes ?ty (partial_axes out)) \<subseteq> set (spare_axes ?sizes [q] [])"
      by (auto simp: spare_axes_def axes_of_append axes_of_list)
    with near_mono [OF n] hb own_bias c have "Lb c' [last idx] = Lb c [last idx]" unfolding holds_tensor_def by blast
    moreover have "contract_local ?sizes uneven e K (matmul_x_index False) (matmul_w_index True) Lx Lw c' idx =
        contract_local ?sizes uneven e K (matmul_x_index False) (matmul_w_index True) Lx Lw c idx"
      using prod(3) c n unfolding holds_tensor_def by blast
    ultimately show "linear_local ?sizes uneven e K scaling Lx Lw Lb c' idx = linear_local ?sizes uneven e K scaling Lx Lw Lb c idx"
      by (simp add: linear_local_def split: option.split)
  qed
  with prod(1,2) show ?thesis by blast
qed

theorem linear_rule_correct_witness:
  "\<exists>out ty. linear_layout (Some (operand [None, None] [One 1, One 0] [Shard 0 False, Shard 1 False]))
      (Some (operand [None, None] [One (-1), One 0] [Replicate, Shard 1 False]))
      (Some (operand [None, None] [One (-1)] [Replicate, Replicate])) = Inr out \<and>
    linear_bias_scaling (operand [None, None] [One 1, One 0] [Shard 0 False, Shard 1 False])
      (Some (operand [None, None] [One (-1)] [Replicate, Replicate])) out = Inr (Some 2) \<and>
    layout_ok out [''dp'', ''mp''] ty \<and> partial out = [None, Some ''sum''] \<and>
    holds_tensor [2, 2] ty [1] [3, 5] None
      (linear_local [2, 2] None (One 0) 4 (Some 2) (\<lambda>c idx. of_int (idx ! 0 + idx ! 1)) (\<lambda>c idx. of_int (idx ! 0 - idx ! 1)) (\<lambda>c idx. 7))
      (linear_global 4 (\<lambda>idx. of_int (idx ! 0 + idx ! 1)) (\<lambda>idx. of_int (idx ! 0 - idx ! 1)) (\<lambda>idx. 7 :: rat))"
proof -
  let ?x = "operand [None, None] [One 1, One 0] [Shard 0 False, Shard 1 False]"
  let ?w = "operand [None, None] [One (-1), One 0] [Replicate, Shard 1 False]"
  let ?b = "operand [None, None] [One (-1)] [Replicate, Replicate]"
  let ?out = "projr (linear_layout (Some ?x) (Some ?w) (Some ?b))"
  let ?X = "\<lambda>idx. of_int (idx ! 0 + idx ! 1) :: rat" and ?W = "\<lambda>idx. of_int (idx ! 0 - idx ! 1) :: rat"
  have run: "linear_layout (Some ?x) (Some ?w) (Some ?b) = Inr ?out" by code_simp
  have scaling: "linear_bias_scaling ?x (Some ?b) ?out = Inr (Some 2)" by code_simp
  have parts: "partial ?out = [None, Some ''sum'']" by code_simp
  then have axes: "partial_axes ?out = [1]" by (simp add: partial_axes_def upt_rec)
  have m: "mesh_sizes ?x = [2, 2]" "mesh ?w = mesh ?x" "mesh ?b = mesh ?x" "partial ?x = [None, None]" "partial ?w = [None, None]"
    by (simp_all add: operand_def named_mesh_def mesh_sizes_def)
  have px: "partial_axes ?x = []" "partial_axes ?w = []" by (simp_all add: partial_axes_def m upt_rec)
  have x: "layout_ok ?x [''dp'', ''mp''] ([] @ [One 1, One 0])" and w: "layout_ok ?w [''dp'', ''mp''] [One (-1), One 0]"
    and b: "layout_ok ?b [''dp'', ''mp''] [One (-1)]"
    by (auto intro!: operand_ok simp: well_mapped_def axes_of_def)
  have four: "(0 :: int) \<le> 4" by simp
  have hx: "holds_tensor (mesh_sizes ?x) ([] @ [One 1, One 0]) [] ([] @ [3, 4]) None (\<lambda>c. ?X) ?X"
    and hw: "holds_tensor (mesh_sizes ?x) [One (-1), One 0] [] [5, 4] None (\<lambda>c. ?W) ?W"
    and hb: "holds_tensor (mesh_sizes ?x) [One (-1)] [] [5] None (\<lambda>c idx. 7) (\<lambda>idx. 7 :: rat)"
    by (rule holds_plain)+
  from linear_rule_correct [OF run scaling x w b m(2,3) px four _ hx hw hb]
  obtain ty where "layout_ok ?out [''dp'', ''mp''] ty"
    "holds_tensor (mesh_sizes ?x) ty (partial_axes ?out) ([] @ [3, 5]) None
      (linear_local (mesh_sizes ?x) None (One 0) 4 (Some 2) (\<lambda>c. ?X) (\<lambda>c. ?W) (\<lambda>c idx. 7)) (linear_global 4 ?X ?W (\<lambda>idx. 7))"
    by auto
  then have "layout_ok ?out [''dp'', ''mp''] ty \<and> partial ?out = [None, Some ''sum''] \<and>
    holds_tensor [2, 2] ty [1] [3, 5] None
      (linear_local [2, 2] None (One 0) 4 (Some 2) (\<lambda>c. ?X) (\<lambda>c. ?W) (\<lambda>c idx. 7)) (linear_global 4 ?X ?W (\<lambda>idx. 7))"
    unfolding axes m(1) using parts by simp
  with run scaling show ?thesis by blast
qed


end
