(* ===== verification/Elementwise_Rule.thy ===== *)
theory Elementwise_Rule
  imports Matmul_Rule
begin

text \<open>
  The layout rule of the element-wise operators with broadcasting and its extension for \<open>add\<close> and
  \<open>sub\<close>, which accept partial sums (core/shard/ops/parallel_elementwise.py). The cache values are a
  list of layouts, \<open>None\<close> for an argument that is not distributed, and a list of shapes, \<open>None\<close> for an
  argument without one; a deep copy of a layout is the layout itself.
\<close>

section \<open>Shapes and tensor maps\<close>

definition pad_left :: "'a \<Rightarrow> nat \<Rightarrow> 'a list \<Rightarrow> 'a list" where
  "pad_left x n xs = replicate (n - length xs) x @ xs"

definition broadcast_dim :: "int \<Rightarrow> int \<Rightarrow> int result" where
  "broadcast_dim dim1 dim2 =
     (if dim1 = dim2 then Inr dim1 else if dim1 = 1 then Inr dim2 else if dim2 = 1 then Inr dim1 else Inl ValueError)"

definition broadcast_shapes :: "int list \<Rightarrow> int list \<Rightarrow> int list result" where
  "broadcast_shapes shape1 shape2 =
     (let n = max (length shape1) (length shape2)
      in map_res (\<lambda>(dim1, dim2). broadcast_dim dim1 dim2) (zip (pad_left 1 n shape1) (pad_left 1 n shape2)))"

definition map_or_default :: "layout \<Rightarrow> int list \<Rightarrow> dim_map list" where
  "map_or_default l dims =
     (case tensor_map l of Some (e # es) \<Rightarrow> e # es | _ \<Rightarrow> replicate (length dims) (One (-1)))"

definition align_tensor_maps :: "layout \<Rightarrow> layout \<Rightarrow> int list \<Rightarrow> int list \<Rightarrow> dim_map list \<times> dim_map list" where
  "align_tensor_maps layout1 layout2 shape1 shape2 =
     (let n = max (length shape1) (length shape2)
      in (replicate (n - length shape1) (One (-1)) @ map_or_default layout1 shape1,
          replicate (n - length shape2) (One (-1)) @ map_or_default layout2 shape2))"

definition normalize_entry :: "dim_map \<Rightarrow> int list" where
  "normalize_entry m =
     (case m of One d \<Rightarrow> if d = -1 then [] else [d] | Many ds \<Rightarrow> filter (\<lambda>d. d \<noteq> -1) ds)"

definition denormalize_entry :: "int list \<Rightarrow> dim_map" where
  "denormalize_entry axes = (case axes of [] \<Rightarrow> One (-1) | [d] \<Rightarrow> One d | _ \<Rightarrow> Many axes)"

definition merge_dim :: "int \<Rightarrow> int \<Rightarrow> int \<Rightarrow> dim_map \<Rightarrow> dim_map \<Rightarrow> dim_map result" where
  "merge_dim dim1 dim2 out_dim m1 m2 =
     (let m1_axis = normalize_entry m1; m2_axis = normalize_entry m2 in
      if m1_axis = [] \<and> m2_axis = [] then Inr (One (-1))
      else if m1_axis = [] then
        (if dim2 = 1 \<and> 1 < out_dim then Inl ValueError else Inr (denormalize_entry m2_axis))
      else if m2_axis = [] then
        (if dim1 = 1 \<and> 1 < out_dim then Inl ValueError else Inr (denormalize_entry m1_axis))
      else if set m1_axis \<noteq> set m2_axis then Inl ValueError
      else if (dim1 = 1 \<or> dim2 = 1) \<and> dim1 \<noteq> dim2 then Inl ValueError
      else Inr (denormalize_entry m1_axis))"

definition merge_tensor_maps :: "layout \<Rightarrow> layout \<Rightarrow> int list \<Rightarrow> int list \<Rightarrow> int list \<Rightarrow> dim_map list result" where
  "merge_tensor_maps layout1 layout2 shape1 shape2 output_shape =
     (let (tm1, tm2) = align_tensor_maps layout1 layout2 shape1 shape2; n = length output_shape
      in map_res (\<lambda>(i, dim1, dim2, out_dim).
           bind_res (py_nth tm1 i) (\<lambda>m1. bind_res (py_nth tm2 i) (\<lambda>m2. merge_dim dim1 dim2 out_dim m1 m2)))
         (enum (zip (pad_left 1 n shape1) (zip (pad_left 1 n shape2) output_shape))))"

section \<open>Partial state\<close>

definition check_shard_partial_conflict :: "dim_map list \<Rightarrow> string option list \<Rightarrow> unit result" where
  "check_shard_partial_conflict tm partials =
     (if \<exists>m \<in> set (concat (map mapped_dims tm)). m \<noteq> -1 \<and>
         (let axis_idx = int (length partials) - 1 - m
          in 0 \<le> axis_idx \<and> axis_idx < int (length partials) \<and> partials ! nat axis_idx \<noteq> None)
      then Inl ValueError else Inr ())"

definition partial_at :: "string option list \<Rightarrow> nat \<Rightarrow> string option" where
  "partial_at partials i = (if i < length partials then partials ! i else None)"

definition merge_partial_status ::
    "string option list \<Rightarrow> string option list \<Rightarrow> dim_map list \<Rightarrow> dim_map list \<Rightarrow> dim_map list \<Rightarrow>
     string option list result" where
  "merge_partial_status partial1 partial2 merged_map tm1 tm2 =
     bind_res (check_shard_partial_conflict tm1 partial1) (\<lambda>_.
     bind_res (check_shard_partial_conflict tm2 partial2) (\<lambda>_.
     bind_res (map_res (\<lambda>i.
         let op1 = partial_at partial1 i; op2 = partial_at partial2 i
         in if op1 \<noteq> None \<and> op2 \<noteq> None \<and> op1 \<noteq> op2 then Inl ValueError
            else Inr (if op1 \<noteq> None then op1 else op2))
       [0..<max (length partial1) (length partial2)]) (\<lambda>merged.
     bind_res (check_shard_partial_conflict merged_map merged) (\<lambda>_. Inr merged))))"

definition tensor_map_or_empty :: "layout \<Rightarrow> dim_map list" where
  "tensor_map_or_empty l = (case tensor_map l of None \<Rightarrow> [] | Some tm \<Rightarrow> tm)"

section \<open>The output layout\<close>

definition output_alias :: "layout \<Rightarrow> dim_map \<Rightarrow> alias_entry result" where
  "output_alias base tensor_dim =
     (case tensor_dim of
        One d \<Rightarrow>
          if d = -1 then Inr (AxisName ''None'')
          else bind_res (alias_names base) (\<lambda>names.
               bind_res (py_nth names (int (length names) - 1 - d)) (\<lambda>s. Inr (AxisName s)))
      | Many ds \<Rightarrow>
          bind_res (map_res (\<lambda>d. bind_res (alias_names base) (\<lambda>names. py_nth names (int (length names) - 1 - d)))
              (filter (\<lambda>d. d \<noteq> -1) ds)) (\<lambda>ss. Inr (if ss = [] then AxisName ''None'' else AxisNames ss)))"

definition create_output_layout :: "layout \<Rightarrow> dim_map list \<Rightarrow> string option list \<Rightarrow> layout result" where
  "create_output_layout base output_map partials =
     bind_res (map_res (output_alias base) output_map) (\<lambda>am.
     bind_res (tensor_map_to_placement (base\<lparr>tensor_map := Some output_map, alias_tensor_map := Some am\<rparr>)) (\<lambda>(ps, l).
       for_res (\<lambda>(i, op) l.
           if op = None then Inr l
           else bind_res (alias_names l) (\<lambda>names.
                if i < int (length names)
                then bind_res (py_nth names i) (\<lambda>axis. set_partial_by_dev_axis axis op l)
                else Inr l))
         (enum partials) l))"

definition merge_pair ::
    "layout \<Rightarrow> string option list \<Rightarrow> int list \<Rightarrow> layout \<Rightarrow> int list \<Rightarrow> int list \<Rightarrow>
     (dim_map list \<times> string option list) result" where
  "merge_pair layout1 partial1 shape1 layout2 shape2 output_shape =
     bind_res (merge_tensor_maps layout1 layout2 shape1 shape2 output_shape) (\<lambda>merged_map.
     bind_res (merge_partial_status partial1 (partial layout2) merged_map
         (tensor_map_or_empty layout1) (tensor_map_or_empty layout2)) (\<lambda>merged_partial.
       Inr (merged_map, merged_partial)))"

definition merge_all_layouts ::
    "layout list \<Rightarrow> int list list \<Rightarrow> int list \<Rightarrow> (dim_map list \<times> string option list) result" where
  "merge_all_layouts layouts shapes output_shape =
     (let base = layouts ! 0 in
      bind_res (merge_pair base (partial base) (shapes ! 0) (layouts ! 1) (shapes ! 1) output_shape) (\<lambda>merged.
        for_res (\<lambda>(l, shape) (merged_map, merged_partial).
            bind_res (create_output_layout base merged_map merged_partial) (\<lambda>temp.
              merge_pair temp merged_partial output_shape l shape output_shape))
          (drop 2 (zip layouts shapes)) merged))"

definition broadcasts :: "int list \<Rightarrow> int list \<Rightarrow> bool" where
  "broadcasts input_shape output_shape =
     list_ex (\<lambda>(in_dim, out_dim). in_dim = 1 \<and> 1 < out_dim)
       (zip (pad_left 1 (length output_shape) input_shape) output_shape)"

definition check_broadcasts_and_partial :: "layout list \<Rightarrow> int list list \<Rightarrow> int list \<Rightarrow> unit result" where
  "check_broadcasts_and_partial layouts shapes output_shape =
     for_res (\<lambda>(l, shape) _. if broadcasts shape output_shape \<and> layout_is_partial l then Inl ValueError else Inr ())
       (zip layouts shapes) ()"

definition no_input_shapes_layout :: "layout list \<Rightarrow> layout result" where
  "no_input_shapes_layout valid_layouts =
     (let first = hd valid_layouts in
      if list_ex (\<lambda>l. alias_tensor_map l \<noteq> alias_tensor_map first) (tl valid_layouts) then Inl ValueError else Inr first)"

definition shape_of :: "int list option \<Rightarrow> int list result" where
  "shape_of s = (case s of None \<Rightarrow> Inl TypeError | Some dims \<Rightarrow> Inr dims)"

definition compute_output_shape :: "int list list \<Rightarrow> int list result" where
  "compute_output_shape shapes = for_res (\<lambda>shape output_shape. broadcast_shapes output_shape shape) (tl shapes) (hd shapes)"

definition elementwise_layout :: "bool \<Rightarrow> layout option list \<Rightarrow> int list option list \<Rightarrow> layout option result" where
  "elementwise_layout allow_partial layouts input_shapes =
     (let valid_layouts = somes layouts in
      if valid_layouts = [] then Inr None
      else if \<not> allow_partial \<and> list_ex layout_is_partial valid_layouts then Inl ValueError
      else if length valid_layouts = 1 then Inr (Some (hd valid_layouts))
      else if input_shapes = [] then bind_res (no_input_shapes_layout valid_layouts) (\<lambda>l. Inr (Some l))
      else
        let aligned = somes (map (\<lambda>(l, s). map_option (\<lambda>l. (l, s)) l) (zip layouts input_shapes));
            aligned_layouts = map fst aligned
        in if length aligned \<le> 1 then Inr (Some (hd valid_layouts))
           else bind_res (map_res shape_of (map snd aligned)) (\<lambda>aligned_shapes.
                bind_res (compute_output_shape aligned_shapes) (\<lambda>output_shape.
                bind_res (merge_all_layouts aligned_layouts aligned_shapes output_shape) (\<lambda>(merged_map, merged_partial).
                bind_res (check_broadcasts_and_partial aligned_layouts aligned_shapes output_shape) (\<lambda>_.
                bind_res (create_output_layout (hd aligned_layouts) merged_map merged_partial) (\<lambda>out.
                  Inr (Some out)))))))"

section \<open>Addition and subtraction\<close>

definition partial_signature :: "layout option \<Rightarrow> nat \<Rightarrow> string option list result" where
  "partial_signature l ndim =
     (case l of
        None \<Rightarrow> Inr (replicate ndim None)
      | Some l \<Rightarrow> if length (partial l) \<noteq> ndim then Inl ValueError else Inr (partial l))"

definition add_layout :: "bool \<Rightarrow> layout option list \<Rightarrow> int list option list \<Rightarrow> layout option result" where
  "add_layout in_place layouts input_shapes =
     bind_res
       (if in_place \<and> 2 \<le> length layouts then
          let ndim = fold max (map (\<lambda>l. length (partial l)) (somes (take 2 layouts))) 0
          in bind_res (partial_signature (layouts ! 0) ndim) (\<lambda>s1.
             bind_res (partial_signature (layouts ! 1) ndim) (\<lambda>s2. if s1 \<noteq> s2 then Inl ValueError else Inr ()))
        else Inr ()) (\<lambda>_.
     bind_res (elementwise_layout True layouts input_shapes) (\<lambda>result.
       case result of
         None \<Rightarrow> Inr None
       | Some out \<Rightarrow>
           if \<exists>op \<in> set (partial out). op \<noteq> None \<and> op \<noteq> Some ''sum'' then Inl ValueError else Inr (Some out)))"

text \<open>Whether the current rank adds its copy of an input to a partial output.\<close>

fun contributes_loop :: "device_mesh \<Rightarrow> (int \<times> string option \<times> string option) list \<Rightarrow> bool result" where
  "contributes_loop dm [] = Inr True"
| "contributes_loop dm ((mesh_dim, output_op, input_op) # rest) =
     (if output_op \<noteq> None \<and> input_op = None then
        bind_res (get_local_rank dm (Some (DimIndex mesh_dim))) (\<lambda>k.
          if k \<noteq> 0 then Inr False else contributes_loop dm rest)
      else contributes_loop dm rest)"

definition contributes_to_partial_output :: "layout option \<Rightarrow> layout \<Rightarrow> bool result" where
  "contributes_to_partial_output input_layout output_layout =
     bind_res (partial_signature input_layout (length (partial output_layout))) (\<lambda>input_partial.
       contributes_loop (mesh output_layout) (enum (zip (partial output_layout) input_partial)))"

text \<open>
  \<open>get_expand_impl\<close>: \<open>None\<close> when the operator is called as it is, otherwise whether each operand keeps its
  value or is replaced by zero.
\<close>

definition add_expand :: "layout option \<Rightarrow> layout option \<Rightarrow> layout \<Rightarrow> (bool \<times> bool) option result" where
  "add_expand x1_layout x2_layout output_layout =
     (let n = length (partial output_layout) in
      bind_res (partial_signature x1_layout n) (\<lambda>x1_partial.
      bind_res (partial_signature x2_layout n) (\<lambda>x2_partial.
        if x1_partial = x2_partial then Inr None
        else bind_res (contributes_to_partial_output x1_layout output_layout) (\<lambda>x1_contributes.
             bind_res (contributes_to_partial_output x2_layout output_layout) (\<lambda>x2_contributes.
               Inr (Some (x1_contributes, x2_contributes)))))))"

end
