(* ===== verification/Elementwise_Sound.thy ===== *)
theory Elementwise_Sound
  imports Elementwise_Rule Matmul_Sound
begin

text \<open>
  The rule of \<open>add\<close> (and \<open>sub\<close>) is right on aligned layouts: what the ranks compute from their local
  operands, with a copied operand counted by one rank of a partial axis only, holds the sum of the
  broadcast tensors under the output layout. Three classes of layouts that are not aligned and that the
  rule accepts all the same are shown to go wrong.
\<close>

section \<open>One dimension\<close>

lemma normalize_denormalize: "-1 \<notin> set axes \<Longrightarrow> normalize_entry (denormalize_entry axes) = axes"
  by (cases axes rule: remdups_adj.cases) (auto simp: normalize_entry_def denormalize_entry_def filter_id_conv)

lemma normalize_no_none: "-1 \<notin> set (normalize_entry m)"
  by (auto simp: normalize_entry_def split: dim_map.splits)

lemma normal_dims: "d \<in> set (normalize_entry m) \<Longrightarrow> d \<in> set (mapped_dims m) \<and> d \<noteq> -1"
  by (cases m) (auto simp: normalize_entry_def split: if_splits)

lemma axes_of_normal: "axes_of n m = map (\<lambda>d. n - d - 1) (normalize_entry m)"
  by (cases m) (simp_all add: axes_of_def normalize_entry_def)

lemma held_normal:
  "normalize_entry m = normalize_entry m' \<Longrightarrow> held_of sizes u f m n = held_of sizes u f m' n"
  by (simp add: held_of_def axes_of_normal)

lemma held_unsharded: "normalize_entry m = [] \<Longrightarrow> held_of sizes u f m n = (0, n)"
  by (simp add: held_of_def axes_of_normal)

text \<open>
  Two entries of one aligned dimension fit: sharded entries agree in order, and where only one input is
  sharded the other has size 1.
\<close>

definition aligned_dim :: "int \<Rightarrow> int \<Rightarrow> dim_map \<Rightarrow> dim_map \<Rightarrow> bool" where
  "aligned_dim d1 d2 m1 m2 \<longleftrightarrow>
     (let a1 = normalize_entry m1; a2 = normalize_entry m2
      in if a1 = [] \<and> a2 = [] then True else if a1 = [] then d1 = 1 else if a2 = [] then d2 = 1 else a1 = a2)"

lemma merge_dim_normal:
  assumes "merge_dim d1 d2 k m1 m2 = Inr e"
  shows "normalize_entry e = (if normalize_entry m1 = [] then normalize_entry m2 else normalize_entry m1)"
    and "\<exists>axes. -1 \<notin> set axes \<and> e = denormalize_entry axes"
  using assms normalize_denormalize [OF normalize_no_none, of m1] normalize_denormalize [OF normalize_no_none, of m2]
    normalize_no_none [of m1] normalize_no_none [of m2]
  by (auto simp: merge_dim_def Let_def denormalize_entry_def normalize_entry_def [of "One (-1)"] split: if_splits
      intro: exI [of _ "[]"])

lemma merged_within:
  assumes merge: "merge_dim d1 d2 k m1 m2 = Inr e" and cast: "broadcast_dim d1 d2 = Inr k" and al: "aligned_dim d1 d2 m1 m2"
    and pos: "0 \<le> d1" "0 \<le> d2" and f: "on_axes sizes f"
    and range: "\<forall>a \<in> set (axes_of (int (length sizes)) e). 0 \<le> a \<and> a < int (length sizes)"
    and i: "within i (held_of sizes u f e k)"
  shows "within (if d1 = 1 then 0 else i) (held_of sizes u f m1 d1)"
    and "within (if d2 = 1 then 0 else i) (held_of sizes u f m2 d2)"
proof -
  have k: "0 \<le> k" using cast pos by (auto simp: broadcast_dim_def split: if_splits)
  note inside = held_inside [OF i k f range]
  note e = merge_dim_normal(1) [OF merge]
  have "within (if d1 = 1 then 0 else i) (held_of sizes u f m1 d1) \<and> within (if d2 = 1 then 0 else i) (held_of sizes u f m2 d2)"
  proof (cases "normalize_entry m1 = []")
    case True
    show ?thesis
    proof (cases "normalize_entry m2 = []")
      case True
      with \<open>normalize_entry m1 = []\<close> inside cast show ?thesis
        by (auto simp: held_unsharded within_def broadcast_dim_def split: if_splits)
    next
      case False
      with \<open>normalize_entry m1 = []\<close> al have d1: "d1 = 1" by (simp add: aligned_dim_def)
      have kd: "k = d2" using cast d1 by (auto simp: broadcast_dim_def split: if_splits)
      have "held_of sizes u f m2 d2 = held_of sizes u f e k"
        unfolding kd by (rule held_normal) (use e \<open>normalize_entry m1 = []\<close> in simp)
      moreover have "i = 0" if "d2 = 1" using inside that kd by simp
      ultimately show ?thesis using i d1 \<open>normalize_entry m1 = []\<close> by (auto simp: held_unsharded within_def)
    qed
  next
    case False
    then have h1: "held_of sizes u f m1 n = held_of sizes u f e n" for n by (intro held_normal) (use e in simp)
    show ?thesis
    proof (cases "normalize_entry m2 = []")
      case True
      with False al have d2: "d2 = 1" by (simp add: aligned_dim_def)
      have kd: "k = d1" using cast d2 by (auto simp: broadcast_dim_def split: if_splits)
      moreover have "i = 0" if "d1 = 1" using inside that kd by simp
      ultimately show ?thesis using i d2 True h1 by (auto simp: held_unsharded within_def)
    next
      case both: False
      with False al have "normalize_entry m2 = normalize_entry m1" by (simp add: aligned_dim_def)
      then have h2: "held_of sizes u f m2 n = held_of sizes u f e n" for n by (intro held_normal) (use e False in simp)
      have "d1 = d2" using merge False both cast by (auto simp: merge_dim_def Let_def broadcast_dim_def split: if_splits)
      moreover from this have "k = d1" using cast by (simp add: broadcast_dim_def)
      moreover have "i = 0" if "d1 = 1" using inside that \<open>k = d1\<close> by simp
      ultimately show ?thesis using i h1 h2 by auto
    qed
  qed
  then show "within (if d1 = 1 then 0 else i) (held_of sizes u f m1 d1)"
    and "within (if d2 = 1 then 0 else i) (held_of sizes u f m2 d2)" by blast+
qed

section \<open>Copies counted once\<close>

lemma sum_axes_zero:
  assumes "valid_coordinate sizes c" and "distinct as" and "\<forall>a \<in> set as. a < length sizes"
  shows "sum_axes sizes as (\<lambda>c'. if \<forall>a \<in> set as. c' ! a = 0 then g else 0) c = g"
  using assms
proof (induction as arbitrary: c)
  case (Cons a as)
  have a: "a < length sizes" and len: "length c = length sizes" using Cons.prems(1,3) valid_length by auto
  have pos: "0 < sizes ! a" using Cons.prems(1) a by (auto simp: valid_coordinate_def list_all2_conv_all_nth)
  have inner: "sum_axes sizes as (\<lambda>c'. if \<forall>b \<in> set (a # as). c' ! b = 0 then g else 0) (c[a := v]) = (if v = 0 then g else 0)"
    if v: "v \<in> {0..<sizes ! a}" for v
  proof -
    have valid: "valid_coordinate sizes (c[a := v])" using v a Cons.prems(1) by (intro valid_put) auto
    have "sum_axes sizes as (\<lambda>c'. if \<forall>b \<in> set (a # as). c' ! b = 0 then g else 0) (c[a := v]) =
        sum_axes sizes as (\<lambda>c'. if \<forall>b \<in> set as. c' ! b = 0 then (if v = 0 then g else 0) else 0) (c[a := v])"
    proof (rule sum_axes_cong [OF valid])
      fix c' assume "near sizes as (c[a := v]) c'"
      with Cons.prems(2) a len have "c' ! a = v" by (simp add: near_def)
      then show "(if \<forall>b \<in> set (a # as). c' ! b = 0 then g else 0) =
        (if \<forall>b \<in> set as. c' ! b = 0 then (if v = 0 then g else 0) else 0)" by simp
    qed (use Cons.prems(3) in simp)
    also have "\<dots> = (if v = 0 then g else 0)"
    proof (cases "v = 0")
      case False
      have "sum_axes sizes bs (\<lambda>_. 0) d = (0 :: 'a)" for bs d by (induction bs arbitrary: d) simp_all
      with False show ?thesis by simp
    qed (use Cons.IH [OF valid] Cons.prems(2,3) in simp)
    finally show ?thesis .
  qed
  have "sum_axes sizes (a # as) (\<lambda>c'. if \<forall>b \<in> set (a # as). c' ! b = 0 then g else 0) c =
      (\<Sum>v \<in> {0..<sizes ! a}. if v = 0 then g else 0)" by (simp only: sum_axes.simps inner cong: sum.cong)
  then show ?case using pos by simp
qed simp

lemma masked_sum:
  fixes L :: "int list \<Rightarrow> int list \<Rightarrow> 'a :: comm_ring_1"
  assumes holds: "holds_tensor sizes t P1 full uneven L X" and P: "distinct P" "distinct P1" "set P1 \<subseteq> set P" "\<forall>a \<in> set P. a < length sizes"
    and free: "set P \<inter> shard_axes_of sizes t = {}" and c: "valid_coordinate sizes c"
    and own: "\<And>c'. near sizes P c c' \<Longrightarrow> owns sizes t full uneven (row_major sizes c') i"
  shows "sum_axes sizes P (\<lambda>c. if \<forall>a \<in> set P - set P1. c ! a = 0 then L c i else 0) c = X i"
proof -
  define Q where "Q = filter (\<lambda>a. a \<notin> set P1) P"
  have Q: "distinct Q" "set Q = set P - set P1" "\<forall>a \<in> set Q. a < length sizes" "\<forall>a \<in> set P1. a < length sizes"
    using P by (auto simp: Q_def)
  let ?F = "\<lambda>c. if \<forall>a \<in> set P - set P1. c ! a = 0 then L c i else 0"
  have "sum_axes sizes P ?F c = sum_axes sizes (P1 @ Q) ?F c"
    by (rule sum_axes_set) (use P Q in auto)
  also have "\<dots> = sum_axes sizes P1 (\<lambda>c. L c i) c"
    unfolding sum_axes_append
  proof (rule sum_axes_cong [OF c Q(4)])
    fix c1 assume n1: "near sizes P1 c c1"
    have copy: "L c2 i = L c1 i" if n2: "near sizes Q c1 c2" for c2
    proof -
      have "set Q \<subseteq> set (spare_axes sizes t P1)" using Q free by (auto simp: spare_axes_def)
      moreover have "near sizes P c c1" using near_mono [OF n1 P(3)] .
      ultimately show ?thesis using near_mono [OF n2] holds own near_valid [OF n1] unfolding holds_tensor_def by blast
    qed
    have "sum_axes sizes Q ?F c1 = sum_axes sizes Q (\<lambda>c2. if \<forall>a \<in> set Q. c2 ! a = 0 then L c1 i else 0) c1"
      by (rule sum_axes_cong [OF near_valid [OF n1] Q(3)]) (simp add: copy flip: Q(2))
    then show "sum_axes sizes Q ?F c1 = L c1 i" using sum_axes_zero [OF near_valid [OF n1] Q(1,3)] by simp
  qed
  also have "\<dots> = X i" using holds c own [of c] near_refl [OF c] by (simp add: holds_tensor_def)
  finally show ?thesis .
qed

section \<open>The contribution of a rank\<close>

definition at_coordinate :: "int list \<Rightarrow> layout \<Rightarrow> layout" where
  "at_coordinate c l = l\<lparr>mesh := (mesh l)\<lparr>own_rank := rank_list (mesh l) ! nat (row_major (mesh_sizes l) c)\<rparr>\<rparr>"

lemma at_coordinate_partial [simp]: "partial (at_coordinate c l) = partial l"
  by (simp add: at_coordinate_def)

lemma local_rank_at:
  assumes "distinct (rank_list (mesh l))" and "int (length (rank_list (mesh l))) = prod_list (mesh_sizes l)"
    and "valid_coordinate (mesh_sizes l) c" and "d < length (mesh_sizes l)"
  shows "get_local_rank (mesh (at_coordinate c l)) (Some (DimIndex (int d))) = Inr (c ! d)"
proof -
  let ?sizes = "mesh_sizes l" and ?k = "row_major (mesh_sizes l) c"
  have pos: "\<forall>n \<in> set ?sizes. 0 < n" using valid_pos [OF assms(3)] .
  note r = rank_of_coordinate [OF pos assms(3)]
  have k: "nat ?k < length (rank_list (mesh l))" using r(2) assms(2) by auto
  then have own: "rank_list (mesh l) ! nat ?k \<in> set (rank_list (mesh l))" by simp
  have idx: "py_index (rank_list (mesh l)) (rank_list (mesh l) ! nat ?k) = Inr ?k"
    using py_index_nth [OF assms(1) k] r(2) by simp
  have coord: "coordinate_loop (rev (mesh_shape (mesh l))) ?k [] = Inr c"
    using r(1) by (simp add: calculate_mesh_coordinate_for_rank_def mesh_sizes_def)
  have "length c = length ?sizes" using assms(3) by (rule valid_length)
  with own idx coord assms(4) show ?thesis
    by (simp add: at_coordinate_def get_local_rank_def Let_def mesh_sizes_def)
qed

definition contributes_at :: "layout \<Rightarrow> layout \<Rightarrow> int list \<Rightarrow> bool" where
  "contributes_at l out c \<longleftrightarrow> (\<forall>a \<in> set (partial_axes out) - set (partial_axes l). c ! a = 0)"

lemma contributes_eq:
  assumes "distinct (rank_list (mesh out))" and "int (length (rank_list (mesh out))) = prod_list (mesh_sizes out)"
    and "valid_coordinate (mesh_sizes out) c" and "length (partial out) = length (mesh_sizes out)" and "length (partial l) = length (mesh_sizes out)"
  shows "contributes_to_partial_output (Some (at_coordinate c l)) (at_coordinate c out) = Inr (contributes_at l out c)"
proof -
  let ?dm = "mesh (at_coordinate c out)"
  have loop: "contributes_loop ?dm xs = Inr (\<forall>(d, o_op, i_op) \<in> set xs. o_op \<noteq> None \<and> i_op = None \<longrightarrow> c ! nat d = 0)"
    if "\<forall>(d, ops) \<in> set xs. 0 \<le> d \<and> d < int (length (mesh_sizes out))" for xs
    using that
  proof (induction xs)
    case (Cons x xs)
    obtain d o_op i_op where x: "x = (d, o_op, i_op)" by (cases x)
    with Cons.prems have d: "0 \<le> d" "d < int (length (mesh_sizes out))" by auto
    then have "nat d < length (mesh_sizes out)" "int (nat d) = d" by auto
    with local_rank_at [OF assms(1,2,3), of "nat d"] have "get_local_rank ?dm (Some (DimIndex d)) = Inr (c ! nat d)" by simp
    with Cons x show ?case by auto
  qed simp
  let ?xs = "enum (zip (partial out) (partial l))"
  have mem: "(d, o_op, i_op) \<in> set ?xs \<longleftrightarrow> 0 \<le> d \<and> d < int (length (mesh_sizes out)) \<and> partial out ! nat d = o_op \<and> partial l ! nat d = i_op"
    for d o_op i_op
    using assms(4,5) by (auto simp: set_enum)
  have "contributes_loop ?dm ?xs = Inr (\<forall>(d, o_op, i_op) \<in> set ?xs. o_op \<noteq> None \<and> i_op = None \<longrightarrow> c ! nat d = 0)"
    by (rule loop) (auto simp: set_enum assms(4,5))
  moreover have "(\<forall>(d, o_op, i_op) \<in> set ?xs. o_op \<noteq> None \<and> i_op = None \<longrightarrow> c ! nat d = 0) \<longleftrightarrow> contributes_at l out c"
  proof
    assume all: "\<forall>(d, o_op, i_op) \<in> set ?xs. o_op \<noteq> None \<and> i_op = None \<longrightarrow> c ! nat d = 0"
    show "contributes_at l out c"
      unfolding contributes_at_def
    proof
      fix a assume a: "a \<in> set (partial_axes out) - set (partial_axes l)"
      then have "(int a, partial out ! a, partial l ! a) \<in> set ?xs" using assms(4) by (auto simp: mem partial_axes_def)
      with all a assms(4,5) show "c ! a = 0" by (fastforce simp: partial_axes_def)
    qed
  next
    assume "contributes_at l out c"
    then show "\<forall>(d, o_op, i_op) \<in> set ?xs. o_op \<noteq> None \<and> i_op = None \<longrightarrow> c ! nat d = 0"
      using assms(4,5) by (auto simp: mem contributes_at_def partial_axes_def)
  qed
  ultimately show ?thesis
    using assms(4,5) by (simp add: contributes_to_partial_output_def partial_signature_def)
qed

lemma expand_eq:
  assumes "distinct (rank_list (mesh out))" and "int (length (rank_list (mesh out))) = prod_list (mesh_sizes out)"
    and "valid_coordinate (mesh_sizes out) c" and "length (partial out) = length (mesh_sizes out)"
    and "length (partial x1) = length (mesh_sizes out)" and "length (partial x2) = length (mesh_sizes out)"
  shows "add_expand (Some (at_coordinate c x1)) (Some (at_coordinate c x2)) (at_coordinate c out) =
    Inr (if partial x1 = partial x2 then None else Some (contributes_at x1 out c, contributes_at x2 out c))"
  using contributes_eq [OF assms(1-5)] contributes_eq [OF assms(1-4,6)] assms(4-6)
  by (simp add: add_expand_def partial_signature_def Let_def)

section \<open>The layout the rule builds\<close>

lemma output_alias_eq:
  assumes "mesh_dim_names (mesh base) = Some names" and "dims_in names (mapped_dims e)" and "\<exists>axes. -1 \<notin> set axes \<and> e = denormalize_entry axes"
  shows "output_alias base e = Inr (alias_of names e)"
proof -
  have names: "alias_names base = Inr names" using assms(1) by (simp add: alias_names_def)
  have nth: "py_nth names (int (length names) - 1 - d) = Inr (name_of names d)" if "0 \<le> d" "d < int (length names)" for d
    using that by (simp add: name_of_def)
  show ?thesis
  proof (cases e)
    case (One d)
    with assms(2) nth names show ?thesis by (auto simp: output_alias_def name_of_def)
  next
    case (Many ds)
    from assms(3) obtain axes where axes: "-1 \<notin> set axes" "e = denormalize_entry axes" by blast
    with Many have ds: "-1 \<notin> set ds" "ds \<noteq> []"
      by (cases axes rule: remdups_adj.cases; auto simp: denormalize_entry_def)+
    with assms(2) Many have "\<forall>d \<in> set ds. 0 \<le> d \<and> d < int (length names)" by (auto simp: dims_in_def)
    then have "map_res (\<lambda>d. bind_res (alias_names base) (\<lambda>names. py_nth names (int (length names) - 1 - d))) ds = Inr (map (name_of names) ds)"
      by (intro map_res_total) (simp add: names nth)
    moreover have "filter (\<lambda>d. d \<noteq> -1) ds = ds" using ds(1) by (auto simp: filter_id_conv)
    ultimately show ?thesis using Many ds(2) by (simp add: output_alias_def)
  qed
qed

lemma created_map:
  assumes "create_output_layout base tm ps = Inr out" and "mesh_dim_names (mesh base) = Some names"
    and "dims_in names (concat (map mapped_dims tm))"
  shows "tensor_map out = Some tm"
proof -
  let ?P = "\<lambda>l. mesh_dim_names (mesh l) = Some names \<and> tensor_map l = Some tm"
  from assms(1) obtain am qs l where
    place: "tensor_map_to_placement (base\<lparr>tensor_map := Some tm, alias_tensor_map := Some am\<rparr>) = Inr (qs, l)"
    and run: "for_res (\<lambda>(i, op) l. if op = None then Inr l
      else bind_res (alias_names l) (\<lambda>names. if i < int (length names)
        then bind_res (py_nth names i) (\<lambda>axis. set_partial_by_dev_axis axis op l) else Inr l)) (enum ps) l = Inr out"
    by (auto simp: create_output_layout_def bind_res_Inr_iff)
  have "?P l" using to_placement_keeps [OF place _ _ assms(3)] assms(2) by simp
  with run have "?P out"
  proof (rule for_res_invariant)
    fix x u v
    assume u: "?P u" and "(case x of (i, op) \<Rightarrow> \<lambda>l. if op = None then Inr l
      else bind_res (alias_names l) (\<lambda>names. if i < int (length names)
        then bind_res (py_nth names i) (\<lambda>axis. set_partial_by_dev_axis axis op l) else Inr l)) u = Inr v"
    moreover obtain i op where "x = (i, op)" by (cases x)
    ultimately have "v = u \<or> (\<exists>axis. set_partial_by_dev_axis axis op u = Inr v)"
      by (simp add: bind_res_Inr_iff split: if_splits) blast+
    then show "?P v"
    proof
      assume "\<exists>axis. set_partial_by_dev_axis axis op u = Inr v"
      then obtain partials rs where "tensor_map_to_placement (u\<lparr>partial := partials\<rparr>) = Inr (rs, v)"
        by (auto simp: set_partial_by_dev_axis_def bind_res_Inr_iff split: if_splits)
      from to_placement_keeps [OF this _ _ assms(3)] u show ?thesis by simp
    qed (use u in simp)
  qed
  then show ?thesis by simp
qed

lemma created_layout:
  assumes "create_output_layout base tm ps = Inr out" and base: "layout_ok base names t"
    and wm: "well_mapped (mesh_sizes base) tm" and entries: "\<forall>e \<in> set tm. \<exists>axes. -1 \<notin> set axes \<and> e = denormalize_entry axes"
    and ps: "length ps = length names" "\<forall>op \<in> set ps. op = None \<or> op = Some ''sum''"
    and keep: "\<forall>i < length names. partial base ! i \<noteq> None \<longrightarrow> ps ! i \<noteq> None"
  shows "layout_ok out names tm" and "mesh out = mesh base"
    and "\<forall>i < length names. partial out ! i = (if ps ! i = None then None else Some ''sum'')"
    and "{i. i < length names \<and> ps ! i \<noteq> None} \<inter> shard_axes_of (mesh_sizes base) tm = {}"
proof -
  note ok = base [unfolded layout_ok_def]
  have dims: "dims_in names (concat (map mapped_dims tm))" using wm ok by (auto simp: well_mapped_def dims_in_def)
  have named: "map_res (output_alias base) tm = Inr (map (alias_of names) tm)"
  proof (rule map_res_total)
    fix e assume "e \<in> set tm"
    moreover from this dims have "dims_in names (mapped_dims e)" by (auto simp: dims_in_def)
    ultimately show "output_alias base e = Inr (alias_of names e)" using entries ok by (intro output_alias_eq) auto
  qed
  let ?body = "\<lambda>(i, op) l. if op = None then Inr l
    else bind_res (alias_names l) (\<lambda>names. if i < int (length names)
      then bind_res (py_nth names i) (\<lambda>axis. set_partial_by_dev_axis axis op l) else Inr l)"
  from assms(1) named obtain qs l where
    place: "tensor_map_to_placement (base\<lparr>tensor_map := Some tm, alias_tensor_map := Some (map (alias_of names) tm)\<rparr>) = Inr (qs, l)"
    and run: "for_res ?body (enum ps) l = Inr out"
    by (auto simp: create_output_layout_def bind_res_Inr_iff)
  note keeps = to_placement_keeps [OF place _ _ dims]
  have l: "layout_ok l names tm" "mesh l = mesh base" "partial l = partial base"
    using keeps ok wm by (simp_all add: layout_ok_def mesh_sizes_def)
  have step: "case sel_of names e of None \<Rightarrow> v = u | Some axis \<Rightarrow> set_partial_by_dev_axis axis (Some ''sum'') u = Inr v"
    if "e \<in> set (enum ps)" "?body e u = Inr v" "layout_ok u names tm" for e u v
  proof -
    obtain i op where e: "e = (i, op)" by (cases e)
    with that(1) have i: "0 \<le> i" "i < int (length names)" "ps ! nat i = op" using ps(1) by (auto simp: set_enum)
    then have op: "op = None \<or> op = Some ''sum''" using ps by (metis nat_less_iff nth_mem)
    have "alias_names u = Inr names" using that(3) by (simp add: layout_ok_def alias_names_def)
    with that(2) e i op show ?thesis by (auto simp: sel_of_def split: if_splits)
  qed
  note r = run_partials [where sel = "sel_of names", OF run l(1) step]
  have sizes: "mesh_sizes l = mesh_sizes base" using l(2) by (simp add: mesh_sizes_def)
  have dist: "distinct names" using ok by (simp add: names_ok_def)
  have sel: "Some (names ! i) \<in> sel_of names ` set (enum ps) \<longleftrightarrow> ps ! i \<noteq> None" if "i < length names" for i
    unfolding enum_sel using that dist ps(1) by (auto simp: nth_eq_iff_index_eq)
  show "layout_ok out names tm" "mesh out = mesh base" using r l(2) by simp_all
  show "\<forall>i < length names. partial out ! i = (if ps ! i = None then None else Some ''sum'')"
  proof (intro allI impI)
    fix i assume i: "i < length names"
    then have "partial base ! i = None" if "ps ! i = None" using keep that by auto
    with r sel [OF i] i l(3) show "partial out ! i = (if ps ! i = None then None else Some ''sum'')" by auto
  qed
  have "i \<notin> shard_axes_of (mesh_sizes base) tm" if "i < length names" "ps ! i \<noteq> None" for i
    using r sel [OF that(1)] that unfolding sizes by blast
  then show "{i. i < length names \<and> ps ! i \<noteq> None} \<inter> shard_axes_of (mesh_sizes base) tm = {}" by blast
qed

lemma pair_run:
  assumes "elementwise_layout True [Some x1, Some x2] [Some s1, Some s2] = Inr (Some out)"
  shows "\<exists>so tm ps. broadcast_shapes s1 s2 = Inr so \<and> merge_pair x1 (partial x1) s1 x2 s2 so = Inr (tm, ps) \<and>
    create_output_layout x1 tm ps = Inr out"
  using assms
  by (auto simp: elementwise_layout_def Let_def bind_res_Inr_iff shape_of_def compute_output_shape_def merge_all_layouts_def)

lemma broadcast_dims:
  assumes "broadcast_shapes s1 s2 = Inr so"
  shows "length so = max (length s1) (length s2)"
    and "\<And>j. j < length so \<Longrightarrow> broadcast_dim (pad_left 1 (length so) s1 ! j) (pad_left 1 (length so) s2 ! j) = Inr (so ! j)"
proof -
  have "length so = max (length s1) (length s2) \<and>
    (\<forall>j < length so. broadcast_dim (pad_left 1 (length so) s1 ! j) (pad_left 1 (length so) s2 ! j) = Inr (so ! j))"
    using map_res_nth_Inr [OF assms [unfolded broadcast_shapes_def Let_def]] by (auto simp: pad_left_def)
  then show "length so = max (length s1) (length s2)"
    and "\<And>j. j < length so \<Longrightarrow> broadcast_dim (pad_left 1 (length so) s1 ! j) (pad_left 1 (length so) s2 ! j) = Inr (so ! j)" by blast+
qed

lemma merged_entries:
  assumes "merge_tensor_maps x1 x2 s1 s2 so = Inr tm" and "length so = max (length s1) (length s2)"
    and "tensor_map x1 = Some t1" "length t1 = length s1" and "tensor_map x2 = Some t2" "length t2 = length s2"
  shows "length tm = length so"
    and "\<And>j. j < length so \<Longrightarrow> merge_dim (pad_left 1 (length so) s1 ! j) (pad_left 1 (length so) s2 ! j) (so ! j)
      (pad_left (One (-1)) (length so) t1 ! j) (pad_left (One (-1)) (length so) t2 ! j) = Inr (tm ! j)"
proof -
  have default: "map_or_default x1 s1 = t1" "map_or_default x2 s2 = t2"
    using assms(3-6) by (auto simp: map_or_default_def split: list.split)
  have al: "align_tensor_maps x1 x2 s1 s2 = (pad_left (One (-1)) (length so) t1, pad_left (One (-1)) (length so) t2)"
    using assms(2,4,6) by (simp add: align_tensor_maps_def default pad_left_def Let_def)
  have len: "length (pad_left (One (-1)) (length so) t1) = length so" "length (pad_left (One (-1)) (length so) t2) = length so"
    "length (pad_left 1 (length so) s1) = length so" "length (pad_left 1 (length so) s2) = length so"
    using assms(2,4,6) by (simp_all add: pad_left_def)
  from map_res_nth_Inr [OF assms(1) [unfolded merge_tensor_maps_def al Let_def prod.case]]
  have "length tm = length so \<and> (\<forall>j < length so. merge_dim (pad_left 1 (length so) s1 ! j) (pad_left 1 (length so) s2 ! j) (so ! j)
      (pad_left (One (-1)) (length so) t1 ! j) (pad_left (One (-1)) (length so) t2 ! j) = Inr (tm ! j))"
    by (auto simp: len)
  then show "length tm = length so"
    and "\<And>j. j < length so \<Longrightarrow> merge_dim (pad_left 1 (length so) s1 ! j) (pad_left 1 (length so) s2 ! j) (so ! j)
      (pad_left (One (-1)) (length so) t1 ! j) (pad_left (One (-1)) (length so) t2 ! j) = Inr (tm ! j)" by blast+
qed

lemma merged_partials:
  assumes "merge_partial_status p1 p2 mm t1 t2 = Inr ps" and "length p1 = n" and "length p2 = n"
  shows "length ps = n" and "\<And>i. i < n \<Longrightarrow> ps ! i = (if p1 ! i \<noteq> None then p1 ! i else p2 ! i)"
proof -
  from assms(1) have "map_res (\<lambda>i. let op1 = partial_at p1 i; op2 = partial_at p2 i
      in if op1 \<noteq> None \<and> op2 \<noteq> None \<and> op1 \<noteq> op2 then Inl ValueError else Inr (if op1 \<noteq> None then op1 else op2))
      [0..<max (length p1) (length p2)] = Inr ps"
    by (auto simp: merge_partial_status_def bind_res_Inr_iff)
  from map_res_nth_Inr [OF this] assms(2,3)
  have len: "length ps = n" and nth: "\<And>i. i < n \<Longrightarrow> (let op1 = partial_at p1 i; op2 = partial_at p2 i
      in if op1 \<noteq> None \<and> op2 \<noteq> None \<and> op1 \<noteq> op2 then Inl ValueError else Inr (if op1 \<noteq> None then op1 else op2)) = Inr (ps ! i)"
    by auto
  have "ps ! i = (if p1 ! i \<noteq> None then p1 ! i else p2 ! i)" if "i < n" for i
    using nth [OF that] that assms(2,3) by (auto simp: partial_at_def Let_def split: if_splits)
  with len have "length ps = n \<and> (\<forall>i < n. ps ! i = (if p1 ! i \<noteq> None then p1 ! i else p2 ! i))" by blast
  then show "length ps = n" and "\<And>i. i < n \<Longrightarrow> ps ! i = (if p1 ! i \<noteq> None then p1 ! i else p2 ! i)" by blast+
qed

section \<open>Broadcast operands\<close>

text \<open>The index of an operand that a global output index reads.\<close>

definition broadcast_index :: "int list \<Rightarrow> int list \<Rightarrow> int list" where
  "broadcast_index dims idx = map2 (\<lambda>d i. if d = 1 then 0 else i) dims (drop (length idx - length dims) idx)"

definition aligned_maps :: "int list \<Rightarrow> int list \<Rightarrow> dim_map list \<Rightarrow> dim_map list \<Rightarrow> bool" where
  "aligned_maps s1 s2 t1 t2 \<longleftrightarrow>
     (let n = max (length s1) (length s2)
      in \<forall>j < n. aligned_dim (pad_left 1 n s1 ! j) (pad_left 1 n s2 ! j) (pad_left (One (-1)) n t1 ! j) (pad_left (One (-1)) n t2 ! j))"

lemma nth_pad: "length xs \<le> n \<Longrightarrow> j < length xs \<Longrightarrow> pad_left x n xs ! (n - length xs + j) = xs ! j"
  using nth_append_length_plus [of "replicate (n - length xs) x" xs j] by (simp add: pad_left_def)

lemma set_pad: "set (pad_left x n xs) \<subseteq> insert x (set xs)"
  by (auto simp: pad_left_def)

lemma nth_pad_mem: "length xs \<le> n \<Longrightarrow> j < n \<Longrightarrow> pad_left x n xs ! j \<in> insert x (set xs)"
  using set_pad [of x n xs] nth_mem [of j "pad_left x n xs"] by (auto simp: pad_left_def)

lemma operand_within:
  assumes idx: "list_all2 within idx (areas sizes u f so tm)" and len: "length tm = length so" "length t = length s" "length s \<le> length so"
    and dim: "\<And>j i. j < length so \<Longrightarrow> within i (held_of sizes u f (tm ! j) (so ! j)) \<Longrightarrow>
      within (if pad_left 1 (length so) s ! j = 1 then 0 else i) (held_of sizes u f (pad_left (One (-1)) (length so) t ! j) (pad_left 1 (length so) s ! j))"
  shows "list_all2 within (broadcast_index s idx) (areas sizes u f s t)"
proof -
  have li: "length idx = length so" using idx len(1) by (auto simp: areas_def dest: list_all2_lengthD)
  let ?o = "length so - length s"
  show ?thesis
    unfolding list_all2_conv_all_nth
  proof (intro conjI allI impI)
    show "length (broadcast_index s idx) = length (areas sizes u f s t)"
      using len li by (simp add: broadcast_index_def areas_def)
  next
    fix j assume "j < length (broadcast_index s idx)"
    then have j: "j < length s" by (simp add: broadcast_index_def)
    then have o: "?o + j < length so" using len(3) by simp
    have "within (idx ! (?o + j)) (areas sizes u f so tm ! (?o + j))"
      using idx o li len(1) by (auto simp: list_all2_conv_all_nth areas_def)
    then have "within (idx ! (?o + j)) (held_of sizes u f (tm ! (?o + j)) (so ! (?o + j)))"
      using o len(1) by (simp add: areas_def)
    from dim [OF o this]
    have "within (if s ! j = 1 then 0 else idx ! (?o + j)) (held_of sizes u f (t ! j) (s ! j))"
      using nth_pad [OF len(3) j, of 1] nth_pad [of t "length so" j "One (-1)"] j len(2,3) by simp
    moreover have "broadcast_index s idx ! j = (if s ! j = 1 then 0 else idx ! (?o + j))"
      using j o li by (simp add: broadcast_index_def)
    ultimately show "within (broadcast_index s idx ! j) (areas sizes u f s t ! j)"
      using j len(2) by (simp add: areas_def)
  qed
qed

lemma shards_subset:
  assumes "length tm = length so" and "length t \<le> length so"
    and "\<And>j. j < length so \<Longrightarrow> set (normalize_entry (pad_left (One (-1)) (length so) t ! j)) \<subseteq> set (normalize_entry (tm ! j))"
  shows "shard_axes_of sizes t \<subseteq> shard_axes_of sizes tm"
proof
  fix a assume "a \<in> shard_axes_of sizes t"
  then obtain e where e: "e \<in> set t" "a \<in> set (axes_nat sizes e)" by (auto simp: shard_axes_of_def)
  then obtain j where j: "j < length t" "a \<in> set (axes_nat sizes (t ! j))" using in_set_conv_nth [of e t] by blast
  let ?k = "length so - length t + j"
  have k: "?k < length so" using j(1) assms(2) by simp
  have "set (normalize_entry (t ! j)) \<subseteq> set (normalize_entry (tm ! ?k))"
    using assms(3) [OF k] nth_pad [OF assms(2) j(1), of "One (-1)"] by simp
  then have "a \<in> set (axes_nat sizes (tm ! ?k))" using j(2) by (auto simp: axes_nat_def axes_of_normal)
  with k assms(1) show "a \<in> shard_axes_of sizes tm" by (auto simp: shard_axes_of_def)
qed

section \<open>The property\<close>

definition add_local ::
    "'a :: comm_ring_1 \<Rightarrow> (int list \<Rightarrow> (bool \<times> bool) option) \<Rightarrow> int list \<Rightarrow> int list \<Rightarrow>
     (int list \<Rightarrow> int list \<Rightarrow> 'a) \<Rightarrow> (int list \<Rightarrow> int list \<Rightarrow> 'a) \<Rightarrow> int list \<Rightarrow> int list \<Rightarrow> 'a" where
  "add_local alpha expand s1 s2 L1 L2 c idx =
     (let v1 = L1 c (broadcast_index s1 idx); v2 = L2 c (broadcast_index s2 idx) in
      case expand c of
        None \<Rightarrow> v1 + alpha * v2
      | Some (k1, k2) \<Rightarrow> (if k1 then v1 else 0) + alpha * (if k2 then v2 else 0))"

lemma sum_axes_scale:
  fixes F :: "int list \<Rightarrow> 'a :: comm_ring_1"
  shows "sum_axes sizes as (\<lambda>c. F c + g * G c) c = sum_axes sizes as F c + g * sum_axes sizes as G c"
  by (induction as arbitrary: c) (simp_all add: sum.distrib sum_distrib_left)

lemma operand_sums:
  fixes L :: "int list \<Rightarrow> int list \<Rightarrow> 'a :: comm_ring_1"
  assumes holds: "holds_tensor sizes t P1 s uneven L X" and wt: "well_mapped sizes t" "length t = length s"
    and wm: "well_mapped sizes tm" "length tm = length so"
    and P: "distinct P" "distinct P1" "set P1 \<subseteq> set P" "\<forall>a \<in> set P. a < length sizes" "set P \<inter> shard_axes_of sizes tm = {}"
    and sub: "shard_axes_of sizes t \<subseteq> shard_axes_of sizes tm"
    and link: "\<forall>c idx. valid_coordinate sizes c \<longrightarrow> owns sizes tm so uneven (row_major sizes c) idx \<longrightarrow>
      owns sizes t s uneven (row_major sizes c) (broadcast_index s idx)"
    and c: "valid_coordinate sizes c" "owns sizes tm so uneven (row_major sizes c) idx"
  shows "sum_axes sizes P (\<lambda>c. if \<forall>a \<in> set P - set P1. c ! a = 0 then L c (broadcast_index s idx) else 0) c = X (broadcast_index s idx)"
    and "near sizes (spare_axes sizes tm P) c c' \<Longrightarrow> L c' (broadcast_index s idx) = L c (broadcast_index s idx)"
    and "near sizes (spare_axes sizes tm P) c c' \<Longrightarrow> (\<forall>a \<in> set P - set P1. c' ! a = 0) \<longleftrightarrow> (\<forall>a \<in> set P - set P1. c ! a = 0)"
proof -
  show "sum_axes sizes P (\<lambda>c. if \<forall>a \<in> set P - set P1. c ! a = 0 then L c (broadcast_index s idx) else 0) c = X (broadcast_index s idx)"
  proof (rule masked_sum [OF holds P(1-4) _ c(1)])
    show "set P \<inter> shard_axes_of sizes t = {}" using P(5) sub by blast
    fix c' assume n: "near sizes P c c'"
    show "owns sizes t s uneven (row_major sizes c') (broadcast_index s idx)"
      using link near_valid [OF n] owns_near [OF wm c(1) n P(5) c(2)] by blast
  qed
  assume n: "near sizes (spare_axes sizes tm P) c c'"
  have "set (spare_axes sizes tm P) \<subseteq> set (spare_axes sizes t P1)" using P(3) sub by (auto simp: spare_axes_def)
  with near_mono [OF n] holds link c
  show "L c' (broadcast_index s idx) = L c (broadcast_index s idx)" unfolding holds_tensor_def by blast
  show "(\<forall>a \<in> set P - set P1. c' ! a = 0) \<longleftrightarrow> (\<forall>a \<in> set P - set P1. c ! a = 0)"
    using n P(4) by (simp add: near_def spare_axes_def)
qed

lemma aligned_broadcast:
  assumes merge: "merge_tensor_maps x1 x2 s1 s2 so = Inr tm" and cast: "broadcast_shapes s1 s2 = Inr so"
    and maps: "tensor_map x1 = Some t1" "length t1 = length s1" "tensor_map x2 = Some t2" "length t2 = length s2"
  shows "length tm = length so" and "length s1 \<le> length so" and "length s2 \<le> length so"
    and "\<forall>e \<in> set tm. \<exists>axes. -1 \<notin> set axes \<and> e = denormalize_entry axes"
    and "dims_in names (concat (map mapped_dims t1)) \<Longrightarrow> dims_in names (concat (map mapped_dims t2)) \<Longrightarrow>
      dims_in names (concat (map mapped_dims tm))"
    and "aligned_maps s1 s2 t1 t2 \<Longrightarrow> shard_axes_of sizes t1 \<subseteq> shard_axes_of sizes tm"
    and "aligned_maps s1 s2 t1 t2 \<Longrightarrow> shard_axes_of sizes t2 \<subseteq> shard_axes_of sizes tm"
proof -
  note so = broadcast_dims [OF cast]
  note tm = merged_entries [OF merge so(1) maps]
  let ?n = "length so" and ?p1 = "pad_left (One (-1)) (length so) t1" and ?p2 = "pad_left (One (-1)) (length so) t2"
  have entry: "normalize_entry (tm ! j) = (if normalize_entry (?p1 ! j) = [] then normalize_entry (?p2 ! j) else normalize_entry (?p1 ! j))"
    "\<exists>axes. -1 \<notin> set axes \<and> tm ! j = denormalize_entry axes" if "j < ?n" for j
    using merge_dim_normal [OF tm(2) [OF that]] by blast+
  show "length tm = ?n" by (rule tm(1))
  show le: "length s1 \<le> ?n" "length s2 \<le> ?n" using so(1) by simp_all
  show "\<forall>e \<in> set tm. \<exists>axes. -1 \<notin> set axes \<and> e = denormalize_entry axes"
    using entry(2) tm(1) by (auto simp: in_set_conv_nth)
  show "dims_in names (concat (map mapped_dims tm))"
    if "dims_in names (concat (map mapped_dims t1))" "dims_in names (concat (map mapped_dims t2))"
  proof -
    have pad: "\<forall>m \<in> set (normalize_entry (pad_left (One (-1)) ?n t ! j)). 0 \<le> m \<and> m < int (length names)"
      if "dims_in names (concat (map mapped_dims t))" "length t \<le> ?n" "j < ?n" for t j
    proof -
      have "pad_left (One (-1)) ?n t ! j \<in> insert (One (-1)) (set t)"
        by (rule nth_pad_mem [OF that(2,3)])
      with that(1) show ?thesis
        by (auto simp: dims_in_def dest!: normal_dims)
    qed
    have "dims_in names (mapped_dims e)" if e: "e \<in> set tm" for e
    proof -
      obtain j where j: "j < ?n" "e = tm ! j" using e tm(1) by (auto simp: in_set_conv_nth)
      have "\<forall>m \<in> set (normalize_entry e). 0 \<le> m \<and> m < int (length names)"
        using entry(1) [OF j(1)] pad [OF \<open>dims_in names (concat (map mapped_dims t1))\<close> _ j(1)]
          pad [OF \<open>dims_in names (concat (map mapped_dims t2))\<close> _ j(1)] le maps j(2) by (auto split: if_splits)
      then show ?thesis by (cases e) (auto simp: dims_in_def normalize_entry_def split: if_splits)
    qed
    then show ?thesis by (auto simp: dims_in_def)
  qed
  assume al: "aligned_maps s1 s2 t1 t2"
  have fit: "aligned_dim (pad_left 1 ?n s1 ! j) (pad_left 1 ?n s2 ! j) (?p1 ! j) (?p2 ! j)" if "j < ?n" for j
    using al that so(1) by (simp add: aligned_maps_def Let_def)
  have sub: "set (normalize_entry (?p1 ! j)) \<subseteq> set (normalize_entry (tm ! j))"
    "set (normalize_entry (?p2 ! j)) \<subseteq> set (normalize_entry (tm ! j))" if "j < ?n" for j
    using entry(1) [OF that] fit [OF that] by (auto simp: aligned_dim_def Let_def split: if_splits)
  show "shard_axes_of sizes t1 \<subseteq> shard_axes_of sizes tm"
    by (rule shards_subset [OF tm(1) _ sub(1)]) (use le maps in simp_all)
  show "shard_axes_of sizes t2 \<subseteq> shard_axes_of sizes tm"
    by (rule shards_subset [OF tm(1) _ sub(2)]) (use le maps in simp_all)
qed

lemma aligned_link:
  assumes merge: "merge_tensor_maps x1 x2 s1 s2 so = Inr tm" and cast: "broadcast_shapes s1 s2 = Inr so"
    and maps: "tensor_map x1 = Some t1" "length t1 = length s1" "tensor_map x2 = Some t2" "length t2 = length s2"
    and al: "aligned_maps s1 s2 t1 t2" and pos: "\<forall>n \<in> set s1. 0 \<le> n" "\<forall>n \<in> set s2. 0 \<le> n"
    and wm: "well_mapped sizes tm" "well_mapped sizes t1" "well_mapped sizes t2" and c: "valid_coordinate sizes c"
    and own: "owns sizes tm so uneven (row_major sizes c) idx"
  shows "owns sizes t1 s1 uneven (row_major sizes c) (broadcast_index s1 idx)"
    and "owns sizes t2 s2 uneven (row_major sizes c) (broadcast_index s2 idx)"
proof -
  note so = broadcast_dims [OF cast]
  note tm = merged_entries [OF merge so(1) maps]
  note b = aligned_broadcast [OF merge cast maps]
  let ?u = "set (case uneven of None \<Rightarrow> [] | Some ds \<Rightarrow> ds)" and ?f = "\<lambda>a. c ! nat a" and ?n = "length so"
  have f: "on_axes sizes ?f" using c by (auto simp: on_axes_def valid_coordinate_def list_all2_conv_all_nth)
  have nonneg: "0 \<le> pad_left 1 ?n s ! j" if "\<forall>n \<in> set s. 0 \<le> n" "length s \<le> ?n" "j < ?n" for s :: "int list" and j
    using nth_pad_mem [OF that(2,3), of 1] that(1) by auto
  have area: "list_all2 within idx (areas sizes ?u ?f so tm)" using own owns_areas [OF wm(1) b(1) c] by simp
  have dim: "within (if pad_left 1 ?n s1 ! j = 1 then 0 else i) (held_of sizes ?u ?f (pad_left (One (-1)) ?n t1 ! j) (pad_left 1 ?n s1 ! j))"
    "within (if pad_left 1 ?n s2 ! j = 1 then 0 else i) (held_of sizes ?u ?f (pad_left (One (-1)) ?n t2 ! j) (pad_left 1 ?n s2 ! j))"
    if j: "j < ?n" and i: "within i (held_of sizes ?u ?f (tm ! j) (so ! j))" for i j
  proof -
    have fit: "aligned_dim (pad_left 1 ?n s1 ! j) (pad_left 1 ?n s2 ! j) (pad_left (One (-1)) ?n t1 ! j) (pad_left (One (-1)) ?n t2 ! j)"
      using al j so(1) by (simp add: aligned_maps_def Let_def)
    have entry: "\<forall>a \<in> set (axes_of (int (length sizes)) (tm ! j)). 0 \<le> a \<and> a < int (length sizes)"
      using well_mapped_entry(1) [OF wm(1), of "tm ! j"] j tm(1) by auto
    note w = merged_within [OF tm(2) [OF j] so(2) [OF j] fit nonneg [OF pos(1) b(2) j] nonneg [OF pos(2) b(3) j] f entry i]
    show "within (if pad_left 1 ?n s1 ! j = 1 then 0 else i) (held_of sizes ?u ?f (pad_left (One (-1)) ?n t1 ! j) (pad_left 1 ?n s1 ! j))"
      and "within (if pad_left 1 ?n s2 ! j = 1 then 0 else i) (held_of sizes ?u ?f (pad_left (One (-1)) ?n t2 ! j) (pad_left 1 ?n s2 ! j))"
      by (fact w)+
  qed
  show "owns sizes t1 s1 uneven (row_major sizes c) (broadcast_index s1 idx)"
    unfolding owns_areas [OF wm(2) maps(2) c] by (rule operand_within [OF area b(1) maps(2) b(2) dim(1)])
  show "owns sizes t2 s2 uneven (row_major sizes c) (broadcast_index s2 idx)"
    unfolding owns_areas [OF wm(3) maps(4) c] by (rule operand_within [OF area b(1) maps(4) b(3) dim(2)])
qed

definition add_masks :: "layout \<Rightarrow> layout \<Rightarrow> layout \<Rightarrow> int list \<Rightarrow> (bool \<times> bool) option" where
  "add_masks x1 x2 out c =
     (if partial x1 = partial x2 then None else Some (contributes_at x1 out c, contributes_at x2 out c))"

lemma add_local_masked:
  assumes "partial x1 = partial x2 \<Longrightarrow> set (partial_axes out) \<subseteq> set (partial_axes x1)"
  shows "add_local alpha (add_masks x1 x2 out) s1 s2 L1 L2 c idx =
    (if contributes_at x1 out c then L1 c (broadcast_index s1 idx) else 0) +
    alpha * (if contributes_at x2 out c then L2 c (broadcast_index s2 idx) else 0)"
proof (cases "partial x1 = partial x2")
  case True
  then have "partial_axes x1 = partial_axes x2" by (simp add: partial_axes_def)
  with assms True have "contributes_at x1 out c" "contributes_at x2 out c" by (auto simp: contributes_at_def)
  with True show ?thesis by (simp add: add_local_def add_masks_def)
qed (simp add: add_local_def add_masks_def)



text \<open>
  The rule compares the axes of two sharded dimensions as sets, so it accepts operands that cut a
  dimension by the same axes in another order and hold different parts of it: of a vector of size 8, rank 1
  adds the elements 2 and 3 of one operand to the elements 4 and 5 of the other.
\<close>

theorem add_mixes_axis_orders:
  "\<exists>out. add_layout False [Some (operand [None, None] [Many [1, 0]] [Shard 0 False, Shard 0 False]),
        Some (operand [None, None] [Many [0, 1]] [StridedShard 0 2 False, Shard 0 False])] [Some [8], Some [8]] = Inr (Some out) \<and>
    tensor_map out = Some [Many [1, 0]] \<and>
    infer_slice_area_by_rank [2, 2] [Many [1, 0]] 1 [8] None = Inr [(2, 4)] \<and>
    infer_slice_area_by_rank [2, 2] [Many [0, 1]] 1 [8] None = Inr [(4, 6)]"
proof -
  have "add_layout False [Some (operand [None, None] [Many [1, 0]] [Shard 0 False, Shard 0 False]),
      Some (operand [None, None] [Many [0, 1]] [StridedShard 0 2 False, Shard 0 False])] [Some [8], Some [8]] =
    Inr (Some (operand [None, None] [Many [1, 0]] [Shard 0 False, Shard 0 False]))" by code_simp
  moreover have "infer_slice_area_by_rank [2, 2] [Many [1, 0]] 1 [8] None = Inr [(2, 4)]"
    "infer_slice_area_by_rank [2, 2] [Many [0, 1]] 1 [8] None = Inr [(4, 6)]" by code_simp+
  ultimately show ?thesis by (simp add: operand_def)
qed

text \<open>
  The rule does not check that an axis shards one dimension of the output only: a column that is
  sharded by rows plus a row that is sharded by columns on the same axis gives an output that is sharded
  twice on it, of which no rank holds the upper right quarter.
\<close>

theorem add_shards_axis_twice:
  "\<exists>out. add_layout False [Some (operand [None, None] [One 1, One (-1)] [Shard 0 False, Replicate]),
        Some (operand [None, None] [One (-1), One 1] [Shard 1 False, Replicate])] [Some [4, 1], Some [1, 4]] = Inr (Some out) \<and>
    tensor_map out = Some [One 1, One 1] \<and> placements out = Some [Shard 1 False, Replicate] \<and>
    list_all (\<lambda>r. \<not> owns [2, 2] [One 1, One 1] [4, 4] None r [0, 2]) [0, 1, 2, 3]"
proof -
  have "add_layout False [Some (operand [None, None] [One 1, One (-1)] [Shard 0 False, Replicate]),
      Some (operand [None, None] [One (-1), One 1] [Shard 1 False, Replicate])] [Some [4, 1], Some [1, 4]] =
    Inr (Some (operand [None, None] [One 1, One 1] [Shard 1 False, Replicate]))" by code_simp
  moreover have "list_all (\<lambda>r. \<not> owns [2, 2] [One 1, One 1] [4, 4] None r [0, 2]) [0, 1, 2, 3]" by code_simp
  ultimately show ?thesis by (simp add: operand_def)
qed

text \<open>
  The rule accepts a sharded and a replicated operand of the same size, whose local sizes differ: of
  two vectors of size 2, rank 0 holds one element of the first and both of the second.
\<close>

theorem add_accepts_replicated:
  "\<exists>out. add_layout False [Some (operand [None, None] [One 0] [Replicate, Shard 0 False]),
        Some (operand [None, None] [One (-1)] [Replicate, Replicate])] [Some [2], Some [2]] = Inr (Some out) \<and>
    tensor_map out = Some [One 0] \<and>
    infer_slice_area_by_rank [2, 2] [One 0] 0 [2] None = Inr [(0, 1)] \<and>
    infer_slice_area_by_rank [2, 2] [One (-1)] 0 [2] None = Inr [(0, 2)]"
proof -
  have "add_layout False [Some (operand [None, None] [One 0] [Replicate, Shard 0 False]),
      Some (operand [None, None] [One (-1)] [Replicate, Replicate])] [Some [2], Some [2]] =
    Inr (Some (operand [None, None] [One 0] [Replicate, Shard 0 False]))" by code_simp
  moreover have "infer_slice_area_by_rank [2, 2] [One 0] 0 [2] None = Inr [(0, 1)]"
    "infer_slice_area_by_rank [2, 2] [One (-1)] 0 [2] None = Inr [(0, 2)]" by code_simp+
  ultimately show ?thesis by (simp add: operand_def)
qed

end
