(* ===== verification/Checkpoint_Plan.thy ===== *)
theory Checkpoint_Plan
  imports Ragged_Shard "HOL-Library.Sublist"
begin

text \<open>
  The planners of the distributed checkpoint (core/distributed_checkpoint: metadata.py, planner.py, utils.py,
  ragged.py and standard_planner.py): what every rank writes and how duplicates are shared out, the
  metadata that describes the chunks, and what a rank reads to fill its own chunks from them. Tensors
  appear by shape, layout and device only; what is in the files is the subject of Checkpoint_Store.
\<close>

section \<open>Metadata\<close>

text \<open>\<open>index_hint\<close> is the field \<open>index\<close>, which takes no part in comparison and hashing.\<close>

record metadata_index =
  fqn :: string
  offset :: "int list"
  index_hint :: "int option"

type_synonym shard_key = "string \<times> int list"

definition index_key :: "metadata_index \<Rightarrow> shard_key" where
  "index_key i = (fqn i, offset i)"

record chunk =
  offsets :: "int list"
  extents :: "int list"

record tensor_properties =
  dtype :: string
  requires_grad :: bool
  memory_format :: "string option"

record tensor_storage =
  ts_properties :: tensor_properties
  ts_size :: "int list"
  ts_chunks :: "chunk list"

datatype storage_metadata = Bytes_Storage | Tensor_Storage tensor_storage

datatype path_key = Name string | Position nat

record checkpoint_metadata =
  state_dict_metadata :: "(string, storage_metadata) dict"
  name_mapping :: "(string, path_key list) dict option"

definition dtype_element_sizes :: "(string \<times> int) list" where
  "dtype_element_sizes =
     [(''bfloat16'', 2), (''float16'', 2), (''float32'', 4), (''float64'', 8), (''int8'', 1), (''int16'', 2),
      (''int32'', 4), (''int64'', 8), (''bool'', 1)]"

definition dtype_element_size :: "string option \<Rightarrow> int" where
  "dtype_element_size dt =
     (case dt of
        None \<Rightarrow> 4
      | Some s \<Rightarrow>
          (case List.find (\<lambda>(name, n). sublist name (map lower_char s)) dtype_element_sizes of
             None \<Rightarrow> 4
           | Some (name, n) \<Rightarrow> n))"

section \<open>Items and plans\<close>

datatype item_type = TENSOR | BYTE_IO

record tensor_data =
  td_chunk :: chunk
  td_properties :: tensor_properties
  td_size :: "int list"

record write_item =
  item_index :: metadata_index
  item_type :: item_type
  item_data :: "tensor_data option"

definition tensor_storage_size :: "write_item \<Rightarrow> int option" where
  "tensor_storage_size it =
     (if item_type it \<noteq> TENSOR then None
      else case item_data it of
        None \<Rightarrow> None
      | Some td \<Rightarrow> Some (prod_list (extents (td_chunk td)) * dtype_element_size (Some (dtype (td_properties td)))))"

record save_plan =
  save_items :: "write_item list"
  save_names :: "(string, path_key list) dict option"

record broadcast_source =
  group_ranks :: "nat list"
  src_rank :: nat

record read_item =
  read_type :: item_type
  dest_index :: metadata_index
  dest_offsets :: "int list"
  storage_index :: metadata_index
  storage_offsets :: "int list"
  lengths :: "int list"
  broadcastable :: bool
  source :: "broadcast_source option"

text \<open>What a rank sends of its load plan: where the data comes from is left out.\<close>

definition storage_elided :: metadata_index where
  "storage_elided = \<lparr>fqn = '''', offset = [], index_hint = None\<rparr>"

definition plan_identity :: "read_item list \<Rightarrow> read_item list" where
  "plan_identity items =
     map (\<lambda>it. it\<lparr>dest_offsets := [], storage_index := storage_elided, storage_offsets := []\<rparr>) items"

section \<open>Chunk geometry\<close>

definition chunk_to_area :: "chunk \<Rightarrow> (int \<times> int) list result" where
  "chunk_to_area c =
     (if length (extents c) < length (offsets c) then Inl IndexError
      else Inr (map (\<lambda>(o', n). (o', o' + n)) (zip (offsets c) (extents c))))"

fun intersect_axes :: "((int \<times> int) \<times> (int \<times> int)) list \<Rightarrow> (int \<times> int) list option" where
  "intersect_axes [] = Some []"
| "intersect_axes (((a, b), (c, d)) # rest) =
     (if min b d \<le> max a c then None else map_option (\<lambda>xs. (max a c, min b d) # xs) (intersect_axes rest))"

definition infer_intersection :: "(int \<times> int) list \<Rightarrow> (int \<times> int) list \<Rightarrow> (int \<times> int) list option result" where
  "infer_intersection area_a area_b =
     (if length area_a \<noteq> length area_b then Inl ValueError else Inr (intersect_axes (zip area_a area_b)))"

text \<open>
  The boxes of a flat interval: the rest of the first block, the blocks covered in full, the beginning of
  the last. The recursion runs over the axes that are left; \<open>pre\<close> are the offsets on those before.
\<close>

fun decompose_axis :: "int list \<Rightarrow> int list \<Rightarrow> int \<Rightarrow> int \<Rightarrow> (int list \<times> int list) list" where
  "decompose_axis pre [] a b = []"
| "decompose_axis pre [n] a b = [(pre @ [a], replicate (length pre) 1 @ [b - a])]"
| "decompose_axis pre (n # m # rest) a b =
     (let stride = prod_list (m # rest);
          start_block = a div stride; start_remainder = a mod stride; end_block = (b - 1) div stride
      in if start_block = end_block then
           decompose_axis (pre @ [start_block]) (m # rest) start_remainder (start_remainder + b - a)
         else
           let complete_start = (if start_remainder \<noteq> 0 then start_block + 1 else start_block);
               complete_end = b div stride; end_remainder = b mod stride
           in (if start_remainder \<noteq> 0 then decompose_axis (pre @ [start_block]) (m # rest) start_remainder stride else [])
              @ (if complete_start < complete_end then
                   [(pre @ complete_start # replicate (length (m # rest)) 0,
                     replicate (length pre) 1 @ (complete_end - complete_start) # m # rest)]
                 else [])
              @ (if end_remainder \<noteq> 0 then decompose_axis (pre @ [complete_end]) (m # rest) 0 end_remainder else []))"

definition decompose_flat_interval :: "int list \<Rightarrow> int \<Rightarrow> int \<Rightarrow> (int list \<times> int list) list result" where
  "decompose_flat_interval dims flat_start flat_end =
     (if dims = [] then Inl ValueError
      else if flat_start < 0 \<or> flat_end < flat_start \<or> prod_list dims < flat_end then Inl ValueError
      else if flat_start = flat_end then Inr []
      else Inr (decompose_axis [] dims flat_start flat_end))"

record ragged_box =
  box_offsets :: "int list"
  box_sizes :: "int list"
  local_flat_start :: int
  local_flat_end :: int

definition compute_ragged_boxes :: "int list \<Rightarrow> layout \<Rightarrow> ragged_box list result" where
  "compute_ragged_boxes global_shape l =
     (case ragged_shard l of
        None \<Rightarrow> Inl ValueError
      | Some _ \<Rightarrow>
          bind_res (compute_ragged_slice global_shape l None) (\<lambda>(a, b).
          bind_res (decompose_flat_interval global_shape a b) (\<lambda>raw_boxes.
            let ends = accumulate 0 (map (\<lambda>(os, ns). prod_list ns) raw_boxes);
                boxes = map (\<lambda>((os, ns), e). \<lparr>box_offsets = os, box_sizes = ns,
                  local_flat_start = e - prod_list ns, local_flat_end = e\<rparr>) (zip raw_boxes ends)
            in if (if ends = [] then 0 else last ends) \<noteq> local_numel (a, b) then Inl ValueError else Inr boxes)))"

section \<open>Entries of a state dict\<close>

record dtensor =
  d_layout :: "layout option"
  d_shape :: "int list"
  d_local_shape :: "int list"
  d_dtype :: string
  d_device :: string

record plain_tensor =
  p_shape :: "int list"
  p_dtype :: string
  p_chunk_info :: "(chunk \<times> int list) option"
  p_device :: string

datatype state_obj = DTensor dtensor | Plain plain_tensor | Other

definition whole_chunk :: "int list \<Rightarrow> chunk" where
  "whole_chunk dims = \<lparr>offsets = replicate (length dims) 0, extents = dims\<rparr>"

definition slice_of_rank :: "layout \<Rightarrow> int \<Rightarrow> int list \<Rightarrow> (int \<times> int) list result" where
  "slice_of_rank l rank full =
     bind_res (py_index (rank_list (mesh l)) rank) (\<lambda>inner_rank_id. infer_slice_area_by_layout l inner_rank_id full)"

definition compute_global_offsets :: "int list \<Rightarrow> layout \<Rightarrow> int \<Rightarrow> int list result" where
  "compute_global_offsets global_shape l current_rank =
     (if tensor_map l = None then Inl ValueError
      else if current_rank \<notin> set (rank_list (mesh l)) then Inl ValueError
      else bind_res (slice_of_rank l current_rank global_shape) (\<lambda>area. Inr (map fst area)))"

definition create_chunk_list :: "int \<Rightarrow> state_obj \<Rightarrow> chunk list result" where
  "create_chunk_list current_rank obj =
     (case obj of
        DTensor d \<Rightarrow>
          (case d_layout d of
             None \<Rightarrow> Inr [whole_chunk (d_shape d)]
           | Some l \<Rightarrow>
               if ragged_shard l \<noteq> None then
                 bind_res (compute_ragged_boxes (d_shape d) l) (\<lambda>boxes.
                   Inr (map (\<lambda>b. \<lparr>offsets = box_offsets b, extents = box_sizes b\<rparr>) boxes))
               else if tensor_map l = None then Inr [whole_chunk (d_shape d)]
               else if current_rank \<notin> set (rank_list (mesh l)) then Inr []
               else bind_res (slice_of_rank l current_rank (d_shape d)) (\<lambda>area.
                      Inr [\<lparr>offsets = map fst area, extents = map (\<lambda>(s, e). e - s) area\<rparr>]))
      | Plain p \<Rightarrow>
          (case p_chunk_info p of
             Some (c, full) \<Rightarrow> Inr [c]
           | None \<Rightarrow> Inr [whole_chunk (p_shape p)])
      | Other \<Rightarrow> Inl ValueError)"

end
