(* ===== verification/Checkpoint_Save.thy ===== *)
theory Checkpoint_Save
  imports Checkpoint_Plan
begin

text \<open>
  Saving: which of the ranks that hold a chunk writes it (\<open>plan_ownership_masks\<close> in utils.py), the local
  plan of a rank, and the global plan with its metadata (\<open>StandardSavePlanner\<close> in standard_planner.py).
\<close>

section \<open>Ownership of duplicates\<close>

type_synonym occurrences = "(shard_key, write_item \<times> (nat \<times> nat) list) dict"

datatype placed_item = Placed (plan_of: nat) (slot_of: nat) (entry_of: write_item)

definition key_of :: "placed_item \<Rightarrow> shard_key" where
  "key_of x = index_key (item_index (entry_of x))"

definition position_of :: "placed_item \<Rightarrow> nat \<times> nat" where
  "position_of x = (plan_of x, slot_of x)"

definition record_item :: "placed_item \<Rightarrow> occurrences \<Rightarrow> occurrences result" where
  "record_item x occ =
     (let entry = entry_of x; k = key_of x; known = map_of occ k in
      if tensor_storage_size entry = Some 0 then
        Inr (if known = None then dict_set occ k (entry, [position_of x]) else occ)
      else case known of
          None \<Rightarrow> Inr (dict_set occ k (entry, [position_of x]))
        | Some (first, holders) \<Rightarrow>
            if tensor_storage_size first = Some 0 then Inr (dict_set occ k (entry, [position_of x]))
            else if item_data entry \<noteq> item_data first then Inl ValueError
            else Inr (dict_set occ k (first, holders @ [position_of x])))"

definition placed_items :: "write_item list list \<Rightarrow> placed_item list" where
  "placed_items plans =
     concat (map (\<lambda>p. map (\<lambda>j. Placed p j (plans ! p ! j)) [0..<length (plans ! p)]) [0..<length plans])"

definition item_weight :: "write_item \<Rightarrow> int" where
  "item_weight e = (case tensor_storage_size e of None \<Rightarrow> 1 | Some n \<Rightarrow> if n = 0 then 1 else n)"

definition least_loaded_owner :: "(nat \<times> nat) list \<Rightarrow> int list \<Rightarrow> nat \<times> nat" where
  "least_loaded_owner holders storage_sizes =
     fold (\<lambda>h best. if storage_sizes ! fst h < storage_sizes ! fst best then h else best) (tl holders) (hd holders)"

definition assign_owner :: "int \<Rightarrow> nat \<times> nat \<Rightarrow> bool list list \<times> int list \<Rightarrow> bool list list \<times> int list" where
  "assign_owner n owner state =
     (let (p, j) = owner; (masks, storage_sizes) = state
      in (masks[p := (masks ! p)[j := True]], storage_sizes[p := storage_sizes ! p + n]))"

definition plan_ownership_masks :: "write_item list list \<Rightarrow> bool \<Rightarrow> bool list list result" where
  "plan_ownership_masks plans save_to_minimum_rank =
     bind_res (for_res record_item (placed_items plans) []) (\<lambda>occ.
       let entries = map snd occ;
           start = (map (\<lambda>items. replicate (length items) False) plans, replicate (length plans) 0);
           duplicates = map (\<lambda>(e, hs). (item_weight e, hs)) (filter (\<lambda>(e, hs). 1 < length hs) entries);
           unique = fold (\<lambda>(e, hs). assign_owner (item_weight e) (hd hs)) (filter (\<lambda>(e, hs). \<not> 1 < length hs) entries) start;
           ordered = (if save_to_minimum_rank then duplicates else sort_key (\<lambda>(n, hs). - n) duplicates)
       in Inr (fst (fold (\<lambda>(n, hs) st.
            assign_owner n (if save_to_minimum_rank then hd hs else least_loaded_owner hs (snd st)) st) ordered unique)))"

section \<open>The local plan\<close>

definition properties_of :: "string \<Rightarrow> tensor_properties" where
  "properties_of dt = \<lparr>dtype = dt, requires_grad = False, memory_format = None\<rparr>"

definition tensor_item :: "string \<Rightarrow> chunk \<Rightarrow> string \<Rightarrow> int list \<Rightarrow> write_item" where
  "tensor_item name c dt full =
     \<lparr>item_index = \<lparr>fqn = name, offset = offsets c, index_hint = None\<rparr>, item_type = TENSOR,
      item_data = Some \<lparr>td_chunk = c, td_properties = properties_of dt, td_size = full\<rparr>\<rparr>"

definition create_ragged_write_items :: "string \<Rightarrow> layout \<Rightarrow> dtensor \<Rightarrow> write_item list result" where
  "create_ragged_write_items name l d =
     bind_res (compute_ragged_boxes (d_shape d) l) (\<lambda>boxes.
       Inr (map (\<lambda>b. tensor_item name \<lparr>offsets = box_offsets b, extents = box_sizes b\<rparr> (d_dtype d) (d_shape d)) boxes))"

definition write_items_of :: "int \<Rightarrow> string \<Rightarrow> state_obj \<Rightarrow> write_item list result" where
  "write_items_of rank name obj =
     (case obj of
        DTensor d \<Rightarrow>
          (case d_layout d of
             None \<Rightarrow> Inr [tensor_item name \<lparr>offsets = replicate (length (d_local_shape d)) 0, extents = d_local_shape d\<rparr>
                       (d_dtype d) (d_shape d)]
           | Some l \<Rightarrow>
               if ragged_shard l \<noteq> None then create_ragged_write_items name l d
               else bind_res (compute_global_offsets (d_shape d) l rank) (\<lambda>os.
                 Inr [tensor_item name \<lparr>offsets = os, extents = d_local_shape d\<rparr> (d_dtype d) (d_shape d)]))
      | Plain p \<Rightarrow>
          (case p_chunk_info p of
             Some (c, full) \<Rightarrow> Inr [tensor_item name c (p_dtype p) full]
           | None \<Rightarrow> Inr [tensor_item name (whole_chunk (p_shape p)) (p_dtype p) (p_shape p)])
      | Other \<Rightarrow>
          Inr [\<lparr>item_index = \<lparr>fqn = name, offset = [], index_hint = None\<rparr>, item_type = BYTE_IO, item_data = None\<rparr>])"

definition build_save_plan ::
    "int \<Rightarrow> (string, path_key list) dict option \<Rightarrow> (string, state_obj) dict \<Rightarrow> save_plan result" where
  "build_save_plan rank names state_dict =
     bind_res (map_res (\<lambda>(name, obj). write_items_of rank name obj) state_dict) (\<lambda>itemss.
       Inr \<lparr>save_items = concat itemss, save_names = names\<rparr>)"

section \<open>The global plan\<close>

definition own_plan_index :: "'p list \<Rightarrow> int \<Rightarrow> nat result" where
  "own_plan_index all_plans rank =
     (let own_index = (if 1 < length all_plans then rank else 0)
      in if 0 \<le> own_index \<and> own_index < int (length all_plans) then Inr (nat own_index) else Inl ValueError)"

type_synonym fqn_info = "(string, tensor_properties \<times> int list \<times> chunk list) dict"

definition global_chunks_for :: "string \<Rightarrow> tensor_properties \<Rightarrow> int list \<Rightarrow> fqn_info \<Rightarrow> chunk list result" where
  "global_chunks_for name props full info =
     (case map_of info name of
        None \<Rightarrow> Inr []
      | Some (known_props, known_size, chunks) \<Rightarrow>
          if known_props \<noteq> props \<or> known_size \<noteq> full then Inl ValueError else Inr chunks)"

definition visit_item ::
    "bool \<times> write_item \<Rightarrow> fqn_info \<times> (string, storage_metadata) dict \<times> write_item list \<Rightarrow>
     (fqn_info \<times> (string, storage_metadata) dict \<times> write_item list) result" where
  "visit_item x state =
     (let (is_own_plan, it) = x; (info, md, own_items) = state; name = fqn (item_index it) in
      case (item_type it, item_data it) of
        (TENSOR, Some td) \<Rightarrow>
          bind_res (global_chunks_for name (td_properties td) (td_size td) info) (\<lambda>chunks.
            Inr (dict_set info name (td_properties td, td_size td, chunks @ [td_chunk td]), md,
                 if is_own_plan
                 then own_items @ [it\<lparr>item_index := (item_index it)\<lparr>index_hint := Some (int (length chunks))\<rparr>\<rparr>]
                 else own_items))
      | (TENSOR, None) \<Rightarrow> Inl ValueError
      | (BYTE_IO, _) \<Rightarrow>
          Inr (info, dict_set md name Bytes_Storage, if is_own_plan then own_items @ [it] else own_items))"

definition compress :: "'a list \<Rightarrow> bool list \<Rightarrow> 'a list" where
  "compress xs keep = map fst (filter snd (zip xs keep))"

definition kept_items :: "bool list list option \<Rightarrow> save_plan list \<Rightarrow> write_item list list" where
  "kept_items masks all_plans =
     (case masks of
        None \<Rightarrow> map save_items all_plans
      | Some ms \<Rightarrow> map (\<lambda>(plan, keep). compress (save_items plan) keep) (zip all_plans ms))"

definition merge_names :: "save_plan list \<Rightarrow> (string, path_key list) dict result" where
  "merge_names all_plans =
     for_res (\<lambda>plan merged.
         case save_names plan of
           None \<Rightarrow> Inl TypeError
         | Some names \<Rightarrow> Inr (fold (\<lambda>(name, path) m. dict_set m name path) names merged))
       all_plans []"

definition global_masks :: "bool \<Rightarrow> bool \<Rightarrow> save_plan list \<Rightarrow> bool list list option result" where
  "global_masks remove_redundancy save_to_minimum_rank all_plans =
     (if remove_redundancy \<and> 1 < length all_plans
      then bind_res (plan_ownership_masks (map save_items all_plans) save_to_minimum_rank) (\<lambda>ms. Inr (Some ms))
      else Inr None)"

definition build_global_save_plan ::
    "bool \<Rightarrow> bool \<Rightarrow> bool \<Rightarrow> int \<Rightarrow> save_plan list \<Rightarrow> (save_plan \<times> checkpoint_metadata) result" where
  "build_global_save_plan remove_redundancy save_to_minimum_rank flatten rank all_plans =
     bind_res (own_plan_index all_plans rank) (\<lambda>own_index.
     bind_res (global_masks remove_redundancy save_to_minimum_rank all_plans) (\<lambda>masks.
     bind_res (for_res visit_item
         (concat (map (\<lambda>(p, items). map (Pair (p = own_index)) items) (List.enumerate 0 (kept_items masks all_plans))))
         ([], [], [])) (\<lambda>(info, md, own_items).
     bind_res (if flatten then bind_res (merge_names all_plans) (\<lambda>m. Inr (Some m)) else Inr None) (\<lambda>names.
       Inr ((all_plans ! own_index)\<lparr>save_items := own_items\<rparr>,
            \<lparr>state_dict_metadata = fold (\<lambda>(name, props, full, chunks) m.
                 dict_set m name (Tensor_Storage \<lparr>ts_properties = props, ts_size = full, ts_chunks = chunks\<rparr>)) info md,
             name_mapping = names\<rparr>)))))"

end
