(* ===== verification/Checkpoint_Load.thy ===== *)
theory Checkpoint_Load
  imports Checkpoint_Save
begin

text \<open>
  Loading (\<open>StandardLoadPlanner\<close> in standard_planner.py): the reads that fill the chunks of a rank from the
  chunks of the checkpoint, and the global plan, which lets one rank of each group of replicas read
  what all of them hold.
\<close>

section \<open>The local plan\<close>

definition read_item_for ::
    "string \<Rightarrow> bool \<Rightarrow> int \<times> chunk \<Rightarrow> int \<times> chunk \<Rightarrow> read_item option result" where
  "read_item_for name bc lc sc =
     (let (local_idx, local_chunk) = lc; (storage_idx, storage_chunk) = sc in
      bind_res (chunk_to_area local_chunk) (\<lambda>local_area.
      bind_res (chunk_to_area storage_chunk) (\<lambda>saved_area.
      bind_res (infer_intersection local_area saved_area) (\<lambda>overlap.
        Inr (map_option (\<lambda>os.
          \<lparr>read_type = TENSOR,
           dest_index = \<lparr>fqn = name, offset = offsets local_chunk, index_hint = Some local_idx\<rparr>,
           dest_offsets = map (\<lambda>((a, b), o'). a - o') (zip os (offsets local_chunk)),
           storage_index = \<lparr>fqn = name, offset = offsets storage_chunk, index_hint = Some storage_idx\<rparr>,
           storage_offsets = map (\<lambda>((a, b), o'). a - o') (zip os (offsets storage_chunk)),
           lengths = map (\<lambda>(a, b). b - a) os,
           broadcastable = bc, source = None\<rparr>) overlap)))))"

definition create_read_items :: "string \<Rightarrow> tensor_storage \<Rightarrow> chunk list \<Rightarrow> bool \<Rightarrow> read_item list result" where
  "create_read_items name md local_chunks bc =
     bind_res (map_res (\<lambda>lc. map_res (read_item_for name bc lc) (enum (ts_chunks md))) (enum local_chunks)) (\<lambda>itemss.
       Inr (somes (concat itemss)))"

definition is_on_host :: "state_obj \<Rightarrow> bool" where
  "is_on_host obj =
     (case obj of DTensor d \<Rightarrow> d_device d = ''cpu'' | Plain p \<Rightarrow> p_device p = ''cpu'' | Other \<Rightarrow> False)"

definition rank_owns_dtensor_shard :: "int \<Rightarrow> state_obj \<Rightarrow> bool" where
  "rank_owns_dtensor_shard rank obj =
     (case obj of
        DTensor d \<Rightarrow> (case d_layout d of None \<Rightarrow> True | Some l \<Rightarrow> rank \<in> set (rank_list (mesh l)))
      | _ \<Rightarrow> True)"

definition obj_size :: "state_obj \<Rightarrow> int list option" where
  "obj_size obj =
     (case obj of
        DTensor d \<Rightarrow> Some (d_shape d)
      | Plain p \<Rightarrow> Some (case p_chunk_info p of Some (c, full) \<Rightarrow> full | None \<Rightarrow> p_shape p)
      | Other \<Rightarrow> None)"

definition byte_read :: "string \<Rightarrow> read_item" where
  "byte_read name =
     \<lparr>read_type = BYTE_IO, dest_index = \<lparr>fqn = name, offset = [], index_hint = None\<rparr>, dest_offsets = [0],
      storage_index = \<lparr>fqn = name, offset = [], index_hint = None\<rparr>, storage_offsets = [0], lengths = [0],
      broadcastable = True, source = None\<rparr>"

definition read_items_of ::
    "bool \<Rightarrow> int \<Rightarrow> checkpoint_metadata \<Rightarrow> string \<Rightarrow> state_obj \<Rightarrow> read_item list result" where
  "read_items_of allow_partial_load rank md name obj =
     (case map_of (state_dict_metadata md) name of
        None \<Rightarrow>
          if suffix ''matched_adamw_rms'' name \<or> suffix ''step'' name then Inr []
          else if \<not> allow_partial_load then Inl RuntimeError else Inr []
      | Some Bytes_Storage \<Rightarrow> Inr [byte_read name]
      | Some (Tensor_Storage ts) \<Rightarrow>
          if obj_size obj \<noteq> Some (ts_size ts) then Inl ValueError
          else if \<not> rank_owns_dtensor_shard rank obj then Inr []
          else bind_res (create_chunk_list rank obj) (\<lambda>local_chunks.
                 create_read_items name ts local_chunks (\<not> is_on_host obj)))"

definition build_load_plan ::
    "bool \<Rightarrow> int \<Rightarrow> checkpoint_metadata \<Rightarrow> (string, state_obj) dict \<Rightarrow> read_item list result" where
  "build_load_plan allow_partial_load rank md state_dict =
     bind_res (map_res (\<lambda>(name, obj). read_items_of allow_partial_load rank md name obj) state_dict) (\<lambda>itemss.
       Inr (concat itemss))"

section \<open>The global plan\<close>

definition shard_element_size :: "checkpoint_metadata \<Rightarrow> string \<Rightarrow> int" where
  "shard_element_size md name =
     dtype_element_size (case map_of (state_dict_metadata md) name of
       Some (Tensor_Storage ts) \<Rightarrow> Some (dtype (ts_properties ts)) | _ \<Rightarrow> None)"

text \<open>The ranks that hold a shard, the elements they read for it, and whether it may be sent.\<close>

type_synonym replicas = "(shard_key, nat list \<times> int \<times> bool) dict"

definition note_replica :: "nat \<times> read_item \<Rightarrow> replicas \<Rightarrow> replicas" where
  "note_replica x reps =
     (let (rank, it) = x; k = index_key (dest_index it) in
      if read_type it \<noteq> TENSOR then reps
      else
        let (ranks, elements, sendable) = (case map_of reps k of None \<Rightarrow> ([], 0, True) | Some v \<Rightarrow> v)
        in dict_set reps k (if rank \<in> set ranks then ranks else ranks @ [rank],
             elements + prod_list (lengths it), sendable \<and> broadcastable it))"

definition gathered_items :: "read_item list list \<Rightarrow> (nat \<times> read_item) list" where
  "gathered_items all_plans = concat (map (\<lambda>(rank, items). map (Pair rank) items) (List.enumerate 0 all_plans))"

definition collect_replicas :: "read_item list list \<Rightarrow> replicas" where
  "collect_replicas all_plans = fold note_replica (gathered_items all_plans) []"

definition shared_shards :: "checkpoint_metadata \<Rightarrow> replicas \<Rightarrow> (int \<times> shard_key \<times> nat list) list" where
  "shared_shards md reps =
     map (\<lambda>(k, ranks, elements, sendable). (shard_element_size md (fst k) * elements div int (length ranks), k, sort ranks))
       (filter (\<lambda>(k, ranks, elements, sendable). 1 < length ranks \<and> sendable) reps)"

text \<open>\<open>min\<close> by the pair of bytes so far and rank, first minimum.\<close>

definition least_read_rank :: "int list \<Rightarrow> nat list \<Rightarrow> nat" where
  "least_read_rank load_bytes ranks =
     fold (\<lambda>r best. if load_bytes ! r < load_bytes ! best \<or> load_bytes ! r = load_bytes ! best \<and> r < best then r else best)
       (tl ranks) (hd ranks)"

definition pick_reader ::
    "int \<times> shard_key \<times> nat list \<Rightarrow> int list \<times> (shard_key, broadcast_source) dict \<Rightarrow>
     int list \<times> (shard_key, broadcast_source) dict" where
  "pick_reader shard state =
     (let (nbytes, k, ranks) = shard; (load_bytes, sources) = state; src = least_read_rank load_bytes ranks
      in (load_bytes[src := load_bytes ! src + nbytes], dict_set sources k \<lparr>group_ranks = ranks, src_rank = src\<rparr>))"

definition broadcast_sources :: "checkpoint_metadata \<Rightarrow> read_item list list \<Rightarrow> (shard_key, broadcast_source) dict" where
  "broadcast_sources md all_plans =
     snd (fold pick_reader (sort_key (\<lambda>shard. - fst shard) (shared_shards md (collect_replicas all_plans)))
       (replicate (length all_plans) 0, []))"

definition mark_item :: "(shard_key, broadcast_source) dict \<Rightarrow> read_item \<Rightarrow> read_item" where
  "mark_item sources it =
     (case map_of sources (index_key (dest_index it)) of None \<Rightarrow> it | Some s \<Rightarrow> it\<lparr>source := Some s\<rparr>)"

definition build_global_load_plan ::
    "bool \<Rightarrow> int \<Rightarrow> checkpoint_metadata \<Rightarrow> read_item list list \<Rightarrow> read_item list result" where
  "build_global_load_plan broadcast_replicated rank md all_plans =
     bind_res (own_plan_index all_plans rank) (\<lambda>own_index.
       if \<not> broadcast_replicated \<or> length all_plans < 2 then Inr (all_plans ! own_index)
       else if shared_shards md (collect_replicas all_plans) = [] then Inr (all_plans ! own_index)
       else Inr (map (mark_item (broadcast_sources md all_plans)) (all_plans ! own_index)))"

end
