(* ===== verification/Checkpoint_Files.thy ===== *)
theory Checkpoint_Files
  imports Checkpoint_Load
begin

text \<open>
  Writing (\<open>FileSystemWriter\<close> in filesystem_storage.py): a rank puts its tensors into one file under names it
  makes up for the chunks of a tensor it holds several of, and the metadata tell for every item the file and
  the name. A tensor is its shape and a function from indices to elements.
\<close>

section \<open>Names in a file\<close>

record 'a tensor =
  t_shape :: "int list"
  t_at :: "int list \<Rightarrow> 'a"

definition get_data :: "(string, 'a tensor) dict \<Rightarrow> write_item \<Rightarrow> 'a tensor result" where
  "get_data vals it = dict_get vals (fqn (item_index it))"

text \<open>\<open>while tensor_key in reserved_keys or tensor_key in used_keys: tensor_key += "_"\<close>.\<close>

function fresh_key :: "string list \<Rightarrow> string \<Rightarrow> string" where
  "fresh_key taken key = (if key \<in> set taken then fresh_key taken (key @ ''_'') else key)"
  by pat_completeness auto

termination
proof (relation "measure (\<lambda>(taken, key). length (filter (\<lambda>k. length key \<le> length k) taken))")
  fix taken :: "string list" and key :: string
  assume "key \<in> set taken"
  then show "((taken, key @ ''_''), (taken, key)) \<in> measure (\<lambda>(taken, key). length (filter (\<lambda>k. length key \<le> length k) taken))"
  proof (induction taken)
    case (Cons k taken)
    have "length (filter (\<lambda>k. length (key @ ''_'') \<le> length k) ts) \<le> length (filter (\<lambda>k. length key \<le> length k) ts)" for ts :: "string list"
      by (induction ts) auto
    with Cons show ?case by (cases "k = key") (auto simp: less_Suc_eq_le)
  qed simp
qed simp

declare fresh_key.simps [simp del]

lemma fresh_key_fresh: "fresh_key taken key \<notin> set taken"
  by (induction taken key rule: fresh_key.induct) (subst fresh_key.simps, simp)

lemma fresh_key_nonempty: "key \<noteq> '''' \<Longrightarrow> fresh_key taken key \<noteq> ''''"
  by (induction taken key rule: fresh_key.induct) (subst fresh_key.simps, simp)

section \<open>The file of a rank\<close>

type_synonym 'a collected = "string list \<times> (string, nat) dict \<times> (string, 'a tensor) dict \<times> (shard_key, string) dict"

definition collect_tensor ::
    "string list \<Rightarrow> (string, 'a tensor) dict \<Rightarrow> write_item \<Rightarrow> 'a collected \<Rightarrow> 'a collected result" where
  "collect_tensor names vals it state =
     (let (used_keys, next_chunk_index, tensor_dict, tensor_keys) = state in
      bind_res (get_data vals it) (\<lambda>T.
        let name = fqn (item_index it);
            chunk_index = (case map_of next_chunk_index name of None \<Rightarrow> 0 | Some n \<Rightarrow> n);
            several = 1 < count_list names name;
            tensor_key = (if several then fresh_key (names @ used_keys) (name @ ''.__dcp_chunk_'' @ string_of_nat chunk_index) else name)
        in Inr (tensor_key # used_keys,
             if several then dict_set next_chunk_index name (chunk_index + 1) else next_chunk_index,
             dict_set tensor_dict tensor_key T,
             dict_set tensor_keys (index_key (item_index it)) tensor_key)))"

definition tensor_items :: "write_item list \<Rightarrow> write_item list" where
  "tensor_items items = filter (\<lambda>it. item_type it = TENSOR \<and> item_data it \<noteq> None) items"

definition collect_tensors ::
    "write_item list \<Rightarrow> (string, 'a tensor) dict \<Rightarrow> ((string, 'a tensor) dict \<times> (shard_key, string) dict) result" where
  "collect_tensors items vals =
     bind_res (for_res (collect_tensor (map (\<lambda>it. fqn (item_index it)) (tensor_items items)) vals) (tensor_items items) ([], [], [], []))
       (\<lambda>(used_keys, next_chunk_index, tensor_dict, tensor_keys). Inr (tensor_dict, tensor_keys))"

text \<open>Where an item is stored: in the bytes or in the tensor file of a rank.\<close>

datatype storage_info = In_Bytes nat | In_Tensors nat string

definition write_tensors :: "nat \<Rightarrow> write_item list \<Rightarrow> (shard_key, string) dict \<Rightarrow> (shard_key \<times> storage_info) list result" where
  "write_tensors rank items tensor_keys =
     map_res (\<lambda>it. bind_res (dict_get tensor_keys (index_key (item_index it))) (\<lambda>key.
       Inr (index_key (item_index it), In_Tensors rank key))) (tensor_items items)"

definition write_bytes_items :: "nat \<Rightarrow> write_item list \<Rightarrow> (shard_key \<times> storage_info) list" where
  "write_bytes_items rank items =
     map (\<lambda>it. (index_key (item_index it), In_Bytes rank)) (filter (\<lambda>it. item_type it = BYTE_IO) items)"

definition execute_write ::
    "nat \<Rightarrow> write_item list \<Rightarrow> (string, 'a tensor) dict \<Rightarrow> ((string, 'a tensor) dict \<times> (shard_key \<times> storage_info) list) result" where
  "execute_write rank items vals =
     bind_res (collect_tensors items vals) (\<lambda>(tensor_dict, tensor_keys).
     bind_res (write_tensors rank items tensor_keys) (\<lambda>results. Inr (tensor_dict, write_bytes_items rank items @ results)))"

section \<open>The checkpoint\<close>

record 'a checkpoint =
  tensor_files :: "(string, 'a tensor) dict list"
  storage_data :: "(shard_key, storage_info) dict"

definition finalize_checkpoint :: "(shard_key \<times> storage_info) list list \<Rightarrow> (shard_key, storage_info) dict" where
  "finalize_checkpoint results = fold (\<lambda>(k, info) md. dict_set md k info) (concat results) []"

text \<open>The ranks in order, each with its items and its data.\<close>

definition write_checkpoint :: "(write_item list \<times> (string, 'a tensor) dict) list \<Rightarrow> 'a checkpoint result" where
  "write_checkpoint ranks =
     bind_res (map_res (\<lambda>(rank, items, vals). execute_write rank items vals) (List.enumerate 0 ranks)) (\<lambda>written.
       Inr \<lparr>tensor_files = map fst written, storage_data = finalize_checkpoint (map snd written)\<rparr>)"

text \<open>The tensor that a key of the metadata stands for.\<close>

definition stored_tensor :: "'a checkpoint \<Rightarrow> shard_key \<Rightarrow> 'a tensor option" where
  "stored_tensor c k =
     (case map_of (storage_data c) k of
        Some (In_Tensors rank key) \<Rightarrow>
          (if rank < length (tensor_files c) then map_of (tensor_files c ! rank) (if key = '''' then fst k else key) else None)
      | _ \<Rightarrow> None)"

section \<open>Names do not collide\<close>

lemma collect_tensor_Inr:
  assumes "collect_tensor names vals it (used, nexts, tensors, keys) = Inr state"
  shows "\<exists>T tk nexts'. map_of vals (fqn (item_index it)) = Some T \<and>
    state = (tk # used, nexts', dict_set tensors tk T, dict_set keys (index_key (item_index it)) tk) \<and>
    (1 < count_list names (fqn (item_index it)) \<and> tk \<notin> set names \<and> tk \<notin> set used \<or>
     \<not> 1 < count_list names (fqn (item_index it)) \<and> tk = fqn (item_index it)) \<and>
    (tk = '''' \<longrightarrow> fqn (item_index it) = '''')"
proof -
  from assms obtain T where T: "map_of vals (fqn (item_index it)) = Some T"
    by (auto simp: collect_tensor_def get_data_def bind_res_Inr_iff dict_get_Inr_iff)
  then have get: "get_data vals it = Inr T" by (simp add: get_data_def dict_get_def)
  show ?thesis
  proof (cases "1 < count_list names (fqn (item_index it))")
    case True
    define tk where "tk = fresh_key (names @ used) (fqn (item_index it) @ ''.__dcp_chunk_'' @
      string_of_nat (case map_of nexts (fqn (item_index it)) of None \<Rightarrow> 0 | Some n \<Rightarrow> n))"
    have "tk \<notin> set (names @ used)" unfolding tk_def by (rule fresh_key_fresh)
    moreover have "tk \<noteq> ''''" unfolding tk_def by (rule fresh_key_nonempty) simp
    moreover from assms True have "\<exists>nexts'. state = (tk # used, nexts', dict_set tensors tk T, dict_set keys (index_key (item_index it)) tk)"
      unfolding collect_tensor_def prod.case get bind_res_simps Let_def tk_def [symmetric] by auto
    ultimately show ?thesis using T True by auto
  next
    case False
    with assms T get show ?thesis unfolding collect_tensor_def prod.case get bind_res_simps Let_def by auto
  qed
qed

lemma collected_keys:
  assumes "for_res (collect_tensor names vals) xs ([], [], [], []) = Inr (used, nexts, tensors, keys)"
    and "names = map (\<lambda>it. fqn (item_index it)) (xs @ ys)"
  shows "set used = set (map fst tensors)"
    and "u \<in> set used \<Longrightarrow> u \<in> set names \<Longrightarrow> count_list names u \<le> 1 \<and> u \<in> set (map (\<lambda>it. fqn (item_index it)) xs)"
    and "map_of keys k = Some key \<Longrightarrow> \<exists>it \<in> set xs. index_key (item_index it) = k \<and>
      (\<exists>T. map_of vals (fqn (item_index it)) = Some T \<and> map_of tensors key = Some T) \<and> (key = '''' \<longrightarrow> fst k = '''')"
    and "it \<in> set xs \<Longrightarrow> map_of keys (index_key (item_index it)) \<noteq> None"
    and "inj_on (map_of keys) (dom (map_of keys))"
proof -
  have "set used = set (map fst tensors) \<and>
     (\<forall>u \<in> set used \<inter> set names. count_list names u \<le> 1 \<and> u \<in> set (map (\<lambda>it. fqn (item_index it)) xs)) \<and>
     (\<forall>k key. map_of keys k = Some key \<longrightarrow> (\<exists>it \<in> set xs. index_key (item_index it) = k \<and>
        (\<exists>T. map_of vals (fqn (item_index it)) = Some T \<and> map_of tensors key = Some T) \<and> (key = '''' \<longrightarrow> fst k = ''''))) \<and>
     (\<forall>it \<in> set xs. map_of keys (index_key (item_index it)) \<noteq> None) \<and> inj_on (map_of keys) (dom (map_of keys))"
    using assms
  proof (induction xs arbitrary: used nexts tensors keys ys rule: rev_induct)
    case (snoc it xs)
    let ?name = "fqn (item_index it)"
    from snoc.prems(1) obtain used0 nexts0 tensors0 keys0 where
      run: "for_res (collect_tensor names vals) xs ([], [], [], []) = Inr (used0, nexts0, tensors0, keys0)"
      and step: "collect_tensor names vals it (used0, nexts0, tensors0, keys0) = Inr (used, nexts, tensors, keys)"
      by (auto simp: for_res_append bind_res_Inr_iff)
    from step obtain T tk where T: "map_of vals ?name = Some T" and used: "used = tk # used0" and tensors: "tensors = dict_set tensors0 tk T"
      and keys: "keys = dict_set keys0 (index_key (item_index it)) tk"
      and tk: "1 < count_list names ?name \<and> tk \<notin> set names \<and> tk \<notin> set used0 \<or> \<not> 1 < count_list names ?name \<and> tk = ?name"
      and empty: "tk = '''' \<longrightarrow> ?name = ''''"
      using collect_tensor_Inr [OF step] by auto
    have names: "names = map (\<lambda>it. fqn (item_index it)) (xs @ it # ys)" using snoc.prems(2) by simp
    from snoc.IH [OF run names] have ih: "set used0 = set (map fst tensors0)"
      "\<And>u. u \<in> set used0 \<Longrightarrow> u \<in> set names \<Longrightarrow> count_list names u \<le> 1 \<and> u \<in> set (map (\<lambda>it. fqn (item_index it)) xs)"
      "\<And>k key. map_of keys0 k = Some key \<Longrightarrow> \<exists>it \<in> set xs. index_key (item_index it) = k \<and>
        (\<exists>T. map_of vals (fqn (item_index it)) = Some T \<and> map_of tensors0 key = Some T) \<and> (key = '''' \<longrightarrow> fst k = '''')"
      "\<And>it. it \<in> set xs \<Longrightarrow> map_of keys0 (index_key (item_index it)) \<noteq> None" "inj_on (map_of keys0) (dom (map_of keys0))" by blast+
    have taken: "map_of keys0 k \<noteq> Some tk" if "tk \<notin> set used0" for k
    proof
      assume "map_of keys0 k = Some tk"
      from ih(3) [OF this] have "tk \<in> set (map fst tensors0)" by (force dest: map_of_SomeD)
      with that ih(1) show False by blast
    qed
    have fresh: "tk \<notin> set used0"
    proof
      assume u: "tk \<in> set used0"
      with tk have "tk = ?name" "\<not> 1 < count_list names ?name" by blast+
      then have "?name \<in> set (map (\<lambda>it. fqn (item_index it)) xs)" using ih(2) [OF u] names by simp
      then have "count_list (map (\<lambda>it. fqn (item_index it)) xs) ?name \<noteq> 0" unfolding count_list_0_iff by simp
      then have "1 < count_list names ?name" by (simp add: names)
      with \<open>\<not> 1 < count_list names ?name\<close> show False by blast
    qed
    have "set used = set (map fst tensors)" using ih(1) by (auto simp: used tensors keys_dict_set)
    moreover have "count_list names u \<le> 1 \<and> u \<in> set (map (\<lambda>it. fqn (item_index it)) (xs @ [it]))"
      if "u \<in> set used" "u \<in> set names" for u
      using that ih(2) [of u] tk by (auto simp: used)
    moreover have "\<exists>x \<in> set (xs @ [it]). index_key (item_index x) = k \<and>
        (\<exists>T. map_of vals (fqn (item_index x)) = Some T \<and> map_of tensors key = Some T) \<and> (key = '''' \<longrightarrow> fst k = '''')" if "map_of keys k = Some key" for k key
    proof (cases "k = index_key (item_index it)")
      case True
      with that T empty show ?thesis by (simp add: keys tensors index_key_def)
    next
      case False
      with that have "map_of keys0 k = Some key" by (simp add: keys)
      from ih(3) [OF this] obtain x S where x: "x \<in> set xs" "index_key (item_index x) = k" "map_of vals (fqn (item_index x)) = Some S"
        "map_of tensors0 key = Some S" "key = '''' \<longrightarrow> fst k = ''''" by blast
      from x(4) ih(1) fresh have "key \<noteq> tk" by (force dest: map_of_SomeD)
      with x show ?thesis by (auto simp: tensors)
    qed
    moreover have "map_of keys (index_key (item_index x)) \<noteq> None" if "x \<in> set (xs @ [it])" for x
      using that ih(4) [of x] by (auto simp: keys)
    moreover have "inj_on (map_of keys) (dom (map_of keys))"
    proof (rule inj_onI)
      fix k k' assume k: "k \<in> dom (map_of keys)" "k' \<in> dom (map_of keys)" "map_of keys k = map_of keys k'"
      show "k = k'"
      proof (cases "k = index_key (item_index it) \<or> k' = index_key (item_index it)")
        case True
        with k taken [OF fresh, of k] taken [OF fresh, of k'] show ?thesis by (auto simp: keys split: if_splits)
      next
        case False
        with k have "k \<in> dom (map_of keys0)" "k' \<in> dom (map_of keys0)" "map_of keys0 k = map_of keys0 k'" by (auto simp: keys)
        then show ?thesis using inj_onD [OF ih(5), of k k'] by blast
      qed
    qed
    ultimately show ?case by blast
  qed simp
  then show "set used = set (map fst tensors)"
    and "u \<in> set used \<Longrightarrow> u \<in> set names \<Longrightarrow> count_list names u \<le> 1 \<and> u \<in> set (map (\<lambda>it. fqn (item_index it)) xs)"
    and "map_of keys k = Some key \<Longrightarrow> \<exists>it \<in> set xs. index_key (item_index it) = k \<and>
      (\<exists>T. map_of vals (fqn (item_index it)) = Some T \<and> map_of tensors key = Some T) \<and> (key = '''' \<longrightarrow> fst k = '''')"
    and "it \<in> set xs \<Longrightarrow> map_of keys (index_key (item_index it)) \<noteq> None"
    and "inj_on (map_of keys) (dom (map_of keys))" by blast+
qed

lemma collected:
  assumes "collect_tensors items vals = Inr (tensors, keys)"
  shows "map_of keys k = Some key \<Longrightarrow> \<exists>it \<in> set items. item_type it = TENSOR \<and> index_key (item_index it) = k \<and>
      (\<exists>T. map_of vals (fqn (item_index it)) = Some T \<and> map_of tensors key = Some T) \<and> (key = '''' \<longrightarrow> fst k = '''')"
    and "it \<in> set (tensor_items items) \<Longrightarrow> map_of keys (index_key (item_index it)) \<noteq> None"
proof -
  from assms obtain used nexts where
    run: "for_res (collect_tensor (map (\<lambda>it. fqn (item_index it)) (tensor_items items)) vals) (tensor_items items) ([], [], [], [])
      = Inr (used, nexts, tensors, keys)" by (auto simp: collect_tensors_def bind_res_Inr_iff)
  have n: "map (\<lambda>it. fqn (item_index it)) (tensor_items items) = map (\<lambda>it. fqn (item_index it)) (tensor_items items @ [])" by simp
  show "map_of keys k = Some key \<Longrightarrow> \<exists>it \<in> set items. item_type it = TENSOR \<and> index_key (item_index it) = k \<and>
      (\<exists>T. map_of vals (fqn (item_index it)) = Some T \<and> map_of tensors key = Some T) \<and> (key = '''' \<longrightarrow> fst k = '''')"
    using collected_keys(3) [OF run n] by (fastforce simp: tensor_items_def)
  show "it \<in> set (tensor_items items) \<Longrightarrow> map_of keys (index_key (item_index it)) \<noteq> None"
    using collected_keys(4) [OF run n] by blast
qed

section \<open>Lookups\<close>

lemma finalized:
  "map_of (fold (\<lambda>(k, info) md. dict_set md k info) xs md) k = (case map_of (rev xs) k of None \<Rightarrow> map_of md k | Some info \<Rightarrow> Some info)"
  by (induction xs arbitrary: md) (auto simp: map_add_def split: option.splits)

lemma written_results:
  assumes "execute_write rank items vals = Inr (tensors, results)"
  shows "(k, In_Tensors r key) \<in> set results \<Longrightarrow> r = rank \<and> (\<exists>it \<in> set items. item_type it = TENSOR \<and> index_key (item_index it) = k \<and>
      (\<exists>T. map_of vals (fqn (item_index it)) = Some T \<and> map_of tensors key = Some T) \<and> (key = '''' \<longrightarrow> fst k = ''''))"
    and "(k, In_Bytes r) \<in> set results \<Longrightarrow> \<exists>it \<in> set items. item_type it = BYTE_IO \<and> index_key (item_index it) = k"
    and "it \<in> set (tensor_items items) \<Longrightarrow> \<exists>key. (index_key (item_index it), In_Tensors rank key) \<in> set results"
proof -
  from assms obtain keys ws where c: "collect_tensors items vals = Inr (tensors, keys)"
    and ws: "write_tensors rank items keys = Inr ws" and results: "results = write_bytes_items rank items @ ws"
    by (auto simp: execute_write_def bind_res_Inr_iff)
  have len: "length ws = length (tensor_items items)" using map_res_Inr_length [OF ws [unfolded write_tensors_def]] .
  have each: "\<exists>key. map_of keys (index_key (item_index (tensor_items items ! i))) = Some key \<and>
      ws ! i = (index_key (item_index (tensor_items items ! i)), In_Tensors rank key)" if "i < length (tensor_items items)" for i
    using map_res_Inr_nth [OF ws [unfolded write_tensors_def] that] by (auto simp: bind_res_Inr_iff dict_get_Inr_iff)
  show "r = rank \<and> (\<exists>it \<in> set items. item_type it = TENSOR \<and> index_key (item_index it) = k \<and>
      (\<exists>T. map_of vals (fqn (item_index it)) = Some T \<and> map_of tensors key = Some T) \<and> (key = '''' \<longrightarrow> fst k = ''''))" if "(k, In_Tensors r key) \<in> set results"
  proof -
    from that have "(k, In_Tensors r key) \<in> set ws" by (auto simp: results write_bytes_items_def)
    then obtain i where "i < length (tensor_items items)" "ws ! i = (k, In_Tensors r key)" using len by (auto simp: in_set_conv_nth)
    with each [OF this(1)] have "r = rank" "map_of keys k = Some key" by auto
    with collected(1) [OF c] show ?thesis by blast
  qed
  show "\<exists>it \<in> set items. item_type it = BYTE_IO \<and> index_key (item_index it) = k" if "(k, In_Bytes r) \<in> set results"
  proof -
    have "(k, In_Bytes r) \<notin> set ws"
    proof
      assume "(k, In_Bytes r) \<in> set ws"
      then obtain i where "i < length (tensor_items items)" "ws ! i = (k, In_Bytes r)" using len by (auto simp: in_set_conv_nth)
      with each show False by fastforce
    qed
    with that show ?thesis by (auto simp: results write_bytes_items_def)
  qed
  show "\<exists>key. (index_key (item_index it), In_Tensors rank key) \<in> set results" if "it \<in> set (tensor_items items)"
  proof -
    from that obtain i where i: "i < length (tensor_items items)" "tensor_items items ! i = it" by (auto simp: in_set_conv_nth)
    with each [OF i(1)] len have "\<exists>key. ws ! i = (index_key (item_index it), In_Tensors rank key)" "ws ! i \<in> set ws" by auto
    then show ?thesis by (auto simp: results)
  qed
qed

text \<open>
  A key of a tensor item that is the key of no bytes item is found, and what is found is the data of an item with
  that key.
\<close>

lemma written_lookup:
  assumes "write_checkpoint ranks = Inr c" and "(items, vals) \<in> set ranks" and "it \<in> set items"
    and "item_type it = TENSOR" and "item_data it \<noteq> None"
    and no_bytes: "\<forall>items vals x. (items, vals) \<in> set ranks \<and> x \<in> set items \<and> item_type x = BYTE_IO \<longrightarrow>
      index_key (item_index x) \<noteq> index_key (item_index it)"
  shows "\<exists>items' vals' it'. (items', vals') \<in> set ranks \<and> it' \<in> set items' \<and> item_type it' = TENSOR \<and>
    index_key (item_index it') = index_key (item_index it) \<and>
    (\<exists>S. map_of vals' (fqn (item_index it')) = Some S \<and> stored_tensor c (index_key (item_index it)) = Some S)"
proof -
  let ?k = "index_key (item_index it)"
  from assms(1) obtain written where
    run: "map_res (\<lambda>(rank, items, vals). execute_write rank items vals) (List.enumerate 0 ranks) = Inr written"
    and c: "c = \<lparr>tensor_files = map fst written, storage_data = finalize_checkpoint (map snd written)\<rparr>"
    by (auto simp: write_checkpoint_def bind_res_Inr_iff)
  have len: "length written = length ranks" using map_res_Inr_length [OF run] by simp
  have each: "execute_write r (fst (ranks ! r)) (snd (ranks ! r)) = Inr (fst (written ! r), snd (written ! r))" if "r < length ranks" for r
    using map_res_Inr_nth [OF run, of r] that by (simp add: nth_enumerate_eq case_prod_beta)
  from assms(2) obtain r where r: "r < length ranks" "ranks ! r = (items, vals)" by (auto simp: in_set_conv_nth)
  have "it \<in> set (tensor_items (fst (ranks ! r)))" using assms(3-5) r(2) by (simp add: tensor_items_def)
  from written_results(3) [OF each [OF r(1)] this] obtain key where "(?k, In_Tensors r key) \<in> set (snd (written ! r))" by blast
  then have "?k \<in> set (map fst (concat (map snd written)))" using r(1) len by (force simp: in_set_conv_nth)
  then have "map_of (rev (concat (map snd written))) ?k \<noteq> None" by (simp add: map_of_eq_None_iff image_Un)
  then obtain info where info: "map_of (rev (concat (map snd written))) ?k = Some info" by blast
  then have "(?k, info) \<in> set (concat (map snd written))" by (auto dest: map_of_SomeD)
  then obtain w where w: "w \<in> set written" "(?k, info) \<in> set (snd w)" by auto
  then obtain r' where r': "r' < length ranks" "(?k, info) \<in> set (snd (written ! r'))" using len by (metis in_set_conv_nth)
  have mem: "(fst (ranks ! r'), snd (ranks ! r')) \<in> set ranks" using r'(1) by simp
  show ?thesis
  proof (cases info)
    case (In_Bytes b)
    with written_results(2) [OF each [OF r'(1)]] r'(2) no_bytes mem show ?thesis by blast
  next
    case (In_Tensors b tk)
    with written_results(1) [OF each [OF r'(1)]] r'(2) obtain it' S where b: "b = r'" and
      it': "it' \<in> set (fst (ranks ! r'))" "item_type it' = TENSOR" "index_key (item_index it') = ?k"
        "map_of (snd (ranks ! r')) (fqn (item_index it')) = Some S" "map_of (fst (written ! r')) tk = Some S"
        "tk = '''' \<longrightarrow> fst ?k = ''''" by blast
    have "map_of (storage_data c) ?k = Some info" using info by (simp add: c finalize_checkpoint_def finalized)
    moreover have "(if tk = '''' then fst ?k else tk) = tk" using it'(6) by simp
    ultimately have "stored_tensor c ?k = Some S" using it'(5) r'(1) len In_Tensors b by (simp only: stored_tensor_def) (simp add: c)
    with it' mem show ?thesis by blast
  qed
qed

section \<open>The property\<close>



end
