(* ===== verification/Checkpoint_Store.thy ===== *)
theory Checkpoint_Store
  imports Checkpoint_Files
begin

text \<open>
  Reading (\<open>FileSystemReader\<close> in filesystem_storage.py): a read copies a region of a stored tensor to a region
  of a local one. Reads of regions that agree with one global tensor fill the local tensor with it, in
  any order. Ragged boxes are views of flat storage and are not covered.
\<close>

section \<open>Regions\<close>

text \<open>\<open>t[a:a + n]\<close> on an axis of the given size.\<close>

definition slice_span :: "int \<Rightarrow> int \<Rightarrow> int \<Rightarrow> int \<times> int" where
  "slice_span dim a n =
     (let i = slice_bound (nat dim) a; j = max i (slice_bound (nat dim) (a + n)) in (int i, int j))"

definition narrow_spans :: "int list \<Rightarrow> int list \<Rightarrow> int list \<Rightarrow> (int \<times> int) list result" where
  "narrow_spans dims offs lens =
     (let cuts = zip offs lens in
      if length dims < length cuts then Inl IndexError
      else Inr (map (\<lambda>(n, o', l). slice_span n o' l) (zip dims cuts) @ map (Pair 0) (drop (length cuts) dims)))"

definition view :: "'a tensor \<Rightarrow> (int \<times> int) list \<Rightarrow> 'a tensor" where
  "view T spans =
     \<lparr>t_shape = map (\<lambda>(a, b). b - a) spans, t_at = (\<lambda>idx. t_at T (map (\<lambda>(i, a, b). i + a) (zip idx spans)))\<rparr>"

definition narrow_tensor_by_index :: "'a tensor \<Rightarrow> int list \<Rightarrow> int list \<Rightarrow> 'a tensor result" where
  "narrow_tensor_by_index T offs lens =
     (if offs = [] \<or> lens = [] then Inr T
      else bind_res (narrow_spans (t_shape T) offs lens) (\<lambda>spans. Inr (view T spans)))"

text \<open>Writing through a view.\<close>

definition copy_to_view :: "'a tensor \<Rightarrow> (int \<times> int) list \<Rightarrow> 'a tensor \<Rightarrow> 'a tensor" where
  "copy_to_view T spans src =
     T\<lparr>t_at := (\<lambda>idx. if list_all2 (\<lambda>i (a, b). a \<le> i \<and> i < b) idx spans
        then t_at src (map (\<lambda>(i, a, b). i - a) (zip idx spans)) else t_at T idx)\<rparr>"

section \<open>Reading\<close>

definition read_slices :: "'a tensor \<Rightarrow> read_item \<Rightarrow> 'a tensor result" where
  "read_slices T it =
     (if zip (storage_offsets it) (lengths it) = [] then Inr T
      else bind_res (narrow_spans (t_shape T) (storage_offsets it) (lengths it)) (\<lambda>spans. Inr (view T spans)))"

text \<open>A file that is not there and a name that it does not hold are the error of the file library.\<close>

definition fetch_tensor :: "'a checkpoint \<Rightarrow> read_item \<Rightarrow> 'a tensor result" where
  "fetch_tensor c it =
     bind_res (dict_get (storage_data c) (index_key (storage_index it))) (\<lambda>info.
       case info of
         In_Bytes rank \<Rightarrow> Inl TypeError
       | In_Tensors rank key \<Rightarrow>
           if length (tensor_files c) \<le> rank then Inl RuntimeError
           else (case map_of (tensor_files c ! rank) (if key = '''' then fqn (storage_index it) else key) of
                   None \<Rightarrow> Inl RuntimeError
                 | Some T \<Rightarrow> read_slices T it))"

lemma fetch_stored:
  "stored_tensor c (index_key (storage_index it)) = Some T \<Longrightarrow> fetch_tensor c it = read_slices T it"
  by (auto simp: stored_tensor_def fetch_tensor_def dict_get_def index_key_def split: option.splits storage_info.splits if_splits)

definition acquire_spans :: "'a tensor \<Rightarrow> read_item \<Rightarrow> (int \<times> int) list result" where
  "acquire_spans target it =
     (if dest_offsets it = [] \<or> lengths it = [] then Inr (map (Pair 0) (t_shape target))
      else narrow_spans (t_shape target) (dest_offsets it) (lengths it))"

definition copy_read :: "'a tensor \<Rightarrow> (string, 'a tensor) dict \<Rightarrow> read_item \<Rightarrow> (string, 'a tensor) dict result" where
  "copy_read src vals it =
     bind_res (dict_get vals (fqn (dest_index it))) (\<lambda>target.
     bind_res (acquire_spans target it) (\<lambda>spans.
       if map (\<lambda>(a, b). b - a) spans \<noteq> t_shape src then Inl AssertionError
       else Inr (dict_set vals (fqn (dest_index it)) (copy_to_view target spans src))))"

definition load_item ::
    "'a checkpoint \<Rightarrow> read_item \<Rightarrow> (string, 'a tensor) dict \<Rightarrow> (string, 'a tensor) dict result" where
  "load_item store it vals =
     (if read_type it = TENSOR then bind_res (fetch_tensor store it) (\<lambda>src. copy_read src vals it) else Inr vals)"

section \<open>Overlaps\<close>

lemma intersect_some:
  "length as = length bs \<Longrightarrow> intersect_axes (zip as bs) = Some os \<Longrightarrow>
     length os = length as \<and> (\<forall>j < length as. os ! j = (max (fst (as ! j)) (fst (bs ! j)), min (snd (as ! j)) (snd (bs ! j))) \<and>
       fst (os ! j) < snd (os ! j))"
proof (induction as bs arbitrary: os rule: list_induct2)
  case (Cons a as b bs)
  obtain a1 a2 b1 b2 where ab: "a = (a1, a2)" "b = (b1, b2)" by (cases a, cases b)
  with Cons.prems obtain os' where os': "intersect_axes (zip as bs) = Some os'" "os = (max a1 b1, min a2 b2) # os'"
    by (auto split: if_splits)
  have "max a1 b1 < min a2 b2"
  proof (rule ccontr)
    assume "\<not> max a1 b1 < min a2 b2"
    with Cons.prems ab show False by simp
  qed
  with Cons.IH [OF os'(1)] os'(2) show ?case by (auto simp: ab nth_Cons split: nat.splits)
qed simp

lemma intersect_none:
  "length as = length bs \<Longrightarrow> intersect_axes (zip as bs) = None \<Longrightarrow> \<not> (list_all2 within idx as \<and> list_all2 within idx bs)"
proof (induction as bs arbitrary: idx rule: list_induct2)
  case (Cons a as b bs)
  obtain a1 a2 b1 b2 where ab: "a = (a1, a2)" "b = (b1, b2)" by (cases a, cases b)
  show ?case
  proof
    assume "list_all2 within idx (a # as) \<and> list_all2 within idx (b # bs)"
    then obtain i rest where idx: "idx = i # rest" "within i a" "within i b" "list_all2 within rest as" "list_all2 within rest bs"
      by (auto simp: list_all2_Cons2)
    from idx(2,3) have "max a1 b1 < min a2 b2" by (auto simp: within_def ab)
    then have "intersect_axes (zip as bs) = None" using Cons.prems by (simp add: ab split: if_splits)
    with Cons.IH idx(4,5) show False by blast
  qed
qed simp

lemma within_overlap:
  assumes "length as = length bs" and "intersect_axes (zip as bs) = Some os"
  shows "list_all2 within idx os \<longleftrightarrow> list_all2 within idx as \<and> list_all2 within idx bs"
  using intersect_some [OF assms] assms(1) by (auto simp: list_all2_conv_all_nth within_def)

section \<open>One read\<close>

definition area_of :: "chunk \<Rightarrow> (int \<times> int) list" where
  "area_of c = map (\<lambda>(o', n). (o', o' + n)) (zip (offsets c) (extents c))"

definition shifted :: "int list \<Rightarrow> int list \<Rightarrow> int list" where
  "shifted os idx = map2 (+) os idx"

text \<open>\<open>T\<close> is the part of the global tensor \<open>X\<close> that the chunk describes.\<close>

definition part_of :: "(int list \<Rightarrow> 'a) \<Rightarrow> chunk \<Rightarrow> 'a tensor \<Rightarrow> bool" where
  "part_of X c T \<longleftrightarrow> t_shape T = extents c \<and>
     (\<forall>idx. length idx = length (extents c) \<and> list_all2 within (shifted (offsets c) idx) (area_of c) \<longrightarrow>
        t_at T idx = X (shifted (offsets c) idx))"

lemma slice_span_inside: "0 \<le> a \<Longrightarrow> 0 \<le> n \<Longrightarrow> a + n \<le> dim \<Longrightarrow> slice_span dim a n = (a, a + n)"
  by (auto simp: slice_span_def slice_bound_def min_def max_def Let_def)

lemma spans_inside:
  assumes "length offs = length dims" and "length lens = length dims"
    and "\<And>j. j < length dims \<Longrightarrow> 0 \<le> offs ! j \<and> 0 \<le> lens ! j \<and> offs ! j + lens ! j \<le> dims ! j"
  shows "narrow_spans dims offs lens = Inr (map2 (\<lambda>a n. (a, a + n)) offs lens)"
  using assms by (auto simp: narrow_spans_def slice_span_inside intro!: nth_equalityI)

lemma read_one:
  assumes item: "read_item_for name bc (i, lc) (j, sc) = Inr (Some it)"
    and local: "length (offsets lc) = length (extents lc)" and saved: "length (offsets sc) = length (extents sc)"
    and store: "stored_tensor store (name, offsets sc) = Some S" "part_of X sc S"
    and target: "map_of vals name = Some T" "t_shape T = extents lc"
  shows "\<exists>T'. load_item store it vals = Inr (dict_set vals name T') \<and> t_shape T' = extents lc \<and>
    (\<forall>idx. length idx = length (extents lc) \<longrightarrow>
      t_at T' idx = (if list_all2 within (shifted (offsets lc) idx) (area_of lc) \<and> list_all2 within (shifted (offsets lc) idx) (area_of sc)
        then X (shifted (offsets lc) idx) else t_at T idx))"
proof -
  let ?as = "area_of lc" and ?bs = "area_of sc" and ?d = "length (extents lc)"
  from item local saved obtain os where os: "intersect_axes (zip ?as ?bs) = Some os" and len: "length ?as = length ?bs"
    and it: "it = \<lparr>read_type = TENSOR,
           dest_index = \<lparr>fqn = name, offset = offsets lc, index_hint = Some i\<rparr>,
           dest_offsets = map (\<lambda>((a, b), o'). a - o') (zip os (offsets lc)),
           storage_index = \<lparr>fqn = name, offset = offsets sc, index_hint = Some j\<rparr>,
           storage_offsets = map (\<lambda>((a, b), o'). a - o') (zip os (offsets sc)),
           lengths = map (\<lambda>(a, b). b - a) os, broadcastable = bc, source = None\<rparr>"
    by (auto simp: read_item_for_def chunk_to_area_def infer_intersection_def area_of_def bind_res_Inr_iff split: if_splits)
  have d: "length ?as = ?d" "length (extents sc) = ?d" "length (offsets sc) = ?d" "length (offsets lc) = ?d"
    using local saved len by (simp_all add: area_of_def)
  note ov = intersect_some [OF len os]
  have oslen: "length os = ?d" using ov d by simp
  have axis: "fst (os ! k) = max (offsets lc ! k) (offsets sc ! k)"
    "snd (os ! k) = min (offsets lc ! k + extents lc ! k) (offsets sc ! k + extents sc ! k)" "fst (os ! k) < snd (os ! k)"
    if "k < ?d" for k
    using ov that d by (auto simp: area_of_def)
  have dest: "narrow_spans (extents lc) (dest_offsets it) (lengths it) =
      Inr (map2 (\<lambda>a n. (a, a + n)) (dest_offsets it) (lengths it))"
  proof (rule spans_inside)
    fix k assume "k < length (extents lc)"
    then have k: "k < ?d" using d by simp
    from axis [OF k] k oslen d show "0 \<le> dest_offsets it ! k \<and> 0 \<le> lengths it ! k \<and> dest_offsets it ! k + lengths it ! k \<le> extents lc ! k"
      by (simp add: it case_prod_beta)
  qed (use oslen d in \<open>simp_all add: it\<close>)
  have stor: "narrow_spans (extents sc) (storage_offsets it) (lengths it) =
      Inr (map2 (\<lambda>a n. (a, a + n)) (storage_offsets it) (lengths it))"
  proof (rule spans_inside)
    fix k assume "k < length (extents sc)"
    then have k: "k < ?d" using d by simp
    from axis [OF k] k oslen d show "0 \<le> storage_offsets it ! k \<and> 0 \<le> lengths it ! k \<and> storage_offsets it ! k + lengths it ! k \<le> extents sc ! k"
      by (simp add: it case_prod_beta)
  qed (use oslen d in \<open>simp_all add: it\<close>)
  define ds where "ds = map2 (\<lambda>a n. (a, a + n)) (dest_offsets it) (lengths it)"
  define ss where "ss = map2 (\<lambda>a n. (a, a + n)) (storage_offsets it) (lengths it)"
  have lens: "length ds = ?d" "length ss = ?d" using oslen d by (simp_all add: ds_def ss_def it)
  have nth: "ds ! k = (fst (os ! k) - offsets lc ! k, snd (os ! k) - offsets lc ! k)"
    "ss ! k = (fst (os ! k) - offsets sc ! k, snd (os ! k) - offsets sc ! k)" if "k < ?d" for k
    using that oslen d by (simp_all add: ds_def ss_def it case_prod_beta)
  have fetched: "fetch_tensor store it = read_slices S it"
    using store(1) by (intro fetch_stored) (simp add: it index_key_def)
  have fetch: "\<exists>V. fetch_tensor store it = Inr V \<and> t_shape V = map (\<lambda>(a, b). b - a) ss \<and>
      (\<forall>idx. length idx = ?d \<longrightarrow> t_at V idx = t_at S (map (\<lambda>(i, a, b). i + a) (zip idx ss)))"
  proof (cases "zip (storage_offsets it) (lengths it) = []")
    case True
    then have "?d = 0" using lens(2) by (auto simp: ss_def)
    then have "ss = []" "t_shape S = []" using lens d store(2) by (simp_all add: part_of_def)
    with True fetched show ?thesis using \<open>?d = 0\<close> by (simp add: read_slices_def it)
  next
    case False
    have "t_shape S = extents sc" using store(2) by (simp add: part_of_def)
    with False fetched stor show ?thesis by (simp add: read_slices_def view_def ss_def)
  qed
  then obtain V where V: "fetch_tensor store it = Inr V" "t_shape V = map (\<lambda>(a, b). b - a) ss"
    "\<And>idx. length idx = ?d \<Longrightarrow> t_at V idx = t_at S (map (\<lambda>(i, a, b). i + a) (zip idx ss))" by blast
  have "acquire_spans T it = Inr ds"
  proof (cases "dest_offsets it = [] \<or> lengths it = []")
    case True
    then have "?d = 0" using lens(1) oslen d by (auto simp: it)
    with True lens(1) target(2) show ?thesis by (auto simp: acquire_spans_def)
  qed (use dest target(2) in \<open>simp add: acquire_spans_def ds_def\<close>)
  moreover have "map (\<lambda>(a, b). b - a) ds = map (\<lambda>(a, b). b - a) ss"
    by (rule nth_equalityI) (use lens nth in \<open>simp_all add: case_prod_beta\<close>)
  ultimately have run: "load_item store it vals = Inr (dict_set vals name (copy_to_view T ds V))"
    using V(1,2) target(1) by (simp add: load_item_def copy_read_def dict_get_def it)
  have inside: "list_all2 (\<lambda>i (a, b). a \<le> i \<and> i < b) idx ds \<longleftrightarrow>
      list_all2 within (shifted (offsets lc) idx) ?as \<and> list_all2 within (shifted (offsets lc) idx) ?bs" if l: "length idx = ?d" for idx
  proof -
    have sl: "length (shifted (offsets lc) idx) = ?d" using l d by (simp add: shifted_def)
    have "list_all2 (\<lambda>i (a, b). a \<le> i \<and> i < b) idx ds \<longleftrightarrow> list_all2 within (shifted (offsets lc) idx) os"
      using l lens oslen d nth sl by (auto simp: list_all2_conv_all_nth within_def shifted_def case_prod_beta)
    then show ?thesis using within_overlap [OF len os] by simp
  qed
  have copied: "t_at V (map (\<lambda>(i, a, b). i - a) (zip idx ds)) = X (shifted (offsets lc) idx)"
    if l: "length idx = ?d" and w: "list_all2 within (shifted (offsets lc) idx) ?bs" for idx
  proof -
    let ?k = "map (\<lambda>(i, a, b). i + a) (zip (map (\<lambda>(i, a, b). i - a) (zip idx ds)) ss)"
    have "?k = map2 (\<lambda>o1 x. x - o1) (offsets sc) (shifted (offsets lc) idx)"
      by (rule nth_equalityI) (use l lens nth d in \<open>simp_all add: shifted_def case_prod_beta\<close>)
    then have "shifted (offsets sc) ?k = shifted (offsets lc) idx" "length ?k = ?d"
      using l d by (auto simp: shifted_def intro!: nth_equalityI)
    with w store(2) d have "t_at S ?k = X (shifted (offsets lc) idx)" by (simp add: part_of_def)
    with V(3) [of "map (\<lambda>(i, a, b). i - a) (zip idx ds)"] l lens show ?thesis by simp
  qed
  have "t_at (copy_to_view T ds V) idx = (if list_all2 within (shifted (offsets lc) idx) ?as \<and> list_all2 within (shifted (offsets lc) idx) ?bs
        then X (shifted (offsets lc) idx) else t_at T idx)" if "length idx = ?d" for idx
    using inside [OF that] copied [OF that] by (simp add: copy_to_view_def)
  moreover have "t_shape (copy_to_view T ds V) = extents lc" using target(2) by (simp add: copy_to_view_def)
  ultimately show ?thesis using run by blast
qed

section \<open>All reads\<close>

definition reads_chunk ::
    "(int list \<Rightarrow> 'a) \<Rightarrow> 'a checkpoint \<Rightarrow> string \<Rightarrow> chunk \<Rightarrow> read_item \<Rightarrow> chunk \<Rightarrow> bool" where
  "reads_chunk X store name lc it sc \<longleftrightarrow>
     (\<exists>bc i j S. read_item_for name bc (i, lc) (j, sc) = Inr (Some it) \<and> length (offsets sc) = length (extents sc) \<and>
        stored_tensor store (name, offsets sc) = Some S \<and> part_of X sc S)"

text \<open>The tensors to fill: for each name the global tensor and the chunk of it that is local.\<close>

definition target_ok :: "(string, 'a tensor) dict \<Rightarrow> string \<Rightarrow> chunk \<Rightarrow> bool" where
  "target_ok vals name lc \<longleftrightarrow>
     length (offsets lc) = length (extents lc) \<and> (\<exists>T. map_of vals name = Some T \<and> t_shape T = extents lc)"

definition filled ::
    "(int list \<Rightarrow> 'a) \<Rightarrow> chunk \<Rightarrow> chunk set \<Rightarrow> 'a tensor option \<Rightarrow> 'a tensor option \<Rightarrow> bool" where
  "filled X lc scs before after \<longleftrightarrow> map_option t_shape after = map_option t_shape before \<and>
     (\<forall>idx. length idx = length (extents lc) \<longrightarrow>
        t_at (the after) idx = (if list_all2 within (shifted (offsets lc) idx) (area_of lc) \<and>
            (\<exists>sc \<in> scs. list_all2 within (shifted (offsets lc) idx) (area_of sc))
          then X (shifted (offsets lc) idx) else t_at (the before) idx))"

lemma filled_none: "filled X lc {} T T"
  by (simp add: filled_def)

lemma filled_trans:
  assumes "filled X lc S T T1" and "filled X lc S' T1 T2"
  shows "filled X lc (S \<union> S') T T2"
  unfolding filled_def
proof (intro conjI allI impI)
  show "map_option t_shape T2 = map_option t_shape T" using assms by (simp add: filled_def)
  fix idx :: "int list" assume "length idx = length (extents lc)"
  with assms have "t_at (the T1) idx = (if list_all2 within (shifted (offsets lc) idx) (area_of lc) \<and>
            (\<exists>sc \<in> S. list_all2 within (shifted (offsets lc) idx) (area_of sc))
          then X (shifted (offsets lc) idx) else t_at (the T) idx)"
    and "t_at (the T2) idx = (if list_all2 within (shifted (offsets lc) idx) (area_of lc) \<and>
            (\<exists>sc \<in> S'. list_all2 within (shifted (offsets lc) idx) (area_of sc))
          then X (shifted (offsets lc) idx) else t_at (the T1) idx)"
    unfolding filled_def by blast+
  then show "t_at (the T2) idx = (if list_all2 within (shifted (offsets lc) idx) (area_of lc) \<and>
            (\<exists>sc \<in> S \<union> S'. list_all2 within (shifted (offsets lc) idx) (area_of sc))
          then X (shifted (offsets lc) idx) else t_at (the T) idx)"
    by (simp only: bex_Un split: if_split) blast
qed

lemma read_name: "reads_chunk X store name lc it sc \<Longrightarrow> fqn (dest_index it) = name"
  by (auto simp: reads_chunk_def read_item_for_def bind_res_Inr_iff Let_def)

lemma reads_run:
  assumes "list_all2 (\<lambda>it sc. let n = fqn (dest_index it) in reads_chunk (X n) store n (lc n) it sc) its scs"
    and "\<forall>it \<in> set its. target_ok vals (fqn (dest_index it)) (lc (fqn (dest_index it)))"
  shows "\<exists>vals'. for_res (load_item store) its vals = Inr vals' \<and>
    (\<forall>n. filled (X n) (lc n) {sc. \<exists>it. (it, sc) \<in> set (zip its scs) \<and> fqn (dest_index it) = n} (map_of vals n) (map_of vals' n))"
  using assms
proof (induction its scs arbitrary: vals rule: list_all2_induct)
  case (Cons it its sc scs)
  let ?m = "fqn (dest_index it)"
  from Cons.prems obtain T where T: "map_of vals ?m = Some T" "t_shape T = extents (lc ?m)" "length (offsets (lc ?m)) = length (extents (lc ?m))"
    by (auto simp: target_ok_def)
  from Cons.hyps(1) obtain bc i j S where "read_item_for ?m bc (i, lc ?m) (j, sc) = Inr (Some it)"
    "length (offsets sc) = length (extents sc)" "stored_tensor store (?m, offsets sc) = Some S" "part_of (X ?m) sc S"
    unfolding reads_chunk_def Let_def by blast
  from read_one [OF this(1) T(3) this(2-4) T(1,2)] obtain T1 where T1: "load_item store it vals = Inr (dict_set vals ?m T1)" "t_shape T1 = extents (lc ?m)"
    "\<And>idx. length idx = length (extents (lc ?m)) \<Longrightarrow> t_at T1 idx = (if list_all2 within (shifted (offsets (lc ?m)) idx) (area_of (lc ?m)) \<and>
       list_all2 within (shifted (offsets (lc ?m)) idx) (area_of sc) then X ?m (shifted (offsets (lc ?m)) idx) else t_at T idx)"
    by blast
  have one: "filled (X n) (lc n) {sc'. sc' = sc \<and> ?m = n} (map_of vals n) (map_of (dict_set vals ?m T1) n)" for n
  proof (cases "n = ?m")
    case True
    then show ?thesis using T(1,2) T1(2,3) by (simp add: filled_def)
  qed (simp add: filled_def)
  have "target_ok (dict_set vals ?m T1) (fqn (dest_index x)) (lc (fqn (dest_index x)))" if "x \<in> set its" for x
    using Cons.prems that T1(2) by (cases "fqn (dest_index x) = ?m") (auto simp: target_ok_def)
  with Cons.IH [of "dict_set vals ?m T1"] obtain vals' where vals': "for_res (load_item store) its (dict_set vals ?m T1) = Inr vals'"
    "\<And>n. filled (X n) (lc n) {sc. \<exists>it. (it, sc) \<in> set (zip its scs) \<and> fqn (dest_index it) = n} (map_of (dict_set vals ?m T1) n) (map_of vals' n)"
    by blast
  have "{sc'. \<exists>x. (x, sc') \<in> set (zip (it # its) (sc # scs)) \<and> fqn (dest_index x) = n} =
      {sc'. sc' = sc \<and> ?m = n} \<union> {sc. \<exists>it. (it, sc) \<in> set (zip its scs) \<and> fqn (dest_index it) = n}" for n
    by auto
  with filled_trans [OF one vals'(2)] vals'(1) T1(1) show ?case by (intro exI [of _ vals']) simp
qed (simp add: filled_none)

text \<open>If the chunks that are read for a name cover its local chunk, the chunk is filled.\<close>

lemma reads_fill:
  assumes "\<forall>it \<in> set its. \<exists>sc. let n = fqn (dest_index it) in reads_chunk (X n) store n (lc n) it sc"
    and "\<forall>it \<in> set its. target_ok vals (fqn (dest_index it)) (lc (fqn (dest_index it)))"
  shows "\<exists>vals'. for_res (load_item store) its vals = Inr vals' \<and>
    (\<forall>n. target_ok vals n (lc n) \<and> (\<forall>g. list_all2 within g (area_of (lc n)) \<longrightarrow>
          (\<exists>it \<in> set its. fqn (dest_index it) = n \<and> (\<forall>sc. reads_chunk (X n) store n (lc n) it sc \<longrightarrow> list_all2 within g (area_of sc))))
       \<longrightarrow> (\<exists>T'. map_of vals' n = Some T' \<and> part_of (X n) (lc n) T'))"
proof -
  from bchoice [OF assms(1)] obtain f where
    f: "\<And>it. it \<in> set its \<Longrightarrow> let n = fqn (dest_index it) in reads_chunk (X n) store n (lc n) it (f it)" by blast
  then have "list_all2 (\<lambda>it sc. let n = fqn (dest_index it) in reads_chunk (X n) store n (lc n) it sc) its (map f its)"
    by (simp add: list_all2_conv_all_nth)
  from reads_run [OF this assms(2)] obtain vals' where run: "for_res (load_item store) its vals = Inr vals'"
    and fill: "\<And>n. filled (X n) (lc n) {sc. \<exists>it. (it, sc) \<in> set (zip its (map f its)) \<and> fqn (dest_index it) = n} (map_of vals n) (map_of vals' n)"
    by blast
  have "\<exists>T'. map_of vals' n = Some T' \<and> part_of (X n) (lc n) T'"
    if ok: "target_ok vals n (lc n)" and cover: "\<And>g. list_all2 within g (area_of (lc n)) \<Longrightarrow>
          \<exists>it \<in> set its. fqn (dest_index it) = n \<and> (\<forall>sc. reads_chunk (X n) store n (lc n) it sc \<longrightarrow> list_all2 within g (area_of sc))" for n
  proof -
    from ok fill [of n] obtain T' where T': "map_of vals' n = Some T'" "t_shape T' = extents (lc n)"
      by (auto simp: target_ok_def filled_def)
    have "t_at T' idx = X n (shifted (offsets (lc n)) idx)"
      if idx: "length idx = length (extents (lc n))" "list_all2 within (shifted (offsets (lc n)) idx) (area_of (lc n))" for idx
    proof -
      from cover [OF idx(2)] obtain it where it: "it \<in> set its" "fqn (dest_index it) = n"
        "\<And>sc. reads_chunk (X n) store n (lc n) it sc \<Longrightarrow> list_all2 within (shifted (offsets (lc n)) idx) (area_of sc)" by blast
      have "list_all2 within (shifted (offsets (lc n)) idx) (area_of (f it))" using it(3) f [OF it(1)] it(2) by (simp add: Let_def)
      moreover have "(it, f it) \<in> set (zip its (map f its))" using it(1) by (force simp: set_zip in_set_conv_nth)
      ultimately have "\<exists>sc \<in> {sc. \<exists>it. (it, sc) \<in> set (zip its (map f its)) \<and> fqn (dest_index it) = n}.
          list_all2 within (shifted (offsets (lc n)) idx) (area_of sc)" using it(2) by blast
      with fill [of n] T'(1) idx show ?thesis by (simp add: filled_def)
    qed
    with T' show ?thesis by (simp add: part_of_def)
  qed
  with run show ?thesis by blast
qed

end
