(* ===== verification/Checkpoint_Ownership.thy ===== *)
theory Checkpoint_Ownership
  imports Checkpoint_Save
begin

text \<open>
  Duplicates are written once: of all the items of all plans that name the same chunk exactly one is
  kept, it is not an empty one when there are others, and then it describes what all of them describe.
  Which holder is taken is a policy; the locale \<open>owner_policy\<close> states what the result needs of it and is
  interpreted on both policies of the code.
\<close>

section \<open>The holders of a chunk\<close>

definition empty_item :: "write_item \<Rightarrow> bool" where
  "empty_item e \<longleftrightarrow> tensor_storage_size e = Some 0"

definition holders_of :: "shard_key \<Rightarrow> placed_item list \<Rightarrow> placed_item list" where
  "holders_of k xs =
     (let same = filter (\<lambda>x. key_of x = k) xs; full = filter (\<lambda>x. \<not> empty_item (entry_of x)) same
      in if full = [] then take 1 same else full)"

definition occurrences_of :: "placed_item list \<Rightarrow> shard_key \<Rightarrow> (write_item \<times> (nat \<times> nat) list) option" where
  "occurrences_of xs k =
     (case holders_of k xs of [] \<Rightarrow> None | x # rest \<Rightarrow> Some (entry_of x, map position_of (x # rest)))"

lemma holders_snoc:
  "holders_of k (xs @ [x]) =
     (if key_of x \<noteq> k then holders_of k xs
      else if empty_item (entry_of x) then (if holders_of k xs = [] then [x] else holders_of k xs)
      else if list_all (\<lambda>y. empty_item (entry_of y)) (holders_of k xs) then [x]
      else holders_of k xs @ [x])"
proof -
  let ?S = "filter (\<lambda>x. key_of x = k) xs"
  let ?F = "filter (\<lambda>x. \<not> empty_item (entry_of x)) ?S"
  have now: "holders_of k xs = (if ?F = [] then take 1 ?S else ?F)" by (simp add: holders_of_def Let_def)
  have all: "list_all (\<lambda>y. empty_item (entry_of y)) (holders_of k xs) \<longleftrightarrow> ?F = []"
  proof (cases "?F = []")
    case True
    then have "\<forall>y \<in> set ?S. empty_item (entry_of y)" unfolding filter_empty_conv by blast
    then have "\<forall>y \<in> set (take 1 ?S). empty_item (entry_of y)" using in_set_takeD by metis
    moreover have "holders_of k xs = take 1 ?S" unfolding now by (rule if_P [OF True])
    ultimately have "list_all (\<lambda>y. empty_item (entry_of y)) (holders_of k xs)" by (simp only: list_all_iff)
    with True show ?thesis by blast
  next
    case False
    then obtain y where "y \<in> set ?F" by (meson list.set_sel(1))
    with False show ?thesis unfolding now by (auto simp: list_all_iff)
  qed
  consider "key_of x \<noteq> k" | "key_of x = k" "empty_item (entry_of x)" | "key_of x = k" "\<not> empty_item (entry_of x)" by blast
  then show ?thesis
  proof cases
    case 1
    then show ?thesis by (simp add: holders_of_def)
  next
    case 2
    then have "holders_of k (xs @ [x]) = (if ?F = [] then take 1 (?S @ [x]) else ?F)" by (simp add: holders_of_def Let_def)
    with 2 show ?thesis unfolding now by (cases ?S) simp_all
  next
    case 3
    then have "holders_of k (xs @ [x]) = ?F @ [x]" by (simp add: holders_of_def Let_def)
    with 3 all show ?thesis unfolding now by simp
  qed
qed

lemma record_step:
  assumes "record_item x occ = Inr occ'"
  shows "map_of occ (key_of x) = None \<Longrightarrow> occ' = dict_set occ (key_of x) (entry_of x, [position_of x])"
    and "map_of occ (key_of x) = Some (e, hs) \<Longrightarrow> empty_item (entry_of x) \<Longrightarrow> occ' = occ"
    and "map_of occ (key_of x) = Some (e, hs) \<Longrightarrow> \<not> empty_item (entry_of x) \<Longrightarrow> empty_item e \<Longrightarrow>
      occ' = dict_set occ (key_of x) (entry_of x, [position_of x])"
    and "map_of occ (key_of x) = Some (e, hs) \<Longrightarrow> \<not> empty_item (entry_of x) \<Longrightarrow> \<not> empty_item e \<Longrightarrow>
      occ' = dict_set occ (key_of x) (e, hs @ [position_of x]) \<and> item_data (entry_of x) = item_data e"
  using assms by (cases x; auto simp: record_item_def Let_def empty_item_def split: if_splits)+

definition uniform :: "placed_item list \<Rightarrow> bool" where
  "uniform xs \<longleftrightarrow> (\<forall>x \<in> set xs. item_data (entry_of x) = item_data (entry_of (hd xs)) \<and>
     (empty_item (entry_of x) \<longleftrightarrow> empty_item (entry_of (hd xs))))"

lemma uniform_all_empty: "uniform (y # ys) \<Longrightarrow> list_all (\<lambda>x. empty_item (entry_of x)) (y # ys) \<longleftrightarrow> empty_item (entry_of y)"
  unfolding uniform_def list_all_iff by (metis list.sel(1) list.set_intros(1))

lemma uniform_snoc:
  "uniform (y # ys) \<Longrightarrow> item_data (entry_of x) = item_data (entry_of y) \<Longrightarrow>
     (empty_item (entry_of x) \<longleftrightarrow> empty_item (entry_of y)) \<Longrightarrow> uniform (y # ys @ [x])"
  unfolding uniform_def by fastforce

lemma uniform_single [simp]: "uniform []" "uniform [x]"
  by (simp_all add: uniform_def)

lemma recorded:
  assumes "for_res record_item xs [] = Inr occ"
  shows "map_of occ = occurrences_of xs \<and> distinct (map fst occ) \<and> (\<forall>k. uniform (holders_of k xs))"
  using assms
proof (induction xs arbitrary: occ rule: rev_induct)
  case Nil
  then show ?case by (auto simp: occurrences_of_def holders_of_def fun_eq_iff)
next
  case (snoc x xs)
  then obtain occ0 where "for_res record_item xs [] = Inr occ0" and last: "record_item x occ0 = Inr occ"
    by (auto simp: for_res_append bind_res_Inr_iff)
  from snoc.IH [OF this(1)] have m: "map_of occ0 = occurrences_of xs" and d: "distinct (map fst occ0)"
    and u: "uniform (holders_of k xs)" for k by blast+
  let ?k = "key_of x"
  have others: "occurrences_of (xs @ [x]) k = occurrences_of xs k" "holders_of k (xs @ [x]) = holders_of k xs" if "k \<noteq> ?k" for k
    using that by (simp_all add: occurrences_of_def holders_snoc)
  have self: "map_of occ = (map_of occ0)(?k := occurrences_of (xs @ [x]) ?k) \<and> distinct (map fst occ) \<and>
    uniform (holders_of ?k (xs @ [x]))"
  proof (cases "holders_of ?k xs")
    case Nil
    then have "map_of occ0 ?k = None" by (simp add: m occurrences_of_def)
    from record_step(1) [OF last this] Nil d show ?thesis by (simp add: holders_snoc occurrences_of_def)
  next
    case (Cons y ys)
    have all: "list_all (\<lambda>z. empty_item (entry_of z)) (holders_of ?k xs) \<longleftrightarrow> empty_item (entry_of y)"
      using uniform_all_empty u [of ?k] unfolding Cons by blast
    have known: "map_of occ0 ?k = Some (entry_of y, map position_of (y # ys))" using Cons by (simp add: m occurrences_of_def)
    consider "empty_item (entry_of x)" | "\<not> empty_item (entry_of x)" "empty_item (entry_of y)"
      | "\<not> empty_item (entry_of x)" "\<not> empty_item (entry_of y)" by blast
    then show ?thesis
    proof cases
      case 1
      then have h: "holders_of ?k (xs @ [x]) = y # ys" by (simp add: holders_snoc Cons)
      then have "occurrences_of (xs @ [x]) ?k = map_of occ0 ?k" using known by (simp add: occurrences_of_def)
      with record_step(2) [OF last known 1] d u [of ?k] show ?thesis unfolding h by (simp add: Cons fun_upd_idem)
    next
      case 2
      then have h: "holders_of ?k (xs @ [x]) = [x]" using all by (simp add: holders_snoc Cons)
      with record_step(3) [OF last known 2] d show ?thesis unfolding h by (simp add: occurrences_of_def h)
    next
      case 3
      then have h: "holders_of ?k (xs @ [x]) = y # ys @ [x]" using all by (simp add: holders_snoc Cons)
      from record_step(4) [OF last known 3] d uniform_snoc [of y ys x] u [of ?k] 3 show ?thesis
        unfolding h by (simp add: occurrences_of_def h Cons)
    qed
  qed
  have "map_of occ = occurrences_of (xs @ [x])"
  proof
    fix k show "map_of occ k = occurrences_of (xs @ [x]) k"
      using self others(1) [of k] m by (cases "k = ?k") simp_all
  qed
  moreover have "uniform (holders_of k (xs @ [x]))" for k
    using self u [of k] others(2) [of k] by (cases "k = ?k") simp_all
  ultimately show ?case using self by blast
qed

section \<open>Owners\<close>

text \<open>What is kept of the plans.\<close>

definition kept :: "bool list list \<Rightarrow> (nat \<times> nat) set" where
  "kept masks = {(p, j). p < length masks \<and> j < length (masks ! p) \<and> masks ! p ! j}"

lemma kept_assign:
  assumes "p < length masks" and "j < length (masks ! p)"
  shows "kept (fst (assign_owner n (p, j) (masks, loads))) = insert (p, j) (kept masks)"
    and "map length (fst (assign_owner n (p, j) (masks, loads))) = map length masks"
proof -
  show "kept (fst (assign_owner n (p, j) (masks, loads))) = insert (p, j) (kept masks)"
    using assms by (auto simp: kept_def assign_owner_def nth_list_update split: if_splits)
  show "map length (fst (assign_owner n (p, j) (masks, loads))) = map length masks"
    using assms by (simp add: assign_owner_def map_update list_update_id [of "map length masks", symmetric] del: list_update_id)
      (metis list_update_id nth_map)
qed

locale owner_policy =
  fixes policy :: "(nat \<times> nat) list \<Rightarrow> int list \<Rightarrow> nat \<times> nat"
  assumes chosen_holder: "hs \<noteq> [] \<Longrightarrow> policy hs loads \<in> set hs"
begin

lemma one_owner_each:
  assumes "distinct (concat (map snd entries))" and "\<forall>(n, hs) \<in> set entries. hs \<noteq> []"
    and "\<forall>(p, j) \<in> set (concat (map snd entries)). p < length (fst st) \<and> j < length (fst st ! p)"
  shows "\<exists>owners. kept (fst (fold (\<lambda>(n, hs) st. assign_owner n (policy hs (snd st)) st) entries st)) = kept (fst st) \<union> owners \<and>
    owners \<subseteq> set (concat (map snd entries)) \<and> (\<forall>(n, hs) \<in> set entries. \<exists>loads. owners \<inter> set hs = {policy hs loads}) \<and>
    map length (fst (fold (\<lambda>(n, hs) st. assign_owner n (policy hs (snd st)) st) entries st)) = map length (fst st)"
  using assms
proof (induction entries arbitrary: st)
  case (Cons x entries)
  obtain n hs where x: "x = (n, hs)" by (cases x)
  obtain masks loads where st: "st = (masks, loads)" by (cases st)
  let ?h = "policy hs loads"
  have h: "?h \<in> set hs" using Cons.prems(2) by (intro chosen_holder) (auto simp: x)
  obtain p j where pj: "?h = (p, j)" by (cases ?h)
  have "(p, j) \<in> set (concat (map snd (x # entries)))" using h pj by (simp add: x)
  with Cons.prems(3) have in_range: "p < length masks" "j < length (masks ! p)" by (auto simp: st)
  let ?st = "assign_owner n ?h st"
  note step = kept_assign [OF in_range, of n loads, folded pj st]
  have lens: "length (fst ?st) = length masks" "\<And>q. q < length masks \<Longrightarrow> length (fst ?st ! q) = length (masks ! q)"
    using step(2) by (metis length_map, metis length_map nth_map)
  have ranges: "\<forall>(p, j) \<in> set (concat (map snd entries)). p < length (fst ?st) \<and> j < length (fst ?st ! p)"
  proof (clarify)
    fix q i assume "(q, i) \<in> set (concat (map snd entries))"
    then have "(q, i) \<in> set (concat (map snd (x # entries)))" by simp
    with Cons.prems(3) have "q < length masks" "i < length (masks ! q)" by (auto simp: st)
    with lens show "q < length (fst ?st) \<and> i < length (fst ?st ! q)" by simp
  qed
  from Cons.IH [of ?st] Cons.prems(1,2) ranges obtain owners where
    kept: "kept (fst (fold (\<lambda>(n, hs) st. assign_owner n (policy hs (snd st)) st) entries ?st)) = kept (fst ?st) \<union> owners"
    and sub: "owners \<subseteq> set (concat (map snd entries))" and one: "\<forall>(n, hs) \<in> set entries. \<exists>loads. owners \<inter> set hs = {policy hs loads}"
    and ml: "map length (fst (fold (\<lambda>(n, hs) st. assign_owner n (policy hs (snd st)) st) entries ?st)) = map length (fst ?st)"
    by auto
  have sep: "set hs \<inter> set (concat (map snd entries)) = {}" using Cons.prems(1) by (simp add: x)
  have "insert ?h owners \<inter> set hs = {?h}" using h sub sep by blast
  moreover have "insert ?h owners \<inter> set hs' = owners \<inter> set hs'" if "(m, hs') \<in> set entries" for m hs'
  proof -
    have "set hs' \<subseteq> set (concat (map snd entries))" using that by force
    with sep h show ?thesis by blast
  qed
  ultimately have "\<forall>(n, hs) \<in> set (x # entries). \<exists>loads. insert ?h owners \<inter> set hs = {policy hs loads}" using one by (auto simp: x)
  moreover have "insert ?h owners \<subseteq> set (concat (map snd (x # entries)))" using sub h by (auto simp: x)
  ultimately show ?case using kept step ml by (intro exI [of _ "insert ?h owners"]) (simp add: x st)
qed simp

end

lemma least_loaded_mem: "hs \<noteq> [] \<Longrightarrow> least_loaded_owner hs loads \<in> set hs"
proof -
  let ?f = "\<lambda>h best. if loads ! fst h < loads ! fst best then h else best"
  have "fold ?f xs b \<in> insert b (set xs)" for xs b
  proof (induction xs arbitrary: b)
    case (Cons x xs)
    obtain b' where b': "?f x b = b'" "b' \<in> {x, b}" by simp
    from Cons.IH [of b'] b'(2) show ?case unfolding fold_simps b'(1) by auto
  qed simp
  note mem = this
  assume "hs \<noteq> []"
  then obtain h t where "hs = h # t" by (cases hs) auto
  with mem [of t h] show ?thesis by (simp add: least_loaded_owner_def)
qed

interpretation lowest_plan: owner_policy "\<lambda>hs loads. hd hs"
  by unfold_locales simp

interpretation least_loaded: owner_policy least_loaded_owner
  by unfold_locales (rule least_loaded_mem)

section \<open>One owner for each chunk\<close>

lemma set_placed:
  "x \<in> set (placed_items plans) \<longleftrightarrow>
     plan_of x < length plans \<and> slot_of x < length (plans ! plan_of x) \<and> entry_of x = plans ! plan_of x ! slot_of x"
  by (cases x) (auto simp: placed_items_def intro!: bexI image_eqI)

lemma distinct_concat_keys:
  assumes "distinct ks" and "\<And>k. distinct (f k)" and "\<And>k k'. k \<noteq> k' \<Longrightarrow> set (f k) \<inter> set (f k') = {}"
  shows "distinct (concat (map f ks))"
  using assms(1)
proof (induction ks)
  case (Cons k ks)
  have "set (f k) \<inter> set (f k') = {}" if "k' \<in> set ks" for k'
    using Cons.prems that assms(3) by (metis distinct.simps(2))
  with Cons assms(2) show ?case by (auto simp: disjoint_iff)
qed simp

lemma distinct_placed: "distinct (map position_of (placed_items plans))"
proof -
  have "map position_of (placed_items plans) =
      concat (map (\<lambda>p. map (Pair p) [0..<length (plans ! p)]) [0..<length plans])"
    by (simp add: placed_items_def map_concat comp_def position_of_def)
  also have "distinct \<dots>" by (rule distinct_concat_keys) (auto simp: distinct_map inj_on_def)
  finally show ?thesis .
qed

lemma sorted_placed: "sorted (map plan_of (placed_items plans))"
proof -
  have "sorted (concat (map (\<lambda>p. replicate (g p) p) [0..<n]))" for g :: "nat \<Rightarrow> nat" and n
    by (induction n) (auto simp: sorted_append)
  moreover have "map plan_of (placed_items plans) = concat (map (\<lambda>p. replicate (length (plans ! p)) p) [0..<length plans])"
    by (simp add: placed_items_def map_concat comp_def map_replicate_const)
  ultimately show ?thesis by simp
qed

lemma holders_subset: "set (holders_of k xs) \<subseteq> {x \<in> set xs. key_of x = k}"
proof
  fix x assume "x \<in> set (holders_of k xs)"
  then show "x \<in> {x \<in> set xs. key_of x = k}"
    by (auto simp: holders_of_def Let_def split: if_splits dest: in_set_takeD)
qed

lemma holders_nonempty: "x \<in> set xs \<Longrightarrow> key_of x = k \<Longrightarrow> holders_of k xs \<noteq> []"
  by (auto simp: holders_of_def Let_def filter_empty_conv)

lemma holders_full: "x \<in> set xs \<Longrightarrow> key_of x = k \<Longrightarrow> \<not> empty_item (entry_of x) \<Longrightarrow>
  x \<in> set (holders_of k xs) \<and> \<not> empty_item (entry_of (hd (holders_of k xs)))"
  using hd_in_set [of "filter (\<lambda>x. \<not> empty_item (entry_of x)) (filter (\<lambda>x. key_of x = k) xs)"]
  by (auto simp: holders_of_def Let_def filter_empty_conv)

lemma distinct_holders: "distinct (map position_of xs) \<Longrightarrow> distinct (map position_of (holders_of k xs))"
  by (simp add: holders_of_def Let_def distinct_map_filter distinct_map inj_on_def)
    (meson distinct_filter distinct_take in_set_takeD filter_is_subset subsetD)


lemma mset_concat_map: "mset xs = mset ys \<Longrightarrow> mset (concat (map f xs)) = mset (concat (map f ys))"
proof -
  have "mset (concat (map f zs)) = sum_mset (image_mset (\<lambda>z. mset (f z)) (mset zs))" for zs by (induction zs) simp_all
  then show "mset xs = mset ys \<Longrightarrow> mset (concat (map f xs)) = mset (concat (map f ys))" by simp
qed

text \<open>What the two phases of the assignment keep, for either policy.\<close>

lemma phases_keep:
  assumes policy: "owner_policy f" and "distinct (concat (map snd (unique @ ordered)))" and "\<forall>(n, hs) \<in> set (unique @ ordered). hs \<noteq> []"
    and "\<forall>(p, j) \<in> set (concat (map snd (unique @ ordered))). p < length plans \<and> j < length (plans ! p)"
    and st: "st = fold (\<lambda>(n, hs). assign_owner n (hd hs)) unique
      (map (\<lambda>items. replicate (length items) False) plans, replicate (length plans) 0)"
    and masks: "masks = fst (fold (\<lambda>(n, hs) st. assign_owner n (f hs (snd st)) st) ordered st)"
  shows "map length masks = map length plans"
    and "\<forall>(n, hs) \<in> set (unique @ ordered). \<exists>h. kept masks \<inter> set hs = {h} \<and> (h = hd hs \<or> (\<exists>loads. h = f hs loads))"
    and "kept masks \<subseteq> set (concat (map snd (unique @ ordered)))"
proof -
  let ?start = "(map (\<lambda>items. replicate (length items) False) plans, replicate (length plans) (0::int))"
  have none: "kept (fst ?start) = {}" by (auto simp: kept_def)
  have "\<exists>owners. kept (fst st) = kept (fst ?start) \<union> owners \<and> owners \<subseteq> set (concat (map snd unique)) \<and>
    (\<forall>(n, hs) \<in> set unique. \<exists>loads :: int list. owners \<inter> set hs = {hd hs}) \<and> map length (fst st) = map length (fst ?start)"
    unfolding st
  proof (rule lowest_plan.one_owner_each)
    show "\<forall>(p, j) \<in> set (concat (map snd unique)). p < length (fst ?start) \<and> j < length (fst ?start ! p)"
    proof (clarify)
      fix p j assume "(p, j) \<in> set (concat (map snd unique))"
      then have "(p, j) \<in> set (concat (map snd (unique @ ordered)))" by simp
      with assms(4) have "p < length plans" "j < length (plans ! p)" by blast+
      then show "p < length (fst ?start) \<and> j < length (fst ?start ! p)" by simp
    qed
  qed (use assms(2,3) in auto)
  then have one: "kept (fst st) \<subseteq> set (concat (map snd unique))" "\<forall>(n, hs) \<in> set unique. kept (fst st) \<inter> set hs = {hd hs}"
    "map length (fst st) = map length plans"
    unfolding none by (auto simp: comp_def)
  have lens: "length (fst st) = length plans" "\<And>p. p < length plans \<Longrightarrow> length (fst st ! p) = length (plans ! p)"
    using one(3) by (metis length_map, metis length_map nth_map)
  have ranges: "\<forall>(p, j) \<in> set (concat (map snd ordered)). p < length (fst st) \<and> j < length (fst st ! p)"
  proof (clarify)
    fix p j assume "(p, j) \<in> set (concat (map snd ordered))"
    then have "(p, j) \<in> set (concat (map snd (unique @ ordered)))" by simp
    with assms(4) have "p < length plans" "j < length (plans ! p)" by blast+
    with lens show "p < length (fst st) \<and> j < length (fst st ! p)" by simp
  qed
  have "distinct (concat (map snd ordered))" "\<forall>(n, hs) \<in> set ordered. hs \<noteq> []" using assms(2,3) by auto
  from owner_policy.one_owner_each [OF policy this ranges] obtain owners where
    two: "kept masks = kept (fst st) \<union> owners" "owners \<subseteq> set (concat (map snd ordered))"
      "\<forall>(n, hs) \<in> set ordered. \<exists>loads. owners \<inter> set hs = {f hs loads}" "map length masks = map length (fst st)"
    unfolding masks by blast
  show "map length masks = map length plans" using two(4) one(3) by simp
  show "kept masks \<subseteq> set (concat (map snd (unique @ ordered)))" using two(1,2) one(1) by auto
  have sep: "set (concat (map snd unique)) \<inter> set (concat (map snd ordered)) = {}" using assms(2) by simp
  show "\<forall>(n, hs) \<in> set (unique @ ordered). \<exists>h. kept masks \<inter> set hs = {h} \<and> (h = hd hs \<or> (\<exists>loads. h = f hs loads))"
  proof (clarify)
    fix n hs assume mem: "(n, hs) \<in> set (unique @ ordered)"
    show "\<exists>h. kept masks \<inter> set hs = {h} \<and> (h = hd hs \<or> (\<exists>loads. h = f hs loads))"
    proof (cases "(n, hs) \<in> set unique")
      case True
      then have "set hs \<subseteq> set (concat (map snd unique))" by force
      then have "kept masks \<inter> set hs = kept (fst st) \<inter> set hs" using two(1,2) sep by blast
      with one(2) True have "kept masks \<inter> set hs = {hd hs}" by blast
      then show ?thesis by blast
    next
      case False
      with mem have o: "(n, hs) \<in> set ordered" by simp
      then have "set hs \<subseteq> set (concat (map snd ordered))" by force
      then have "kept masks \<inter> set hs = owners \<inter> set hs" using two(1) one(1) sep by blast
      with two(3) o obtain loads where "kept masks \<inter> set hs = {f hs loads}" by blast
      then show ?thesis by blast
    qed
  qed
qed

lemma masks_keep:
  assumes "plan_ownership_masks plans to_min = Inr masks"
  shows "map length masks = map length plans"
    and "\<And>k. holders_of k (placed_items plans) \<noteq> [] \<Longrightarrow>
      \<exists>h. kept masks \<inter> position_of ` set (holders_of k (placed_items plans)) = {h} \<and>
        (to_min \<longrightarrow> h = position_of (hd (holders_of k (placed_items plans))))"
    and "kept masks \<subseteq> (\<Union>k. position_of ` set (holders_of k (placed_items plans)))"
    and "uniform (holders_of k (placed_items plans))"
proof -
  let ?xs = "placed_items plans" and ?start = "(map (\<lambda>items. replicate (length items) False) plans, replicate (length plans) (0::int))"
  from assms obtain occ where occ: "for_res record_item ?xs [] = Inr occ" by (auto simp: plan_ownership_masks_def bind_res_Inr_iff)
  note rec = recorded [OF occ]
  show "uniform (holders_of k ?xs)" using rec by blast
  define al where "al = map (\<lambda>(e, hs). (item_weight e, hs)) (map snd occ)"
  define unique where "unique = filter (\<lambda>(n, hs). \<not> 1 < length hs) al"
  define dups where "dups = filter (\<lambda>(n, hs). 1 < length hs) al"
  define ordered where "ordered = (if to_min then dups else sort_key (\<lambda>(n, hs). - n) dups)"
  have dups: "map (\<lambda>(e, hs). (item_weight e, hs)) (filter (\<lambda>(e, hs). 1 < length hs) (map snd occ)) = dups"
    by (simp add: dups_def al_def filter_map comp_def case_prod_beta)
  have uniq: "fold (\<lambda>(e, hs). assign_owner (item_weight e) (hd hs)) (filter (\<lambda>(e, hs). \<not> 1 < length hs) (map snd occ)) ?start =
      fold (\<lambda>(n, hs). assign_owner n (hd hs)) unique ?start"
    by (simp add: unique_def al_def filter_map comp_def case_prod_beta fold_map)
  have masks: "masks = fst (fold (\<lambda>(n, hs) st. assign_owner n (if to_min then hd hs else least_loaded_owner hs (snd st)) st)
      ordered (fold (\<lambda>(n, hs). assign_owner n (hd hs)) unique ?start))"
    using assms unfolding plan_ownership_masks_def occ bind_res_simps Let_def dups uniq ordered_def by simp
  have "owner_policy (\<lambda>hs loads. if to_min then hd hs else least_loaded_owner hs loads)"
    by unfold_locales (simp add: least_loaded_mem)
  note keep = phases_keep [OF this _ _ _ refl masks]
  have entry: "v = (entry_of (hd (holders_of k ?xs)), map position_of (holders_of k ?xs)) \<and> holders_of k ?xs \<noteq> []"
    if "(k, v) \<in> set occ" for k v
  proof -
    have "occurrences_of ?xs k = Some v" using rec that by (metis map_of_is_SomeI)
    then show ?thesis by (auto simp: occurrences_of_def split: list.splits)
  qed
  have hs: "map snd al = map (\<lambda>k. map position_of (holders_of k ?xs)) (map fst occ)"
    using entry by (force simp: al_def)
  have "distinct (concat (map snd al))"
    unfolding hs
  proof (rule distinct_concat_keys)
    show "distinct (map fst occ)" using rec by blast
    show "distinct (map position_of (holders_of k ?xs))" for k by (rule distinct_holders [OF distinct_placed])
    show "set (map position_of (holders_of k ?xs)) \<inter> set (map position_of (holders_of k' ?xs)) = {}" if "k \<noteq> k'" for k k'
    proof -
      have "position_of x \<noteq> position_of y" if "x \<in> set (holders_of k ?xs)" "y \<in> set (holders_of k' ?xs)" for x y
      proof
        have xy: "x \<in> set ?xs" "key_of x = k" "y \<in> set ?xs" "key_of y = k'" using holders_subset that by blast+
        assume "position_of x = position_of y"
        then have "x = y" using distinct_placed xy(1,3) by (auto simp: distinct_map inj_on_def)
        with xy \<open>k \<noteq> k'\<close> show False by simp
      qed
      then have "position_of ` set (holders_of k ?xs) \<inter> position_of ` set (holders_of k' ?xs) = {}" by blast
      then show ?thesis by simp
    qed
  qed
  moreover have same: "mset (unique @ ordered) = mset al"
    by (simp add: unique_def ordered_def dups_def case_prod_unfold)
  then have "mset (concat (map snd (unique @ ordered))) = mset (concat (map snd al))"
    by (rule mset_concat_map)
  ultimately have dist: "distinct (concat (map snd (unique @ ordered)))" using mset_eq_imp_distinct_iff by blast
  have members: "set (unique @ ordered) = set al" using same by (metis set_mset_mset)
  have al_mem: "\<exists>k. hs = map position_of (holders_of k ?xs) \<and> hs \<noteq> []" if mem: "(n, hs) \<in> set al" for n hs
  proof -
    from mem obtain k e where "(k, e, hs) \<in> set occ" by (auto simp: al_def)
    from entry [OF this] show ?thesis by (intro exI [of _ k]) simp
  qed
  have nonempty: "\<forall>(n, hs) \<in> set (unique @ ordered). hs \<noteq> []" unfolding members using al_mem by blast
  have sub: "set (concat (map snd (unique @ ordered))) \<subseteq> (\<Union>k. position_of ` set (holders_of k ?xs))"
  proof
    fix h assume "h \<in> set (concat (map snd (unique @ ordered)))"
    then have "\<exists>x \<in> set (unique @ ordered). h \<in> set (snd x)" by auto
    then obtain n hs where mem: "(n, hs) \<in> set al" and h: "h \<in> set hs" unfolding members by auto
    from al_mem [OF mem] obtain k where "hs = map position_of (holders_of k ?xs)" by blast
    with h have "h \<in> position_of ` set (holders_of k ?xs)" by simp
    then show "h \<in> (\<Union>k. position_of ` set (holders_of k ?xs))" by blast
  qed
  have ranges: "\<forall>(p, j) \<in> set (concat (map snd (unique @ ordered))). p < length plans \<and> j < length (plans ! p)"
  proof (clarify)
    fix p j assume "(p, j) \<in> set (concat (map snd (unique @ ordered)))"
    with sub obtain k x where "x \<in> set (holders_of k ?xs)" "(p, j) = position_of x" by blast
    then have "x \<in> set ?xs" "p = plan_of x" "j = slot_of x" using holders_subset [of k ?xs] by (auto simp: position_of_def)
    then show "p < length plans \<and> j < length (plans ! p)" by (simp add: set_placed)
  qed
  note keep = keep [OF dist nonempty ranges]
  show "map length masks = map length plans" by (rule keep(1))
  show "kept masks \<subseteq> (\<Union>k. position_of ` set (holders_of k ?xs))" using keep(3) sub by blast
  show "\<exists>h. kept masks \<inter> position_of ` set (holders_of k ?xs) = {h} \<and> (to_min \<longrightarrow> h = position_of (hd (holders_of k ?xs)))" if "holders_of k ?xs \<noteq> []" for k
  proof -
    have "map_of occ k \<noteq> None" using rec that by (simp add: occurrences_of_def split: list.splits)
    then obtain v where "(k, v) \<in> set occ" by (metis map_of_SomeD option.exhaust)
    with entry [of k v] have "(item_weight (fst v), map position_of (holders_of k ?xs)) \<in> set al"
      by (auto simp: al_def intro!: rev_image_eqI)
    with keep(2) members obtain h where h: "kept masks \<inter> set (map position_of (holders_of k ?xs)) = {h}"
        "h = hd (map position_of (holders_of k ?xs)) \<or>
         (\<exists>loads. h = (if to_min then hd (map position_of (holders_of k ?xs)) else least_loaded_owner (map position_of (holders_of k ?xs)) loads))"
      by blast
    from h(2) that have "to_min \<longrightarrow> h = position_of (hd (holders_of k ?xs))" by (auto simp: hd_map)
    with h(1) show ?thesis by (intro exI [of _ h]) simp
  qed
qed

lemma sorted_holders: "sorted (map plan_of xs) \<Longrightarrow> sorted (map plan_of (holders_of k xs))"
  by (simp add: holders_of_def Let_def sorted_filter take_map [symmetric] sorted_wrt_take)

lemma one_owner:
  assumes "plan_ownership_masks plans to_min = Inr masks" and "p < length plans" and "j < length (plans ! p)"
  shows "\<exists>q i. q < length plans \<and> i < length (plans ! q) \<and>
    {h \<in> kept masks. index_key (item_index (plans ! fst h ! snd h)) = index_key (item_index (plans ! p ! j))} = {(q, i)} \<and>
    (\<not> empty_item (plans ! p ! j) \<longrightarrow>
      \<not> empty_item (plans ! q ! i) \<and> item_data (plans ! q ! i) = item_data (plans ! p ! j) \<and> (to_min \<longrightarrow> q \<le> p))"
proof -
  let ?xs = "placed_items plans" and ?x = "Placed p j (plans ! p ! j)"
  let ?H = "holders_of (key_of ?x) ?xs"
  note keep = masks_keep [OF assms(1)]
  have x: "?x \<in> set ?xs" using assms(2,3) by (simp add: set_placed)
  from holders_nonempty [OF this refl] have ne: "?H \<noteq> []" .
  from keep(2) [OF ne] obtain h where h: "kept masks \<inter> position_of ` set ?H = {h}" "to_min \<longrightarrow> h = position_of (hd ?H)" by blast
  then obtain y where y: "y \<in> set ?H" "h = position_of y" by blast
  have placed: "z \<in> set ?xs \<and> key_of z = k" if "z \<in> set (holders_of k ?xs)" for z k using holders_subset that by blast
  obtain q i where qi: "y = Placed q i (plans ! q ! i)" "q < length plans" "i < length (plans ! q)"
    using placed [OF y(1)] by (cases y) (auto simp: set_placed)
  have "{h \<in> kept masks. index_key (item_index (plans ! fst h ! snd h)) = key_of ?x} = kept masks \<inter> position_of ` set ?H"
  proof (intro equalityI subsetI)
    fix g assume g: "g \<in> {h \<in> kept masks. index_key (item_index (plans ! fst h ! snd h)) = key_of ?x}"
    with keep(3) obtain k z where z: "z \<in> set (holders_of k ?xs)" "g = position_of z" by blast
    from placed [OF z(1)] have "entry_of z = plans ! plan_of z ! slot_of z" "key_of z = k" by (auto simp: set_placed)
    with g z(2) have "k = key_of ?x" by (simp add: key_of_def position_of_def)
    with g z show "g \<in> kept masks \<inter> position_of ` set ?H" by blast
  next
    fix g assume "g \<in> kept masks \<inter> position_of ` set ?H"
    then obtain z where z: "g \<in> kept masks" "z \<in> set ?H" "g = position_of z" by blast
    from placed [OF z(2)] have "entry_of z = plans ! plan_of z ! slot_of z" "key_of z = key_of ?x" by (auto simp: set_placed)
    with z show "g \<in> {h \<in> kept masks. index_key (item_index (plans ! fst h ! snd h)) = key_of ?x}"
      by (simp add: key_of_def position_of_def)
  qed
  moreover have "h = (q, i)" using y(2) qi(1) by (simp add: position_of_def)
  moreover have "\<not> empty_item (plans ! q ! i) \<and> item_data (plans ! q ! i) = item_data (plans ! p ! j) \<and> (to_min \<longrightarrow> q \<le> p)"
    if full: "\<not> empty_item (plans ! p ! j)"
  proof -
    have hx: "?x \<in> set ?H" "\<not> empty_item (entry_of (hd ?H))" using holders_full [OF x refl] full by simp_all
    have u: "uniform ?H" by (rule keep(4))
    have "item_data (entry_of y) = item_data (entry_of ?x) \<and> \<not> empty_item (entry_of y)"
      using u hx y(1) unfolding uniform_def by metis
    moreover have "q \<le> p" if to_min
    proof -
      have "y = hd ?H"
      proof -
        have "hd ?H \<in> set ?H" using ne by simp
        moreover have "inj_on position_of (set ?xs)" using distinct_placed by (simp add: distinct_map)
        ultimately show ?thesis using h(2) that y placed by (metis inj_onD)
      qed
      moreover have "plan_of (hd ?H) \<le> plan_of ?x"
        using sorted_holders [OF sorted_placed, of "key_of ?x" plans] hx(1) by (cases ?H) (auto simp del: placed_item.sel)
      moreover have "plan_of y = q" by (subst qi(1)) simp
      ultimately show ?thesis by simp
    qed
    ultimately show ?thesis using qi(1) by simp
  qed
  ultimately show ?thesis using h(1) qi(2,3) by (intro exI [of _ q] exI [of _ i]) (simp add: key_of_def)
qed

text \<open>
  C11: Redundant items are written once: for every item of every plan exactly one item that names the
  same chunk is kept. If the item is not empty, the kept one is not empty either and describes the
  same data, and with \<open>save_to_minimum_rank\<close> no plan before it holds the chunk.
\<close>

theorem one_owner_per_chunk:
  assumes "plan_ownership_masks plans to_min = Inr masks" and "p < length plans" and "j < length (plans ! p)"
  shows "\<exists>q i. q < length plans \<and> i < length (plans ! q) \<and>
    {h \<in> kept masks. index_key (item_index (plans ! fst h ! snd h)) = index_key (item_index (plans ! p ! j))} = {(q, i)} \<and>
    (\<not> empty_item (plans ! p ! j) \<longrightarrow>
      \<not> empty_item (plans ! q ! i) \<and> item_data (plans ! q ! i) = item_data (plans ! p ! j) \<and> (to_min \<longrightarrow> q \<le> p))"
  using assms by (rule one_owner)

text \<open>Two ranks hold a chunk and an empty rest of it, and a third one is alone with another.\<close>

theorem one_owner_per_chunk_witness:
  "let e = tensor_item ''w'' \<lparr>offsets = [1], extents = [0]\<rparr> ''torch.float32'' [2];
       f = tensor_item ''w'' \<lparr>offsets = [1], extents = [1]\<rparr> ''torch.float32'' [2];
       g = tensor_item ''w'' \<lparr>offsets = [0], extents = [1]\<rparr> ''torch.float32'' [2]
   in plan_ownership_masks [[g, e], [f], [f]] False = Inr [[True, False], [True], [False]] \<and>
      (\<exists>q i. {h \<in> kept [[True, False], [True], [False]]. index_key (item_index ([[g, e], [f], [f]] ! fst h ! snd h)) = (''w'', [1])} = {(q, i)} \<and>
        item_data ([[g, e], [f], [f]] ! q ! i) = item_data f)"
proof -
  let ?e = "tensor_item ''w'' \<lparr>offsets = [1], extents = [0]\<rparr> ''torch.float32'' [2]"
  let ?f = "tensor_item ''w'' \<lparr>offsets = [1], extents = [1]\<rparr> ''torch.float32'' [2]"
  let ?g = "tensor_item ''w'' \<lparr>offsets = [0], extents = [1]\<rparr> ''torch.float32'' [2]"
  have run: "plan_ownership_masks [[?g, ?e], [?f], [?f]] False = Inr [[True, False], [True], [False]]" by code_simp
  have full: "\<not> empty_item ?f" unfolding empty_item_def by code_simp
  have key: "index_key (item_index ?f) = (''w'', [1])" by (simp add: tensor_item_def index_key_def)
  have ranges: "1 < length [[?g, ?e], [?f], [?f]]" "0 < length ([[?g, ?e], [?f], [?f]] ! 1)" by simp_all
  have item: "[[?g, ?e], [?f], [?f]] ! 1 ! 0 = ?f" by simp
  from one_owner_per_chunk [OF run ranges, unfolded item key] full obtain q i where
    "{h \<in> kept [[True, False], [True], [False]]. index_key (item_index ([[?g, ?e], [?f], [?f]] ! fst h ! snd h)) = (''w'', [1])} = {(q, i)}"
    "item_data ([[?g, ?e], [?f], [?f]] ! q ! i) = item_data ?f" by blast
  with run show ?thesis unfolding Let_def by blast
qed

end
