(* ===== verification/Checkpoint_Global.thy ===== *)
theory Checkpoint_Global
  imports Checkpoint_Store Checkpoint_Ownership Slice_Areas
begin

text \<open>
  What the global save plan holds: the slices of a layout as chunks that cover the tensor, the
  items every rank keeps, and the chunks and sizes of the metadata.
\<close>

section \<open>Slices as chunks\<close>

definition chunk_of_area :: "(int \<times> int) list \<Rightarrow> chunk" where
  "chunk_of_area area = \<lparr>offsets = map fst area, extents = map (\<lambda>(s, e). e - s) area\<rparr>"

lemma chunk_of_area_simps [simp]:
  "offsets (chunk_of_area area) = map fst area" "extents (chunk_of_area area) = map (\<lambda>(s, e). e - s) area"
  by (simp_all add: chunk_of_area_def)

lemma area_of_chunk [simp]: "area_of (chunk_of_area area) = area"
  by (induction area) (auto simp: area_of_def)

definition sliced :: "layout \<Rightarrow> dim_map list \<Rightarrow> int list \<Rightarrow> bool" where
  "sliced l tm full \<longleftrightarrow> tensor_map l = Some tm \<and> ragged_shard l = None \<and> well_mapped (mesh_sizes l) tm \<and> length tm = length full \<and>
     distinct (rank_list (mesh l)) \<and> int (length (rank_list (mesh l))) = prod_list (mesh_sizes l) \<and> (\<forall>n \<in> set full. 0 \<le> n)"

abbreviation in_tensor :: "int list \<Rightarrow> int list \<Rightarrow> bool" where
  "in_tensor full g \<equiv> list_all2 (\<lambda>n i. 0 \<le> i \<and> i < n) full g"

lemma layout_slice:
  "sliced l tm full \<Longrightarrow> infer_slice_area_by_layout l r full = infer_slice_area_by_rank (mesh_sizes l) tm r full (Some (uneven_shard_mesh_dims l))"
  by (simp add: sliced_def infer_slice_area_by_layout_def)

lemma rank_slice:
  assumes "sliced l tm full" and "q \<in> set (rank_list (mesh l))"
  shows "\<exists>area. slice_of_rank l q full = Inr area \<and> length area = length full \<and> (\<forall>g. list_all2 within g area \<longrightarrow> in_tensor full g)"
proof -
  let ?sizes = "mesh_sizes l" and ?u = "set (uneven_shard_mesh_dims l)"
  note s = assms(1) [unfolded sliced_def]
  obtain r where r: "py_index (rank_list (mesh l)) q = Inr r" "0 \<le> r" "r < prod_list ?sizes"
    using py_index_mem [OF assms(2)] s by auto
  have pos: "\<forall>n \<in> set ?sizes. 0 < n" using s by (simp add: well_mapped_def)
  from coordinate_of_rank [OF this] obtain c where c: "calculate_mesh_coordinate_for_rank ?sizes r = Inr c" "valid_coordinate ?sizes c" by blast
  let ?f = "\<lambda>a. c ! nat a"
  have area: "infer_slice_area_by_rank ?sizes tm r full (Some (uneven_shard_mesh_dims l)) = Inr (areas ?sizes ?u ?f full tm)"
    using slice_areas [OF _ _ c(1) valid_length [OF c(2)], of tm full "Some (uneven_shard_mesh_dims l)"] s by simp
  have f: "on_axes ?sizes ?f" using c(2) by (auto simp: on_axes_def valid_coordinate_def list_all2_conv_all_nth)
  have len: "length (areas ?sizes ?u ?f full tm) = length full" using s by (simp add: areas_def)
  have "in_tensor full g" if g: "list_all2 within g (areas ?sizes ?u ?f full tm)" for g
    unfolding list_all2_conv_all_nth
  proof (intro conjI allI impI)
    show lg: "length full = length g" using list_all2_lengthD [OF g] len by simp
    fix j assume j: "j < length full"
    have "within (g ! j) (held_of ?sizes ?u ?f (tm ! j) (full ! j))"
      using g j s lg by (auto simp: list_all2_conv_all_nth areas_def)
    moreover have "\<forall>a \<in> set (axes_of (int (length ?sizes)) (tm ! j)). 0 \<le> a \<and> a < int (length ?sizes)"
      using well_mapped_axes(2) [of ?sizes tm j] s j by simp
    ultimately show "0 \<le> g ! j" "g ! j < full ! j" using held_inside [of "g ! j" ?sizes ?u ?f "tm ! j" "full ! j"] f s j by auto
  qed
  with area r len show ?thesis using layout_slice [OF assms(1)] by (simp add: slice_of_rank_def)
qed

lemma slice_rank_mem: "slice_of_rank l q full = Inr area \<Longrightarrow> q \<in> set (rank_list (mesh l))"
  by (cases "q \<in> set (rank_list (mesh l))") (simp_all add: slice_of_rank_def)

lemma slices_cover:
  assumes "sliced l tm full" and "in_tensor full g"
  shows "\<exists>q \<in> set (rank_list (mesh l)). \<exists>area. slice_of_rank l q full = Inr area \<and> list_all2 within g area"
proof -
  note s = assms(1) [unfolded sliced_def]
  from slices_partition [of "mesh_sizes l" tm full g "Some (uneven_shard_mesh_dims l)"] s assms(2)
  obtain r where r: "0 \<le> r" "r < prod_list (mesh_sizes l)" "owns (mesh_sizes l) tm full (Some (uneven_shard_mesh_dims l)) r g" by blast
  then have n: "nat r < length (rank_list (mesh l))" using s by auto
  let ?q = "rank_list (mesh l) ! nat r"
  have "py_index (rank_list (mesh l)) ?q = Inr r" using py_index_nth [OF _ n] s r(1) by simp
  with r(3) have "\<exists>area. slice_of_rank l ?q full = Inr area \<and> list_all2 within g area"
    by (simp add: slice_of_rank_def layout_slice [OF assms(1)] owns_def split: sum.splits)
  with n show ?thesis by (intro bexI [of _ ?q]) simp_all
qed

section \<open>The metadata\<close>

definition strip :: "write_item \<Rightarrow> shard_key \<times> item_type \<times> tensor_data option" where
  "strip it = (index_key (item_index it), item_type it, item_data it)"

definition known_chunks :: "fqn_info \<Rightarrow> string \<Rightarrow> chunk list" where
  "known_chunks info name = (case map_of info name of None \<Rightarrow> [] | Some (props, full, chunks) \<Rightarrow> chunks)"

definition chunks_named :: "string \<Rightarrow> write_item list \<Rightarrow> chunk list" where
  "chunks_named name its = map (\<lambda>it. td_chunk (the (item_data it))) (filter (\<lambda>it. item_type it = TENSOR \<and> fqn (item_index it) = name) its)"

lemma visited:
  "for_res visit_item xs (info0, md0, own0) = Inr (info, md, own) \<Longrightarrow> distinct (map fst info0) \<Longrightarrow>
     map strip own = map strip own0 @ map (\<lambda>x. strip (snd x)) (filter fst xs) \<and>
     (\<forall>name. known_chunks info name = known_chunks info0 name @ chunks_named name (map snd xs)) \<and>
     distinct (map fst info) \<and>
     (\<forall>name. map_of info0 name \<noteq> None \<or> (\<exists>x \<in> set xs. item_type (snd x) = TENSOR \<and> fqn (item_index (snd x)) = name) \<longrightarrow> map_of info name \<noteq> None)"
proof (induction xs arbitrary: info0 md0 own0)
  case (Cons x xs)
  obtain b it where x: "x = (b, it)" by (cases x)
  from Cons.prems(1) obtain info1 md1 own1 where one: "visit_item (b, it) (info0, md0, own0) = Inr (info1, md1, own1)"
    and run: "for_res visit_item xs (info1, md1, own1) = Inr (info, md, own)"
    by (auto simp: x bind_res_Inr_iff)
  have step: "map strip own1 = map strip own0 @ (if b then [strip it] else []) \<and>
    (\<forall>name. known_chunks info1 name = known_chunks info0 name @ chunks_named name [it]) \<and> distinct (map fst info1) \<and>
    (\<forall>name. map_of info0 name \<noteq> None \<or> item_type it = TENSOR \<and> fqn (item_index it) = name \<longrightarrow> map_of info1 name \<noteq> None)"
  proof (cases "item_type it")
    case TENSOR
    with one obtain td where td: "item_data it = Some td" by (cases "item_data it") (simp_all add: visit_item_def)
    from one TENSOR td obtain chunks where cs: "global_chunks_for (fqn (item_index it)) (td_properties td) (td_size td) info0 = Inr chunks"
      and info1: "info1 = dict_set info0 (fqn (item_index it)) (td_properties td, td_size td, chunks @ [td_chunk td])"
      and own1: "own1 = (if b then own0 @ [it\<lparr>item_index := (item_index it)\<lparr>index_hint := Some (int (length chunks))\<rparr>\<rparr>] else own0)"
      by (auto simp: visit_item_def Let_def bind_res_Inr_iff)
    have "chunks = known_chunks info0 (fqn (item_index it))"
      using cs by (auto simp: global_chunks_for_def known_chunks_def split: option.splits if_splits)
    with info1 own1 Cons.prems(2) TENSOR td show ?thesis
      by (auto simp: known_chunks_def chunks_named_def strip_def index_key_def)
  next
    case BYTE_IO
    with one show ?thesis using Cons.prems(2) by (auto simp: visit_item_def Let_def chunks_named_def)
  qed
  from Cons.IH [OF run] step have ih: "map strip own = map strip own1 @ map (\<lambda>x. strip (snd x)) (filter fst xs)"
    "\<And>name. known_chunks info name = known_chunks info1 name @ chunks_named name (map snd xs)" "distinct (map fst info)"
    "\<And>name. map_of info1 name \<noteq> None \<or> (\<exists>x \<in> set xs. item_type (snd x) = TENSOR \<and> fqn (item_index (snd x)) = name) \<Longrightarrow> map_of info name \<noteq> None"
    by blast+
  have "chunks_named name (map snd (x # xs)) = chunks_named name [it] @ chunks_named name (map snd xs)" for name
    by (simp add: chunks_named_def x)
  moreover have "map_of info name \<noteq> None"
    if "map_of info0 name \<noteq> None \<or> (\<exists>y \<in> set (x # xs). item_type (snd y) = TENSOR \<and> fqn (item_index (snd y)) = name)" for name
  proof -
    from that have "map_of info0 name \<noteq> None \<or> (item_type it = TENSOR \<and> fqn (item_index it) = name) \<or>
        (\<exists>y \<in> set xs. item_type (snd y) = TENSOR \<and> fqn (item_index (snd y)) = name)" unfolding x by simp
    with step ih(4) [of name] show ?thesis by blast
  qed
  moreover have "map strip own = map strip own0 @ map (\<lambda>x. strip (snd x)) (filter fst (x # xs))" using ih(1) step by (simp add: x)
  ultimately show ?case using ih(2,3) step by simp
qed (simp add: chunks_named_def)

abbreviation known_size :: "fqn_info \<Rightarrow> string \<Rightarrow> int list option" where
  "known_size info name \<equiv> map_option (\<lambda>(props, full, chunks). full) (map_of info name)"

lemma visited_size:
  "for_res visit_item xs (info0, md0, own0) = Inr (info, md, own) \<Longrightarrow>
     (\<forall>name full. known_size info0 name = Some full \<longrightarrow> known_size info name = Some full) \<and>
     (\<forall>x \<in> set xs. item_type (snd x) = TENSOR \<longrightarrow> known_size info (fqn (item_index (snd x))) = Some (td_size (the (item_data (snd x)))))"
proof (induction xs arbitrary: info0 md0 own0)
  case (Cons x xs)
  obtain b it where x: "x = (b, it)" by (cases x)
  from Cons.prems obtain info1 md1 own1 where one: "visit_item (b, it) (info0, md0, own0) = Inr (info1, md1, own1)"
    and run: "for_res visit_item xs (info1, md1, own1) = Inr (info, md, own)"
    by (auto simp: x bind_res_Inr_iff)
  have step: "(\<forall>name full. known_size info0 name = Some full \<longrightarrow> known_size info1 name = Some full) \<and>
    (item_type it = TENSOR \<longrightarrow> known_size info1 (fqn (item_index it)) = Some (td_size (the (item_data it))))"
  proof (cases "item_type it")
    case TENSOR
    with one obtain td where td: "item_data it = Some td" by (cases "item_data it") (simp_all add: visit_item_def)
    from one TENSOR td obtain chunks where cs: "global_chunks_for (fqn (item_index it)) (td_properties td) (td_size td) info0 = Inr chunks"
      and info1: "info1 = dict_set info0 (fqn (item_index it)) (td_properties td, td_size td, chunks @ [td_chunk td])"
      by (auto simp: visit_item_def Let_def bind_res_Inr_iff)
    have "map_of info0 (fqn (item_index it)) = None \<or> known_size info0 (fqn (item_index it)) = Some (td_size td)"
      using cs by (auto simp: global_chunks_for_def split: option.splits if_splits)
    with info1 td show ?thesis by auto
  next
    case BYTE_IO
    with one show ?thesis by (auto simp: visit_item_def Let_def)
  qed
  note ih = Cons.IH [OF run]
  have "known_size info (fqn (item_index (snd y))) = Some (td_size (the (item_data (snd y))))"
    if "y \<in> set (x # xs)" "item_type (snd y) = TENSOR" for y
  proof (cases "y = x")
    case True
    with that(2) step have "known_size info1 (fqn (item_index (snd y))) = Some (td_size (the (item_data (snd y))))" by (simp add: x)
    with ih show ?thesis by blast
  qed (use that ih in simp)
  with ih step show ?case by blast
qed simp

lemma stored_metadata:
  assumes "distinct (map fst info)" and "map_of info name = Some (props, full, chunks)"
  shows "map_of (fold (\<lambda>(name, props, full, chunks) m.
      dict_set m name (Tensor_Storage \<lparr>ts_properties = props, ts_size = full, ts_chunks = chunks\<rparr>)) info md) name =
    Some (Tensor_Storage \<lparr>ts_properties = props, ts_size = full, ts_chunks = chunks\<rparr>)"
proof -
  let ?f = "\<lambda>(name, props, full, chunks) m. dict_set m name (Tensor_Storage \<lparr>ts_properties = props, ts_size = full, ts_chunks = chunks\<rparr>)"
  have keep: "map_of (fold ?f xs m) name = map_of m name" if "name \<notin> set (map fst xs)" for xs m
    using that by (induction xs arbitrary: m) (auto split: prod.splits)
  show ?thesis
    using assms
  proof (induction info arbitrary: md)
    case (Cons x info)
    obtain n p' f' c' where x: "x = (n, p', f', c')" by (cases x)
    show ?case
    proof (cases "n = name")
      case True
      with Cons.prems x show ?thesis using keep [of info] by simp
    next
      case False
      with Cons x show ?thesis by simp
    qed
  qed simp
qed

section \<open>The global plan of all ranks\<close>

lemma kept_of_plan:
  assumes "map length masks = map (\<lambda>plan. length (save_items plan)) plans" and "p < length plans"
  shows "length (kept_items (Some masks) plans) = length plans"
    and "set (kept_items (Some masks) plans ! p) = {save_items (plans ! p) ! i | i. (p, i) \<in> kept masks}"
proof -
  have l: "length masks = length plans" using assms(1) by (metis length_map)
  have lp: "length (masks ! p) = length (save_items (plans ! p))" using assms l by (metis nth_map)
  show "length (kept_items (Some masks) plans) = length plans" using l by (simp add: kept_items_def)
  have "set (compress xs bs) = {xs ! i | i. i < length bs \<and> bs ! i}" if "length bs = length xs" for xs :: "write_item list" and bs
    using that by (force simp: compress_def set_zip)
  then show "set (kept_items (Some masks) plans ! p) = {save_items (plans ! p) ! i | i. (p, i) \<in> kept masks}"
    using assms(2) l lp by (simp add: kept_items_def kept_def)
qed

definition item_at :: "save_plan list \<Rightarrow> nat \<times> nat \<Rightarrow> write_item" where
  "item_at plans h = save_items (plans ! fst h) ! snd h"

lemma global_masks_of:
  "build_global_save_plan True to_min flatten rank plans = Inr res \<Longrightarrow> 1 < length plans \<Longrightarrow>
     \<exists>masks. plan_ownership_masks (map save_items plans) to_min = Inr masks"
  by (auto simp: build_global_save_plan_def global_masks_def bind_res_Inr_iff)

lemma global_plan:
  assumes "build_global_save_plan True to_min flatten (int p) plans = Inr (final, md)" and "1 < length plans" and "p < length plans"
    and masks: "plan_ownership_masks (map save_items plans) to_min = Inr masks"
  shows "it \<in> set (save_items final) \<Longrightarrow> \<exists>i. (p, i) \<in> kept masks \<and> strip it = strip (item_at plans (p, i))"
    and "(p, i) \<in> kept masks \<Longrightarrow> \<exists>it \<in> set (save_items final). strip it = strip (item_at plans (p, i))"
    and "h \<in> kept masks \<Longrightarrow> item_type (item_at plans h) = TENSOR \<Longrightarrow> fqn (item_index (item_at plans h)) = name \<Longrightarrow>
      \<exists>ts. map_of (state_dict_metadata md) name = Some (Tensor_Storage ts) \<and>
        ts_size ts = td_size (the (item_data (item_at plans h))) \<and>
        set (ts_chunks ts) = {td_chunk (the (item_data (item_at plans h))) | h. h \<in> kept masks \<and>
          item_type (item_at plans h) = TENSOR \<and> fqn (item_index (item_at plans h)) = name}"
proof -
  have own: "own_plan_index plans (int p) = Inr p" using assms(2,3) by (simp add: own_plan_index_def)
  let ?xs = "\<lambda>ms. concat (map (\<lambda>(q, items). map (Pair (q = p)) items) (List.enumerate 0 (kept_items (Some ms) plans)))"
  from assms(1,2) own masks obtain info md0 own_items where run: "for_res visit_item (?xs masks) ([], [], []) = Inr (info, md0, own_items)" and final: "save_items final = own_items"
    and md: "state_dict_metadata md = fold (\<lambda>(name, props, full, chunks) m.
        dict_set m name (Tensor_Storage \<lparr>ts_properties = props, ts_size = full, ts_chunks = chunks\<rparr>)) info md0"
    by (auto simp: build_global_save_plan_def global_masks_def bind_res_Inr_iff)
  define xs where "xs = ?xs masks"
  note run = run [folded xs_def]
  have ml: "map length masks = map (\<lambda>plan. length (save_items plan)) plans" using masks_keep(1) [OF masks] by (simp add: comp_def)
  have lk: "length (kept_items (Some masks) plans) = length plans" using kept_of_plan(1) [OF ml assms(3)] .
  have mem: "(b, it) \<in> set xs \<longleftrightarrow> (\<exists>h \<in> kept masks. it = item_at plans h \<and> b = (fst h = p))" for b it
  proof -
    have "(b, it) \<in> set xs \<longleftrightarrow> (\<exists>q < length plans. it \<in> set (kept_items (Some masks) plans ! q) \<and> b = (q = p))"
      by (force simp: xs_def enumerate_eq_zip set_zip lk)
    also have "\<dots> \<longleftrightarrow> (\<exists>h \<in> kept masks. it = item_at plans h \<and> b = (fst h = p))"
    proof
      assume "\<exists>q < length plans. it \<in> set (kept_items (Some masks) plans ! q) \<and> b = (q = p)"
      then obtain q where q: "q < length plans" "it \<in> set (kept_items (Some masks) plans ! q)" "b = (q = p)" by blast
      then obtain i where "(q, i) \<in> kept masks" "it = save_items (plans ! q) ! i" using kept_of_plan(2) [OF ml q(1)] by blast
      with q(3) show "\<exists>h \<in> kept masks. it = item_at plans h \<and> b = (fst h = p)" by (intro bexI [of _ "(q, i)"]) (simp_all add: item_at_def)
    next
      assume "\<exists>h \<in> kept masks. it = item_at plans h \<and> b = (fst h = p)"
      then obtain q i where h: "(q, i) \<in> kept masks" "it = item_at plans (q, i)" "b = (q = p)" by auto
      have q: "q < length plans" using h(1) ml by (auto simp: kept_def dest: map_eq_imp_length_eq)
      with h kept_of_plan(2) [OF ml q] show "\<exists>q < length plans. it \<in> set (kept_items (Some masks) plans ! q) \<and> b = (q = p)"
        by (auto simp: item_at_def)
    qed
    finally show ?thesis .
  qed
  have "distinct (map fst ([] :: fqn_info))" by simp
  note vis = visited [OF run this]
  have v: "map strip own_items = map (\<lambda>x. strip (snd x)) (filter fst xs)"
    "\<And>name. known_chunks info name = chunks_named name (map snd xs)" "distinct (map fst info)"
    "\<And>name. \<exists>x \<in> set xs. item_type (snd x) = TENSOR \<and> fqn (item_index (snd x)) = name \<Longrightarrow> map_of info name \<noteq> None"
    using vis by (simp, simp add: known_chunks_def [of "[]"], blast, blast)
  have strips: "strip ` set own_items = {strip (snd x) | x. x \<in> set xs \<and> fst x}"
    using arg_cong [OF v(1), of set] unfolding set_map set_filter by blast
  show "\<exists>i. (p, i) \<in> kept masks \<and> strip it = strip (item_at plans (p, i))" if "it \<in> set (save_items final)"
  proof -
    from that have "strip it \<in> {strip (snd x) | x. x \<in> set xs \<and> fst x}" using final strips by blast
    then obtain b it' where "(b, it') \<in> set xs" "b" "strip it = strip it'" by auto
    with mem obtain h' where h': "h' \<in> kept masks" "it' = item_at plans h'" "fst h' = p" by blast
    obtain i' where "h' = (p, i')" using h'(3) by (cases h') simp
    with h' \<open>strip it = strip it'\<close> show ?thesis
      by (intro exI [of _ i']) simp
  qed
  show "\<exists>it \<in> set (save_items final). strip it = strip (item_at plans (p, i))" if "(p, i) \<in> kept masks"
  proof -
    from that have "(True, item_at plans (p, i)) \<in> set xs" unfolding mem by (intro bexI [of _ "(p, i)"]) simp_all
    then have "strip (item_at plans (p, i)) \<in> {strip (snd x) | x. x \<in> set xs \<and> fst x}"
      by (intro CollectI exI [of _ "(True, item_at plans (p, i))"]) simp
    then have "strip (item_at plans (p, i)) \<in> strip ` set own_items" using strips by blast
    then show ?thesis unfolding final by (elim imageE, intro bexI) simp_all
  qed
  show "\<exists>ts. map_of (state_dict_metadata md) name = Some (Tensor_Storage ts) \<and>
      ts_size ts = td_size (the (item_data (item_at plans h))) \<and>
      set (ts_chunks ts) = {td_chunk (the (item_data (item_at plans h))) | h. h \<in> kept masks \<and>
        item_type (item_at plans h) = TENSOR \<and> fqn (item_index (item_at plans h)) = name}"
    if h: "h \<in> kept masks" "item_type (item_at plans h) = TENSOR" "fqn (item_index (item_at plans h)) = name"
  proof -
    from h have "(fst h = p, item_at plans h) \<in> set xs" using mem by blast
    with h have "map_of info name \<noteq> None" by (intro v(4) bexI [of _ "(fst h = p, item_at plans h)"]) simp_all
    then obtain props full chunks where info: "map_of info name = Some (props, full, chunks)" by auto
    have "known_size info (fqn (item_index (item_at plans h))) = Some (td_size (the (item_data (item_at plans h))))"
      using visited_size [OF run] \<open>(fst h = p, item_at plans h) \<in> set xs\<close> h(2) by fastforce
    then have size: "full = td_size (the (item_data (item_at plans h)))" using info h(3) by simp
    have "chunks = chunks_named name (map snd xs)" using v(2) [of name] info by (simp add: known_chunks_def)
    moreover have pairs: "(\<exists>b. (b, it) \<in> set xs) \<longleftrightarrow> it \<in> snd ` set xs" for it by force
    ultimately have "set chunks = {td_chunk (the (item_data it)) | it. (\<exists>b. (b, it) \<in> set xs) \<and> item_type it = TENSOR \<and> fqn (item_index it) = name}"
      unfolding chunks_named_def by (auto simp: pairs)
    also have "\<dots> = {td_chunk (the (item_data (item_at plans h))) | h. h \<in> kept masks \<and>
          item_type (item_at plans h) = TENSOR \<and> fqn (item_index (item_at plans h)) = name}"
      unfolding mem by blast
    finally have all: "set chunks = {td_chunk (the (item_data (item_at plans h))) | h. h \<in> kept masks \<and>
          item_type (item_at plans h) = TENSOR \<and> fqn (item_index (item_at plans h)) = name}" .
    let ?ts = "\<lparr>ts_properties = props, ts_size = full, ts_chunks = chunks\<rparr>"
    have "map_of (state_dict_metadata md) name = Some (Tensor_Storage ?ts)" unfolding md by (rule stored_metadata [OF v(3) info])
    moreover have "ts_size ?ts = td_size (the (item_data (item_at plans h)))" by (simp add: size)
    ultimately show ?thesis
      using all by (intro exI [of _ ?ts] conjI) (assumption, assumption, simp only: tensor_storage.simps)
  qed
qed

lemma kept_range:
  assumes "plan_ownership_masks (map save_items plans) to_min = Inr masks" and "h \<in> kept masks"
  shows "fst h < length plans" and "snd h < length (save_items (plans ! fst h))" and "item_at plans h \<in> set (save_items (plans ! fst h))"
proof -
  obtain p i where h: "h = (p, i)" by (cases h)
  have ml: "map length masks = map (\<lambda>plan. length (save_items plan)) plans" using masks_keep(1) [OF assms(1)] by (simp add: comp_def)
  then have l: "length masks = length plans" by (metis length_map)
  with assms(2) h have p: "p < length plans" "i < length (masks ! p)" by (auto simp: kept_def)
  then have "length (masks ! p) = length (save_items (plans ! p))" using ml l by (metis nth_map)
  with p h show "fst h < length plans" "snd h < length (save_items (plans ! fst h))" "item_at plans h \<in> set (save_items (plans ! fst h))"
    by (simp_all add: item_at_def)
qed

lemma kept_unique:
  assumes "plan_ownership_masks (map save_items plans) to_min = Inr masks" and "h \<in> kept masks" and "h' \<in> kept masks"
    and "index_key (item_index (item_at plans h')) = index_key (item_index (item_at plans h))"
  shows "h' = h"
proof -
  let ?its = "map save_items plans"
  have at: "?its ! fst g ! snd g = item_at plans g" if "g \<in> kept masks" for g
    using kept_range(1) [OF assms(1) that] by (simp add: item_at_def)
  have r: "fst h < length ?its" "snd h < length (?its ! fst h)" using kept_range [OF assms(1,2)] by simp_all
  from one_owner [OF assms(1) r] obtain x where
    "{g \<in> kept masks. index_key (item_index (?its ! fst g ! snd g)) = index_key (item_index (?its ! fst h ! snd h))} = {x}" by blast
  then have "\<And>g. g \<in> kept masks \<Longrightarrow> index_key (item_index (item_at plans g)) = index_key (item_index (item_at plans h)) \<Longrightarrow> g = x"
    using at assms(2) by fastforce
  from this [OF assms(2) refl] this [OF assms(3,4)] show ?thesis by simp
qed

lemma owner_of:
  assumes "plan_ownership_masks (map save_items plans) to_min = Inr masks" and "p < length plans" and "it \<in> set (save_items (plans ! p))"
  shows "\<exists>h \<in> kept masks. index_key (item_index (item_at plans h)) = index_key (item_index it) \<and>
    (\<not> empty_item it \<longrightarrow> item_data (item_at plans h) = item_data it)"
proof -
  let ?its = "map save_items plans"
  from assms(3) obtain j where j: "j < length (save_items (plans ! p))" "save_items (plans ! p) ! j = it" by (auto simp: in_set_conv_nth)
  have r: "p < length ?its" "j < length (?its ! p)" and it: "?its ! p ! j = it" using j assms(2) by simp_all
  from one_owner [OF assms(1) r, unfolded it] obtain q i where
    own: "{g \<in> kept masks. index_key (item_index (?its ! fst g ! snd g)) = index_key (item_index it)} = {(q, i)}" and q: "q < length ?its"
    and dat: "\<not> empty_item it \<longrightarrow> item_data (?its ! q ! i) = item_data it" by blast
  have "(q, i) \<in> {g \<in> kept masks. index_key (item_index (?its ! fst g ! snd g)) = index_key (item_index it)}" unfolding own by simp
  then have "(q, i) \<in> kept masks" "index_key (item_index (?its ! q ! i)) = index_key (item_index it)" by simp_all
  with q dat show ?thesis by (intro bexI [of _ "(q, i)"]) (simp_all add: item_at_def)
qed

end
