(* ===== verification/Checkpoint_Reshard.thy ===== *)
theory Checkpoint_Reshard
  imports Checkpoint_Global
begin

text \<open>
  Saving under one layout and loading under another: the plans of all ranks, the shared writes, the metadata and
  the reads of a rank put together give every rank its slice of the tensor that was saved.
\<close>

section \<open>The items of a rank\<close>

text \<open>Rank \<open>p\<close> holds the tensor \<open>name\<close> under the layout \<open>l\<close>: its entry, and its slice of \<open>X\<close> as local data.\<close>

definition holds_part ::
    "layout \<Rightarrow> int list \<Rightarrow> (int list \<Rightarrow> 'a) \<Rightarrow> string \<Rightarrow> int \<Rightarrow> (string, state_obj) dict \<Rightarrow> (string, 'a tensor) dict \<Rightarrow> bool" where
  "holds_part l full X name p sd vals \<longleftrightarrow>
     (\<exists>d T area. map_of sd name = Some (DTensor d) \<and> d_layout d = Some l \<and> d_shape d = full \<and>
        slice_of_rank l p full = Inr area \<and> d_local_shape d = extents (chunk_of_area area) \<and>
        map_of vals name = Some T \<and> part_of X (chunk_of_area area) T)"

lemma write_items_named:
  assumes "write_items_of rank n obj = Inr its" and "it \<in> set its"
  shows "fqn (item_index it) = n"
  using assms
  by (auto simp: write_items_of_def create_ragged_write_items_def tensor_item_def bind_res_Inr_iff
      split: state_obj.splits option.splits if_splits)

lemma plan_item:
  assumes "build_save_plan (int p) names sd = Inr plan" and "distinct (map fst sd)" and "sliced l tm full"
    and "map_of sd name = Some (DTensor d)" and "d_layout d = Some l" and "d_shape d = full"
    and "slice_of_rank l (int p) full = Inr area" and "d_local_shape d = extents (chunk_of_area area)"
  shows "it \<in> set (save_items plan) \<Longrightarrow> fqn (item_index it) = name \<Longrightarrow> it = tensor_item name (chunk_of_area area) (d_dtype d) full"
    and "tensor_item name (chunk_of_area area) (d_dtype d) full \<in> set (save_items plan)"
proof -
  from assms(1) obtain itss where itss: "map_res (\<lambda>(name, obj). write_items_of (int p) name obj) sd = Inr itss"
    and plan: "save_items plan = concat itss" by (auto simp: build_save_plan_def bind_res_Inr_iff)
  note len = map_res_Inr_length [OF itss]
  have each: "write_items_of (int p) (fst (sd ! i)) (snd (sd ! i)) = Inr (itss ! i)" if "i < length sd" for i
    using map_res_Inr_nth [OF itss that] by (simp add: case_prod_beta)
  have "int p \<in> set (rank_list (mesh l))" by (rule slice_rank_mem [OF assms(7)])
  then have own: "write_items_of (int p) name (DTensor d) = Inr [tensor_item name (chunk_of_area area) (d_dtype d) full]"
    using assms(3,5-8) by (simp add: write_items_of_def sliced_def compute_global_offsets_def chunk_of_area_def)
  have pair: "(name, DTensor d) \<in> set sd" using assms(4) by (rule map_of_SomeD)
  then obtain k where k: "k < length sd" "sd ! k = (name, DTensor d)" by (auto simp: in_set_conv_nth)
  with each [OF k(1)] own have ik: "itss ! k = [tensor_item name (chunk_of_area area) (d_dtype d) full]" by simp
  then show "tensor_item name (chunk_of_area area) (d_dtype d) full \<in> set (save_items plan)"
    using nth_mem [of k itss] k(1) len unfolding plan set_concat by (metis UN_I list.set_intros(1))
  assume it: "it \<in> set (save_items plan)" "fqn (item_index it) = name"
  then obtain its where "its \<in> set itss" "it \<in> set its" unfolding plan by auto
  then obtain i where i: "i < length itss" "it \<in> set (itss ! i)" unfolding in_set_conv_nth [of its] by auto
  then have "fst (sd ! i) = name" using write_items_named [OF each] len it(2) by auto
  then have "i = k" using assms(2) k i(1) len by (metis distinct_conv_nth fst_conv length_map nth_map)
  with i(2) ik show "it = tensor_item name (chunk_of_area area) (d_dtype d) full" by simp
qed

lemma map_res_somes: "map_res f xs = Inr ms \<Longrightarrow> set (somes ms) = {y. \<exists>x \<in> set xs. f x = Inr (Some y)}"
proof (induction xs arbitrary: ms)
  case (Cons x xs)
  then obtain v vs where "f x = Inr v" "map_res f xs = Inr vs" "ms = v # vs" by (auto simp: bind_res_Inr_iff)
  with Cons.IH [of vs] show ?case by (cases v) auto
qed simp

lemma plan_names:
  assumes "build_save_plan rank names sd = Inr plan" and "it \<in> set (save_items plan)"
  shows "map_of sd (fqn (item_index it)) \<noteq> None"
proof -
  from assms(1) obtain itss where itss: "map_res (\<lambda>(name, obj). write_items_of rank name obj) sd = Inr itss"
    and plan: "save_items plan = concat itss" by (auto simp: build_save_plan_def bind_res_Inr_iff)
  from assms(2) obtain its where "its \<in> set itss" "it \<in> set its" unfolding plan by auto
  then obtain i where i: "i < length itss" "it \<in> set (itss ! i)" unfolding in_set_conv_nth [of its] by auto
  have n: "i < length sd" using i(1) map_res_Inr_length [OF itss] by simp
  from map_res_Inr_nth [OF itss n] i(2) have "fqn (item_index it) = fst (sd ! i)"
    by (auto simp: case_prod_beta dest: write_items_named)
  with n show ?thesis by (metis map_of_eq_None_iff nth_mem image_eqI list.set_map)
qed

section \<open>A whole save\<close>

record 'a job =
  job_names :: "(string, path_key list) dict option"
  job_dict :: "(string, state_obj) dict"
  job_data :: "(string, 'a tensor) dict"

text \<open>Rank \<open>p\<close> of the save runs with \<open>jobs ! p\<close>; the coordinator is rank 0.\<close>

definition save_checkpoint ::
    "bool \<Rightarrow> bool \<Rightarrow> 'a job list \<Rightarrow> ('a checkpoint \<times> checkpoint_metadata) result" where
  "save_checkpoint to_min flatten jobs =
     bind_res (map_res (\<lambda>p. build_save_plan (int p) (job_names (jobs ! p)) (job_dict (jobs ! p))) [0..<length jobs]) (\<lambda>plans.
     bind_res (map_res (\<lambda>p. build_global_save_plan True to_min flatten (int p) plans) [0..<length jobs]) (\<lambda>finals.
     bind_res (write_checkpoint (map (\<lambda>(job, plan, md). (save_items plan, job_data job)) (zip jobs finals))) (\<lambda>store.
       Inr (store, snd (hd finals)))))"

text \<open>Every rank of the mesh of \<open>l\<close> is part of the save and holds its slice of \<open>X\<close>, and no other rank has an entry of that name.\<close>

definition saved_whole :: "'a job list \<Rightarrow> string \<Rightarrow> layout \<Rightarrow> int list \<Rightarrow> (int list \<Rightarrow> 'a) \<Rightarrow> bool" where
  "saved_whole jobs name l full X \<longleftrightarrow> (\<exists>tm. sliced l tm full) \<and>
     (\<forall>p \<in> set (rank_list (mesh l)). 0 \<le> p \<and> p < int (length jobs)) \<and>
     (\<forall>p < length jobs. int p \<in> set (rank_list (mesh l)) \<or> map_of (job_dict (jobs ! p)) name \<noteq> None \<longrightarrow>
        holds_part l full X name (int p) (job_dict (jobs ! p)) (job_data (jobs ! p)))"

lemma dtype_size_pos: "0 < dtype_element_size dt"
proof -
  have "0 < n" if "List.find P dtype_element_sizes = Some (s, n)" for P s n
    using that by (auto simp: dtype_element_sizes_def split: if_splits)
  then show ?thesis by (auto simp: dtype_element_size_def split: option.splits)
qed

lemma area_nonempty:
  assumes "list_all2 within g area"
  shows "\<not> empty_item (tensor_item name (chunk_of_area area) dt full)"
proof -
  have "0 < prod_list (map (\<lambda>(s, e). e - s) area)"
    using assms by (induction rule: list_all2_induct) (auto simp: within_def)
  with dtype_size_pos [of "Some dt"] show ?thesis
    by (simp add: empty_item_def tensor_storage_size_def tensor_item_def properties_of_def)
qed

lemma saved_items:
  assumes "save_checkpoint to_min flatten jobs = Inr (store, md)" and "1 < length jobs"
    and keys: "\<forall>job \<in> set jobs. distinct (map fst (job_dict job))" and "saved_whole jobs name l full X"
  obtains plans masks where "plan_ownership_masks (map save_items plans) to_min = Inr masks" and "length plans = length jobs"
    and "\<forall>p it. p < length jobs \<longrightarrow> it \<in> set (save_items (plans ! p)) \<longrightarrow> fqn (item_index it) = name \<longrightarrow>
      (\<exists>area dt. slice_of_rank l (int p) full = Inr area \<and> it = tensor_item name (chunk_of_area area) dt full)"
    and "\<forall>p area. p < length jobs \<longrightarrow> int p \<in> set (rank_list (mesh l)) \<longrightarrow> slice_of_rank l (int p) full = Inr area \<longrightarrow>
      (\<exists>dt. tensor_item name (chunk_of_area area) dt full \<in> set (save_items (plans ! p)))"
    and "\<forall>h. h \<in> kept masks \<longrightarrow> fqn (item_index (item_at plans h)) = name \<longrightarrow>
      (\<exists>ts. map_of (state_dict_metadata md) name = Some (Tensor_Storage ts) \<and> ts_size ts = full \<and>
        set (ts_chunks ts) = {td_chunk (the (item_data (item_at plans h))) | h. h \<in> kept masks \<and> fqn (item_index (item_at plans h)) = name})"
    and "\<forall>h. h \<in> kept masks \<longrightarrow> fqn (item_index (item_at plans h)) = name \<longrightarrow>
      (\<exists>S. stored_tensor store (name, offsets (td_chunk (the (item_data (item_at plans h))))) = Some S \<and>
        part_of X (td_chunk (the (item_data (item_at plans h)))) S)"
proof -
  let ?n = "length jobs"
  from assms(1) obtain plans finals where
    plans: "map_res (\<lambda>p. build_save_plan (int p) (job_names (jobs ! p)) (job_dict (jobs ! p))) [0..<?n] = Inr plans"
    and finals: "map_res (\<lambda>p. build_global_save_plan True to_min flatten (int p) plans) [0..<?n] = Inr finals"
    and store: "write_checkpoint (map (\<lambda>(job, plan, md). (save_items plan, job_data job)) (zip jobs finals)) = Inr store"
    and md: "md = snd (hd finals)"
    by (auto simp: save_checkpoint_def bind_res_Inr_iff)
  have len: "length plans = ?n" "length finals = ?n" using map_res_Inr_length [OF plans] map_res_Inr_length [OF finals] by simp_all
  have plan: "build_save_plan (int p) (job_names (jobs ! p)) (job_dict (jobs ! p)) = Inr (plans ! p)" if "p < ?n" for p
    using map_res_Inr_nth [OF plans, of p] that by simp
  have global: "build_global_save_plan True to_min flatten (int p) plans = Inr (fst (finals ! p), snd (finals ! p))" if "p < ?n" for p
    using map_res_Inr_nth [OF finals, of p] that by simp
  have one: "1 < length plans" "0 < ?n" using assms(2) len by linarith+
  from global_masks_of [OF global [OF one(2)] one(1)]
  obtain masks where masks: "plan_ownership_masks (map save_items plans) to_min = Inr masks" by blast
  note keep = global_plan [OF global one(1) _ masks, unfolded len]
  from assms(4) obtain tm where tm: "sliced l tm full" by (auto simp: saved_whole_def)
  note range = kept_range [OF masks, unfolded len]
  have items: "\<exists>d T area. map_of (job_dict (jobs ! p)) name = Some (DTensor d) \<and> slice_of_rank l (int p) full = Inr area \<and>
      map_of (job_data (jobs ! p)) name = Some T \<and> part_of X (chunk_of_area area) T \<and>
      (\<forall>it. it \<in> set (save_items (plans ! p)) \<and> fqn (item_index it) = name \<longrightarrow> it = tensor_item name (chunk_of_area area) (d_dtype d) full) \<and>
      tensor_item name (chunk_of_area area) (d_dtype d) full \<in> set (save_items (plans ! p))"
    if p: "p < ?n" and has: "int p \<in> set (rank_list (mesh l)) \<or> map_of (job_dict (jobs ! p)) name \<noteq> None" for p
  proof -
    from assms(4) p has have "holds_part l full X name (int p) (job_dict (jobs ! p)) (job_data (jobs ! p))"
      unfolding saved_whole_def by blast
    then obtain d T area where d: "map_of (job_dict (jobs ! p)) name = Some (DTensor d)" "d_layout d = Some l" "d_shape d = full"
        "slice_of_rank l (int p) full = Inr area" "d_local_shape d = extents (chunk_of_area area)"
      and T: "map_of (job_data (jobs ! p)) name = Some T" "part_of X (chunk_of_area area) T"
      unfolding holds_part_def by blast
    have "distinct (map fst (job_dict (jobs ! p)))" using keys p by simp
    note item = plan_item [OF plan [OF p] this tm d]
    show ?thesis using d(1,4) T item by (intro exI conjI) auto
  qed
  have named: "\<exists>dt T area. slice_of_rank l (int p) full = Inr area \<and> map_of (job_data (jobs ! p)) name = Some T \<and>
      part_of X (chunk_of_area area) T \<and> it = tensor_item name (chunk_of_area area) dt full"
    if "p < ?n" "it \<in> set (save_items (plans ! p))" "fqn (item_index it) = name" for p it
  proof -
    have "map_of (job_dict (jobs ! p)) name \<noteq> None" using plan_names [OF plan [OF that(1)] that(2)] that(3) by simp
    from items [OF that(1) disjI2 [OF this]] that(2,3) show ?thesis by blast
  qed
  have tensors: "item_type (item_at plans h) = TENSOR \<and> item_data (item_at plans h) \<noteq> None \<and>
      td_size (the (item_data (item_at plans h))) = full"
    if "h \<in> kept masks" "fqn (item_index (item_at plans h)) = name" for h
    using named [OF range(1,3) that(2)] that(1) by (auto simp: tensor_item_def)
  show thesis
  proof (rule that [OF masks len(1)]; intro allI impI)
    fix p it assume "p < ?n" "it \<in> set (save_items (plans ! p))" "fqn (item_index it) = name"
    from named [OF this] show "\<exists>area dt. slice_of_rank l (int p) full = Inr area \<and> it = tensor_item name (chunk_of_area area) dt full"
      by blast
  next
    fix p area assume "p < ?n" "int p \<in> set (rank_list (mesh l))" "slice_of_rank l (int p) full = Inr area"
    with items [of p] show "\<exists>dt. tensor_item name (chunk_of_area area) dt full \<in> set (save_items (plans ! p))" by auto
  next
    fix h assume h: "h \<in> kept masks" "fqn (item_index (item_at plans h)) = name"
    have "md = snd (finals ! 0)" using md len(2) one(2) by (cases finals) auto
    with keep(3) [OF one(2) one(2) h(1) _ h(2)] tensors [OF h] obtain ts where
      ts: "map_of (state_dict_metadata md) name = Some (Tensor_Storage ts)" "ts_size ts = full"
        "set (ts_chunks ts) = {td_chunk (the (item_data (item_at plans h))) | h. h \<in> kept masks \<and>
          item_type (item_at plans h) = TENSOR \<and> fqn (item_index (item_at plans h)) = name}" by auto
    have same: "h \<in> kept masks \<and> item_type (item_at plans h) = TENSOR \<and> fqn (item_index (item_at plans h)) = name \<longleftrightarrow>
        h \<in> kept masks \<and> fqn (item_index (item_at plans h)) = name" for h
      using tensors by blast
    show "\<exists>ts. map_of (state_dict_metadata md) name = Some (Tensor_Storage ts) \<and> ts_size ts = full \<and>
        set (ts_chunks ts) = {td_chunk (the (item_data (item_at plans h))) | h. h \<in> kept masks \<and> fqn (item_index (item_at plans h)) = name}"
      using ts unfolding same by blast
    show "\<exists>S. stored_tensor store (name, offsets (td_chunk (the (item_data (item_at plans h))))) = Some S \<and>
        part_of X (td_chunk (the (item_data (item_at plans h)))) S"
    proof -
      obtain p i where p: "h = (p, i)" by (cases h)
      have pn: "p < ?n" using range(1) [OF h(1)] p by simp
      define written where "written = map (\<lambda>(job, plan, md). (save_items plan, job_data job)) (zip jobs finals)"
      have mem: "(items, v) \<in> set written \<longleftrightarrow> (\<exists>p < ?n. v = job_data (jobs ! p) \<and> items = save_items (fst (finals ! p)))" for v items
      proof -
        have "set (zip jobs finals) = (\<lambda>p. (jobs ! p, finals ! p)) ` {..<?n}" by (auto simp: set_zip len)
        then show ?thesis by (auto simp: written_def case_prod_beta image_image)
      qed
      from keep(2) [OF pn pn, of i] h(1) p obtain it where it: "it \<in> set (save_items (fst (finals ! p)))" "strip it = strip (item_at plans h)" by blast
      have key: "index_key (item_index it) = index_key (item_index (item_at plans h))" "item_type it = TENSOR" "item_data it \<noteq> None"
        using it(2) tensors [OF h] by (auto simp: strip_def)
      have same: "h' = h" if "h' \<in> kept masks" "strip x = strip (item_at plans h')" "index_key (item_index x) = index_key (item_index it)" for h' x
        using kept_unique [OF masks h(1) that(1)] that(2,3) key(1) by (simp add: strip_def)
      have no_bytes: "index_key (item_index x) \<noteq> index_key (item_index it)"
        if "(items, v) \<in> set written" "x \<in> set items" "item_type x = BYTE_IO" for items v x
      proof
        assume k: "index_key (item_index x) = index_key (item_index it)"
        from that(1) obtain p' where p': "p' < ?n" "items = save_items (fst (finals ! p'))" unfolding mem by blast
        with that(2) have x: "x \<in> set (save_items (fst (finals ! p')))" by simp
        from keep(1) [OF p'(1) p'(1) x] obtain i' where i': "(p', i') \<in> kept masks" "strip x = strip (item_at plans (p', i'))" by blast
        from same [OF i' k] i'(2) tensors [OF h] that(3) show False by (simp add: strip_def)
      qed
      have "(save_items (fst (finals ! p)), job_data (jobs ! p)) \<in> set written" unfolding mem using pn by blast
      moreover have "\<forall>items v x. (items, v) \<in> set written \<and> x \<in> set items \<and> item_type x = BYTE_IO \<longrightarrow>
          index_key (item_index x) \<noteq> index_key (item_index it)" using no_bytes by blast
      ultimately have "\<exists>items' vals' it'. (items', vals') \<in> set written \<and> it' \<in> set items' \<and> item_type it' = TENSOR \<and>
          index_key (item_index it') = index_key (item_index it) \<and>
          (\<exists>S. map_of vals' (fqn (item_index it')) = Some S \<and> stored_tensor store (index_key (item_index it)) = Some S)"
        using written_lookup [OF store [folded written_def] _ it(1) key(2,3)] by simp
      then obtain items w it' S where
        w: "(items, w) \<in> set written" "it' \<in> set items" "index_key (item_index it') = index_key (item_index it)"
          "map_of w (fqn (item_index it')) = Some S" "stored_tensor store (index_key (item_index it)) = Some S" by blast
      from w(1) obtain p' where p': "p' < ?n" "w = job_data (jobs ! p')" "items = save_items (fst (finals ! p'))" unfolding mem by blast
      with w(2) have x: "it' \<in> set (save_items (fst (finals ! p')))" by simp
      from keep(1) [OF p'(1) p'(1) x] obtain i' where i': "(p', i') \<in> kept masks" "strip it' = strip (item_at plans (p', i'))" by blast
      from same [OF i' w(3)] p have "p' = p" by simp
      moreover from named [OF range(1,3) [OF h(1)] h(2)] obtain dt T area where t: "map_of (job_data (jobs ! fst h)) name = Some T"
        "part_of X (chunk_of_area area) T" "item_at plans h = tensor_item name (chunk_of_area area) dt full" by blast
      moreover have "fqn (item_index it') = name" using w(3) key(1) h(2) by (simp add: index_key_def)
      ultimately have "S = T" using w(4) p'(2) p by simp
      then show ?thesis using w(5) key(1) t by (simp add: index_key_def tensor_item_def)
    qed
  qed
qed

section \<open>The reads of a rank\<close>

lemma read_item_total:
  assumes "length (offsets lc) = length (extents lc)" and "length (offsets sc) = length (extents sc)" and "length (extents sc) = length (extents lc)"
  shows "\<exists>f. (\<forall>os. dest_offsets (f os) = map (\<lambda>((a, b), o'). a - o') (zip os (offsets lc)) \<and> lengths (f os) = map (\<lambda>(a, b). b - a) os) \<and>
    read_item_for name bc (i, lc) (j, sc) = Inr (map_option f (intersect_axes (zip (area_of lc) (area_of sc))))"
  using assms by (simp add: read_item_for_def chunk_to_area_def infer_intersection_def area_of_def del: map_option.compositionality)
    (intro exI conjI allI, rule_tac [3] refl, simp_all)

lemma read_item_overlap:
  assumes "read_item_for name bc (i, lc) (j, sc) = Inr (Some it)"
  shows "length (area_of sc) = length (area_of lc)"
    and "\<exists>os. intersect_axes (zip (area_of lc) (area_of sc)) = Some os \<and>
      dest_offsets it = map (\<lambda>((a, b), o'). a - o') (zip os (offsets lc)) \<and> lengths it = map (\<lambda>(a, b). b - a) os"
  using assms
  by (auto simp: read_item_for_def chunk_to_area_def infer_intersection_def area_of_def bind_res_Inr_iff split: if_splits)

text \<open>The read fixes the overlap, so it lies in every stored chunk that the read may come from.\<close>

lemma read_same:
  assumes "read_item_for name bc (i, lc) (j, sc) = Inr (Some it)" and "read_item_for name bc' (i', lc) (j', sc') = Inr (Some it)"
    and "length (offsets lc) = length (extents lc)" and "list_all2 within g (area_of lc)" and "list_all2 within g (area_of sc)"
  shows "list_all2 within g (area_of sc')"
proof -
  have d: "length (area_of lc) = length (extents lc)" using assms(3) by (simp add: area_of_def)
  from read_item_overlap [OF assms(1)] obtain os where os: "length (area_of lc) = length (area_of sc)"
    "intersect_axes (zip (area_of lc) (area_of sc)) = Some os" "dest_offsets it = map (\<lambda>((a, b), o'). a - o') (zip os (offsets lc))"
    "lengths it = map (\<lambda>(a, b). b - a) os" by auto
  from read_item_overlap [OF assms(2)] obtain os' where os': "length (area_of lc) = length (area_of sc')"
    "intersect_axes (zip (area_of lc) (area_of sc')) = Some os'" "dest_offsets it = map (\<lambda>((a, b), o'). a - o') (zip os' (offsets lc))"
    "lengths it = map (\<lambda>(a, b). b - a) os'" by auto
  have len: "length os = length (extents lc)" "length os' = length (extents lc)"
    using intersect_some [OF os(1,2)] intersect_some [OF os'(1,2)] d by simp_all
  have "os = os'"
  proof (rule nth_equalityI)
    fix k assume k: "k < length os"
    have "dest_offsets it ! k = fst (os ! k) - offsets lc ! k" "dest_offsets it ! k = fst (os' ! k) - offsets lc ! k"
      by (subst os(3), use k len assms(3) in \<open>simp add: case_prod_beta\<close>)
        (subst os'(3), use k len assms(3) in \<open>simp add: case_prod_beta\<close>)
    moreover have "lengths it ! k = snd (os ! k) - fst (os ! k)" "lengths it ! k = snd (os' ! k) - fst (os' ! k)"
      by (subst os(4), use k len in \<open>simp add: case_prod_beta\<close>) (subst os'(4), use k len in \<open>simp add: case_prod_beta\<close>)
    ultimately show "os ! k = os' ! k" by (simp add: prod_eq_iff)
  qed (simp add: len)
  then have "list_all2 within g os'" using assms(4,5) within_overlap [OF os(1,2)] by simp
  then show ?thesis using within_overlap [OF os'(1,2)] by simp
qed

lemma read_items_succeed:
  assumes "map_of (state_dict_metadata md) name = Some (Tensor_Storage ts)" and "ts_size ts = d_shape d"
    and "sliced l tm full" and "d_layout d = Some l" and "slice_of_rank l q (d_shape d) = Inr area"
    and chunks: "\<forall>sc \<in> set (ts_chunks ts). length (offsets sc) = length (extents sc) \<and> length (extents sc) = length area"
  shows "\<exists>its. read_items_of allow q md name (DTensor d) = Inr its \<and>
    set its = {it. \<exists>j sc. (j, sc) \<in> set (enum (ts_chunks ts)) \<and>
      read_item_for name (d_device d \<noteq> ''cpu'') (0, chunk_of_area area) (j, sc) = Inr (Some it)}"
proof -
  let ?f = "read_item_for name (d_device d \<noteq> ''cpu'') (0, chunk_of_area area)"
  have q: "q \<in> set (rank_list (mesh l))" by (rule slice_rank_mem [OF assms(5)])
  then have create: "create_chunk_list q (DTensor d) = Inr [chunk_of_area area]"
    using assms(3-5) by (simp add: create_chunk_list_def sliced_def chunk_of_area_def)
  have "\<exists>v. ?f x = Inr v" if "x \<in> set (enum (ts_chunks ts))" for x
  proof -
    obtain j sc where x: "x = (j, sc)" by (cases x)
    with that have "sc \<in> set (ts_chunks ts)" by (auto simp: enum_def dest: set_zip_rightD)
    with read_item_total [of "chunk_of_area area" sc name "d_device d \<noteq> ''cpu''" 0 j] chunks show ?thesis unfolding x by auto
  qed
  then obtain g where "\<forall>x \<in> set (enum (ts_chunks ts)). ?f x = Inr (g x)" by metis
  then have ms: "map_res ?f (enum (ts_chunks ts)) = Inr (map g (enum (ts_chunks ts)))" by (intro map_res_total) simp
  then have "create_read_items name ts [chunk_of_area area] (d_device d \<noteq> ''cpu'') = Inr (somes (map g (enum (ts_chunks ts))))"
    by (simp add: create_read_items_def enum_def py_range_def)
  with assms(1,2,4) q create have "read_items_of allow q md name (DTensor d) = Inr (somes (map g (enum (ts_chunks ts))))"
    by (simp add: read_items_of_def rank_owns_dtensor_shard_def is_on_host_def obj_size_def)
  with map_res_somes [OF ms] show ?thesis by auto
qed

lemma reads_of_name:
  assumes "save_checkpoint to_min flatten jobs = Inr (store, md)" and "1 < length jobs"
    and "\<forall>job \<in> set jobs. distinct (map fst (job_dict job))" and "saved_whole jobs name l full X"
    and "sliced lb tmb full" and "d_layout d = Some lb" and "d_shape d = full" and area: "slice_of_rank lb q full = Inr area"
  shows "\<exists>its. read_items_of allow q md name (DTensor d) = Inr its \<and>
    (\<forall>it \<in> set its. \<exists>sc. reads_chunk X store name (chunk_of_area area) it sc) \<and>
    (\<forall>g. list_all2 within g area \<longrightarrow>
      (\<exists>it \<in> set its. \<forall>sc. reads_chunk X store name (chunk_of_area area) it sc \<longrightarrow> list_all2 within g (area_of sc)))"
proof -
  let ?lc = "chunk_of_area area" and ?bc = "d_device d \<noteq> ''cpu''"
  obtain plans masks where
    masks: "plan_ownership_masks (map save_items plans) to_min = Inr masks" and len: "length plans = length jobs"
    and items: "\<forall>p it. p < length jobs \<longrightarrow> it \<in> set (save_items (plans ! p)) \<longrightarrow> fqn (item_index it) = name \<longrightarrow>
      (\<exists>area dt. slice_of_rank l (int p) full = Inr area \<and> it = tensor_item name (chunk_of_area area) dt full)"
    and holders: "\<forall>p area. p < length jobs \<longrightarrow> int p \<in> set (rank_list (mesh l)) \<longrightarrow> slice_of_rank l (int p) full = Inr area \<longrightarrow>
      (\<exists>dt. tensor_item name (chunk_of_area area) dt full \<in> set (save_items (plans ! p)))"
    and meta: "\<forall>h. h \<in> kept masks \<longrightarrow> fqn (item_index (item_at plans h)) = name \<longrightarrow>
      (\<exists>ts. map_of (state_dict_metadata md) name = Some (Tensor_Storage ts) \<and> ts_size ts = full \<and>
        set (ts_chunks ts) = {td_chunk (the (item_data (item_at plans h))) | h. h \<in> kept masks \<and> fqn (item_index (item_at plans h)) = name})"
    and stored: "\<forall>h. h \<in> kept masks \<longrightarrow> fqn (item_index (item_at plans h)) = name \<longrightarrow>
      (\<exists>S. stored_tensor store (name, offsets (td_chunk (the (item_data (item_at plans h))))) = Some S \<and>
        part_of X (td_chunk (the (item_data (item_at plans h)))) S)"
    by (rule saved_items [OF assms(1-4)]) (rule that, assumption+)
  from assms(4) obtain tm where tm: "sliced l tm full" "\<And>p. p \<in> set (rank_list (mesh l)) \<Longrightarrow> 0 \<le> p \<and> p < int (length jobs)"
    by (auto simp: saved_whole_def)
  have slice: "\<exists>area. slice_of_rank l (int p) full = Inr area \<and> length area = length full" if "int p \<in> set (rank_list (mesh l))" for p
    using rank_slice [OF tm(1) that] by blast
  have "rank_list (mesh l) \<noteq> []"
  proof -
    have "0 < prod_list (mesh_sizes l)"
      using tm(1) by (intro prod_list_pos) (simp add: sliced_def well_mapped_def)
    with tm(1) show ?thesis by (auto simp: sliced_def)
  qed
  then have "hd (rank_list (mesh l)) \<in> set (rank_list (mesh l))" by simp
  with tm(2) [OF this] obtain p0 where p0: "p0 < length jobs" "int p0 \<in> set (rank_list (mesh l))"
    by (metis zero_le_imp_eq_int of_nat_less_iff)
  from slice [OF p0(2)] obtain area0 where "slice_of_rank l (int p0) full = Inr area0" by blast
  with holders p0 obtain dt where dt: "tensor_item name (chunk_of_area area0) dt full \<in> set (save_items (plans ! p0))" by blast
  with owner_of [OF masks _ dt] p0(1) len obtain h0 where "h0 \<in> kept masks" "fqn (item_index (item_at plans h0)) = name"
    by (auto simp: index_key_def tensor_item_def)
  with meta obtain ts where ts: "map_of (state_dict_metadata md) name = Some (Tensor_Storage ts)" "ts_size ts = full"
    "set (ts_chunks ts) = {td_chunk (the (item_data (item_at plans h))) | h. h \<in> kept masks \<and> fqn (item_index (item_at plans h)) = name}" by blast
  have ranks: "length area = length full" "\<And>g. list_all2 within g area \<Longrightarrow> in_tensor full g"
    using rank_slice [OF assms(5) slice_rank_mem [OF area]] area by auto
  have chunk: "\<exists>area. td_chunk (the (item_data (item_at plans h))) = chunk_of_area area \<and> length area = length full"
    if h: "h \<in> kept masks" "fqn (item_index (item_at plans h)) = name" for h
  proof -
    from items kept_range [OF masks h(1)] h(2) len obtain p area dt where
      it: "slice_of_rank l (int p) full = Inr area" "item_at plans h = tensor_item name (chunk_of_area area) dt full" by metis
    have "int p \<in> set (rank_list (mesh l))" by (rule slice_rank_mem [OF it(1)])
    from slice [OF this] it show ?thesis by (auto simp: tensor_item_def)
  qed
  have lens: "\<forall>sc \<in> set (ts_chunks ts). length (offsets sc) = length (extents sc) \<and> length (extents sc) = length area"
    using chunk ranks(1) unfolding ts(3) by fastforce
  have "ts_size ts = d_shape d" "slice_of_rank lb q (d_shape d) = Inr area" using ts(2) assms(7) area by simp_all
  from read_items_succeed [OF ts(1) this(1) assms(5,6) this(2) lens, of allow] obtain its where
    its: "read_items_of allow q md name (DTensor d) = Inr its"
      "set its = {it. \<exists>j sc. (j, sc) \<in> set (enum (ts_chunks ts)) \<and> read_item_for name ?bc (0, ?lc) (j, sc) = Inr (Some it)}" by blast
  have "\<exists>sc. reads_chunk X store name ?lc it sc" if "it \<in> set its" for it
  proof -
    from that its(2) obtain j sc where sc: "(j, sc) \<in> set (enum (ts_chunks ts))" "read_item_for name ?bc (0, ?lc) (j, sc) = Inr (Some it)" by blast
    then have mem: "sc \<in> set (ts_chunks ts)" by (auto simp: enum_def dest: set_zip_rightD)
    with ts(3) obtain h where "h \<in> kept masks" "fqn (item_index (item_at plans h)) = name" "sc = td_chunk (the (item_data (item_at plans h)))" by blast
    with stored obtain S where "stored_tensor store (name, offsets sc) = Some S" "part_of X sc S" by blast
    with sc(2) lens mem show ?thesis unfolding reads_chunk_def by blast
  qed
  moreover have "\<exists>it \<in> set its. \<forall>sc. reads_chunk X store name ?lc it sc \<longrightarrow> list_all2 within g (area_of sc)" if g: "list_all2 within g area" for g
  proof -
    from slices_cover [OF tm(1) ranks(2) [OF g]] obtain p' area' where p': "p' \<in> set (rank_list (mesh l))"
      "slice_of_rank l p' full = Inr area'" "list_all2 within g area'" by blast
    with tm(2) obtain p where p: "p < length jobs" "p' = int p" by (metis zero_le_imp_eq_int of_nat_less_iff)
    with holders p' obtain dt where dt: "tensor_item name (chunk_of_area area') dt full \<in> set (save_items (plans ! p))" by blast
    have "p < length plans" using p len by simp
    from owner_of [OF masks this dt] area_nonempty [OF p'(3)] obtain h where
      h: "h \<in> kept masks" "fqn (item_index (item_at plans h)) = name" "td_chunk (the (item_data (item_at plans h))) = chunk_of_area area'"
      by (auto simp: index_key_def tensor_item_def)
    then have mem: "chunk_of_area area' \<in> set (ts_chunks ts)" unfolding ts(3) by (metis (mono_tags, lifting) mem_Collect_eq)
    then obtain j where j: "(j, chunk_of_area area') \<in> set (enum (ts_chunks ts))"
      by (force simp: enum_def py_range_def set_zip in_set_conv_nth)
    have len': "length area' = length area" using mem lens by auto
    from read_item_total [of ?lc "chunk_of_area area'" name ?bc 0 j] len' obtain f where
      f: "read_item_for name ?bc (0, ?lc) (j, chunk_of_area area') = Inr (map_option f (intersect_axes (zip area area')))" by auto
    have "intersect_axes (zip area area') \<noteq> None" using intersect_none [OF len' [symmetric], of g] g p'(3) by blast
    with f obtain it where it: "read_item_for name ?bc (0, ?lc) (j, chunk_of_area area') = Inr (Some it)" by auto
    have "list_all2 within g (area_of sc)" if "reads_chunk X store name ?lc it sc" for sc
      using that read_same [OF it] g p'(3) unfolding reads_chunk_def by auto
    moreover have "it \<in> set its" using its(2) it j by blast
    ultimately show ?thesis by blast
  qed
  ultimately show ?thesis using its(1) by blast
qed

section \<open>The property\<close>

text \<open>A matrix on two ranks, for the example.\<close>

definition matrix_layout :: "dim_map list \<Rightarrow> layout" where
  "matrix_layout tm =
     \<lparr>mesh = \<lparr>mesh_shape = [2], mesh_dim_names = Some [''dp''], rank_list = [0, 1], own_rank = 0\<rparr>, tensor_map = Some tm, partial = [None], alias_tensor_map = None, placements = None, ragged_shard = None\<rparr>"

definition matrix_entries :: "int list \<Rightarrow> int" where
  "matrix_entries idx = 10 * hd idx + last idx"

definition matrix_entry :: "dim_map list \<Rightarrow> int list \<Rightarrow> dtensor" where
  "matrix_entry tm dims =
     \<lparr>d_layout = Some (matrix_layout tm), d_shape = [2, 2], d_local_shape = dims, d_dtype = ''float32'', d_device = ''npu''\<rparr>"

definition zero_matrix :: "int list \<Rightarrow> int tensor" where
  "zero_matrix dims = \<lparr>t_shape = dims, t_at = (\<lambda>idx. 0)\<rparr>"

definition row_job :: "int \<Rightarrow> int job" where
  "row_job p =
     \<lparr>job_names = None, job_dict = [(''w'', DTensor (matrix_entry [One 0, One (-1)] [1, 2]))],
      job_data = [(''w'', \<lparr>t_shape = [1, 2], t_at = (\<lambda>idx. matrix_entries (shifted [p, 0] idx))\<rparr>)]\<rparr>"

lemma resharded_load:
  assumes "save_checkpoint to_min flatten jobs = Inr (store, md)" and "1 < length jobs"
    and "\<forall>job \<in> set jobs. distinct (map fst (job_dict job))"
    and "distinct (map fst target)"
    and each: "\<forall>name \<in> set (map fst target). \<exists>l lb tm full. saved_whole jobs name l full (X name) \<and>
      sliced lb tm full \<and> holds_part lb full (Y name) name q target bufs"
  shows "\<exists>its. build_load_plan allow q md target = Inr its \<and>
    (\<forall>its'. set its' = set its \<longrightarrow> (\<exists>bufs'. for_res (load_item store) its' bufs = Inr bufs' \<and>
      (\<forall>name lb full. holds_part lb full (Y name) name q target bufs \<longrightarrow> holds_part lb full (X name) name q target bufs')))"
proof -
  let ?P = "\<lambda>name d area its. map_of target name = Some (DTensor d) \<and>
     (\<exists>lb. d_layout d = Some lb \<and> slice_of_rank lb q (d_shape d) = Inr area) \<and> d_local_shape d = extents (chunk_of_area area) \<and>
     (\<exists>T. map_of bufs name = Some T \<and> t_shape T = extents (chunk_of_area area)) \<and>
     read_items_of allow q md name (DTensor d) = Inr its \<and>
     (\<forall>it \<in> set its. \<exists>sc. reads_chunk (X name) store name (chunk_of_area area) it sc) \<and>
     (\<forall>g. list_all2 within g area \<longrightarrow>
       (\<exists>it \<in> set its. \<forall>sc. reads_chunk (X name) store name (chunk_of_area area) it sc \<longrightarrow> list_all2 within g (area_of sc)))"
  have "\<forall>name \<in> set (map fst target). \<exists>v. case v of (d, area, its) \<Rightarrow> ?P name d area its"
  proof
    fix name assume "name \<in> set (map fst target)"
    with each obtain l lb tm full where name: "saved_whole jobs name l full (X name)" "sliced lb tm full"
      "holds_part lb full (Y name) name q target bufs" by blast
    from name(3) obtain d T area where d: "map_of target name = Some (DTensor d)" "d_layout d = Some lb" "d_shape d = full"
      "slice_of_rank lb q full = Inr area" "d_local_shape d = extents (chunk_of_area area)" "map_of bufs name = Some T"
      "part_of (Y name) (chunk_of_area area) T" unfolding holds_part_def by blast
    from reads_of_name [OF assms(1-3) name(1,2) d(2-4), of allow] obtain its where its: "read_items_of allow q md name (DTensor d) = Inr its"
      "\<forall>it \<in> set its. \<exists>sc. reads_chunk (X name) store name (chunk_of_area area) it sc"
      "\<forall>g. list_all2 within g area \<longrightarrow>
       (\<exists>it \<in> set its. \<forall>sc. reads_chunk (X name) store name (chunk_of_area area) it sc \<longrightarrow> list_all2 within g (area_of sc))" by blast
    have "\<exists>T. map_of bufs name = Some T \<and> t_shape T = extents (chunk_of_area area)" using d(6,7) by (simp add: part_of_def)
    with d its have "?P name d area its" by blast
    then show "\<exists>v. case v of (d, area, its) \<Rightarrow> ?P name d area its" by (intro exI [of _ "(d, area, its)"]) simp
  qed
  from bchoice [OF this] obtain F where F: "\<forall>name \<in> set (map fst target). case F name of (d, area, its) \<Rightarrow> ?P name d area its" by blast
  define area where "area name = fst (snd (F name))" for name
  define reads where "reads name = snd (snd (F name))" for name
  define dt where "dt name = fst (F name)" for name
  have P: "?P name (dt name) (area name) (reads name)" if "name \<in> set (map fst target)" for name
    using F that unfolding area_def reads_def dt_def by (auto simp: case_prod_beta)
  define lc where "lc name = chunk_of_area (area name)" for name
  define its where "its = concat (map (\<lambda>(name, obj). reads name) target)"
  have "read_items_of allow q md (fst x) (snd x) = Inr (reads (fst x))" if x: "x \<in> set target" for x
  proof -
    have "fst x \<in> set (map fst target)" using x by simp
    moreover have "map_of target (fst x) = Some (snd x)" using x assms(4) by (simp add: map_of_eq_Some_iff)
    ultimately show ?thesis using P [of "fst x"] by simp
  qed
  then have "map_res (\<lambda>(name, obj). read_items_of allow q md name obj) target = Inr (map (\<lambda>(name, obj). reads name) target)"
    by (intro map_res_total) (simp add: case_prod_beta)
  then have build: "build_load_plan allow q md target = Inr its" by (simp add: build_load_plan_def its_def)
  have of_name: "\<exists>name \<in> set (map fst target). it \<in> set (reads name) \<and> fqn (dest_index it) = name" if "it \<in> set its" for it
  proof -
    from that obtain name where "name \<in> set (map fst target)" "it \<in> set (reads name)" by (force simp: its_def)
    with P [OF this(1)] read_name show ?thesis by blast
  qed
  have ok: "target_ok bufs name (lc name)" if "name \<in> set (map fst target)" for name
    using P [OF that] by (auto simp: target_ok_def lc_def)
  have "\<exists>bufs'. for_res (load_item store) its' bufs = Inr bufs' \<and>
      (\<forall>name lb full. holds_part lb full (Y name) name q target bufs \<longrightarrow> holds_part lb full (X name) name q target bufs')"
    if same: "set its' = set its" for its'
  proof -
    have "\<forall>it \<in> set its'. \<exists>sc. let n = fqn (dest_index it) in reads_chunk (X n) store n (lc n) it sc"
    proof
      fix it assume "it \<in> set its'"
      with same of_name obtain name where "name \<in> set (map fst target)" "it \<in> set (reads name)" "fqn (dest_index it) = name" by blast
      with P [OF this(1)] show "\<exists>sc. let n = fqn (dest_index it) in reads_chunk (X n) store n (lc n) it sc" by (auto simp: lc_def Let_def)
    qed
    moreover have "\<forall>it \<in> set its'. target_ok bufs (fqn (dest_index it)) (lc (fqn (dest_index it)))" using same of_name ok by blast
    ultimately have "\<exists>bufs'. for_res (load_item store) its' bufs = Inr bufs' \<and>
    (\<forall>n. target_ok bufs n (lc n) \<and> (\<forall>g. list_all2 within g (area_of (lc n)) \<longrightarrow>
          (\<exists>it \<in> set its'. fqn (dest_index it) = n \<and> (\<forall>sc. reads_chunk (X n) store n (lc n) it sc \<longrightarrow> list_all2 within g (area_of sc))))
       \<longrightarrow> (\<exists>T'. map_of bufs' n = Some T' \<and> part_of (X n) (lc n) T'))" by (rule reads_fill)
    then obtain bufs' where run: "for_res (load_item store) its' bufs = Inr bufs'"
      and fill: "\<And>n. target_ok bufs n (lc n) \<Longrightarrow> (\<forall>g. list_all2 within g (area_of (lc n)) \<longrightarrow>
          (\<exists>it \<in> set its'. fqn (dest_index it) = n \<and> (\<forall>sc. reads_chunk (X n) store n (lc n) it sc \<longrightarrow> list_all2 within g (area_of sc))))
       \<Longrightarrow> \<exists>T'. map_of bufs' n = Some T' \<and> part_of (X n) (lc n) T'" by (elim exE conjE) (rule that, assumption, simp)
    have "holds_part lb full (X name) name q target bufs'" if held: "holds_part lb full (Y name) name q target bufs" for name lb full
    proof -
      from held obtain d ar where d: "map_of target name = Some (DTensor d)" "d_layout d = Some lb" "d_shape d = full"
        "slice_of_rank lb q full = Inr ar" "d_local_shape d = extents (chunk_of_area ar)" unfolding holds_part_def by blast
      from d(1) have t: "name \<in> set (map fst target)" by (force dest: map_of_SomeD)
      have "dt name = d" "area name = ar" using P [OF t] d by auto
      have "\<exists>it \<in> set its'. fqn (dest_index it) = name \<and> (\<forall>sc. reads_chunk (X name) store name (lc name) it sc \<longrightarrow> list_all2 within g (area_of sc))"
        if "list_all2 within g (area_of (lc name))" for g
      proof -
        from that P [OF t] obtain it where it: "it \<in> set (reads name)"
          "\<forall>sc. reads_chunk (X name) store name (lc name) it sc \<longrightarrow> list_all2 within g (area_of sc)" unfolding lc_def area_of_chunk by blast
        from it(1) P [OF t] read_name have "fqn (dest_index it) = name" by blast
        moreover have "it \<in> set its'" using it(1) t same by (force simp: its_def)
        ultimately show ?thesis using it(2) by blast
      qed
      with fill [OF ok [OF t]] obtain T' where "map_of bufs' name = Some T'" "part_of (X name) (lc name) T'" by blast
      with d \<open>area name = ar\<close> show ?thesis unfolding holds_part_def lc_def by blast
    qed
    with run show ?thesis by blast
  qed
  with build show ?thesis by blast
qed

text \<open>
  C3: A save under any layouts and a load under any others return the tensors that were saved: if every
  rank saves its slices, the global plan of every rank succeeds and the chosen items are written, then the
  load plan of every rank is found, and its reads, in any order, fill each of its local tensors with its slice
  under the layout of the load.
\<close>

theorem checkpoint_reshard_correct:
  assumes "save_checkpoint to_min flatten jobs = Inr (store, md)" and "1 < length jobs"
    and "\<forall>job \<in> set jobs. distinct (map fst (job_dict job))"
    and "distinct (map fst target)"
    and "\<forall>name \<in> set (map fst target). \<exists>l lb tm full. saved_whole jobs name l full (X name) \<and>
      sliced lb tm full \<and> holds_part lb full (Y name) name q target bufs"
  shows "\<exists>its. build_load_plan allow q md target = Inr its \<and>
    (\<forall>its'. set its' = set its \<longrightarrow> (\<exists>bufs'. for_res (load_item store) its' bufs = Inr bufs' \<and>
      (\<forall>name lb full. holds_part lb full (Y name) name q target bufs \<longrightarrow> holds_part lb full (X name) name q target bufs')))"
  using assms by (rule resharded_load)

text \<open>A matrix is saved by rows on two ranks; rank 1 loads its column.\<close>

theorem checkpoint_reshard_correct_witness:
  "\<exists>store md its bufs'. save_checkpoint False False (map row_job [0, 1]) = Inr (store, md) \<and>
     build_load_plan False 1 md [(''w'', DTensor (matrix_entry [One (-1), One 0] [2, 1]))] = Inr its \<and>
     for_res (load_item store) (rev its) [(''w'', zero_matrix [2, 1])] = Inr bufs' \<and>
     holds_part (matrix_layout [One (-1), One 0]) [2, 2] matrix_entries ''w'' 1
       [(''w'', DTensor (matrix_entry [One (-1), One 0] [2, 1]))] bufs'"
proof -
  let ?jobs = "map row_job [0, 1]" and ?target = "[(''w'', DTensor (matrix_entry [One (-1), One 0] [2, 1]))]"
  let ?A = "matrix_layout [One 0, One (-1)]" and ?B = "matrix_layout [One (-1), One 0]"
  have "\<not> isl (save_checkpoint False False ?jobs)" by code_simp
  then obtain store md where save: "save_checkpoint False False ?jobs = Inr (store, md)"
    by (cases "save_checkpoint False False ?jobs") auto
  have slices: "slice_of_rank ?A 0 [2, 2] = Inr [(0, 1), (0, 2)]" "slice_of_rank ?A 1 [2, 2] = Inr [(1, 2), (0, 2)]"
    "slice_of_rank ?B 1 [2, 2] = Inr [(0, 2), (1, 2)]" by code_simp+
  have sliced: "sliced ?A [One 0, One (-1)] [2, 2]" "sliced ?B [One (-1), One 0] [2, 2]"
    by (simp_all add: sliced_def matrix_layout_def mesh_sizes_def well_mapped_def axes_of_def)
  have "holds_part ?A [2, 2] matrix_entries ''w'' (int p) (job_dict (?jobs ! p)) (job_data (?jobs ! p))" if "p < 2" for p
    using that slices
    by (auto simp: less_Suc_eq numeral_2_eq_2 holds_part_def row_job_def matrix_entry_def part_of_def)
  then have whole: "saved_whole ?jobs ''w'' ?A [2, 2] matrix_entries"
    using sliced(1) by (auto simp: saved_whole_def matrix_layout_def)
  have held: "holds_part ?B [2, 2] (\<lambda>_. 0) ''w'' 1 ?target [(''w'', zero_matrix [2, 1])]"
    using slices(3) by (simp add: holds_part_def matrix_entry_def zero_matrix_def part_of_def)
  have keys: "\<forall>job \<in> set ?jobs. distinct (map fst (job_dict job))" by (simp add: row_job_def)
  have "\<forall>name \<in> set (map fst ?target). \<exists>l lb tm full. saved_whole ?jobs name l full matrix_entries \<and>
      sliced lb tm full \<and> holds_part lb full (\<lambda>_. 0) name 1 ?target [(''w'', zero_matrix [2, 1])]"
    using whole sliced(2) held by auto
  from checkpoint_reshard_correct [OF save _ keys _ this, of False] obtain its where
    its: "build_load_plan False 1 md ?target = Inr its" and run: "\<And>its'. set its' = set its \<Longrightarrow>
      \<exists>bufs'. for_res (load_item store) its' [(''w'', zero_matrix [2, 1])] = Inr bufs' \<and>
      (\<forall>name lb full. holds_part lb full (\<lambda>_. 0) name 1 ?target [(''w'', zero_matrix [2, 1])] \<longrightarrow>
        holds_part lb full matrix_entries name 1 ?target bufs')" by auto
  from run [of "rev its"] held obtain bufs' where "for_res (load_item store) (rev its) [(''w'', zero_matrix [2, 1])] = Inr bufs'"
    "holds_part ?B [2, 2] matrix_entries ''w'' 1 ?target bufs'" by auto
  with save its show ?thesis by blast
qed

end
