(* ===== verification/Ragged_Boxes.thy ===== *)
theory Ragged_Boxes
  imports Checkpoint_Plan Mesh_Layout
begin

text \<open>
  The boxes of a ragged shard (\<open>_decompose_flat_interval\<close> and \<open>compute_ragged_boxes\<close> in ragged.py): one after
  the other, each in row-major order, they list the flat interval of the shard, so the part of the
  local storage that a box is given holds its elements.
\<close>

section \<open>Cells of a box\<close>

text \<open>The flat indices of a box in the order of its own storage.\<close>

definition cells :: "int list \<Rightarrow> int list \<times> int list \<Rightarrow> int list" where
  "cells dims box = map (\<lambda>idx. row_major dims (map2 (+) (fst box) idx)) (ndindex (snd box))"

lemma length_ndindex: "idx \<in> set (ndindex ns) \<Longrightarrow> length idx = length ns"
  by (induction ns arbitrary: idx) auto

lemma py_range_shift: "map ((+) c) (py_range a b) = py_range (c + a) (c + b)"
  by (rule nth_equalityI) (simp_all add: nth_py_range)

lemma py_range_split: "a \<le> b \<Longrightarrow> b \<le> c \<Longrightarrow> py_range a b @ py_range b c = py_range a c"
  using py_range_append by simp

text \<open>A row of blocks.\<close>

lemma block_rows:
  "0 \<le> k \<Longrightarrow> 0 \<le> w \<Longrightarrow> concat (map (\<lambda>i. py_range ((c + i) * w) ((c + i) * w + w)) (py_range 0 k)) = py_range (c * w) ((c + k) * w)"
proof (induction k rule: int_ge_induct [where k = 0])
  case (step k)
  have "py_range (c * w) ((c + k) * w) @ py_range ((c + k) * w) ((c + k) * w + w) = py_range (c * w) ((c + k) * w + w)"
    using step by (intro py_range_split) (simp_all add: mult_right_mono)
  moreover have "py_range 0 (k + 1) = py_range 0 k @ [k]" using py_range_snoc [of 0 k] step(1) by simp
  ultimately show ?case using step by (simp only: map_append concat_append) (simp add: algebra_simps)
qed (simp add: py_range_empty)

lemma cells_Cons:
  "cells (n # dims) (c # os, k # ns) =
     concat (map (\<lambda>i. map ((+) ((c + i) * prod_list dims)) (cells dims (os, ns))) (py_range 0 k))"
  by (simp add: cells_def map_concat comp_def)

lemma cells_unit: "cells (n # dims) (c # os, 1 # ns) = map ((+) (c * prod_list dims)) (cells dims (os, ns))"
  unfolding cells_Cons by (simp add: py_range_Cons py_range_empty)

lemma cells_whole: "\<forall>n \<in> set dims. 0 < n \<Longrightarrow> cells dims (replicate (length dims) 0, dims) = py_range 0 (prod_list dims)"
proof (induction dims)
  case (Cons n dims)
  then have "0 < n" "0 < prod_list dims" by (auto intro: prod_list_pos)
  with Cons show ?case using block_rows [of n "prod_list dims" 0] by (simp add: cells_Cons py_range_shift add.commute)
qed (simp add: cells_def py_range_Cons py_range_empty)

lemma cells_blocks:
  assumes "\<forall>n \<in> set dims. 0 < n" and "c \<le> e"
  shows "cells (n # dims) (c # replicate (length dims) 0, (e - c) # dims) = py_range (c * prod_list dims) (e * prod_list dims)"
proof -
  have "0 < prod_list dims" using assms(1) by (rule prod_list_pos)
  with assms(2) block_rows [of "e - c" "prod_list dims" c] show ?thesis
    by (simp add: cells_Cons cells_whole [OF assms(1)] py_range_shift add.commute)
qed

section \<open>The recursion\<close>

text \<open>The offsets before the current axis only stand in front of every box.\<close>

abbreviation inside :: "int list \<Rightarrow> int list \<times> int list \<Rightarrow> int list \<times> int list" where
  "inside pre box \<equiv> (pre @ fst box, replicate (length pre) 1 @ snd box)"

lemma decompose_prefix: "decompose_axis pre dims a b = map (inside pre) (decompose_axis [] dims a b)"
proof (induction dims arbitrary: pre a b)
  case (Cons n dims)
  show ?case
  proof (cases dims)
    case (Cons m rest)
    have one: "decompose_axis (pre @ [c]) (m # rest) x y = map (inside pre) (decompose_axis [c] (m # rest) x y)" for c x y
    proof -
      have "decompose_axis (pre @ [c]) (m # rest) x y = map (inside (pre @ [c])) (decompose_axis [] (m # rest) x y)"
        using Cons.IH [of "pre @ [c]"] unfolding Cons .
      moreover have "decompose_axis [c] (m # rest) x y = map (inside [c]) (decompose_axis [] (m # rest) x y)"
        using Cons.IH [of "[c]"] unfolding Cons .
      ultimately show ?thesis by (simp add: comp_def replicate_append_same [symmetric])
    qed
    show ?thesis unfolding Cons decompose_axis.simps Let_def append_Nil one by (simp add: Let_def)
  qed simp
qed simp

text \<open>The boxes of an interval list its flat indices.\<close>

lemma decompose_cells:
  assumes "\<forall>n \<in> set dims. 0 < n" and "dims \<noteq> []" and "0 \<le> a" and "a < b" and "b \<le> prod_list dims"
  shows "concat (map (cells dims) (decompose_axis [] dims a b)) = py_range a b"
  using assms
proof (induction dims arbitrary: a b)
  case (Cons n dims)
  show ?case
  proof (cases dims)
    case Nil
    then show ?thesis using Cons.prems py_range_shift [of a 0 "b - a"] by (simp add: cells_Cons cells_def comp_def)
  next
    case (Cons m rest)
    let ?S = "prod_list dims"
    have S: "0 < ?S" using Cons.prems(1) by (intro prod_list_pos) simp
    have sub: "concat (map (cells (n # dims)) (decompose_axis [c] dims x y)) = py_range (c * ?S + x) (c * ?S + y)"
      if "0 \<le> x" "x < y" "y \<le> ?S" for c x y
    proof -
      have "concat (map (cells (n # dims)) (decompose_axis [c] dims x y)) =
          map ((+) (c * ?S)) (concat (map (cells dims) (decompose_axis [] dims x y)))"
        unfolding decompose_prefix [of "[c]"] by (simp add: comp_def cells_unit map_concat)
      also have "\<dots> = map ((+) (c * ?S)) (py_range x y)" using that Cons.prems(1) Cons by (subst Cons.IH) auto
      finally show ?thesis by (simp add: py_range_shift)
    qed
    define sb where "sb = a div ?S"
    define sr where "sr = a mod ?S"
    define eb where "eb = (b - 1) div ?S"
    define ce where "ce = b div ?S"
    define er where "er = b mod ?S"
    have a: "sb * ?S + sr = a" "0 \<le> sr" "sr < ?S" using S by (simp_all add: sb_def sr_def)
    have b: "ce * ?S + er = b" "0 \<le> er" "er < ?S" using S by (simp_all add: ce_def er_def)
    have e: "eb * ?S \<le> b - 1" "b - 1 < eb * ?S + ?S"
      using S div_mult_mod_eq [of "b - 1" ?S] pos_mod_bound [of ?S "b - 1"] pos_mod_sign [of ?S "b - 1"] unfolding eb_def by linarith+
    have unfold: "decompose_axis [] (n # dims) a b =
       (if sb = eb then decompose_axis [sb] dims sr (sr + b - a)
        else let cs = (if sr \<noteq> 0 then sb + 1 else sb)
             in (if sr \<noteq> 0 then decompose_axis [sb] dims sr ?S else []) @
                (if cs < ce then [(cs # replicate (length dims) 0, (ce - cs) # dims)] else []) @
                (if er \<noteq> 0 then decompose_axis [ce] dims 0 er else []))"
      unfolding Cons decompose_axis.simps sb_def sr_def eb_def ce_def er_def Let_def by simp
    show ?thesis
    proof (cases "sb = eb")
      case True
      have "sr + b - a \<le> ?S" "sr < sr + b - a" using a e [folded True] Cons.prems(4) by linarith+
      note sub [OF a(2) this(2,1), of sb]
      moreover have "sb * ?S + (sr + b - a) = b" using a by linarith
      ultimately have "concat (map (cells (n # dims)) (decompose_axis [sb] dims sr (sr + b - a))) = py_range a b"
        unfolding a(1) by (simp only:)
      then show ?thesis unfolding unfold using True by simp
    next
      case False
      define cs where "cs = (if sr \<noteq> 0 then sb + 1 else sb)"
      have "sb \<le> eb" unfolding sb_def eb_def using S Cons.prems(4) by (intro zdiv_mono1) simp_all
      moreover have "eb \<le> ce" unfolding eb_def ce_def using S by (intro zdiv_mono1) simp_all
      ultimately have order: "sb < ce" "cs \<le> ce" using False by (simp_all add: cs_def)
      have first: "concat (map (cells (n # dims)) (if sr \<noteq> 0 then decompose_axis [sb] dims sr ?S else [])) = py_range a (cs * ?S)"
        using sub [of sr ?S sb] a by (auto simp: cs_def algebra_simps)
      have middle: "concat (map (cells (n # dims)) (if cs < ce then [(cs # replicate (length dims) 0, (ce - cs) # dims)] else [])) =
          py_range (cs * ?S) (ce * ?S)"
        using cells_blocks [of dims cs ce n] Cons.prems(1) order by auto
      have rest: "concat (map (cells (n # dims)) (if er \<noteq> 0 then decompose_axis [ce] dims 0 er else [])) = py_range (ce * ?S) b"
        using sub [of 0 er ce] b by auto
      have "a \<le> cs * ?S" using a by (auto simp: cs_def algebra_simps)
      moreover have "cs * ?S \<le> ce * ?S" using order(2) S by simp
      moreover have "ce * ?S \<le> b" using b by linarith
      ultimately have "py_range a (cs * ?S) @ py_range (cs * ?S) (ce * ?S) @ py_range (ce * ?S) b = py_range a b"
        by (simp add: py_range_split)
      then show ?thesis unfolding unfold using False first middle rest by (simp add: cs_def [symmetric] Let_def)
    qed
  qed
qed simp

lemma decompose_sizes:
  assumes "\<forall>n \<in> set dims. 0 < n" and "a < b"
  shows "box \<in> set (decompose_axis [] dims a b) \<Longrightarrow> n \<in> set (snd box) \<Longrightarrow> 0 < n"
  using assms
proof (induction dims arbitrary: a b box)
  case (Cons k dims)
  show ?case
  proof (cases dims)
    case Nil
    then show ?thesis using Cons.prems by simp
  next
    case (Cons m rest)
    let ?S = "prod_list dims"
    have S: "0 < ?S" using Cons.prems(3) by (intro prod_list_pos) simp
    have sub: "0 < n" if "box \<in> set (decompose_axis [c] dims x y)" "x < y" for c x y
    proof -
      from that(1) obtain box' where "box' \<in> set (decompose_axis [] dims x y)" "box = inside [c] box'"
        unfolding decompose_prefix [of "[c]"] by auto
      with Cons.IH [of box' x y] that(2) Cons.prems(2,3) show ?thesis by auto
    qed
    have "a mod ?S < a mod ?S + b - a" "a mod ?S < ?S" using Cons.prems(4) S by simp_all
    moreover have "0 < b mod ?S" if "b mod ?S \<noteq> 0" using S that by (simp add: order_less_le)
    ultimately show ?thesis
      using Cons.prems(1-3) sub [of "a div ?S" "a mod ?S"] sub [of "b div ?S" 0 "b mod ?S"]
      unfolding Cons decompose_axis.simps Let_def append_Nil by (auto split: if_splits)
  qed
qed simp

section \<open>The boxes of a shard\<close>

lemma length_cells: "\<forall>n \<in> set (snd box). 0 < n \<Longrightarrow> int (length (cells dims box)) = prod_list (snd box)"
proof -
  have "\<forall>n \<in> set ns. 0 < n \<Longrightarrow> int (length (ndindex ns)) = prod_list ns" for ns
  proof (induction ns)
    case (Cons n ns)
    then show ?case by (simp add: length_concat comp_def sum_list_triv)
  qed simp
  then show "\<forall>n \<in> set (snd box). 0 < n \<Longrightarrow> ?thesis" by (simp add: cells_def)
qed

lemma consecutive_pieces:
  assumes "concat xss = py_range a b" and "a \<le> b" and "map (\<lambda>xs. int (length xs)) xss = ns"
  shows "list_all2 (\<lambda>xs (n, e). xs = py_range (a + (e - n) - c) (a + e - c)) xss (zip ns (accumulate c ns)) \<and>
    concat (map (\<lambda>(n, e). py_range (e - n) e) (zip ns (accumulate c ns))) = py_range c (c + b - a)"
  using assms
proof (induction xss arbitrary: a c ns)
  case (Cons xs xss)
  let ?n = "int (length xs)"
  from Cons.prems(3) obtain ns' where ns: "ns = ?n # ns'" "map (\<lambda>xs. int (length xs)) xss = ns'" by auto
  have "length xs \<le> length (py_range a b)" using arg_cong [OF Cons.prems(1), of length] by simp
  then have n: "?n \<le> b - a" using Cons.prems(2) by simp
  then have "py_range a b = py_range a (a + ?n) @ py_range (a + ?n) b" by (simp add: py_range_split)
  moreover have "length xs = length (py_range a (a + ?n))" by simp
  ultimately have xs: "xs = py_range a (a + ?n)" "concat xss = py_range (a + ?n) b"
    using Cons.prems(1) by (simp_all add: append_eq_append_conv)
  have "py_range c (c + ?n) @ py_range (c + ?n) (c + b - a) = py_range c (c + b - a)"
    using n Cons.prems(2) by (intro py_range_split) simp_all
  with Cons.IH [OF xs(2) _ ns(2), of "c + ?n"] n xs(1) show ?case by (simp add: ns(1) algebra_simps)
next
  case Nil
  from arg_cong [OF Nil.prems(1), of length] Nil.prems(2) have "a = b" by simp
  with Nil.prems(3) show ?case by simp
qed

lemma last_accumulate: "(if accumulate c ns = [] then c else last (accumulate c ns)) = c + sum_list ns"
  by (induction ns arbitrary: c) (auto split: if_splits)

text \<open>
  C12: A ragged shard is cut into boxes whose elements, box after box and each in row-major order, are the flat
  interval of the shard: the check that the boxes cover the local storage never fails, and the part of the
  storage that a box is given holds the elements of the box.
\<close>

theorem ragged_boxes_cover:
  assumes "ragged_shard l \<noteq> None" and "compute_ragged_slice full l None = Inr (a, b)"
    and "full \<noteq> []" and "list_all (\<lambda>n. 0 < n) full" and "0 \<le> a" and "a \<le> b" and "b \<le> prod_list full"
  shows "\<exists>boxes. compute_ragged_boxes full l = Inr boxes \<and>
    concat (map (\<lambda>box. py_range (local_flat_start box) (local_flat_end box)) boxes) = py_range 0 (b - a) \<and>
    list_all (\<lambda>box. cells full (box_offsets box, box_sizes box) = py_range (a + local_flat_start box) (a + local_flat_end box)) boxes"
proof -
  define raw where "raw = (if a = b then [] else decompose_axis [] full a b)"
  have run: "decompose_flat_interval full a b = Inr raw" using assms(3,5-7) by (simp add: decompose_flat_interval_def raw_def)
  have pos: "\<forall>n \<in> set full. 0 < n" using assms(4) by (simp add: list_all_iff)
  have all: "concat (map (cells full) raw) = py_range a b"
    using decompose_cells [OF pos assms(3,5) _ assms(7)] assms(6) by (simp add: raw_def)
  have sizes: "map (\<lambda>xs. int (length xs)) (map (cells full) raw) = map (\<lambda>(os, ns). prod_list ns) raw"
    using decompose_sizes [OF pos, of a b] assms(6) by (auto simp: raw_def length_cells case_prod_beta)
  let ?ns = "map (\<lambda>(os, ns). prod_list ns) raw" and ?mk = "\<lambda>((os, ns), e). \<lparr>box_offsets = os, box_sizes = ns,
                  local_flat_start = e - prod_list ns, local_flat_end = e\<rparr>"
  let ?boxes = "map ?mk (zip raw (accumulate 0 ?ns))"
  note pieces = consecutive_pieces [OF all assms(6) sizes, of 0]
  have total: "(if accumulate 0 ?ns = [] then 0 else last (accumulate 0 ?ns)) = b - a"
  proof -
    have "sum_list ?ns = int (length (concat (map (cells full) raw)))"
      unfolding sizes [symmetric] by (induction raw) simp_all
    then show ?thesis using assms(6) unfolding last_accumulate all by simp
  qed
  have "compute_ragged_boxes full l = Inr ?boxes"
    using assms(1,2) run total by (auto simp: compute_ragged_boxes_def Let_def local_numel_def)
  moreover have "concat (map (\<lambda>box. py_range (local_flat_start box) (local_flat_end box)) ?boxes) = py_range 0 (b - a)"
    using pieces by (simp add: zip_map1 comp_def case_prod_beta)
  moreover have "list_all (\<lambda>box. cells full (box_offsets box, box_sizes box) = py_range (a + local_flat_start box) (a + local_flat_end box)) ?boxes"
    using pieces by (auto simp: list_all2_conv_all_nth list_all_length case_prod_beta)
  ultimately show ?thesis by blast
qed

text \<open>The middle one of three ranks with 1, 3 and 2 rows of a (2, 3, 2) tensor: the rows end in the second block.\<close>

theorem ragged_boxes_cover_witness:
  "let l = \<lparr>mesh = \<lparr>mesh_shape = [3], mesh_dim_names = None, rank_list = [0, 1, 2], own_rank = 1\<rparr>, tensor_map = None, partial = [None],
        alias_tensor_map = None, placements = Some [RaggedShard [0, 1] [1, 3, 2]], ragged_shard = Some (0, RaggedShard [0, 1] [1, 3, 2])\<rparr>;
      boxes = [\<lparr>box_offsets = [0, 1, 0], box_sizes = [1, 2, 2], local_flat_start = 0, local_flat_end = 4\<rparr>,
        \<lparr>box_offsets = [1, 0, 0], box_sizes = [1, 1, 2], local_flat_start = 4, local_flat_end = 6\<rparr>]
   in compute_ragged_boxes [2, 3, 2] l = Inr boxes \<and>
      list_all (\<lambda>box. cells [2, 3, 2] (box_offsets box, box_sizes box) = py_range (2 + local_flat_start box) (2 + local_flat_end box)) boxes"
proof -
  let ?l = "\<lparr>mesh = \<lparr>mesh_shape = [3], mesh_dim_names = None, rank_list = [0, 1, 2], own_rank = 1\<rparr>, tensor_map = None, partial = [None],
        alias_tensor_map = None, placements = Some [RaggedShard [0, 1] [1, 3, 2]], ragged_shard = Some (0, RaggedShard [0, 1] [1, 3, 2])\<rparr>"
  let ?boxes = "[\<lparr>box_offsets = [0, 1, 0], box_sizes = [1, 2, 2], local_flat_start = 0, local_flat_end = 4\<rparr>,
        \<lparr>box_offsets = [1, 0, 0], box_sizes = [1, 1, 2], local_flat_start = 4, local_flat_end = 6\<rparr>]"
  have slice: "compute_ragged_slice [2, 3, 2] ?l None = Inr (2, 8)" and run: "compute_ragged_boxes [2, 3, 2] ?l = Inr ?boxes" by code_simp+
  obtain bs where "compute_ragged_boxes [2, 3, 2] ?l = Inr bs"
    "list_all (\<lambda>box. cells [2, 3, 2] (box_offsets box, box_sizes box) = py_range (2 + local_flat_start box) (2 + local_flat_end box)) bs"
    using ragged_boxes_cover [OF _ slice] by auto
  moreover from this run have "bs = ?boxes" by simp
  ultimately show ?thesis unfolding Let_def by blast
qed

end
