(* ===== verification/Broadcast_Plan.thy ===== *)
theory Broadcast_Plan
  imports Checkpoint_Load
begin

text \<open>
  Who reads a shard that several ranks load (\<open>StandardLoadPlanner.build_global_plan\<close>): the group of a shard is
  exactly the ranks that load it, its reader is one of them, and a plan without the places of its reads
  is all that a rank has to know of the others.
\<close>

section \<open>Holders of a shard\<close>

definition holder_ranks :: "shard_key \<Rightarrow> (nat \<times> read_item) list \<Rightarrow> nat set" where
  "holder_ranks k xs = {rank. \<exists>it. (rank, it) \<in> set xs \<and> read_type it = TENSOR \<and> index_key (dest_index it) = k}"

lemma note_replica_step:
  assumes "distinct (map fst reps)"
    and "\<forall>k ranks n s. map_of reps k = Some (ranks, n, s) \<longrightarrow> distinct ranks \<and> set ranks = holder_ranks k xs"
    and "\<forall>k. map_of reps k = None \<longrightarrow> holder_ranks k xs = {}"
  shows "distinct (map fst (note_replica x reps)) \<and>
    (\<forall>k ranks n s. map_of (note_replica x reps) k = Some (ranks, n, s) \<longrightarrow> distinct ranks \<and> set ranks = holder_ranks k (xs @ [x])) \<and>
    (\<forall>k. map_of (note_replica x reps) k = None \<longrightarrow> holder_ranks k (xs @ [x]) = {})"
proof -
  obtain rank it where x: "x = (rank, it)" by (cases x)
  let ?k = "index_key (dest_index it)"
  show ?thesis
  proof (cases "read_type it = TENSOR")
    case False
    have "holder_ranks k (xs @ [x]) = holder_ranks k xs" for k using False by (auto simp: holder_ranks_def x)
    moreover have "note_replica x reps = reps" using False by (simp add: note_replica_def x)
    ultimately show ?thesis using assms by simp
  next
    case True
    obtain ranks n s where old: "(case map_of reps ?k of None \<Rightarrow> ([], 0, True) | Some v \<Rightarrow> v) = (ranks, n, s)"
      by (cases "case map_of reps ?k of None \<Rightarrow> ([], 0, True) | Some v \<Rightarrow> v")
    have ranks: "distinct ranks" "set ranks = holder_ranks ?k xs"
    proof -
      have "distinct ranks \<and> set ranks = holder_ranks ?k xs"
      proof (cases "map_of reps ?k")
        case None
        then have "holder_ranks ?k xs = {}" using assms(3) by blast
        with old None show ?thesis by simp
      next
        case (Some v)
        with old have "map_of reps ?k = Some (ranks, n, s)" by simp
        with assms(2) show ?thesis by blast
      qed
      then show "distinct ranks" "set ranks = holder_ranks ?k xs" by blast+
    qed
    have new: "note_replica x reps = dict_set reps ?k (if rank \<in> set ranks then ranks else ranks @ [rank],
             n + prod_list (lengths it), s \<and> broadcastable it)"
      using True old by (simp add: note_replica_def x Let_def)
    have same: "holder_ranks k (xs @ [x]) = holder_ranks k xs" if "k \<noteq> ?k" for k using that by (auto simp: holder_ranks_def x)
    have added: "holder_ranks ?k (xs @ [x]) = insert rank (holder_ranks ?k xs)" using True by (auto simp: holder_ranks_def x)
    show ?thesis
    proof (intro conjI allI impI)
      show "distinct (map fst (note_replica x reps))" using assms(1) by (simp add: new)
    next
      fix k rs n' s' assume k: "map_of (note_replica x reps) k = Some (rs, n', s')"
      have "distinct rs \<and> set rs = holder_ranks k (xs @ [x])"
      proof (cases "k = ?k")
        case True
        with k have "rs = (if rank \<in> set ranks then ranks else ranks @ [rank])" by (simp add: new)
        then show ?thesis using ranks added by (simp add: True insert_absorb)
      next
        case False
        with k have "map_of reps k = Some (rs, n', s')" by (simp add: new)
        with assms(2) same [OF False] show ?thesis by blast
      qed
      then show "distinct rs" "set rs = holder_ranks k (xs @ [x])" by blast+
    next
      fix k assume k: "map_of (note_replica x reps) k = None"
      then have "k \<noteq> ?k" by (auto simp: new)
      moreover from this k have "map_of reps k = None" by (simp add: new)
      ultimately show "holder_ranks k (xs @ [x]) = {}" using assms(3) same by blast
    qed
  qed
qed

lemma replicas_holders:
  "distinct (map fst (fold note_replica xs [])) \<and>
   (\<forall>k ranks n s. map_of (fold note_replica xs []) k = Some (ranks, n, s) \<longrightarrow> distinct ranks \<and> set ranks = holder_ranks k xs) \<and>
   (\<forall>k. map_of (fold note_replica xs []) k = None \<longrightarrow> holder_ranks k xs = {})"
proof (induction xs rule: rev_induct)
  case (snoc x xs)
  then show ?case using note_replica_step [of "fold note_replica xs []" xs x] by simp
qed (simp add: holder_ranks_def)

text \<open>The ranks whose plan reads the shard.\<close>

definition holders :: "read_item list list \<Rightarrow> shard_key \<Rightarrow> nat set" where
  "holders plans k = {p. p < length plans \<and> (\<exists>it \<in> set (plans ! p). read_type it = TENSOR \<and> index_key (dest_index it) = k)}"

lemma gathered_holders: "holder_ranks k (gathered_items plans) = holders plans k"
proof -
  have "(rank, it) \<in> set (gathered_items plans) \<longleftrightarrow> rank < length plans \<and> it \<in> set (plans ! rank)" for rank it
    by (force simp: gathered_items_def enumerate_eq_zip set_zip)
  then show ?thesis by (auto simp: holder_ranks_def holders_def)
qed

section \<open>The reader\<close>

lemma least_read_rank_in: "ranks \<noteq> [] \<Longrightarrow> least_read_rank load ranks \<in> set ranks"
proof -
  have "fold (\<lambda>r best. if load ! r < load ! best \<or> load ! r = load ! best \<and> r < best then r else best) rs h \<in> insert h (set rs)" for rs h
    by (induction rs arbitrary: h) auto
  then show "ranks \<noteq> [] \<Longrightarrow> least_read_rank load ranks \<in> set ranks"
    unfolding least_read_rank_def by (cases ranks) auto
qed

lemma picked_sources:
  assumes "map_of (snd (fold pick_reader shards (load, sources))) k = Some s"
  shows "map_of sources k = Some s \<or> (\<exists>n ranks. (n, k, ranks) \<in> set shards \<and> group_ranks s = ranks \<and> (ranks \<noteq> [] \<longrightarrow> src_rank s \<in> set ranks))"
  using assms
proof (induction shards arbitrary: load sources)
  case (Cons x shards)
  obtain n k' ranks where x: "x = (n, k', ranks)" by (cases x)
  let ?src = "least_read_rank load ranks"
  have "pick_reader x (load, sources) = (load[?src := load ! ?src + n], dict_set sources k' \<lparr>group_ranks = ranks, src_rank = ?src\<rparr>)"
    by (simp add: pick_reader_def x Let_def)
  with Cons.prems have "map_of (snd (fold pick_reader shards (load[?src := load ! ?src + n], dict_set sources k' \<lparr>group_ranks = ranks, src_rank = ?src\<rparr>))) k = Some s"
    by simp
  from Cons.IH [OF this] show ?case
  proof
    assume old: "map_of (dict_set sources k' \<lparr>group_ranks = ranks, src_rank = ?src\<rparr>) k = Some s"
    show ?thesis
    proof (cases "k = k'")
      case True
      with old have "s = \<lparr>group_ranks = ranks, src_rank = ?src\<rparr>" by simp
      with True least_read_rank_in [of ranks load] show ?thesis by (intro disjI2 exI [of _ n] exI [of _ ranks]) (simp add: x)
    next
      case False
      with old show ?thesis by simp
    qed
  next
    assume "\<exists>n ranks. (n, k, ranks) \<in> set shards \<and> group_ranks s = ranks \<and> (ranks \<noteq> [] \<longrightarrow> src_rank s \<in> set ranks)"
    then show ?thesis by auto
  qed
qed simp

lemma sources_of_shared:
  assumes "map_of (broadcast_sources md plans) k = Some s"
  shows "set (group_ranks s) = holders plans k" and "sorted (group_ranks s)" and "distinct (group_ranks s)"
    and "1 < length (group_ranks s)" and "src_rank s \<in> holders plans k"
proof -
  from picked_sources [OF assms [unfolded broadcast_sources_def]] obtain n where
    "(n, k, group_ranks s) \<in> set (shared_shards md (collect_replicas plans))"
    and src: "group_ranks s \<noteq> [] \<longrightarrow> src_rank s \<in> set (group_ranks s)" by auto
  then obtain ranks el sendable where r: "(k, ranks, el, sendable) \<in> set (collect_replicas plans)" "1 < length ranks" "group_ranks s = sort ranks"
    by (auto simp: shared_shards_def)
  note reps = replicas_holders [of "gathered_items plans", folded collect_replicas_def]
  have "map_of (collect_replicas plans) k = Some (ranks, el, sendable)" using reps r(1) by (simp add: map_of_eq_Some_iff)
  with reps have "distinct ranks" "set ranks = holders plans k" unfolding gathered_holders by blast+
  with r show g: "set (group_ranks s) = holders plans k" "sorted (group_ranks s)" "distinct (group_ranks s)" "1 < length (group_ranks s)" by simp_all
  with src show "src_rank s \<in> holders plans k" by (cases "group_ranks s") auto
qed

section \<open>What the ranks tell each other\<close>

lemma note_replica_identity:
  "note_replica (rank, it\<lparr>dest_offsets := [], storage_index := storage_elided, storage_offsets := []\<rparr>) = note_replica (rank, it)"
  by (rule ext) (simp add: note_replica_def Let_def)

lemma collect_identity: "collect_replicas (map plan_identity plans) = collect_replicas plans"
proof -
  have "fold note_replica (gathered_items (map plan_identity plans)) reps = fold note_replica (gathered_items plans) reps" for reps
  proof (induction plans arbitrary: reps rule: rev_induct)
    case (snoc plan plans)
    have "fold note_replica (map (Pair rank) (plan_identity plan)) reps = fold note_replica (map (Pair rank) plan) reps" for rank reps
      by (induction plan arbitrary: reps) (simp_all add: plan_identity_def note_replica_identity)
    with snoc show ?case by (simp add: gathered_items_def enumerate_append_eq)
  qed simp
  then show ?thesis by (simp add: collect_replicas_def)
qed

end
