(* ===== verification/Broadcast_Send.thy ===== *)
theory Broadcast_Send
  imports Broadcast_Plan "HOL-Library.List_Lexorder" "HOL-Library.Product_Lexorder" "HOL-Library.Char_ord"
begin

text \<open>
  The broadcasts of a load (broadcast.py and \<open>FileSystemReader.execute_read\<close>): a rank goes through its shared
  shards in the order of their names, sends large ones by themselves and gathers small ones until a batch is
  full. What it sends in a group depends on the shards of that group only.
\<close>

section \<open>Shards\<close>

record shard =
  shard_name :: shard_key
  shard_source :: broadcast_source
  shard_dtype :: string
  shard_bytes :: int

datatype broadcast = Broadcast (sent_source: broadcast_source) (sent_shards: "shard list")

abbreviation sent_group :: "broadcast \<Rightarrow> nat list" where
  "sent_group b \<equiv> group_ranks (sent_source b)"

abbreviation shard_group :: "shard \<Rightarrow> nat list" where
  "shard_group s \<equiv> group_ranks (shard_source s)"

section \<open>The batcher\<close>

type_synonym batch_key = "nat list \<times> nat \<times> string"

record batcher =
  batch_bytes :: int
  batches :: "(batch_key, shard list) dict"
  pending_bytes :: "(batch_key, int) dict"
  sent :: nat
  batched :: nat

definition new_batcher :: "int \<Rightarrow> batcher" where
  "new_batcher n = \<lparr>batch_bytes = n, batches = [], pending_bytes = [], sent = 0, batched = 0\<rparr>"

definition batch_key_of :: "shard \<Rightarrow> batch_key" where
  "batch_key_of s = (shard_group s, src_rank (shard_source s), shard_dtype s)"

definition send_batch :: "batch_key \<Rightarrow> batcher \<Rightarrow> broadcast list \<times> batcher" where
  "send_batch key st =
     (let buffers = dict_list (batches st) key;
          st1 = st\<lparr>batches := dict_del (batches st) key, pending_bytes := dict_del (pending_bytes st) key\<rparr>
      in if buffers = [] then ([], st1)
         else ([Broadcast \<lparr>group_ranks = fst key, src_rank = fst (snd key)\<rparr> buffers],
               st1\<lparr>sent := sent st1 + 1, batched := batched st1 + (if length buffers = 1 then 0 else length buffers)\<rparr>))"

definition pending_of :: "batcher \<Rightarrow> batch_key \<Rightarrow> int" where
  "pending_of st key = (case map_of (pending_bytes st) key of None \<Rightarrow> 0 | Some n \<Rightarrow> n)"

definition batcher_add :: "shard \<Rightarrow> batcher \<Rightarrow> broadcast list \<times> batcher" where
  "batcher_add s st =
     (if batch_bytes st \<le> shard_bytes s then ([Broadcast (shard_source s) [s]], st\<lparr>sent := sent st + 1\<rparr>)
      else
        let key = batch_key_of s;
            (out, st1) = (if batch_bytes st < pending_of st key + shard_bytes s then send_batch key st else ([], st))
        in (out, st1\<lparr>batches := ddict_append (batches st1) key s,
              pending_bytes := dict_set (pending_bytes st1) key (pending_of st1 key + shard_bytes s)\<rparr>))"

fun send_batches :: "batch_key list \<Rightarrow> batcher \<Rightarrow> broadcast list \<times> batcher" where
  "send_batches [] st = ([], st)"
| "send_batches (key # keys) st =
     (let (out, st1) = send_batch key st; (outs, st2) = send_batches keys st1 in (out @ outs, st2))"

definition batcher_flush :: "batcher \<Rightarrow> broadcast list \<times> batcher" where
  "batcher_flush st = send_batches (map fst (batches st)) st"

fun add_shards :: "shard list \<Rightarrow> batcher \<Rightarrow> broadcast list \<times> batcher" where
  "add_shards [] st = ([], st)"
| "add_shards (s # ss) st =
     (let (out, st1) = batcher_add s st; (outs, st2) = add_shards ss st1 in (out @ outs, st2))"

section \<open>The shared shards of a rank\<close>

text \<open>\<open>by_shard\<close>, and the names of the shards whose first item is marked, sorted; the buffer of a shard gives dtype and size.\<close>

definition by_shard :: "read_item list \<Rightarrow> (shard_key, read_item list) dict" where
  "by_shard items = fold (\<lambda>it d. ddict_append d (index_key (dest_index it)) it) items []"

definition shared_names :: "read_item list \<Rightarrow> shard_key list" where
  "shared_names items = sort (map fst (filter (\<lambda>(k, its). source (hd its) \<noteq> None) (by_shard items)))"

definition shared_shard :: "(shard_key \<Rightarrow> string \<times> int) \<Rightarrow> read_item list \<Rightarrow> shard_key \<Rightarrow> shard" where
  "shared_shard buffer items k =
     \<lparr>shard_name = k, shard_source = the (source (hd (dict_list (by_shard items) k))),
      shard_dtype = fst (buffer k), shard_bytes = snd (buffer k)\<rparr>"

definition load_broadcasts :: "int \<Rightarrow> (shard_key \<Rightarrow> string \<times> int) \<Rightarrow> read_item list \<Rightarrow> broadcast list" where
  "load_broadcasts limit buffer items =
     (let (outs, st) = add_shards (map (shared_shard buffer items) (shared_names items)) (new_batcher limit)
      in outs @ fst (batcher_flush st))"

end
