(* ===== verification/Broadcast_Order.thy ===== *)
theory Broadcast_Order
  imports Broadcast_Send
begin

text \<open>
  The broadcasts of a rank are ordered by the shard at which they are sent, or at the end by the first
  shard of the batch; this order is the same on all ranks, and the broadcasts of a group are those of its shards.
\<close>

section \<open>Dicts\<close>

lemma filter_dict_del: "filter (\<lambda>(k, v). P k) (dict_del d k') = dict_del (filter (\<lambda>(k, v). P k) d) k'"
  unfolding dict_del_def by (induction d) auto

lemma filter_dict_del_other: "\<not> P k' \<Longrightarrow> filter (\<lambda>(k, v). P k) (dict_del d k') = filter (\<lambda>(k, v). P k) d"
  unfolding dict_del_def by (induction d) auto

lemma filter_dict_set: "P k' \<Longrightarrow> filter (\<lambda>(k, v). P k) (dict_set d k' v) = dict_set (filter (\<lambda>(k, v). P k) d) k' v"
  unfolding dict_set_def by (induction d) auto

lemma filter_dict_set_other: "\<not> P k' \<Longrightarrow> filter (\<lambda>(k, v). P k) (dict_set d k' v) = filter (\<lambda>(k, v). P k) d"
  unfolding dict_set_def by (induction d) auto

lemma map_of_filter_key: "P k \<Longrightarrow> map_of (filter (\<lambda>(k, v). P k) d) k = map_of d k"
  by (induction d) auto

section \<open>Tags\<close>

type_synonym tag = "nat \<times> shard_key"

fun tagged_adds :: "shard list \<Rightarrow> batcher \<Rightarrow> (tag \<times> broadcast) list \<times> batcher" where
  "tagged_adds [] st = ([], st)"
| "tagged_adds (s # ss) st =
     (let (out, st1) = batcher_add s st; (outs, st2) = tagged_adds ss st1 in (map (Pair (0, shard_name s)) out @ outs, st2))"

definition batch_broadcast :: "batch_key \<times> shard list \<Rightarrow> broadcast" where
  "batch_broadcast x = Broadcast \<lparr>group_ranks = fst (fst x), src_rank = fst (snd (fst x))\<rparr> (snd x)"

definition tagged_broadcasts :: "int \<Rightarrow> shard list \<Rightarrow> (tag \<times> broadcast) list" where
  "tagged_broadcasts limit ss =
     (let (outs, st) = tagged_adds ss (new_batcher limit)
      in outs @ map (\<lambda>x. ((1, shard_name (hd (snd x))), batch_broadcast x)) (batches st))"

lemma tagged_adds_snd: "snd (tagged_adds ss st) = snd (add_shards ss st)"
  by (induction ss arbitrary: st) (simp_all add: case_prod_beta)

lemma tagged_adds_fst: "map snd (fst (tagged_adds ss st)) = fst (add_shards ss st)"
  by (induction ss arbitrary: st) (simp_all add: case_prod_beta comp_def)

text \<open>The batches of a batcher: one for each key, none of them empty, in the order of their first shards.\<close>

definition well_batched :: "batcher \<Rightarrow> bool" where
  "well_batched st \<longleftrightarrow> distinct (map fst (batches st)) \<and> (\<forall>x \<in> set (batches st). snd x \<noteq> []) \<and>
     sorted_wrt (<) (map (\<lambda>x. shard_name (hd (snd x))) (batches st))"

lemma set_dict_del: "set (dict_del d k) = {x \<in> set d. fst x \<noteq> k}"
  unfolding dict_del_def by (auto simp: AList.delete_eq)

lemma sorted_dict_del: "sorted_wrt R (map f d) \<Longrightarrow> sorted_wrt R (map f (dict_del d k))"
  unfolding dict_del_def AList.delete_eq by (induction d) auto

lemma distinct_keys_del: "distinct (map fst d) \<Longrightarrow> distinct (map fst (dict_del d k))"
  unfolding dict_del_def by (simp add: distinct_delete)

lemma dict_set_head:
  assumes "map_of d k = Some xs" and "xs \<noteq> []" and "distinct (map fst d)"
  shows "map (\<lambda>x. hd (snd x)) (dict_set d k (xs @ [s])) = map (\<lambda>x. hd (snd x)) d"
  using assms unfolding dict_set_def by (induction d) (auto split: if_splits)

lemma dict_set_new: "map_of d k = None \<Longrightarrow> dict_set d k v = d @ [(k, v)]"
  unfolding dict_set_def by (induction d) (auto split: if_splits)

lemma well_batched_append:
  assumes "well_batched st" and "\<forall>x \<in> set (batches st). shard_name (hd (snd x)) < shard_name s"
  shows "well_batched (st\<lparr>batches := ddict_append (batches st) key s, pending_bytes := p\<rparr>) \<and>
    (\<forall>x \<in> set (ddict_append (batches st) key s). shard_name (hd (snd x)) \<le> shard_name s)"
proof (cases "map_of (batches st) key")
  case None
  then have new: "ddict_append (batches st) key s = batches st @ [(key, [s])]" by (simp add: ddict_append_def dict_set_new)
  from None have "key \<notin> fst ` set (batches st)" by (simp add: map_of_eq_None_iff)
  then show ?thesis using assms
    by (auto simp: well_batched_def new sorted_wrt_append less_imp_le)
next
  case (Some xs)
  from assms(1) have d: "distinct (map fst (batches st))" "\<forall>x \<in> set (batches st). snd x \<noteq> []"
    "sorted_wrt (<) (map (\<lambda>x. shard_name (hd (snd x))) (batches st))" by (simp_all add: well_batched_def)
  have xs: "xs \<noteq> []" using d(2) map_of_SomeD [OF Some] by force
  let ?new = "dict_set (batches st) key (xs @ [s])"
  have new: "ddict_append (batches st) key s = ?new" using Some by (simp add: ddict_append_def)
  have heads: "map (\<lambda>x. shard_name (hd (snd x))) ?new = map (\<lambda>x. shard_name (hd (snd x))) (batches st)"
    using arg_cong [OF dict_set_head [OF Some xs d(1), of s], of "map shard_name"] by (simp add: comp_def)
  have "snd x \<noteq> []" if "x \<in> set ?new" for x
  proof -
    have "map_of ?new (fst x) = Some (snd x)" using that d(1) by (intro map_of_is_SomeI) simp_all
    then show ?thesis
    proof (cases "fst x = key")
      case False
      with \<open>map_of ?new (fst x) = Some (snd x)\<close> have "(fst x, snd x) \<in> set (batches st)" by (auto dest: map_of_SomeD)
      with d(2) show ?thesis by fastforce
    next
      case True
      with \<open>map_of ?new (fst x) = Some (snd x)\<close> have "snd x = xs @ [s]" by simp
      then show ?thesis by simp
    qed
  qed
  moreover have "shard_name (hd (snd x)) \<le> shard_name s" if "x \<in> set ?new" for x
  proof -
    have "shard_name (hd (snd x)) \<in> set (map (\<lambda>x. shard_name (hd (snd x))) ?new)" using that by simp
    then show ?thesis unfolding heads using assms(2) by (auto simp: less_imp_le)
  qed
  ultimately show ?thesis using d heads by (simp add: well_batched_def new)
qed

lemma send_well_batched: "well_batched st \<Longrightarrow> well_batched (snd (send_batch key st)) \<and> set (batches (snd (send_batch key st))) \<subseteq> set (batches st)"
  by (auto simp: well_batched_def send_batch_def Let_def set_dict_del distinct_keys_del sorted_dict_del)

lemma add_well_batched:
  assumes "well_batched st" and "\<forall>x \<in> set (batches st). shard_name (hd (snd x)) < shard_name s"
  shows "well_batched (snd (batcher_add s st)) \<and> (\<forall>x \<in> set (batches (snd (batcher_add s st))). shard_name (hd (snd x)) \<le> shard_name s)"
proof -
  let ?st1 = "snd (if batch_bytes st < pending_of st (batch_key_of s) + shard_bytes s then send_batch (batch_key_of s) st else ([], st))"
  have "well_batched ?st1" "\<forall>x \<in> set (batches ?st1). shard_name (hd (snd x)) < shard_name s"
    using send_well_batched [OF assms(1), of "batch_key_of s"] assms by auto
  note well_batched_append [OF this, where key = "batch_key_of s"]
  moreover have "well_batched (st\<lparr>sent := k\<rparr>)" for k using assms(1) by (simp add: well_batched_def)
  ultimately show ?thesis using assms
    by (auto simp: batcher_add_def Let_def case_prod_beta less_imp_le)
qed

lemma one_per_add: "length (fst (batcher_add s st)) \<le> 1"
  by (auto simp: batcher_add_def send_batch_def Let_def)

lemma tagged_adds_sorted:
  assumes "well_batched st" and "\<forall>x \<in> set (batches st). \<forall>s \<in> set ss. shard_name (hd (snd x)) < shard_name s"
    and "sorted_wrt (<) (map shard_name ss)"
  shows "well_batched (snd (tagged_adds ss st)) \<and> sorted_wrt (<) (map fst (fst (tagged_adds ss st))) \<and>
    (\<forall>x \<in> set (fst (tagged_adds ss st)). fst (fst x) = 0 \<and> snd (fst x) \<in> shard_name ` set ss)"
  using assms
proof (induction ss arbitrary: st)
  case (Cons s ss)
  let ?st1 = "snd (batcher_add s st)" and ?outs = "fst (tagged_adds ss (snd (batcher_add s st)))"
  have "\<forall>x \<in> set (batches st). shard_name (hd (snd x)) < shard_name s" using Cons.prems(2) by simp
  note st1 = add_well_batched [OF Cons.prems(1) this]
  have later: "\<forall>s' \<in> set ss. shard_name s < shard_name s'" using Cons.prems(3) by simp
  have "\<forall>x \<in> set (batches ?st1). \<forall>s' \<in> set ss. shard_name (hd (snd x)) < shard_name s'"
    using st1 later by (meson le_less_trans)
  with Cons.IH [of ?st1] st1 Cons.prems(3) have ih: "well_batched (snd (tagged_adds ss ?st1))" "sorted_wrt (<) (map fst ?outs)"
    "\<And>x. x \<in> set ?outs \<Longrightarrow> fst (fst x) = 0 \<and> snd (fst x) \<in> shard_name ` set ss" by auto
  have run: "tagged_adds (s # ss) st = (map (Pair (0, shard_name s)) (fst (batcher_add s st)) @ ?outs, snd (tagged_adds ss ?st1))"
    by (simp add: case_prod_beta)
  have "(0, shard_name s) < fst x" if "x \<in> set ?outs" for x
  proof -
    from ih(3) [OF that] later have "fst (fst x) = 0" "shard_name s < snd (fst x)" by auto
    then show ?thesis by (simp add: less_prod_def)
  qed
  moreover from one_per_add [of s st] have "fst (batcher_add s st) = [] \<or> (\<exists>b. fst (batcher_add s st) = [b])"
    by (cases "fst (batcher_add s st)") auto
  ultimately have "sorted_wrt (<) (map fst (map (Pair (0, shard_name s)) (fst (batcher_add s st)) @ ?outs))"
    using ih(2) by auto
  then show ?case unfolding run using ih(1,3) by auto
qed simp

lemma well_batched_new: "well_batched (new_batcher n)"
  by (simp add: well_batched_def new_batcher_def)

lemma tagged_sorted:
  assumes "sorted_wrt (<) (map shard_name ss)"
  shows "sorted_wrt (<) (map fst (tagged_broadcasts limit ss))"
proof -
  let ?r = "tagged_adds ss (new_batcher limit)"
  have r: "well_batched (snd ?r)" "sorted_wrt (<) (map fst (fst ?r))" "\<forall>x \<in> set (fst ?r). fst (fst x) = 0"
    using tagged_adds_sorted [OF well_batched_new _ assms, of limit] by (auto simp: new_batcher_def)
  have "sorted_wrt (<) (map (Pair (1 :: nat)) (map (\<lambda>x. shard_name (hd (snd x))) (batches (snd ?r))))"
    using r(1) unfolding well_batched_def sorted_wrt_map by (auto simp: less_prod_def)
  then show ?thesis using r(2,3)
    by (auto simp: tagged_broadcasts_def case_prod_beta sorted_wrt_append comp_def less_prod_def)
qed

section \<open>The code's broadcasts\<close>

lemma send_batches_all:
  assumes "distinct (map fst bs)" and "\<forall>x \<in> set bs. snd x \<noteq> []" and "batches st = bs"
  shows "fst (send_batches (map fst bs) st) = map batch_broadcast bs"
  using assms
proof (induction bs arbitrary: st)
  case (Cons x bs)
  obtain k ss where x: "x = (k, ss)" by (cases x)
  have "dict_del ((k, ss) # bs) k = bs" using Cons.prems(1) unfolding dict_del_def x by simp
  with Cons.prems have one: "fst (send_batch k st) = [batch_broadcast x]" "batches (snd (send_batch k st)) = bs"
    by (auto simp: send_batch_def Let_def dict_list_def x batch_broadcast_def)
  with Cons.IH [of "snd (send_batch k st)"] Cons.prems show ?case by (simp add: x case_prod_beta)
qed simp

lemma load_broadcasts_tagged:
  assumes "sorted_wrt (<) (map shard_name (map (shared_shard buffer items) (shared_names items)))"
  shows "load_broadcasts limit buffer items = map snd (tagged_broadcasts limit (map (shared_shard buffer items) (shared_names items)))"
proof -
  let ?ss = "map (shared_shard buffer items) (shared_names items)"
  have "well_batched (snd (tagged_adds ?ss (new_batcher limit)))"
    using tagged_adds_sorted [OF well_batched_new _ assms, of limit] by (simp add: new_batcher_def)
  then have "fst (batcher_flush (snd (tagged_adds ?ss (new_batcher limit)))) = map batch_broadcast (batches (snd (tagged_adds ?ss (new_batcher limit))))"
    unfolding batcher_flush_def by (intro send_batches_all) (simp_all add: well_batched_def)
  then show ?thesis
    by (simp add: load_broadcasts_def tagged_broadcasts_def case_prod_beta tagged_adds_snd tagged_adds_fst comp_def)
qed

section \<open>One group\<close>

text \<open>The batcher \<open>st'\<close> knows of \<open>st\<close> what belongs to the group.\<close>

definition group_view :: "nat list \<Rightarrow> batcher \<Rightarrow> batcher \<Rightarrow> bool" where
  "group_view G st st' \<longleftrightarrow> batch_bytes st' = batch_bytes st \<and> batches st' = filter (\<lambda>(k, v). fst k = G) (batches st) \<and>
     (\<forall>k. fst k = G \<longrightarrow> pending_of st' k = pending_of st k)"

lemma pending_of_del: "pending_of (st\<lparr>batches := b, pending_bytes := dict_del (pending_bytes st) key\<rparr>) k = (if k = key then 0 else pending_of st k)"
  by (simp add: pending_of_def)

lemma pending_of_push:
  "pending_of (st\<lparr>batches := b, pending_bytes := dict_set (pending_bytes st) key n\<rparr>) k = (if k = key then n else pending_of st k)"
  by (simp add: pending_of_def)

lemma view_send:
  assumes "group_view G st st'" and "fst key = G"
  shows "fst (send_batch key st') = fst (send_batch key st) \<and> group_view G (snd (send_batch key st)) (snd (send_batch key st'))"
proof -
  have "dict_list (batches st') key = dict_list (batches st) key"
    using assms by (simp add: group_view_def dict_list_def map_of_filter_key [where P = "\<lambda>k. fst k = G"])
  with assms show ?thesis
    by (simp add: send_batch_def Let_def group_view_def pending_of_def filter_dict_del)
qed

lemma view_send_other: "group_view G st st' \<Longrightarrow> fst key \<noteq> G \<Longrightarrow> group_view G (snd (send_batch key st)) st'"
  by (auto simp: send_batch_def Let_def group_view_def pending_of_def filter_dict_del_other)

lemma send_group: "b \<in> set (fst (send_batch key st)) \<Longrightarrow> sent_group b = fst key"
  by (auto simp: send_batch_def Let_def split: if_splits)

lemma view_add:
  assumes "group_view G st st'" and "shard_group s = G"
  shows "fst (batcher_add s st') = fst (batcher_add s st) \<and> group_view G (snd (batcher_add s st)) (snd (batcher_add s st'))"
proof (cases "batch_bytes st \<le> shard_bytes s")
  case True
  with assms(1) show ?thesis by (simp add: batcher_add_def group_view_def pending_of_def)
next
  case False
  let ?key = "batch_key_of s"
  let ?push = "\<lambda>st. st\<lparr>batches := ddict_append (batches st) ?key s, pending_bytes := dict_set (pending_bytes st) ?key (pending_of st ?key + shard_bytes s)\<rparr>"
  have key: "fst ?key = G" using assms(2) by (simp add: batch_key_of_def)
  have push: "group_view G (?push t) (?push t')" if t: "group_view G t t'" for t t'
  proof -
    have "map_of (batches t') ?key = map_of (batches t) ?key"
      using t key by (simp add: group_view_def map_of_filter_key [where P = "\<lambda>k. fst k = G"])
    with t key have "batches (?push t') = filter (\<lambda>(k, v). fst k = G) (batches (?push t))"
      by (simp add: group_view_def ddict_append_def filter_dict_set)
    moreover have "pending_of t' ?key = pending_of t ?key" using t key by (simp add: group_view_def del: split_paired_All)
    ultimately show ?thesis using t key by (simp add: group_view_def pending_of_push)
  qed
  have cond: "pending_of st' ?key = pending_of st ?key" "batch_bytes st' = batch_bytes st"
    using assms(1) key by (simp_all add: group_view_def del: split_paired_All)
  show ?thesis
  proof (cases "batch_bytes st < pending_of st ?key + shard_bytes s")
    case True
    with False cond view_send [OF assms(1) key] push [of "snd (send_batch ?key st)" "snd (send_batch ?key st')"]
    show ?thesis by (simp add: batcher_add_def Let_def case_prod_beta)
  next
    case small: False
    with False cond push [OF assms(1)] show ?thesis by (simp add: batcher_add_def Let_def)
  qed
qed

lemma view_add_other:
  assumes "group_view G st st'" and "shard_group s \<noteq> G"
  shows "(\<forall>b \<in> set (fst (batcher_add s st)). sent_group b \<noteq> G) \<and> group_view G (snd (batcher_add s st)) st'"
proof (cases "batch_bytes st \<le> shard_bytes s")
  case True
  with assms show ?thesis by (simp add: batcher_add_def group_view_def pending_of_def)
next
  case False
  let ?key = "batch_key_of s"
  let ?push = "\<lambda>st. st\<lparr>batches := ddict_append (batches st) ?key s, pending_bytes := dict_set (pending_bytes st) ?key (pending_of st ?key + shard_bytes s)\<rparr>"
  have key: "fst ?key \<noteq> G" using assms(2) by (simp add: batch_key_of_def)
  have push: "group_view G (?push t) st'" if t: "group_view G t st'" for t
  proof -
    have "filter (\<lambda>(k, v). fst k = G) (batches (?push t)) = filter (\<lambda>(k, v). fst k = G) (batches t)"
      using key by (simp add: ddict_append_def filter_dict_set_other)
    moreover have "pending_of (?push t) k = pending_of t k" if "fst k = G" for k using that key by (auto simp: pending_of_def)
    ultimately show ?thesis using t unfolding group_view_def by simp
  qed
  show ?thesis
  proof (cases "batch_bytes st < pending_of st ?key + shard_bytes s")
    case True
    with False push [OF view_send_other [OF assms(1) key]] send_group [of _ ?key st] key
    show ?thesis by (auto simp: batcher_add_def Let_def case_prod_beta)
  next
    case small: False
    with False push [OF assms(1)] show ?thesis by (simp add: batcher_add_def Let_def)
  qed
qed

lemma add_group: "shard_group s = G \<Longrightarrow> b \<in> set (fst (batcher_add s st)) \<Longrightarrow> sent_group b = G"
  using send_group [of b "batch_key_of s" st] by (auto simp: batcher_add_def Let_def batch_key_of_def case_prod_beta split: if_splits)

lemma view_adds:
  assumes "group_view G st st'"
  shows "filter (\<lambda>x. sent_group (snd x) = G) (fst (tagged_adds ss st)) = fst (tagged_adds (filter (\<lambda>s. shard_group s = G) ss) st') \<and>
    group_view G (snd (tagged_adds ss st)) (snd (tagged_adds (filter (\<lambda>s. shard_group s = G) ss) st'))"
  using assms
proof (induction ss arbitrary: st st')
  case (Cons s ss)
  show ?case
  proof (cases "shard_group s = G")
    case True
    note v = view_add [OF Cons.prems True]
    have "filter (\<lambda>x. sent_group (snd x) = G) (map (Pair (0, shard_name s)) (fst (batcher_add s st))) = map (Pair (0, shard_name s)) (fst (batcher_add s st'))"
      using v add_group [OF True] by (simp add: filter_id_conv)
    with Cons.IH [of "snd (batcher_add s st)" "snd (batcher_add s st')"] v True show ?thesis by (simp add: case_prod_beta)
  next
    case False
    note v = view_add_other [OF Cons.prems False]
    have "filter (\<lambda>x. sent_group (snd x) = G) (map (Pair (0, shard_name s)) (fst (batcher_add s st))) = []"
      using v by (auto simp: filter_empty_conv)
    with Cons.IH [of "snd (batcher_add s st)" st'] v False show ?thesis by (simp add: case_prod_beta)
  qed
qed simp

lemma tagged_of_group:
  "filter (\<lambda>x. sent_group (snd x) = G) (tagged_broadcasts limit ss) = tagged_broadcasts limit (filter (\<lambda>s. shard_group s = G) ss)"
proof -
  have "group_view G (new_batcher limit) (new_batcher limit)" by (simp add: group_view_def new_batcher_def)
  note v = view_adds [OF this, of ss]
  then have "batches (snd (tagged_adds (filter (\<lambda>s. shard_group s = G) ss) (new_batcher limit))) =
      filter (\<lambda>x. fst (fst x) = G) (batches (snd (tagged_adds ss (new_batcher limit))))" by (simp add: group_view_def case_prod_beta')
  with v show ?thesis
    by (simp add: tagged_broadcasts_def case_prod_beta filter_map comp_def batch_broadcast_def)
qed

end
