(* ===== verification/Broadcast_Run.thy ===== *)
theory Broadcast_Run
  imports Broadcast_Order
begin

text \<open>
  All ranks of a load together: each starts its broadcasts in order and waits on the oldest once too many are in
  flight. A broadcast has landed when every rank of its group has started it, that is, as many
  broadcasts on the group. All ranks finish, and what they pair up are the same broadcasts.
\<close>

section \<open>The ranks\<close>

definition max_broadcasts_in_flight :: nat where
  "max_broadcasts_in_flight = 8"

text \<open>How many broadcasts of its program a rank has started, and how many of these it has waited on.\<close>

datatype progress = Progress (started: nat) (waited: nat)

definition on_group :: "nat list \<Rightarrow> broadcast list \<Rightarrow> broadcast list" where
  "on_group G bs = filter (\<lambda>b. sent_group b = G) bs"

text \<open>The \<open>i\<close>-th broadcast of a program has been started by all ranks of its group: collectives on a group pair up in order.\<close>

definition landed :: "(nat \<Rightarrow> broadcast list) \<Rightarrow> (nat \<Rightarrow> progress) \<Rightarrow> broadcast list \<Rightarrow> nat \<Rightarrow> bool" where
  "landed progs st prog i \<longleftrightarrow>
     (let G = sent_group (prog ! i)
      in \<forall>q \<in> set G. length (on_group G (take i prog)) < length (on_group G (take (started (st q)) (progs q))))"

inductive load_step :: "nat \<Rightarrow> (nat \<Rightarrow> broadcast list) \<Rightarrow> (nat \<Rightarrow> progress) \<Rightarrow> (nat \<Rightarrow> progress) \<Rightarrow> bool" for n progs where
  start: "r < n \<Longrightarrow> st r = Progress s w \<Longrightarrow> s < length (progs r) \<Longrightarrow> s - w < max_broadcasts_in_flight \<Longrightarrow>
    load_step n progs st (st(r := Progress (s + 1) w))"
| wait: "r < n \<Longrightarrow> st r = Progress s w \<Longrightarrow> w < s \<Longrightarrow> s = length (progs r) \<or> \<not> s - w < max_broadcasts_in_flight \<Longrightarrow>
    landed progs st (progs r) w \<Longrightarrow> load_step n progs st (st(r := Progress s (w + 1)))"

definition load_start :: "nat \<Rightarrow> progress" where
  "load_start r = Progress 0 0"

section \<open>Positions on a group\<close>

lemma filter_position:
  "j < length (filter P xs) \<Longrightarrow> \<exists>i < length xs. P (xs ! i) \<and> filter P xs ! j = xs ! i \<and> length (filter P (take i xs)) = j"
proof (induction xs arbitrary: j)
  case (Cons x xs)
  show ?case
  proof (cases "P x")
    case True
    show ?thesis
    proof (cases j)
      case 0
      with True show ?thesis by (intro exI [of _ 0]) simp
    next
      case (Suc j')
      with Cons True obtain i where "i < length xs" "P (xs ! i)" "filter P xs ! j' = xs ! i" "length (filter P (take i xs)) = j'" by fastforce
      with True Suc show ?thesis by (intro exI [of _ "Suc i"]) simp
    qed
  next
    case False
    with Cons obtain i where "i < length xs" "P (xs ! i)" "filter P xs ! j = xs ! i" "length (filter P (take i xs)) = j" by fastforce
    with False show ?thesis by (intro exI [of _ "Suc i"]) simp
  qed
qed simp

lemma filter_at: "i < length xs \<Longrightarrow> P (xs ! i) \<Longrightarrow> filter P xs ! length (filter P (take i xs)) = xs ! i \<and>
    length (filter P (take i xs)) < length (filter P xs)"
proof (induction xs arbitrary: i)
  case (Cons x xs)
  then show ?case by (cases i) auto
qed simp

section \<open>Progress\<close>

text \<open>Programs in step: ordered by one order, and with the same broadcasts on a group for all of its ranks.\<close>

definition in_step :: "nat \<Rightarrow> (nat \<Rightarrow> (tag \<times> broadcast) list) \<Rightarrow> bool" where
  "in_step n ops \<longleftrightarrow> (\<forall>r < n. sorted_wrt (<) (map fst (ops r)) \<and>
     (\<forall>x \<in> set (ops r). \<forall>q \<in> set (sent_group (snd x)). q < n \<and>
        filter (\<lambda>y. sent_group (snd y) = sent_group (snd x)) (ops q) = filter (\<lambda>y. sent_group (snd y) = sent_group (snd x)) (ops r)))"

definition load_invariant :: "nat \<Rightarrow> (nat \<Rightarrow> broadcast list) \<Rightarrow> (nat \<Rightarrow> progress) \<Rightarrow> bool" where
  "load_invariant n progs st \<longleftrightarrow> (\<forall>r < n. waited (st r) \<le> started (st r) \<and> started (st r) \<le> length (progs r))"

lemma load_invariant_start: "load_invariant n progs load_start"
  by (simp add: load_invariant_def load_start_def)

lemma load_invariant_step: "load_step n progs st st' \<Longrightarrow> load_invariant n progs st \<Longrightarrow> load_invariant n progs st'"
  by (induction rule: load_step.induct) (auto simp: load_invariant_def)

lemma load_progress:
  assumes "in_step n ops" and progs: "\<And>r. progs r = map snd (ops r)" and inv: "load_invariant n progs st"
    and "r0 < n" and "waited (st r0) < length (progs r0)"
  shows "\<exists>st'. load_step n progs st st'"
proof (rule ccontr)
  assume stuck: "\<nexists>st'. load_step n progs st st'"
  let ?open = "\<lambda>r. r < n \<and> waited (st r) < length (progs r)"
  have blocked: "waited (st r) < started (st r) \<and> \<not> landed progs st (progs r) (waited (st r))" if o: "?open r" for r
  proof -
    obtain s w where sw: "st r = Progress s w" by (cases "st r")
    from inv o sw have "w \<le> s" "s \<le> length (progs r)" "w < length (progs r)" by (auto simp: load_invariant_def)
    moreover have "\<not> (s < length (progs r) \<and> s - w < max_broadcasts_in_flight)" using stuck start [of r n st s w progs] o sw by blast
    ultimately have "w < s" "s = length (progs r) \<or> \<not> s - w < max_broadcasts_in_flight" by (auto simp: max_broadcasts_in_flight_def)
    with stuck wait [of r n st s w progs] o sw show ?thesis by auto
  qed
  let ?tag = "\<lambda>r. fst (ops r ! waited (st r))"
  have "finite (?tag ` {r. ?open r})" "?tag ` {r. ?open r} \<noteq> {}" using assms(4,5) by auto
  then obtain r where r: "?open r" "\<And>q. ?open q \<Longrightarrow> ?tag r \<le> ?tag q"
  proof -
    have "Min (?tag ` {r. ?open r}) \<in> ?tag ` {r. ?open r}" using Min_in \<open>finite _\<close> \<open>_ \<noteq> {}\<close> .
    then obtain r where "?open r" "Min (?tag ` {r. ?open r}) = ?tag r" by blast
    moreover have "?tag r \<le> ?tag q" if "?open q" for q
      using Min_le [OF \<open>finite (?tag ` {r. ?open r})\<close>, of "?tag q"] that calculation(2) by auto
    ultimately show ?thesis using that by blast
  qed
  let ?w = "waited (st r)" and ?x = "ops r ! waited (st r)"
  let ?P = "\<lambda>y. sent_group (snd y) = sent_group (snd ?x)"
  have w: "?w < length (ops r)" "?x \<in> set (ops r)" using r(1) by (simp_all add: progs)
  have count: "length (on_group (sent_group (snd ?x)) (take k (progs q))) = length (filter ?P (take k (ops q)))" for k q
    by (simp add: on_group_def progs take_map filter_map comp_def)
  have "progs r ! ?w = snd ?x" using w(1) by (simp add: progs)
  then have "landed progs st (progs r) ?w \<longleftrightarrow>
      (\<forall>q \<in> set (sent_group (snd ?x)). length (filter ?P (take ?w (ops r))) < length (filter ?P (take (started (st q)) (ops q))))"
    unfolding landed_def Let_def by (simp only: count)
  with blocked [OF r(1)] obtain q where q: "q \<in> set (sent_group (snd ?x))"
    and few: "\<not> length (filter ?P (take ?w (ops r))) < length (filter ?P (take (started (st q)) (ops q)))" by blast
  from assms(1) w(2) q r(1) have n: "q < n" and same: "filter ?P (ops q) = filter ?P (ops r)" unfolding in_step_def by blast+
  from filter_at [OF w(1), of ?P] have at: "filter ?P (ops q) ! length (filter ?P (take ?w (ops r))) = ?x"
    "length (filter ?P (take ?w (ops r))) < length (filter ?P (ops q))" by (simp_all add: same)
  from filter_position [OF at(2), unfolded at(1)] obtain i where i: "i < length (ops q)" "?P (ops q ! i)" "?x = ops q ! i"
    "length (filter ?P (take i (ops q))) = length (filter ?P (take ?w (ops r)))" by blast
  have "started (st q) \<le> i"
  proof (rule ccontr)
    assume "\<not> started (st q) \<le> i"
    moreover have "started (st q) \<le> length (ops q)" using inv n by (simp add: load_invariant_def progs)
    ultimately have "length (filter ?P (take i (ops q))) < length (filter ?P (take (started (st q)) (ops q)))"
      using filter_at [of i "take (started (st q)) (ops q)" ?P] i(2) by (simp add: min_def)
    with few show False unfolding i(4) by blast
  qed
  moreover have "waited (st q) \<le> started (st q)" using inv n by (simp add: load_invariant_def)
  ultimately have "?open q" using n i(1) by (simp add: progs)
  with blocked [of q] \<open>started (st q) \<le> i\<close> have "waited (st q) < i" by auto
  moreover have "sorted_wrt (<) (map fst (ops q))" using assms(1) n by (simp add: in_step_def)
  ultimately have "?tag q < ?tag r" using i(1,3) sorted_wrt_nth_less [of "(<)" "map fst (ops q)" "waited (st q)" i] by simp
  with r(2) [OF \<open>?open q\<close>] show False by simp
qed

section \<open>Every run ends\<close>

definition load_work :: "nat \<Rightarrow> (nat \<Rightarrow> progress) \<Rightarrow> nat" where
  "load_work n st = (\<Sum>r<n. started (st r) + waited (st r))"

lemma load_work_upd:
  assumes "r < n"
  shows "load_work n (st(r := p)) + (started (st r) + waited (st r)) = load_work n st + (started p + waited p)"
proof -
  have "(\<Sum>q \<in> {..<n} - {r}. started ((st(r := p)) q) + waited ((st(r := p)) q)) = (\<Sum>q \<in> {..<n} - {r}. started (st q) + waited (st q))"
    by (rule sum.cong) auto
  with assms show ?thesis unfolding load_work_def by (simp add: sum.remove [of "{..<n}" r])
qed

lemma load_work_step: "load_step n progs st st' \<Longrightarrow> load_work n st' = load_work n st + 1"
proof (induction rule: load_step.induct)
  case (start r st s w)
  with load_work_upd [OF start(1), of st "Progress (s + 1) w"] show ?case by (simp add: fun_upd_def)
next
  case (wait r st s w)
  with load_work_upd [OF wait(1), of st "Progress s (w + 1)"] show ?case by (simp add: fun_upd_def)
qed

lemma load_steps:
  "(load_step n progs ^^ j) load_start st \<Longrightarrow> load_invariant n progs st \<and> load_work n st = j"
proof (induction j arbitrary: st)
  case 0
  then have "st = load_start" by simp
  moreover have "load_work n load_start = 0" by (simp add: load_work_def load_start_def)
  ultimately show ?case using load_invariant_start [of n progs] by blast
next
  case (Suc j)
  then obtain st0 where "(load_step n progs ^^ j) load_start st0" "load_step n progs st0 st" by auto
  with Suc.IH load_invariant_step load_work_step show ?case by fastforce
qed

lemma load_runs_end:
  assumes "in_step n ops" and progs: "\<And>r. progs r = map snd (ops r)" and "(load_step n progs ^^ j) load_start st"
  shows "j \<le> 2 * (\<Sum>r<n. length (progs r))"
    and "if j = 2 * (\<Sum>r<n. length (progs r)) then \<forall>r < n. waited (st r) = length (progs r) else \<exists>st'. load_step n progs st st'"
proof -
  from load_steps [OF assms(3)] have inv: "load_invariant n progs st" and j: "load_work n st = j" by simp_all
  have bound: "started (st r) + waited (st r) \<le> 2 * length (progs r)" if "r < n" for r
    using inv that by (fastforce simp: load_invariant_def)
  show le: "j \<le> 2 * (\<Sum>r<n. length (progs r))"
    unfolding j [symmetric] load_work_def sum_distrib_left by (rule sum_mono) (use bound in auto)
  show "if j = 2 * (\<Sum>r<n. length (progs r)) then \<forall>r < n. waited (st r) = length (progs r) else \<exists>st'. load_step n progs st st'"
  proof (cases "\<exists>r < n. waited (st r) < length (progs r)")
    case True
    then obtain r where r: "r < n" "waited (st r) < length (progs r)" by blast
    have "(\<Sum>r<n. started (st r) + waited (st r)) < (\<Sum>r<n. 2 * length (progs r))"
    proof (rule sum_strict_mono_ex1)
      show "\<exists>r \<in> {..<n}. started (st r) + waited (st r) < 2 * length (progs r)"
        using r inv by (intro bexI [of _ r]) (auto simp: load_invariant_def)
    qed (use bound in auto)
    then have "j \<noteq> 2 * (\<Sum>r<n. length (progs r))" unfolding j [symmetric] load_work_def sum_distrib_left by simp
    with load_progress [OF assms(1) progs inv r] show ?thesis by simp
  next
    case False
    with inv have fin: "started (st r) = length (progs r) \<and> waited (st r) = length (progs r)" if "r < n" for r
      using that by (fastforce simp: load_invariant_def)
    then have "j = (\<Sum>r<n. 2 * length (progs r))" unfolding j [symmetric] load_work_def by (intro sum.cong) auto
    with fin show ?thesis by (simp add: sum_distrib_left)
  qed
qed

section \<open>The programs of a load\<close>

definition marked_plan :: "checkpoint_metadata \<Rightarrow> read_item list list \<Rightarrow> nat \<Rightarrow> read_item list" where
  "marked_plan md plans r = (case build_global_load_plan True (int r) md plans of Inl e \<Rightarrow> [] | Inr items \<Rightarrow> items)"

definition rank_shards ::
    "(nat \<Rightarrow> shard_key \<Rightarrow> string \<times> int) \<Rightarrow> checkpoint_metadata \<Rightarrow> read_item list list \<Rightarrow> nat \<Rightarrow> shard list" where
  "rank_shards buffer md plans r = map (shared_shard (buffer r) (marked_plan md plans r)) (shared_names (marked_plan md plans r))"

definition rank_broadcasts ::
    "int \<Rightarrow> (nat \<Rightarrow> shard_key \<Rightarrow> string \<times> int) \<Rightarrow> checkpoint_metadata \<Rightarrow> read_item list list \<Rightarrow> nat \<Rightarrow> broadcast list" where
  "rank_broadcasts limit buffer md plans r = load_broadcasts limit (buffer r) (marked_plan md plans r)"

lemma marked_plan_map:
  assumes "2 \<le> length plans" and "r < length plans"
  shows "marked_plan md plans r = map (mark_item (broadcast_sources md plans)) (plans ! r)"
proof -
  have own: "own_plan_index plans (int r) = Inr r" using assms by (simp add: own_plan_index_def)
  have "mark_item [] = (\<lambda>it. it)" by (simp add: mark_item_def fun_eq_iff)
  then show ?thesis using assms by (simp add: marked_plan_def build_global_load_plan_def own broadcast_sources_def)
qed

lemma by_shard_snoc: "by_shard (items @ [it]) = ddict_append (by_shard items) (index_key (dest_index it)) it"
  by (simp add: by_shard_def)

lemma by_shard_list: "dict_list (by_shard items) k = filter (\<lambda>it. index_key (dest_index it) = k) items"
  by (induction items rule: rev_induct) (simp_all add: by_shard_snoc, simp add: by_shard_def dict_list_def)

lemma by_shard_keys: "set (map fst (by_shard items)) = (\<lambda>it. index_key (dest_index it)) ` set items"
proof (induction items rule: rev_induct)
  case (snoc it items)
  let ?k = "index_key (dest_index it)"
  have "set (map fst (dict_set (by_shard items) ?k v)) = insert ?k (set (map fst (by_shard items)))" for v
    unfolding keys_dict_set
    by (cases "?k \<in> set (map fst (by_shard items))") (simp_all add: insert_absorb del: list.set_map)
  with snoc show ?case unfolding by_shard_snoc ddict_append_def by simp
qed (simp add: by_shard_def)

lemma by_shard_distinct: "distinct (map fst (by_shard items))"
proof (induction items rule: rev_induct)
  case (snoc it items)
  then show ?case unfolding by_shard_snoc ddict_append_def by (rule distinct_dict_set)
qed (simp add: by_shard_def)

text \<open>The names a rank goes through: those of its shards that have a source.\<close>

lemma shared_names_marked:
  assumes "\<forall>it \<in> set plan. source it = None"
  shows "set (shared_names (map (mark_item sources) plan)) = {k \<in> (\<lambda>it. index_key (dest_index it)) ` set plan. map_of sources k \<noteq> None}"
    and "sorted_wrt (<) (shared_names (map (mark_item sources) plan))"
    and "k \<in> set (shared_names (map (mark_item sources) plan)) \<Longrightarrow>
      shared_shard buffer (map (mark_item sources) plan) k =
        \<lparr>shard_name = k, shard_source = the (map_of sources k), shard_dtype = fst (buffer k), shard_bytes = snd (buffer k)\<rparr>"
proof -
  let ?items = "map (mark_item sources) plan"
  have key: "index_key (dest_index (mark_item sources it)) = index_key (dest_index it)" for it
    by (simp add: mark_item_def split: option.splits)
  have src: "source (mark_item sources it) = map_of sources (index_key (dest_index it))" if "it \<in> set plan" for it
    using assms that by (simp add: mark_item_def split: option.splits)
  have keys: "set (map fst (by_shard ?items)) = (\<lambda>it. index_key (dest_index it)) ` set plan"
    unfolding by_shard_keys by (simp add: image_image key)
  have first: "source (hd (dict_list (by_shard ?items) k)) = map_of sources k" if k: "k \<in> set (map fst (by_shard ?items))" for k
  proof -
    from k [unfolded keys] have "filter (\<lambda>it. index_key (dest_index it) = k) ?items \<noteq> []" by (auto simp: filter_empty_conv key)
    then have "hd (filter (\<lambda>it. index_key (dest_index it) = k) ?items) \<in> set (filter (\<lambda>it. index_key (dest_index it) = k) ?items)" by (rule hd_in_set)
    then obtain it where "it \<in> set plan" "hd (filter (\<lambda>it. index_key (dest_index it) = k) ?items) = mark_item sources it"
      "index_key (dest_index it) = k" by (auto simp: key)
    with src show ?thesis by (simp add: by_shard_list)
  qed
  have entry: "source (hd its) = map_of sources k \<and> k \<in> set (map fst (by_shard ?items))" if "(k, its) \<in> set (by_shard ?items)" for k its
  proof -
    have "map_of (by_shard ?items) k = Some its" using that by_shard_distinct by simp
    then have "dict_list (by_shard ?items) k = its" by (simp add: dict_list_def)
    moreover have "k \<in> set (map fst (by_shard ?items))" using that by force
    ultimately show ?thesis using first by blast
  qed
  have "set (map fst (filter (\<lambda>(k, its). source (hd its) \<noteq> None) (by_shard ?items))) =
      {k \<in> set (map fst (by_shard ?items)). map_of sources k \<noteq> None}"
    using entry by fastforce
  then show set: "set (shared_names ?items) = {k \<in> (\<lambda>it. index_key (dest_index it)) ` set plan. map_of sources k \<noteq> None}"
    unfolding shared_names_def set_sort keys .
  have "distinct (map fst (filter (\<lambda>(k, its). source (hd its) \<noteq> None) (by_shard ?items)))"
    by (rule distinct_map_filter [OF by_shard_distinct])
  then show "sorted_wrt (<) (shared_names ?items)" by (simp add: shared_names_def strict_sorted_iff)
  show "shared_shard buffer ?items k =
        \<lparr>shard_name = k, shard_source = the (map_of sources k), shard_dtype = fst (buffer k), shard_bytes = snd (buffer k)\<rparr>"
    if "k \<in> set (shared_names ?items)"
    using first [of k] that unfolding set keys [symmetric] by (simp add: shared_shard_def)
qed

lemma load_plan_items:
  assumes "build_load_plan allow rank md sd = Inr plan" and "it \<in> set plan"
  shows "source it = None" and "read_type it = BYTE_IO \<longleftrightarrow> map_of (state_dict_metadata md) (fqn (dest_index it)) = Some Bytes_Storage"
proof -
  from assms(1) obtain itss where itss: "map_res (\<lambda>(name, obj). read_items_of allow rank md name obj) sd = Inr itss"
    and plan: "plan = concat itss" by (auto simp: build_load_plan_def bind_res_Inr_iff)
  from assms(2) plan obtain its where "its \<in> set itss" "it \<in> set its" by auto
  then obtain i where i: "i < length itss" "it \<in> set (itss ! i)" by (metis in_set_conv_nth)
  have "i < length sd" using i(1) map_res_Inr_length [OF itss] by simp
  from map_res_Inr_nth [OF itss this] obtain name obj where run: "read_items_of allow rank md name obj = Inr (itss ! i)"
    by (auto simp: case_prod_beta)
  have tensor: "source it = None \<and> read_type it = TENSOR \<and> fqn (dest_index it) = name"
    if "create_read_items name ts chunks bc = Inr (itss ! i)" for ts chunks bc
  proof -
    from that obtain mss where mss: "map_res (\<lambda>lc. map_res (read_item_for name bc lc) (enum (ts_chunks ts))) (enum chunks) = Inr mss"
      and its: "itss ! i = somes (concat mss)" by (auto simp: create_read_items_def bind_res_Inr_iff)
    from i(2) its obtain ms where "ms \<in> set mss" "Some it \<in> set ms" by auto
    then obtain j where j: "j < length mss" "Some it \<in> set (mss ! j)" by (metis in_set_conv_nth)
    have "j < length (enum chunks)" using j(1) map_res_Inr_length [OF mss] by simp
    note row = map_res_Inr_nth [OF mss this]
    from j(2) obtain l where l: "l < length (mss ! j)" "mss ! j ! l = Some it" by (metis in_set_conv_nth)
    have "l < length (enum (ts_chunks ts))" using l(1) map_res_Inr_length [OF row] by simp
    from map_res_Inr_nth [OF row this] l(2) show ?thesis
      by (auto simp: read_item_for_def bind_res_Inr_iff Let_def case_prod_beta)
  qed
  have "source it = None \<and> (read_type it = BYTE_IO \<longleftrightarrow> map_of (state_dict_metadata md) (fqn (dest_index it)) = Some Bytes_Storage)"
  proof (cases "map_of (state_dict_metadata md) name")
    case None
    with run i(2) show ?thesis by (auto simp: read_items_of_def split: if_splits)
  next
    case (Some storage)
    show ?thesis
    proof (cases storage)
      case Bytes_Storage
      with Some run have "itss ! i = [byte_read name]" by (simp add: read_items_of_def)
      with i(2) have "it = byte_read name" by simp
      with Some Bytes_Storage show ?thesis by (simp add: byte_read_def)
    next
      case (Tensor_Storage ts)
      with Some run i(2) obtain chunks where "create_read_items name ts chunks (\<not> is_on_host obj) = Inr (itss ! i)"
        by (auto simp: read_items_of_def bind_res_Inr_iff split: if_splits)
      from tensor [OF this] Some Tensor_Storage show ?thesis by simp
    qed
  qed
  then show "source it = None" and "read_type it = BYTE_IO \<longleftrightarrow> map_of (state_dict_metadata md) (fqn (dest_index it)) = Some Bytes_Storage"
    by blast+
qed

section \<open>An example\<close>

definition pair_metadata :: checkpoint_metadata where
  "pair_metadata = \<lparr>state_dict_metadata =
     [(''w'', Tensor_Storage \<lparr>ts_properties = properties_of ''float32'', ts_size = [4], ts_chunks = [whole_chunk [4]]\<rparr>),
      (''b'', Tensor_Storage \<lparr>ts_properties = properties_of ''float32'', ts_size = [1], ts_chunks = [whole_chunk [1]]\<rparr>)],
     name_mapping = None\<rparr>"

definition pair_dict :: "(string, state_obj) dict" where
  "pair_dict = map (\<lambda>(name, n). (name, Plain \<lparr>p_shape = [n], p_dtype = ''float32'', p_chunk_info = None, p_device = ''npu''\<rparr>))
     [(''w'', 4), (''b'', 1)]"

definition pair_plan :: "read_item list" where
  "pair_plan = (case build_load_plan False 0 pair_metadata pair_dict of Inl e \<Rightarrow> [] | Inr plan \<Rightarrow> plan)"

definition pair_buffer :: "nat \<Rightarrow> shard_key \<Rightarrow> string \<times> int" where
  "pair_buffer r k = (''float32'', if fst k = ''w'' then 16 else 4)"

section \<open>The properties\<close>

definition loads :: "bool \<Rightarrow> checkpoint_metadata \<Rightarrow> (string, state_obj) dict list \<Rightarrow> read_item list list \<Rightarrow> bool" where
  "loads allow md dicts plans \<longleftrightarrow> length plans = length dicts \<and> 2 \<le> length plans \<and>
     list_all (\<lambda>p. build_load_plan allow (int p) md (dicts ! p) = Inr (plans ! p)) [0..<length plans]"

text \<open>The ranks that load a shard hold it in buffers of one type and size.\<close>

definition same_buffers :: "read_item list list \<Rightarrow> (nat \<Rightarrow> shard_key \<Rightarrow> string \<times> int) \<Rightarrow> bool" where
  "same_buffers plans buffer \<longleftrightarrow> (\<forall>k. \<forall>p \<in> holders plans k. \<forall>q \<in> holders plans k. buffer p k = buffer q k)"

lemma rank_names:
  assumes "loads allow md dicts plans" and r: "r < length plans"
  shows "set (map shard_name (rank_shards buffer md plans r)) = {k. map_of (broadcast_sources md plans) k \<noteq> None \<and> r \<in> holders plans k}"
    and "sorted_wrt (<) (map shard_name (rank_shards buffer md plans r))"
    and "rank_shards buffer md plans r = map (\<lambda>k. \<lparr>shard_name = k, shard_source = the (map_of (broadcast_sources md plans) k),
      shard_dtype = fst (buffer r k), shard_bytes = snd (buffer r k)\<rparr>) (map shard_name (rank_shards buffer md plans r))"
proof -
  let ?sources = "broadcast_sources md plans"
  have plan: "build_load_plan allow (int p) md (dicts ! p) = Inr (plans ! p)" if "p < length plans" for p
    using assms(1) that by (simp add: loads_def list_all_iff)
  have marked: "marked_plan md plans r = map (mark_item ?sources) (plans ! r)"
    using assms by (intro marked_plan_map) (simp_all add: loads_def)
  have "\<forall>it \<in> set (plans ! r). source it = None" using load_plan_items(1) [OF plan [OF r]] by blast
  note names = shared_names_marked [OF this, where sources = ?sources, folded marked]
  have shards: "map shard_name (rank_shards buffer md plans r) = shared_names (marked_plan md plans r)"
    by (simp add: rank_shards_def comp_def shared_shard_def)
  have "k \<in> (\<lambda>it. index_key (dest_index it)) ` set (plans ! r) \<longleftrightarrow> r \<in> holders plans k" if "map_of ?sources k = Some s" for k s
  proof
    assume "k \<in> (\<lambda>it. index_key (dest_index it)) ` set (plans ! r)"
    then obtain it where it: "it \<in> set (plans ! r)" "index_key (dest_index it) = k" by blast
    from sources_of_shared(5) [OF that] obtain it' where it': "src_rank s < length plans" "it' \<in> set (plans ! src_rank s)"
      "read_type it' = TENSOR" "index_key (dest_index it') = k" by (auto simp: holders_def)
    have "fqn (dest_index it) = fqn (dest_index it')" using it(2) it'(4) by (auto simp: index_key_def)
    then have "read_type it = BYTE_IO \<longleftrightarrow> read_type it' = BYTE_IO"
      using load_plan_items(2) [OF plan [OF r] it(1)] load_plan_items(2) [OF plan [OF it'(1)] it'(2)] by simp
    then have "read_type it = TENSOR" using it'(3) by (cases "read_type it") simp_all
    with it r show "r \<in> holders plans k" by (auto simp: holders_def)
  qed (auto simp: holders_def)
  then show "set (map shard_name (rank_shards buffer md plans r)) = {k. map_of ?sources k \<noteq> None \<and> r \<in> holders plans k}"
    unfolding shards names(1) by blast
  show "sorted_wrt (<) (map shard_name (rank_shards buffer md plans r))" unfolding shards by (rule names(2))
  show "rank_shards buffer md plans r = map (\<lambda>k. \<lparr>shard_name = k, shard_source = the (map_of ?sources k),
      shard_dtype = fst (buffer r k), shard_bytes = snd (buffer r k)\<rparr>) (map shard_name (rank_shards buffer md plans r))"
    unfolding shards using names(3) by (simp add: rank_shards_def)
qed

lemma shards_of_group:
  assumes "loads allow md dicts plans" and "same_buffers plans buffer" and "r < length plans" and "q < length plans"
    and "r \<in> set G" and "q \<in> set G"
  shows "filter (\<lambda>s. shard_group s = G) (rank_shards buffer md plans r) = filter (\<lambda>s. shard_group s = G) (rank_shards buffer md plans q)"
proof -
  let ?sources = "broadcast_sources md plans" and ?P = "\<lambda>k. group_ranks (the (map_of (broadcast_sources md plans) k)) = G"
  let ?mk = "\<lambda>r k. \<lparr>shard_name = k, shard_source = the (map_of ?sources k), shard_dtype = fst (buffer r k), shard_bytes = snd (buffer r k)\<rparr>"
  let ?names = "\<lambda>r. filter ?P (map shard_name (rank_shards buffer md plans r))"
  have view: "filter (\<lambda>s. shard_group s = G) (rank_shards buffer md plans p) = map (?mk p) (?names p)" if "p < length plans" for p
    by (subst rank_names(3) [OF assms(1) that]) (simp add: filter_map comp_def)
  have mem: "set (?names p) = {k. \<exists>s. map_of ?sources k = Some s \<and> group_ranks s = G}" if "p < length plans" "p \<in> set G" for p
    using sources_of_shared(1) that(2) unfolding set_filter rank_names(1) [OF assms(1) that(1)] by fastforce
  have sorted: "sorted_wrt (<) (?names p)" if "p < length plans" for p
    using rank_names(2) [OF assms(1) that] by (rule sorted_wrt_filter)
  have "?names r = ?names q"
    using sorted [OF assms(3)] sorted [OF assms(4)] mem [OF assms(3,5)] mem [OF assms(4,6)]
    by (intro sorted_distinct_set_unique) (simp_all only: strict_sorted_iff)
  moreover have "?mk r k = ?mk q k" if "k \<in> set (?names r)" for k
  proof -
    from that obtain s where "map_of ?sources k = Some s" "group_ranks s = G" unfolding mem [OF assms(3,5)] by blast
    with sources_of_shared(1) assms(5,6) have "r \<in> holders plans k" "q \<in> holders plans k" by blast+
    with assms(2) have "buffer r k = buffer q k" unfolding same_buffers_def by blast
    then show ?thesis by simp
  qed
  ultimately show ?thesis unfolding view [OF assms(3)] view [OF assms(4)] by (metis (no_types, lifting) map_cong)
qed

lemma no_shards_beyond: "\<not> r < length plans \<Longrightarrow> 2 \<le> length plans \<Longrightarrow> rank_shards buffer md plans r = []"
  by (simp add: rank_shards_def marked_plan_def build_global_load_plan_def own_plan_index_def shared_names_def by_shard_def)

lemma rank_broadcasts_tagged:
  assumes "loads allow md dicts plans"
  shows "rank_broadcasts limit buffer md plans r = map snd (tagged_broadcasts limit (rank_shards buffer md plans r))"
proof -
  have "sorted_wrt (<) (map shard_name (rank_shards buffer md plans r))"
    using rank_names(2) [OF assms] no_shards_beyond [of r plans buffer md] assms by (cases "r < length plans") (simp_all add: loads_def)
  then show ?thesis unfolding rank_broadcasts_def rank_shards_def by (rule load_broadcasts_tagged)
qed

lemma load_in_step:
  assumes "loads allow md dicts plans" and "same_buffers plans buffer"
  shows "in_step (length plans) (\<lambda>r. tagged_broadcasts limit (rank_shards buffer md plans r))"
  unfolding in_step_def
proof (intro allI impI conjI ballI)
  let ?ops = "\<lambda>r. tagged_broadcasts limit (rank_shards buffer md plans r)"
  fix r assume r: "r < length plans"
  show "sorted_wrt (<) (map fst (?ops r))" by (rule tagged_sorted [OF rank_names(2) [OF assms(1) r]])
  fix x q assume x: "x \<in> set (?ops r)" and q: "q \<in> set (sent_group (snd x))"
  let ?G = "sent_group (snd x)"
  have "x \<in> set (filter (\<lambda>y. sent_group (snd y) = ?G) (?ops r))" using x by simp
  then have "filter (\<lambda>s. shard_group s = ?G) (rank_shards buffer md plans r) \<noteq> []"
    unfolding tagged_of_group by (auto simp: tagged_broadcasts_def new_batcher_def)
  then obtain s where s: "s \<in> set (rank_shards buffer md plans r)" "shard_group s = ?G" by (auto simp: filter_empty_conv)
  then have "shard_name s \<in> set (map shard_name (rank_shards buffer md plans r))" by simp
  then obtain src where src: "map_of (broadcast_sources md plans) (shard_name s) = Some src" "r \<in> holders plans (shard_name s)"
    unfolding rank_names(1) [OF assms(1) r] by auto
  have "shard_source s = src" using s(1) src(1) by (subst (asm) rank_names(3) [OF assms(1) r]) auto
  with s(2) sources_of_shared(1) [OF src(1)] src(2) q have G: "r \<in> set ?G" "q \<in> holders plans (shard_name s)" by auto
  then show n: "q < length plans" by (simp add: holders_def)
  show "filter (\<lambda>y. sent_group (snd y) = ?G) (?ops q) = filter (\<lambda>y. sent_group (snd y) = ?G) (?ops r)"
    unfolding tagged_of_group using shards_of_group [OF assms n r q G(1)] by simp
qed

text \<open>
  C6: A load that sends shards between its ranks finishes: whatever the ranks do next, as long as a broadcast is
  not waited on somebody can go on, and after as many steps as there are starts and waits all are
  through. The order of the broadcasts comes from the names of the shards and the batches, and at most eight are in flight.
\<close>

theorem load_broadcasts_finish:
  assumes "loads allow md dicts plans" and "same_buffers plans buffer"
    and "(load_step (length plans) (rank_broadcasts limit buffer md plans) ^^ j) load_start st"
  shows "let total = 2 * (\<Sum>r<length plans. length (rank_broadcasts limit buffer md plans r))
    in j \<le> total \<and> (if j = total then \<forall>r < length plans. waited (st r) = length (rank_broadcasts limit buffer md plans r)
       else \<exists>st'. load_step (length plans) (rank_broadcasts limit buffer md plans) st st')"
  using load_runs_end [OF load_in_step [OF assms(1,2)] rank_broadcasts_tagged [OF assms(1)] assms(3)] unfolding Let_def by blast

text \<open>Two ranks hold \<open>w\<close> and \<open>b\<close>: \<open>w\<close> is large, \<open>b\<close> waits for the end of the shards.\<close>

theorem load_broadcasts_finish_witness:
  "(\<exists>st'. load_step 2 (rank_broadcasts 16 pair_buffer pair_metadata [pair_plan, pair_plan]) load_start st') \<and>
     map sent_shards (rank_broadcasts 16 pair_buffer pair_metadata [pair_plan, pair_plan] 1) =
       [[\<lparr>shard_name = (''w'', [0]), shard_source = \<lparr>group_ranks = [0, 1], src_rank = 0\<rparr>, shard_dtype = ''float32'', shard_bytes = 16\<rparr>],
        [\<lparr>shard_name = (''b'', [0]), shard_source = \<lparr>group_ranks = [0, 1], src_rank = 1\<rparr>, shard_dtype = ''float32'', shard_bytes = 4\<rparr>]]"
proof -
  let ?progs = "rank_broadcasts 16 pair_buffer pair_metadata [pair_plan, pair_plan]"
  have l: "loads False pair_metadata [pair_dict, pair_dict] [pair_plan, pair_plan]" by code_simp
  have s: "same_buffers [pair_plan, pair_plan] pair_buffer" by (simp add: same_buffers_def pair_buffer_def)
  have run: "map sent_shards (?progs 1) =
       [[\<lparr>shard_name = (''w'', [0]), shard_source = \<lparr>group_ranks = [0, 1], src_rank = 0\<rparr>, shard_dtype = ''float32'', shard_bytes = 16\<rparr>],
        [\<lparr>shard_name = (''b'', [0]), shard_source = \<lparr>group_ranks = [0, 1], src_rank = 1\<rparr>, shard_dtype = ''float32'', shard_bytes = 4\<rparr>]]"
    by code_simp
  have "length (?progs 1) = 2" using arg_cong [OF run, of length] by simp
  then have total: "2 * (\<Sum>r<2. length (?progs r)) \<noteq> 0" by (simp add: lessThan_Suc numeral_2_eq_2)
  have n: "length [pair_plan, pair_plan] = 2" by simp
  have "(load_step 2 ?progs ^^ 0) load_start load_start" by simp
  from load_broadcasts_finish [OF l s, unfolded n, OF this] total
  have "\<exists>st'. load_step 2 ?progs load_start st'" unfolding Let_def by presburger
  with run show ?thesis by blast
qed

text \<open>
  C13: The broadcasts that meet are the same: the group of a broadcast is made of ranks of the load, and on the
  group every one of them starts the same broadcasts in the same order, with the same sender and the same
  shards in the same batches.
\<close>

theorem load_broadcasts_agree:
  assumes "loads allow md dicts plans" and "same_buffers plans buffer" and "r < length plans"
    and "b \<in> set (rank_broadcasts limit buffer md plans r)"
  shows "list_all (\<lambda>q. q < length plans \<and> on_group (sent_group b) (rank_broadcasts limit buffer md plans q) =
      on_group (sent_group b) (rank_broadcasts limit buffer md plans r)) (sent_group b)"
proof -
  let ?ops = "\<lambda>r. tagged_broadcasts limit (rank_shards buffer md plans r)"
  from assms(4) obtain x where x: "x \<in> set (?ops r)" "b = snd x" unfolding rank_broadcasts_tagged [OF assms(1)] by auto
  have step: "q < length plans \<and> filter (\<lambda>y. sent_group (snd y) = sent_group b) (?ops q) = filter (\<lambda>y. sent_group (snd y) = sent_group b) (?ops r)"
    if "q \<in> set (sent_group b)" for q
    using load_in_step [OF assms(1,2), of limit] assms(3) x that unfolding in_step_def by blast
  have "on_group (sent_group b) (rank_broadcasts limit buffer md plans q) = map snd (filter (\<lambda>y. sent_group (snd y) = sent_group b) (?ops q))" for q
    by (simp add: rank_broadcasts_tagged [OF assms(1)] on_group_def filter_map comp_def)
  with step show ?thesis by (simp add: list_all_iff)
qed

text \<open>The rank that holds both reads the large one and sends it.\<close>

theorem load_broadcasts_agree_witness:
  "rank_broadcasts 16 pair_buffer pair_metadata [pair_plan, pair_plan] 0 \<noteq> [] \<and>
     on_group [0, 1] (rank_broadcasts 16 pair_buffer pair_metadata [pair_plan, pair_plan] 1) =
     on_group [0, 1] (rank_broadcasts 16 pair_buffer pair_metadata [pair_plan, pair_plan] 0)"
proof -
  let ?progs = "rank_broadcasts 16 pair_buffer pair_metadata [pair_plan, pair_plan]"
  have l: "loads False pair_metadata [pair_dict, pair_dict] [pair_plan, pair_plan]" by code_simp
  have s: "same_buffers [pair_plan, pair_plan] pair_buffer" by (simp add: same_buffers_def pair_buffer_def)
  have run: "map sent_source (?progs 0) = [\<lparr>group_ranks = [0, 1], src_rank = 0\<rparr>, \<lparr>group_ranks = [0, 1], src_rank = 1\<rparr>]" by code_simp
  then have ne: "?progs 0 \<noteq> []" by auto
  then have "hd (?progs 0) \<in> set (?progs 0)" and g: "sent_group (hd (?progs 0)) = [0, 1]"
    using run by (auto simp: hd_map [symmetric] intro: hd_in_set)
  from load_broadcasts_agree [OF l s _ this(1)] g ne show ?thesis by simp
qed

end
