(* ===== verification/State_Dict.thy ===== *)
theory State_Dict
  imports Hyper_Prelude
begin

text \<open>
  Nested state dicts (utils.py and standard_planner.py of core/distributed_checkpoint): a checkpoint stores a
  flat dict from dotted names to values, with the path of every name in the nested one. \<open>flatten_state_dict\<close>
  makes the flat dict, \<open>set_element\<close> puts a value at a path, and the planners use both. A value is a tree of
  dicts, lists and tuples; what an assignment into an object of another class does is a parameter
  (\<open>foreign\<close>), as is the decoding of bytes. Rebuilding a flattened dict gives it back up to the
  containers \<open>set_element\<close> makes.
\<close>

section \<open>Values and paths\<close>

text \<open>A key of a dict, and an entry of a path: a string or an integer.\<close>

datatype py_key = KStr string | KInt int

datatype 'a obj =
    Tensor_Obj 'a
  | Other_Obj 'a
  | None_Obj
  | Dict_Obj "(py_key \<times> 'a obj) list"
  | List_Obj "'a obj list"
  | Tuple_Obj "'a obj list"

type_synonym path = "py_key list"

fun str_key :: "py_key \<Rightarrow> string" where
  "str_key (KStr s) = s"
| "str_key (KInt i) = string_of_int i"

fun is_container :: "'a obj \<Rightarrow> bool" where
  "is_container (Dict_Obj _) = True"
| "is_container (List_Obj _) = True"
| "is_container (Tuple_Obj _) = True"
| "is_container _ = False"

fun is_tensor :: "'a obj \<Rightarrow> bool" where
  "is_tensor (Tensor_Obj _) = True"
| "is_tensor _ = False"

fun is_terminal :: "'a obj \<Rightarrow> bool" where
  "is_terminal (Dict_Obj _) = False"
| "is_terminal (List_Obj vs) = list_all (\<lambda>e. \<not> (is_container e \<and> \<not> is_terminal e) \<and> \<not> is_tensor e) vs"
| "is_terminal (Tuple_Obj vs) = list_all (\<lambda>e. \<not> (is_container e \<and> \<not> is_terminal e) \<and> \<not> is_tensor e) vs"
| "is_terminal _ = True"

section \<open>Flattening\<close>

lemma size_dict_member: "(k, v) \<in> set d \<Longrightarrow> size v < size (Dict_Obj d)"
  by (induction d) auto

lemma size_enumerate_member: "(i, v) \<in> set (enumerate n vs) \<Longrightarrow> size v < Suc (size_list size vs)"
proof (induction vs arbitrary: n)
  case (Cons w vs)
  then show ?case using Cons.IH [of "Suc n"] by fastforce
qed simp

text \<open>The visits of \<open>_traverse_obj\<close> in order. The visitor sees a path and a value and does not influence the traversal.\<close>

function traverse_obj :: "path \<Rightarrow> 'a obj \<Rightarrow> (path \<times> 'a obj) list" where
  "traverse_obj path (Dict_Obj d) = concat (map (\<lambda>(k, v). traverse_obj (path @ [KStr (str_key k)]) v) d)"
| "traverse_obj path (List_Obj vs) =
     (if is_terminal (List_Obj vs) then [(path, List_Obj vs)]
      else concat (map (\<lambda>(i, v). traverse_obj (path @ [KInt (int i)]) v) (enumerate 0 vs)))"
| "traverse_obj path (Tuple_Obj vs) =
     (if is_terminal (Tuple_Obj vs) then [(path, Tuple_Obj vs)]
      else concat (map (\<lambda>(i, v). traverse_obj (path @ [KInt (int i)]) v) (enumerate 0 vs)))"
| "traverse_obj path (Tensor_Obj x) = [(path, Tensor_Obj x)]"
| "traverse_obj path (Other_Obj x) = [(path, Other_Obj x)]"
| "traverse_obj path None_Obj = [(path, None_Obj)]"
  by pat_completeness auto

termination
  by (relation "measure (\<lambda>(path, v). size v)")
    (use size_dict_member size_enumerate_member in auto)

definition traverse_state_dict :: "(py_key, 'a obj) dict \<Rightarrow> (path \<times> 'a obj) list" where
  "traverse_state_dict d = concat (map (\<lambda>(k, v). traverse_obj [KStr (str_key k)] v) d)"

text \<open>\<open>".".join(map(str, path))\<close>\<close>

fun dotted :: "path \<Rightarrow> string" where
  "dotted [] = ''''"
| "dotted [k] = str_key k"
| "dotted (k # ks) = str_key k @ ''.'' @ dotted ks"

type_synonym 'a flat_dict = "(string, 'a obj) dict \<times> (string, path) dict"

definition flat_copy :: "path \<times> 'a obj \<Rightarrow> 'a flat_dict \<Rightarrow> 'a flat_dict result" where
  "flat_copy visit state =
     (let (p, v) = visit; (fqn_names, mappings) = state; new_fqn = dotted p in
      if new_fqn \<in> set (map fst fqn_names) then Inl ValueError
      else Inr (dict_set fqn_names new_fqn v, dict_set mappings new_fqn p))"

definition flatten_state_dict :: "(py_key, 'a obj) dict \<Rightarrow> 'a flat_dict result" where
  "flatten_state_dict d = for_res flat_copy (traverse_state_dict d) ([], [])"

section \<open>Setting an element\<close>

definition extend_list :: "'a obj list \<Rightarrow> int \<Rightarrow> 'a obj list" where
  "extend_list lst idx = lst @ replicate (nat (idx + 1 - int (length lst))) None_Obj"

definition default_container :: "py_key \<Rightarrow> 'a obj" where
  "default_container next_key = (case next_key of KStr _ \<Rightarrow> Dict_Obj [] | KInt _ \<Rightarrow> List_Obj [])"

text \<open>
  \<open>set_element\<close> walks down to the last container and changes it in place; the result is the changed
  root. A tuple has no \<open>append\<close> and takes no assignment, but what is in it can change; a string is no index of a list.
\<close>

fun set_element ::
    "('a obj \<Rightarrow> path \<Rightarrow> 'a obj \<Rightarrow> 'a obj result) \<Rightarrow> 'a obj \<Rightarrow> path \<Rightarrow> 'a obj \<Rightarrow> 'a obj result" where
  "set_element foreign cur [] v = Inl ValueError"
| "set_element foreign cur [last_key] v =
     (case cur of
        Dict_Obj d \<Rightarrow>
          (case last_key of
             KStr s \<Rightarrow> Inr (Dict_Obj (dict_set d last_key v))
           | KInt i \<Rightarrow> if int (length d) \<le> i then Inl AttributeError else Inr (Dict_Obj (dict_set d last_key v)))
      | List_Obj vs \<Rightarrow>
          (case last_key of
             KStr s \<Rightarrow> Inl TypeError
           | KInt i \<Rightarrow> bind_res (py_set (extend_list vs i) i v) (\<lambda>vs'. Inr (List_Obj vs')))
      | Tuple_Obj vs \<Rightarrow>
          (case last_key of
             KStr s \<Rightarrow> Inl TypeError
           | KInt i \<Rightarrow> if int (length vs) \<le> i then Inl AttributeError else Inl TypeError)
      | None_Obj \<Rightarrow> Inl TypeError
      | _ \<Rightarrow> foreign cur [last_key] v)"
| "set_element foreign cur (prev_key # next_key # ks) v =
     (case cur of
        Dict_Obj d \<Rightarrow>
          (let sub = (case map_of d prev_key of None \<Rightarrow> default_container next_key | Some s \<Rightarrow> s) in
           bind_res (set_element foreign sub (next_key # ks) v) (\<lambda>s. Inr (Dict_Obj (dict_set d prev_key s))))
      | List_Obj vs \<Rightarrow>
          (case prev_key of
             KStr s \<Rightarrow> Inl TypeError
           | KInt i \<Rightarrow>
               (let vs' = extend_list vs i in
                bind_res (py_nth vs' i) (\<lambda>e.
                  bind_res (set_element foreign (case e of None_Obj \<Rightarrow> default_container next_key | _ \<Rightarrow> e) (next_key # ks) v)
                    (\<lambda>s. bind_res (py_set vs' i s) (\<lambda>vs''. Inr (List_Obj vs''))))))
      | Tuple_Obj vs \<Rightarrow>
          (case prev_key of
             KStr s \<Rightarrow> Inl TypeError
           | KInt i \<Rightarrow>
               if int (length vs) \<le> i then Inl AttributeError
               else bind_res (py_nth vs i) (\<lambda>e.
                  case e of
                    None_Obj \<Rightarrow> Inl TypeError
                  | _ \<Rightarrow> bind_res (set_element foreign e (next_key # ks) v)
                           (\<lambda>s. bind_res (py_set vs i s) (\<lambda>vs''. Inr (Tuple_Obj vs'')))))
      | None_Obj \<Rightarrow> Inl TypeError
      | _ \<Rightarrow> foreign cur (prev_key # next_key # ks) v)"

section \<open>The planners\<close>

text \<open>
  A load planner after \<open>configure_planner\<close>: the dict of the caller, the one the plan is made for, the paths of the
  flattened names and the flag.
\<close>

record 'a load_planner =
  original_state_dict :: "(py_key, 'a obj) dict"
  planner_state_dict :: "(string, 'a obj) dict"
  name_mapping :: "(string, path) dict"

definition configure_load_planner :: "(py_key, 'a obj) dict \<Rightarrow> 'a load_planner result" where
  "configure_load_planner state_dict =
     bind_res (flatten_state_dict state_dict) (\<lambda>(flat, mapping).
       Inr \<lparr>original_state_dict = state_dict, planner_state_dict = flat, name_mapping = mapping\<rparr>)"

definition apply_bytes ::
    "('a obj \<Rightarrow> path \<Rightarrow> 'a obj \<Rightarrow> 'a obj result) \<Rightarrow> ('b \<Rightarrow> 'a obj result) \<Rightarrow> 'a load_planner \<Rightarrow> string \<Rightarrow> 'b \<Rightarrow>
     'a load_planner result" where
  "apply_bytes foreign loads planner fqn value =
     bind_res (loads value) (\<lambda>obj.
       let state_dict' = dict_set (planner_state_dict planner) fqn obj in
       bind_res (dict_get (name_mapping planner) fqn) (\<lambda>p.
       bind_res (set_element foreign (Dict_Obj (original_state_dict planner)) p obj) (\<lambda>root.
         case root of
           Dict_Obj d \<Rightarrow> Inr (planner\<lparr>planner_state_dict := state_dict', original_state_dict := d\<rparr>)
         | _ \<Rightarrow> Inl TypeError)))"

text \<open>
  \<open>_DcpMergeLoadPlanner.configure_planner\<close> fills an empty dict from the metadata, with a tensor made by
  \<open>alloc\<close> for every tensor, and configures the planner on it.
\<close>

definition merge_entry ::
    "('a obj \<Rightarrow> path \<Rightarrow> 'a obj \<Rightarrow> 'a obj result) \<Rightarrow> ('m \<Rightarrow> 'a obj) \<Rightarrow> (string, path) dict option \<Rightarrow>
     string \<times> 'm \<Rightarrow> (py_key, 'a obj) dict \<Rightarrow> (py_key, 'a obj) dict result" where
  "merge_entry foreign alloc planner_data entry state_dict =
     (let (k, m) = entry; v = alloc m; state_dict = dict_set state_dict (KStr k) v in
      case planner_data of
        None \<Rightarrow> Inr state_dict
      | Some paths \<Rightarrow>
          (case map_of paths k of
             None \<Rightarrow> Inr state_dict
           | Some p \<Rightarrow>
               bind_res (set_element foreign (Dict_Obj state_dict) p v)
                 (\<lambda>root. case root of Dict_Obj d \<Rightarrow> Inr d | _ \<Rightarrow> Inl TypeError)))"

definition configure_merge_planner ::
    "('a obj \<Rightarrow> path \<Rightarrow> 'a obj \<Rightarrow> 'a obj result) \<Rightarrow> ('m \<Rightarrow> 'a obj) \<Rightarrow> (py_key, 'a obj) dict \<Rightarrow>
     (string, 'm) dict \<Rightarrow> (string, path) dict option \<Rightarrow> 'a load_planner result" where
  "configure_merge_planner foreign alloc state_dict state_dict_metadata planner_data =
     (if 0 < length state_dict then Inl ValueError
      else bind_res (for_res (merge_entry foreign alloc planner_data) state_dict_metadata state_dict)
             configure_load_planner)"

section \<open>The entries of a value\<close>

text \<open>What a container holds under the keys of a path, so that one argument serves dicts, lists and tuples.\<close>

fun children :: "'a obj \<Rightarrow> (py_key \<times> 'a obj) list" where
  "children (Dict_Obj d) = map (\<lambda>(k, v). (KStr (str_key k), v)) d"
| "children (List_Obj vs) = map (\<lambda>(i, v). (KInt (int i), v)) (enumerate 0 vs)"
| "children (Tuple_Obj vs) = map (\<lambda>(i, v). (KInt (int i), v)) (enumerate 0 vs)"
| "children _ = []"

abbreviation below :: "path \<Rightarrow> (path \<times> 'a obj) list \<Rightarrow> (path \<times> 'a obj) list" where
  "below p es \<equiv> map (\<lambda>(q, x). (p @ q, x)) es"

abbreviation entries :: "'a obj \<Rightarrow> (path \<times> 'a obj) list" where
  "entries v \<equiv> traverse_obj [] v"

lemma children_smaller: "(k, w) \<in> set (children v) \<Longrightarrow> size w < size v"
  by (cases v) (auto dest: size_dict_member size_enumerate_member)

lemma obj_children_induct [case_names step]:
  assumes "\<And>v. (\<And>k w. (k, w) \<in> set (children v) \<Longrightarrow> P w) \<Longrightarrow> P v"
  shows "P (v :: 'a obj)"
  by (induction v rule: measure_induct_rule [of size]) (use assms children_smaller in blast)

lemma traverse_children:
  "traverse_obj p v =
     (if is_terminal v then [(p, v)] else concat (map (\<lambda>(k, w). traverse_obj (p @ [k]) w) (children v)))"
  by (cases v) (auto simp: case_prod_unfold comp_def)

lemma traverse_below: "traverse_obj (p @ q) v = below p (traverse_obj q v)"
proof (induction v arbitrary: q rule: obj_children_induct)
  case (step v)
  have "map (\<lambda>(k, w). traverse_obj ((p @ q) @ [k]) w) (children v) =
      map (below p) (map (\<lambda>(k, w). traverse_obj (q @ [k]) w) (children v))"
    using step by auto
  then show ?case
    by (simp only: traverse_children [of "p @ q"] traverse_children [of q] map_concat
        split: if_split) simp
qed

lemma entries_unfold:
  "entries v =
     (if is_terminal v then [([], v)] else concat (map (\<lambda>(k, w). below [k] (entries w)) (children v)))"
proof -
  have "traverse_obj ([] @ [k]) w = below [k] (entries w)" for k and w :: "'a obj"
    using traverse_below [of "[k]" "[]" w] by simp
  then show ?thesis by (simp only: traverse_children [of "[]" v])
qed

lemma traverse_state_dict_entries: "traverse_state_dict d = entries (Dict_Obj d)"
  by (simp add: traverse_state_dict_def)

lemma entries_path_nonempty: "\<not> is_terminal v \<Longrightarrow> (p, x) \<in> set (entries v) \<Longrightarrow> p \<noteq> []"
  by (subst (asm) entries_unfold) auto

section \<open>The flat dict\<close>

lemma dict_set_last: "k \<notin> set (map fst d) \<Longrightarrow> dict_set (d @ [(k, u)]) k v = d @ [(k, v)]"
  by (induction d) (auto simp: dict_set_def)

lemma flat_copy_eq:
  "flat_copy (p, x) (F, M) =
    (if dotted p \<in> set (map fst F) then Inl ValueError
     else Inr (dict_set F (dotted p) x, dict_set M (dotted p) p))"
  by (simp add: flat_copy_def Let_def)

lemma flat_copies:
  assumes "map fst F = map fst M"
  shows "for_res flat_copy es (F, M) =
    (if distinct (map (dotted \<circ> fst) es) \<and> set (map (dotted \<circ> fst) es) \<inter> set (map fst F) = {}
     then Inr (F @ map (\<lambda>(p, x). (dotted p, x)) es, M @ map (\<lambda>(p, x). (dotted p, p)) es)
     else Inl ValueError)"
  using assms
proof (induction es arbitrary: F M)
  case (Cons e es)
  obtain p x where e: "e = (p, x)" by (cases e)
  show ?case
  proof (cases "dotted p \<in> set (map fst F)")
    case True
    then show ?thesis by (simp add: e flat_copy_eq)
  next
    case False
    moreover from this have "dotted p \<notin> set (map fst M)" using Cons.prems by simp
    ultimately show ?thesis
      using Cons.IH [of "F @ [(dotted p, x)]" "M @ [(dotted p, p)]"] Cons.prems
      by (auto simp: e flat_copy_eq dict_set_fresh)
  qed
qed simp

lemma flatten_state_dict_eq:
  "flatten_state_dict d =
    (let es = entries (Dict_Obj d) in
     if distinct (map (dotted \<circ> fst) es)
     then Inr (map (\<lambda>(p, x). (dotted p, x)) es, map (\<lambda>(p, x). (dotted p, p)) es)
     else Inl ValueError)"
  unfolding flatten_state_dict_def traverse_state_dict_entries Let_def
  by (subst flat_copies) (simp_all only: list.map append_Nil list.set Int_empty_right simp_thms)

section \<open>Rebuilding\<close>

text \<open>
  Setting every name of a flat dict at its path, in order, in an empty dict. Keys become strings, and a tuple that
  is taken apart becomes a list.
\<close>

definition rebuild_state_dict ::
    "('a obj \<Rightarrow> path \<Rightarrow> 'a obj \<Rightarrow> 'a obj result) \<Rightarrow> (string, 'a obj) dict \<Rightarrow> (string, path) dict \<Rightarrow> 'a obj result" where
  "rebuild_state_dict foreign flat paths =
     for_res (\<lambda>(n, p) root. bind_res (dict_get flat n) (set_element foreign root p)) paths (Dict_Obj [])"

fun normal :: "'a obj \<Rightarrow> 'a obj" where
  "normal (Dict_Obj d) = Dict_Obj (map (\<lambda>(k, v). (KStr (str_key k), normal v)) d)"
| "normal (List_Obj vs) = List_Obj (if is_terminal (List_Obj vs) then vs else map normal vs)"
| "normal (Tuple_Obj vs) = (if is_terminal (Tuple_Obj vs) then Tuple_Obj vs else List_Obj (map normal vs))"
| "normal v = v"

text \<open>No dict is empty (flattening forgets it) and the keys of a dict differ as strings.\<close>

fun well_keyed :: "'a obj \<Rightarrow> bool" where
  "well_keyed (Dict_Obj d) =
     (d \<noteq> [] \<and> distinct (map (str_key \<circ> fst) d) \<and> list_all (\<lambda>(k, v). well_keyed v) d)"
| "well_keyed (List_Obj vs) = (is_terminal (List_Obj vs) \<or> list_all well_keyed vs)"
| "well_keyed (Tuple_Obj vs) = (is_terminal (Tuple_Obj vs) \<or> list_all well_keyed vs)"
| "well_keyed _ = True"

definition set_all ::
    "('a obj \<Rightarrow> path \<Rightarrow> 'a obj \<Rightarrow> 'a obj result) \<Rightarrow> (path \<times> 'a obj) list \<Rightarrow> 'a obj \<Rightarrow> 'a obj result" where
  "set_all foreign es = for_res (\<lambda>(p, x) root. set_element foreign root p x) es"

lemma set_all_simps [simp]:
  "set_all foreign [] c = Inr c"
  "set_all foreign ((p, x) # es) c = bind_res (set_element foreign c p x) (set_all foreign es)"
  by (simp_all add: set_all_def)

lemma set_all_append: "set_all foreign (es @ fs) c = bind_res (set_all foreign es c) (set_all foreign fs)"
  by (simp add: set_all_def for_res_append)

text \<open>The container that \<open>set_element\<close> makes for the first entry of a value.\<close>

fun start :: "'a obj \<Rightarrow> 'a obj" where
  "start (Dict_Obj _) = Dict_Obj []"
| "start _ = List_Obj []"

lemma set_all_below_dict:
  assumes "k \<notin> set (map fst d)" and "list_all (\<lambda>(p, x). p \<noteq> []) es"
  shows "set_all foreign (below [k] es) (Dict_Obj (d @ [(k, sub)])) =
    bind_res (set_all foreign es sub) (\<lambda>s. Inr (Dict_Obj (d @ [(k, s)])))"
  using assms(2)
proof (induction es arbitrary: sub)
  case (Cons e es)
  obtain q qs x where e: "e = (q # qs, x)" using Cons.prems by (cases e) (auto simp: neq_Nil_conv)
  have "map_of (d @ [(k, sub)]) k = Some sub"
    using assms(1) by (simp add: map_add_def map_of_eq_None_iff [THEN iffD2])
  with Cons show ?case
    by (simp add: e bind_res_assoc dict_set_last [OF assms(1)] cong: bind_res_cong)
qed simp

lemma set_element_container: "is_container c \<Longrightarrow> set_element foreign c p x = Inr c' \<Longrightarrow> is_container c'"
  by (cases p rule: remdups_adj.cases; cases c)
    (auto simp: bind_res_Inr_iff Let_def split: py_key.splits if_splits obj.splits, (metis obj.exhaust)+)

lemma extend_list_end [simp]: "extend_list vs (int (length vs)) = vs @ [None_Obj]"
  by (simp add: extend_list_def)

lemma extend_list_in [simp]: "i < int (length vs) \<Longrightarrow> extend_list vs i = vs"
  by (simp add: extend_list_def)

lemma set_all_below_list:
  assumes "list_all (\<lambda>(p, x). p \<noteq> []) es" and "is_container sub"
  shows "set_all foreign (below [KInt (int (length vs))] es) (List_Obj (vs @ [sub])) =
    bind_res (set_all foreign es sub) (\<lambda>s. Inr (List_Obj (vs @ [s])))"
  using assms
proof (induction es arbitrary: sub)
  case (Cons e es)
  obtain q qs x where e: "e = (q # qs, x)" using Cons.prems by (cases e) (auto simp: neq_Nil_conv)
  have "(case sub of None_Obj \<Rightarrow> default_container q | _ \<Rightarrow> sub) = sub" using Cons.prems(2) by (cases sub) auto
  then have "set_element foreign (List_Obj (vs @ [sub])) (KInt (int (length vs)) # q # qs) x =
      bind_res (set_element foreign sub (q # qs) x) (\<lambda>s. Inr (List_Obj (vs @ [s])))"
    by (simp add: bind_res_assoc)
  moreover have "set_all foreign (below [KInt (int (length vs))] es) (List_Obj (vs @ [s])) =
      bind_res (set_all foreign es s) (\<lambda>s. Inr (List_Obj (vs @ [s])))"
    if "set_element foreign sub (q # qs) x = Inr s" for s
    using Cons that by (intro Cons.IH) (auto intro: set_element_container)
  ultimately show ?case
    by (cases "set_element foreign sub (q # qs) x") (simp_all add: e)
qed simp

lemma set_all_new_dict:
  assumes "k \<notin> set (map fst d)" and "list_all (\<lambda>(p, x). p \<noteq> []) es" and "es \<noteq> []"
  shows "set_all foreign (below [k] es) (Dict_Obj d) =
    set_all foreign (below [k] es) (Dict_Obj (d @ [(k, default_container (hd (fst (hd es))))]))"
proof -
  obtain q qs x fs where es: "es = (q # qs, x) # fs" using assms(2,3) by (cases es) (auto simp: neq_Nil_conv)
  have "map_of d k = None" "map_of (d @ [(k, u)]) k = Some u" for u
    using assms(1) by (simp_all add: map_add_def map_of_eq_None_iff [THEN iffD2])
  then show ?thesis
    by (simp add: es dict_set_last [OF assms(1)] dict_set_fresh [OF assms(1)] cong: bind_res_cong)
qed

lemma set_all_new_list:
  assumes "list_all (\<lambda>(p, x). p \<noteq> []) es" and "es \<noteq> []"
  shows "set_all foreign (below [KInt (int (length vs))] es) (List_Obj vs) =
    set_all foreign (below [KInt (int (length vs))] es) (List_Obj (vs @ [default_container (hd (fst (hd es)))]))"
proof -
  obtain q qs x fs where es: "es = (q # qs, x) # fs" using assms by (cases es) (auto simp: neq_Nil_conv)
  show ?thesis by (cases q) (simp_all add: es default_container_def)
qed

text \<open>What rebuilding a value gives, as a statement about the value alone.\<close>

definition rebuilds where
  "rebuilds foreign v \<longleftrightarrow> \<not> is_terminal v \<longrightarrow>
     entries v \<noteq> [] \<and> default_container (hd (fst (hd (entries v)))) = start v \<and>
     set_all foreign (entries v) (start v) = Inr (normal v)"

lemma entries_nonempty_paths: "\<not> is_terminal v \<Longrightarrow> list_all (\<lambda>(p, x). p \<noteq> []) (entries v)"
  using entries_path_nonempty by (fastforce simp: list_all_iff)

lemma is_container_start [simp]: "is_container (start v)"
  by (cases v) auto

lemma normal_terminal: "is_terminal v \<Longrightarrow> normal v = v"
  by (cases v) auto

lemma set_child_dict:
  assumes "rebuilds foreign w" and "KStr s \<notin> set (map fst d)"
  shows "set_all foreign (below [KStr s] (entries w)) (Dict_Obj d) = Inr (Dict_Obj (d @ [(KStr s, normal w)]))"
proof (cases "is_terminal w")
  case True
  then show ?thesis using assms(2) by (subst entries_unfold) (simp add: normal_terminal dict_set_fresh)
next
  case False
  note ne = entries_nonempty_paths [OF this]
  have w: "entries w \<noteq> []" "default_container (hd (fst (hd (entries w)))) = start w"
    "set_all foreign (entries w) (start w) = Inr (normal w)"
    using assms(1) False by (simp_all add: rebuilds_def)
  show ?thesis
    by (simp only: set_all_new_dict [OF assms(2) ne w(1)] set_all_below_dict [OF assms(2) ne] w(2,3) bind_res_simps)
qed

lemma set_child_list:
  assumes "rebuilds foreign w"
  shows "set_all foreign (below [KInt (int (length vs))] (entries w)) (List_Obj vs) = Inr (List_Obj (vs @ [normal w]))"
proof (cases "is_terminal w")
  case True
  then show ?thesis by (subst entries_unfold) (simp add: normal_terminal nth_append list_update_append)
next
  case False
  note ne = entries_nonempty_paths [OF this]
  have w: "entries w \<noteq> []" "default_container (hd (fst (hd (entries w)))) = start w"
    "set_all foreign (entries w) (start w) = Inr (normal w)"
    using assms(1) False by (simp_all add: rebuilds_def)
  show ?thesis
    by (simp only: set_all_new_list [OF ne w(1)] set_all_below_list [OF ne is_container_start] w(2,3) bind_res_simps)
qed

lemma set_children_dict:
  assumes "list_all (\<lambda>(k, w). rebuilds foreign w) d" and "distinct (map (str_key \<circ> fst) d)"
    and "KStr ` str_key ` fst ` set d \<inter> set (map fst d0) = {}"
  shows "set_all foreign (concat (map (\<lambda>(k, w). below [KStr (str_key k)] (entries w)) d)) (Dict_Obj d0) =
    Inr (Dict_Obj (d0 @ map (\<lambda>(k, w). (KStr (str_key k), normal w)) d))"
  using assms
proof (induction d arbitrary: d0)
  case (Cons e d)
  obtain k w where e: "e = (k, w)" by (cases e)
  have "set_all foreign (below [KStr (str_key k)] (entries w)) (Dict_Obj d0) =
      Inr (Dict_Obj (d0 @ [(KStr (str_key k), normal w)]))"
    using Cons.prems by (intro set_child_dict) (auto simp: e)
  moreover have "set_all foreign (concat (map (\<lambda>(k, w). below [KStr (str_key k)] (entries w)) d))
      (Dict_Obj (d0 @ [(KStr (str_key k), normal w)])) =
      Inr (Dict_Obj ((d0 @ [(KStr (str_key k), normal w)]) @ map (\<lambda>(k, w). (KStr (str_key k), normal w)) d))"
    using Cons.prems by (intro Cons.IH) (auto simp: e image_iff)
  ultimately show ?case by (simp add: e set_all_append)
qed simp

lemma set_children_list:
  assumes "list_all (rebuilds foreign) vs"
  shows "set_all foreign (concat (map (\<lambda>(i, w). below [KInt (int i)] (entries w)) (enumerate (length us) vs))) (List_Obj us) =
    Inr (List_Obj (us @ map normal vs))"
  using assms
proof (induction vs arbitrary: us)
  case (Cons v vs)
  then show ?case
    using Cons.IH [of "us @ [normal v]"] set_child_list [of foreign v us]
    by (simp add: set_all_append)
qed simp

lemma entries_first_key:
  assumes "\<not> is_terminal v" and "children v = (k, w) # cs" and "entries w \<noteq> []"
  shows "entries v \<noteq> []" "hd (fst (hd (entries v))) = k"
proof -
  obtain q x es where "entries w = (q, x) # es" using assms(3) by (cases "entries w") auto
  then have "\<exists>es'. entries v = (k # q, x) # es'"
    using assms(1,2) by (subst entries_unfold) simp
  then show "entries v \<noteq> []" "hd (fst (hd (entries v))) = k" by auto
qed

lemma rebuilds_nonempty: "rebuilds foreign v \<Longrightarrow> entries v \<noteq> []"
  by (cases "is_terminal v") (simp_all add: entries_unfold [of v] rebuilds_def)

lemma rebuilds_list:
  assumes "\<not> is_terminal v" and "children v = map (\<lambda>(i, v). (KInt (int i), v)) (enumerate 0 vs)"
    and "start v = List_Obj []" and "normal v = List_Obj (map normal vs)"
    and "vs \<noteq> []" and "list_all (rebuilds foreign) vs"
  shows "rebuilds foreign v"
proof -
  obtain u us where vs: "vs = u # us" using assms(5) by (cases vs) auto
  have "entries u \<noteq> []" using assms(6) rebuilds_nonempty by (auto simp: vs)
  then have "entries v \<noteq> []" "hd (fst (hd (entries v))) = KInt 0"
    using entries_first_key [OF assms(1), of "KInt 0" u] assms(2) by (simp_all add: vs)
  moreover have "entries v = concat (map (\<lambda>(i, w). below [KInt (int i)] (entries w)) (enumerate (length ([] :: 'a obj list)) vs))"
    using assms(1,2) by (subst entries_unfold) (simp add: case_prod_unfold comp_def)
  then have "set_all foreign (entries v) (start v) = Inr (normal v)"
    using set_children_list [OF assms(6), of "[]"] assms(3,4) by simp
  ultimately show ?thesis using assms(3) by (simp add: rebuilds_def default_container_def)
qed

lemma list_child: "w \<in> set vs \<Longrightarrow> \<exists>i. (KInt (int i), w) \<in> set (map (\<lambda>(i, v). (KInt (int i), v)) (enumerate 0 vs))"
proof -
  assume "w \<in> set vs"
  then obtain i where "i < length vs" "w = vs ! i" by (auto simp: in_set_conv_nth)
  then have "(i, w) \<in> set (enumerate 0 vs)" by (simp add: in_set_enumerate_eq)
  then show ?thesis by force
qed

lemma well_keyed_rebuilds: "well_keyed v \<Longrightarrow> rebuilds foreign v"
proof (induction v rule: obj_children_induct)
  case (step v)
  show ?case
  proof (cases "is_terminal v")
    case False
    then consider (dict) d where "v = Dict_Obj d" | (list) vs where "v = List_Obj vs" | (tuple) vs where "v = Tuple_Obj vs"
      by (cases v) auto
    then show ?thesis
    proof cases
      case dict
      have sub: "list_all (\<lambda>(k, w). rebuilds foreign w) d"
        using step by (fastforce simp: dict list_all_iff)
      obtain k w d' where d: "d = (k, w) # d'" using step.prems by (cases d) (auto simp: dict)
      have "entries w \<noteq> []" using sub rebuilds_nonempty by (auto simp: d)
      then have "entries v \<noteq> []" "hd (fst (hd (entries v))) = KStr (str_key k)"
        using entries_first_key [OF False, of "KStr (str_key k)" w] by (simp_all add: dict d)
      moreover have "entries v = concat (map (\<lambda>(k, w). below [KStr (str_key k)] (entries w)) d)"
        by (subst entries_unfold) (simp add: dict case_prod_unfold comp_def)
      then have "set_all foreign (entries v) (start v) = Inr (normal v)"
        using set_children_dict [OF sub, of "[]"] step.prems by (simp add: dict)
      ultimately show ?thesis by (simp add: rebuilds_def default_container_def dict)
    next
      case list
      have "vs \<noteq> []" using False by (auto simp: list)
      moreover have "rebuilds foreign w" if w: "w \<in> set vs" for w
      proof -
        obtain i where "(KInt (int i), w) \<in> set (children v)" using list_child [OF w] unfolding list children.simps by blast
        moreover have "well_keyed w" using step.prems False w by (auto simp: list list_all_iff)
        ultimately show ?thesis by (rule step.IH)
      qed
      then have "list_all (rebuilds foreign) vs" by (simp add: list_all_iff)
      ultimately show ?thesis using False by (intro rebuilds_list [of v vs]) (simp_all add: list)
    next
      case tuple
      have "vs \<noteq> []" using False by (auto simp: tuple)
      moreover have "rebuilds foreign w" if w: "w \<in> set vs" for w
      proof -
        obtain i where "(KInt (int i), w) \<in> set (children v)" using list_child [OF w] unfolding tuple children.simps by blast
        moreover have "well_keyed w" using step.prems False w by (auto simp: tuple list_all_iff)
        ultimately show ?thesis by (rule step.IH)
      qed
      then have "list_all (rebuilds foreign) vs" by (simp add: list_all_iff)
      ultimately show ?thesis using False by (intro rebuilds_list [of v vs]) (simp_all add: tuple)
    qed
  qed (simp add: rebuilds_def)
qed

lemma rebuild_set_all:
  assumes "distinct (map (dotted \<circ> fst) es)"
  shows "rebuild_state_dict foreign (map (\<lambda>(p, x). (dotted p, x)) es) (map (\<lambda>(p, x). (dotted p, p)) es) =
    set_all foreign es (Dict_Obj [])"
proof -
  let ?flat = "map (\<lambda>(p, x). (dotted p, x)) es"
  have flat: "dict_get ?flat (dotted p) = Inr x" if "(p, x) \<in> set es" for p x
    using that assms by (auto simp: dict_get_Inr_iff comp_def case_prod_unfold intro!: map_of_is_SomeI rev_image_eqI)
  have "for_res (\<lambda>(n, p) root. bind_res (dict_get ?flat n) (set_element foreign root p)) (map (\<lambda>(p, x). (dotted p, p)) fs) c =
      set_all foreign fs c" if "set fs \<subseteq> set es" for fs c
    using that
  proof (induction fs arbitrary: c)
    case (Cons f fs)
    obtain p x where f: "f = (p, x)" by (cases f)
    have "for_res (\<lambda>(n, p) root. bind_res (dict_get ?flat n) (set_element foreign root p)) (map (\<lambda>(p, x). (dotted p, p)) fs) =
        set_all foreign fs"
      using Cons by auto
    with Cons.prems flat [of p x] show ?case by (simp add: f)
  qed simp
  then show ?thesis by (simp add: rebuild_state_dict_def)
qed

text \<open>
  C15: A state dict without empty dicts, whose keys differ as strings at every level, is flattened unless two of
  its leaves have the same dotted name, which raises ValueError. Setting the flat values at the recorded paths in an empty dict
  then gives the state dict back, with string keys and with lists for the tuples that were taken apart.
\<close>

theorem state_dict_roundtrip:
  assumes "well_keyed (Dict_Obj d)"
  shows "if distinct (map (dotted \<circ> fst) (traverse_state_dict d))
    then \<exists>flat paths. flatten_state_dict d = Inr (flat, paths) \<and>
      rebuild_state_dict foreign flat paths = Inr (normal (Dict_Obj d))
    else flatten_state_dict d = Inl ValueError"
  using well_keyed_rebuilds [OF assms, of foreign]
  by (simp add: flatten_state_dict_eq traverse_state_dict_entries rebuild_set_all rebuilds_def Let_def del: normal.simps
      traverse_obj.simps)

theorem state_dict_roundtrip_witness:
  "\<exists>flat paths. flatten_state_dict [(KStr ''opt'', Dict_Obj [(KInt 0, Tuple_Obj [Tensor_Obj (1 :: nat), Other_Obj 2])])] = Inr (flat, paths) \<and>
      rebuild_state_dict (\<lambda>_ _ _. Inl TypeError) flat paths =
        Inr (Dict_Obj [(KStr ''opt'', Dict_Obj [(KStr ''0'', List_Obj [Tensor_Obj 1, Other_Obj 2])])])"
proof -
  let ?d = "[(KStr ''opt'', Dict_Obj [(KInt 0, Tuple_Obj [Tensor_Obj (1 :: nat), Other_Obj 2])])]"
  have wk: "well_keyed (Dict_Obj ?d)" by simp
  have dist: "distinct (map (dotted \<circ> fst) (traverse_state_dict ?d))"
    by (simp add: traverse_state_dict_def string_of_int_def string_of_nat.simps)
  have norm: "normal (Dict_Obj ?d) = Dict_Obj [(KStr ''opt'', Dict_Obj [(KStr ''0'', List_Obj [Tensor_Obj 1, Other_Obj 2])])]"
    by (simp add: string_of_int_def string_of_nat.simps char_of_def bit_0)
  show ?thesis
    using state_dict_roundtrip [OF wk, of "\<lambda>_ _ _. Inl TypeError"] unfolding if_P [OF dist] norm .
qed

section \<open>Replacing a leaf\<close>

text \<open>What Python reads at a path.\<close>

fun get_element :: "'a obj \<Rightarrow> path \<Rightarrow> 'a obj option" where
  "get_element v [] = Some v"
| "get_element (Dict_Obj d) (k # ks) = (case map_of d k of None \<Rightarrow> None | Some w \<Rightarrow> get_element w ks)"
| "get_element (List_Obj vs) (KInt i # ks) =
     (case py_nth vs i of Inl _ \<Rightarrow> None | Inr w \<Rightarrow> get_element w ks)"
| "get_element (Tuple_Obj vs) (KInt i # ks) =
     (case py_nth vs i of Inl _ \<Rightarrow> None | Inr w \<Rightarrow> get_element w ks)"
| "get_element _ _ = None"

text \<open>String keys that differ, and no tuple that is taken apart.\<close>

fun plain :: "'a obj \<Rightarrow> bool" where
  "plain (Dict_Obj d) =
     (distinct (map fst d) \<and> list_all (\<lambda>(k, v). k = KStr (str_key k) \<and> plain v) d)"
| "plain (List_Obj vs) = (is_terminal (List_Obj vs) \<or> list_all plain vs)"
| "plain (Tuple_Obj vs) = is_terminal (Tuple_Obj vs)"
| "plain _ = True"

lemma plain_child:
  assumes "plain v" and "\<not> is_terminal v" and "(k, w) \<in> set (children v)"
  shows "plain w" and "get_element v (k # ks) = get_element w ks"
proof -
  have "plain w \<and> get_element v (k # ks) = get_element w ks"
  proof (cases v)
    case (Dict_Obj d)
    then have "(k, w) \<in> set d" "plain w" using assms by (auto simp: list_all_iff)
    then show ?thesis using assms(1) by (simp add: Dict_Obj)
  next
    case (List_Obj vs)
    then obtain i where "k = KInt (int i)" "i < length vs" "w = vs ! i"
      using assms(3) by (auto simp: in_set_enumerate_eq)
    moreover have "list_all plain vs" using assms(1,2) by (auto simp: List_Obj)
    ultimately show ?thesis by (simp add: List_Obj list_all_iff)
  next
    case (Tuple_Obj vs)
    then show ?thesis using assms(1,2) by simp
  qed (use assms in auto)
  then show "plain w" "get_element v (k # ks) = get_element w ks" by simp_all
qed

lemma entries_child:
  assumes "\<not> is_terminal v" and "(p, x) \<in> set (entries v)"
  obtains k w q where "(k, w) \<in> set (children v)" "p = k # q" "(q, x) \<in> set (entries w)"
  using assms by (subst (asm) entries_unfold) auto

lemma get_entry: "plain v \<Longrightarrow> (p, x) \<in> set (entries v) \<Longrightarrow> get_element v p = Some x"
proof (induction v arbitrary: p rule: obj_children_induct)
  case (step v)
  show ?case
  proof (cases "is_terminal v")
    case True
    then show ?thesis using step.prems by (subst (asm) entries_unfold) simp
  next
    case False
    from entries_child [OF this step.prems(2)] obtain k w q where
      kw: "(k, w) \<in> set (children v)" "p = k # q" "(q, x) \<in> set (entries w)" .
    with plain_child [OF step.prems(1) False kw(1)] step.IH show ?thesis by simp
  qed
qed

text \<open>An assignment below one key of a container that is no tuple.\<close>

lemma set_element_child:
  assumes "plain v" and "\<not> is_terminal v" and "(k, w) \<in> set (children v)"
    and "q = [] \<and> u = y \<or> q \<noteq> [] \<and> \<not> is_terminal w \<and> set_element foreign w q y = Inr u"
  shows "\<exists>v'. set_element foreign v (k # q) y = Inr v' \<and> (\<forall>ks. get_element v' (k # ks) = get_element u ks) \<and>
    (\<forall>ks k' w'. (k', w') \<in> set (children v) \<longrightarrow> k' \<noteq> k \<longrightarrow> get_element v' (k' # ks) = get_element v (k' # ks)) \<and>
    (\<exists>d'. v' = Dict_Obj d') = (\<exists>d. v = Dict_Obj d)"
proof (cases v)
  case (Dict_Obj d)
  then obtain s where s: "k = KStr s" "map_of d k = Some w"
    using assms(1,3) by (auto simp: list_all_iff)
  have "set_element foreign v (k # q) y = Inr (Dict_Obj (dict_set d k u))"
    using assms(4) s by (cases q) (auto simp: Dict_Obj)
  then show ?thesis by (simp add: Dict_Obj)
next
  case (List_Obj vs)
  then obtain i where i: "k = KInt (int i)" "i < length vs" "w = vs ! i"
    using assms(3) by (auto simp: in_set_enumerate_eq)
  have "(case w of None_Obj \<Rightarrow> c | _ \<Rightarrow> w) = w" if "\<not> is_terminal w" for c
    using that by (cases w) auto
  then have "set_element foreign v (k # q) y = Inr (List_Obj (vs[i := u]))"
    using assms(4) i by (cases q) (auto simp: List_Obj)
  moreover have "\<forall>ks. get_element (List_Obj (vs[i := u])) (k # ks) = get_element u ks" using i by simp
  moreover have "\<forall>ks k' w'. (k', w') \<in> set (children v) \<longrightarrow> k' \<noteq> k \<longrightarrow>
      get_element (List_Obj (vs[i := u])) (k' # ks) = get_element v (k' # ks)"
    using i by (auto simp: List_Obj in_set_enumerate_eq nth_list_update split: if_splits)
  moreover have "(\<exists>d'. List_Obj (vs[i := u]) = Dict_Obj d') = (\<exists>d. v = Dict_Obj d)" by (simp add: List_Obj)
  ultimately show ?thesis by blast
next
  case (Tuple_Obj vs)
  then show ?thesis using assms(1,2) by simp
qed (use assms in auto)

lemma set_entry:
  assumes "plain v" and "\<not> is_terminal v" and "(p, x) \<in> set (entries v)"
  shows "\<exists>v'. set_element foreign v p y = Inr v' \<and> (\<exists>d'. v' = Dict_Obj d') = (\<exists>d. v = Dict_Obj d) \<and>
    (\<forall>q z. (q, z) \<in> set (entries v) \<longrightarrow> get_element v' q = Some (if q = p then y else z))"
  using assms
proof (induction v arbitrary: p x rule: obj_children_induct)
  case (step v)
  note v = step.prems(1,2)
  from entries_child [OF v(2) step.prems(3)] obtain k w q where
    kw: "(k, w) \<in> set (children v)" and p: "p = k # q" and q: "(q, x) \<in> set (entries w)" .
  note w = plain_child(1) [OF v kw]
  obtain u where u: "q = [] \<and> u = y \<or> q \<noteq> [] \<and> \<not> is_terminal w \<and> set_element foreign w q y = Inr u"
    and got: "\<forall>r z. (r, z) \<in> set (entries w) \<longrightarrow> get_element u r = Some (if r = q then y else z)"
  proof (cases "is_terminal w")
    case True
    then have "entries w = [([], w)]" by (subst entries_unfold) simp
    then show ?thesis using q that [of y] by simp
  next
    case False
    then show ?thesis using step.IH [OF kw w False q] entries_path_nonempty [OF False q] that by blast
  qed
  from set_element_child [OF v kw u] obtain v' where
    v': "set_element foreign v (k # q) y = Inr v'" "(\<exists>d'. v' = Dict_Obj d') = (\<exists>d. v = Dict_Obj d)"
    and below: "\<forall>ks. get_element v' (k # ks) = get_element u ks"
    and beside: "\<forall>ks k' w'. (k', w') \<in> set (children v) \<longrightarrow> k' \<noteq> k \<longrightarrow> get_element v' (k' # ks) = get_element v (k' # ks)"
    by blast
  have "get_element v' r = Some (if r = p then y else z)" if r: "(r, z) \<in> set (entries v)" for r z
  proof -
    from entries_child [OF v(2) r] obtain k' w' r' where
      r': "(k', w') \<in> set (children v)" "r = k' # r'" "(r', z) \<in> set (entries w')" .
    show ?thesis
    proof (cases "k' = k")
      case True
      then have "w' = w" using plain_child(2) [OF v kw, of "[]"] plain_child(2) [OF v r'(1), of "[]"] by simp
      then show ?thesis using got r' True by (simp add: p below)
    next
      case False
      then have "get_element v' (k' # r') = get_element v (k' # r')" using beside r'(1) by blast
      then show ?thesis using get_entry [OF v(1) r] False by (simp add: r'(2) p)
    qed
  qed
  with v' show ?case by (auto simp: p)
qed



section \<open>Two dicts the planners do not handle\<close>

text \<open>
  The merge planner sets every value under its dotted name and at its path, and then flattens both: a nested
  checkpoint cannot be merged.
\<close>

lemma merge_planner_rejects_nested:
  "flatten_state_dict [(KStr ''model'', Dict_Obj [(KStr ''weight'', Tensor_Obj t)])] =
     Inr ([(''model.weight'', Tensor_Obj t)], [(''model.weight'', [KStr ''model'', KStr ''weight''])])"
  "configure_merge_planner foreign Tensor_Obj [] [(''model.weight'', t)]
     (Some [(''model.weight'', [KStr ''model'', KStr ''weight''])]) = Inl ValueError"
  by (simp_all add: configure_merge_planner_def merge_entry_def configure_load_planner_def flatten_state_dict_eq Let_def
      default_container_def dict_set_def)

text \<open>
  Under an integer key the path holds the key as a string, so the value that was read goes under a new key of the
  dict of the caller and the old one stays as it was.
\<close>

lemma bytes_under_int_key_lost:
  "bind_res (configure_load_planner [(KStr ''state'', Dict_Obj [(KInt 3, Other_Obj (1 :: nat))])])
     (\<lambda>planner. bind_res (apply_bytes foreign (\<lambda>n. Inr (Other_Obj n)) planner ''state.3'' 7)
       (\<lambda>planner'. Inr (original_state_dict planner'))) =
   Inr [(KStr ''state'', Dict_Obj [(KInt 3, Other_Obj 1), (KStr ''3'', Other_Obj 7)])]"
proof -
  have "string_of_int 3 = ''3''" by (simp add: string_of_int_def string_of_nat.simps char_of_def bit_0)
  then show ?thesis
    by (simp add: configure_load_planner_def flatten_state_dict_eq Let_def apply_bytes_def dict_set_def dict_get_def)
qed

end
