(* ===== verification/Spec2Isabelle.thy ===== *)
theory Spec2Isabelle
  imports P2p_Passes Basic_Schedule_Runs Interleaved_Runs Fsdp_Actions Validation_Runs Chunk_Geometry
    Tensor_Layout_Roundtrip Redistribute_Tuples Ragged_Shard Reshape_Sound Linear_Sound Elementwise_Sound Checkpoint_Reshard
    Ragged_Boxes Broadcast_Run State_Dict
begin

text \<open>
  HyperParallel (src/hyper_parallel) distributes the training of large models. This development
  verifies the parts of it that decide, and do not compute: in which order the ranks of a pipeline run
  their steps, which part of a tensor a rank holds, and which communication moves a tensor from
  one distribution to another. All of it is Python; integers are unbounded (\<open>int\<close>), a dict is an
  insertion-ordered association list, a raised exception is the left side of a sum (\<open>py_error\<close>), and a
  Python index keeps its meaning for negative values (\<open>py_nth\<close>).

  Pipeline scheduling, core/pipeline_parallel/scheduler.py, utils.py and mpipe/step_types.py:

  \<^item> Meta_Step: \<open>MetaStepType\<close> and \<open>MetaStep\<close>, the placement of stages on ranks in loop and V style and
    its inverse. Every stage has one rank, the two formulas of the code agree except where stated.
  \<^item> Send_Recv, Send_Recv_Channels: \<open>add_send_recv\<close>, which fills an order of computations with sends and
    receives. Each rank pair is a channel on which the n-th send is the n-th receive, and the
    computations stay in place. The locale \<open>comm_inserter\<close> is the contract of one insertion, interpreted on the code's.
  \<^item> P2p_Passes: the passes over a finished order (\<open>coalesce_p2p\<close>, \<open>attach_fwd_boundary_p2p\<close>,
    \<open>split_overlap_dxdw\<close>): what each keeps of the order of a rank.
  \<^item> Rendezvous: a step relation that runs finished orders with rendezvous transfers, the strictest
    transport, and the locale \<open>timed_orders\<close>: orders with a common time for matched transfers never get
    stuck. Basic_Schedules models GPipe and 1F1B; Basic_Schedule_Runs interprets the locale on
    them and adds completeness, dependencies and the bound on activations in flight.
  \<^item> Interleaved, Interleaved_Runs: \<open>ScheduleInterleaved1F1B\<close> with its rounds, warm-up and overlap
    pairs; completeness, backward after forward, the activation bound, and the composition with
    \<open>add_send_recv\<close>.
  \<^item> Fsdp_Actions: the unshard, reshard and gradient-reduction steps put into an order.
  \<^item> Schedule_Validation, Validation_Runs: the offline validator. Its cycle search is a loop with a
    work stack, modelled as a terminating recursion (the measure is the stack with the nodes not yet
    finished), and decides acyclicity; the validator accepts the basic schedules and raises on bubbles.

  Tensor distribution, core/dtensor:

  \<^item> Chunk_Geometry (layout.py): chunk ranges, mesh coordinates, the slice of a rank. The locale
    \<open>chunk_rule\<close> is the contract of a chunk rule, interpreted on the balanced, the ceil and the
    chosen rule; slices cover the tensor and overlap only between replicas.
  \<^item> Mesh_Layout, Mesh_Layout_Ranks (_mesh_layout.py): nested shapes and strides; the list of ranks a
    layout stands for is what the operations keep.
  \<^item> Mesh_Axes (device_mesh.py, redistribute_infer.py): named axes, rank groups, global shapes.
  \<^item> Tensor_Layout, Tensor_Layout_Roundtrip (placement_types.py, layout.py): placements and tensor maps,
    the conversions between them and the orders of mesh axes for which they fail.
  \<^item> Redistribute (redistribute_infer.py): the inference of splits, all-to-alls and concatenations. Its
    nested loops need not end, so they are partial functions where \<open>None\<close> is a run that never returns.
    Redistribute_Sound proves that on maps without tuples they do return, within two operators per
    tensor dimension, and reads the operator list as instructions that take the source map to the target
    map; Redistribute_Data runs the resulting collectives on what the ranks hold and arrives at the
    slices of the target layout; Redistribute_Tuples shows, on concrete layouts with tuples, a run that
    never ends and one that mixes data.
  \<^item> Ragged_Shard (_ragged_utils.py): flat intervals of uneven shards and the sizes of the all-to-all
    between two of them, with what the exchange does to the flattened tensor.

  Operator sharding, core/shard/ops: given the layouts of its operands an operator infers the layout of
  its output, and each rank applies the kernel to what it holds.

  \<^item> Layout_Calls: how a layout is built from axis names, and how its partial state is set.
    Slice_Areas: slices of a tensor by position. Partial_Sums: what it means that the ranks hold a
    tensor under a layout with partial sums, and sums over the axes of a mesh.
  \<^item> Reshape_Rule, Reshape_Sound (parallel_reshape.py): an accepted reshape leaves the data of every
    rank in place; two layouts it should refuse.
  \<^item> Matmul_Rule, Matmul_Sound, Linear_Sound (parallel_matmul.py): the local products, summed over the
    partial axes, are the product; the scaled bias is added once; two partial states that break this.
  \<^item> Elementwise_Rule, Elementwise_Sound (parallel_elementwise.py): broadcasting, the merge of maps and of
    partial states, the masks of \<open>add\<close>; correct on aligned maps, with maps that are accepted and are not.

  Distributed checkpoint, core/distributed_checkpoint: every rank plans what it writes or reads, the
  coordinator completes the plans, and the ranks carry them out.

  \<^item> State_Dict (utils.py, standard_planner.py): the flattening of nested state dicts into named values and their paths,
    the assignment at a path, and the planners that use both. A flattened dict can be rebuilt; two kinds of dicts
    that the planners do not handle.
  \<^item> Checkpoint_Plan (metadata.py, planner.py, utils.py): chunks, write and read items, the flat intervals of
    ragged shards and their boxes. Ragged_Boxes: the boxes of a valid interval list it in order.
  \<^item> Checkpoint_Save, Checkpoint_Ownership (standard_planner.py): the local and the global save plan and the
    choice of one owner for a chunk that several ranks hold. The locale \<open>owner_policy\<close> is what the rest needs
    of the choice, interpreted on the policies of the code; every chunk is written by exactly one rank.
  \<^item> Checkpoint_Load (standard_planner.py, utils.py): the read items of a load, the intersection of stored and
    wanted chunks, the rank that reads for the others and the marks for broadcasts.
  \<^item> Checkpoint_Files, Checkpoint_Store (filesystem_storage.py, api.py): the tensor file of a rank with
    the names made up for clashing chunks, the metadata of what is stored where, and reads as copies of regions.
  \<^item> Checkpoint_Global, Checkpoint_Reshard: slices of layouts as chunks, and the composition of a save
    under one choice of layouts with a load under another: every rank ends with its slice.
  \<^item> Broadcast_Plan, Broadcast_Send, Broadcast_Order, Broadcast_Run (broadcast.py, filesystem_storage.py): the
    broadcasts that share what one rank read: the batches, the order in which each rank starts them, and a
    step relation that runs them with at most eight in flight. All members of a group start the same
    broadcasts in the same order, and no run gets stuck or goes on forever.

  Hyper_Prelude holds what these share: the exception monad with its loops (\<open>for_res\<close>, \<open>map_res\<close>),
  ranges, dictionaries, list indexing.

  How the parts meet: the schedules build orders of computations, \<open>add_send_recv\<close> completes them,
  the passes rewrite them, the validator checks them. A layout turns placements into a tensor map, the
  tensor map and the mesh give each rank its slice, and a redistribution changes the tensor map by
  collectives over rank groups of the mesh. A checkpoint writes the slices of one set of layouts and reads
  those of another: the save plans give the files and their metadata, the metadata gives the load plans, and
  the marks of the load plans give the broadcasts.

  Bounds: no fuel is used. Loops are structural, or recursions with a proved measure (the
  search for a free name counts the names left to try), or (redistribution) partial functions with the return proved where it holds. The evaluated
  examples are meshes of at most 16 ranks. The cap of eight broadcasts in flight is the constant of the code.

  Not modelled: the runtime that executes the orders (tensors, process groups, streams, autograd hooks
  and threads of the tensor library), FSDP buffers, optimizers and activation memory, the layout
  rules of the other operators (core/shard/ops), models, training, data and RL glue, compiler
  integration and the automatic-parallelism search. Of the schedules the simulation that aligns ranks in
  time, and of the meshes the slicing into sub-meshes. Of the checkpoints the files themselves, the encoding of
  items that are not tensors, the asynchronous writer, format conversion, the making of broadcast groups and
  reads into ragged shards. String forms (\<open>__str__\<close>, \<open>__repr__\<close>, hashes, the compact string) and caches that
  only repeat a computed value are left out. Failing operations have no successor state.
\<close>

end
